(* ===== verification/Prelude.thy ===== *)
theory Prelude
  imports Main "HOL-Library.Word" "HOL-Library.Monad_Syntax"
begin

text \<open>
  Shared vocabulary of the development: machine integers as words, the three ways a Rust call can
  end (a value, an error, a panic), checked indexing, and the list and word lemmas the components
  share.

  Panics are results. Pure arithmetic returns an \<^typ>\<open>'a option\<close>, where \<^term>\<open>None\<close> is a panic
  (a failed \<open>assert!\<close>, \<open>expect\<close> or an index out of range). An operation that can also fail with an
  error returns a \<open>res\<close>: \<open>Ok\<close>, \<open>Err\<close> or \<open>Panic\<close>.
\<close>

section \<open>Types\<close>

type_synonym u8 = "8 word"
type_synonym u16 = "16 word"
type_synonym u32 = "32 word"
type_synonym bytes = "u8 list"

datatype ('e, 'a) res = Ok 'a | Err 'e | Panic

fun res_bind :: "('e, 'a) res \<Rightarrow> ('a \<Rightarrow> ('e, 'b) res) \<Rightarrow> ('e, 'b) res" where
  "res_bind (Ok a) f = f a"
| "res_bind (Err e) f = Err e"
| "res_bind Panic f = Panic"

text \<open>\<open>expect\<close> and \<open>assert!\<close>: no value is a panic.\<close>

fun expect :: "'a option \<Rightarrow> ('e, 'a) res" where
  "expect (Some a) = Ok a"
| "expect None = Panic"

text \<open>\<open>ok_or\<close>: no value is the error \<open>e\<close>.\<close>

fun ok_or :: "'e \<Rightarrow> 'a option \<Rightarrow> ('e, 'a) res" where
  "ok_or e (Some a) = Ok a"
| "ok_or e None = Err e"

text \<open>\<open>?\<close> into another error type, through \<open>From\<close>.\<close>

fun map_err :: "('e \<Rightarrow> 'd) \<Rightarrow> ('e, 'a) res \<Rightarrow> ('d, 'a) res" where
  "map_err f (Ok a) = Ok a"
| "map_err f (Err e) = Err (f e)"
| "map_err f Panic = Panic"

lemma map_err_Ok_iff: "map_err f r = Ok a \<longleftrightarrow> r = Ok a"
  by (cases r) simp_all

lemma res_bind_Ok_iff: "res_bind r f = Ok b \<longleftrightarrow> (\<exists>a. r = Ok a \<and> f a = Ok b)"
  by (cases r) auto

lemma res_bind_not_Panic:
  "r \<noteq> Panic \<Longrightarrow> (\<And>a. f a \<noteq> Panic) \<Longrightarrow> res_bind r f \<noteq> Panic"
  by (cases r) simp_all

section \<open>Collections of hints\<close>

named_theorems nat_of_word \<open>what a word operation of the program computes, over \<open>nat\<close>\<close>
named_theorems len_intro \<open>lengths of the arrays the program builds\<close>

section \<open>Checked lists\<close>

text \<open>\<open>xs[i]\<close>, which panics out of range.\<close>

definition idx :: "'a list \<Rightarrow> nat \<Rightarrow> 'a option" where
  "idx xs i = (if i < length xs then Some (xs ! i) else None)"

text \<open>A loop whose body may panic, collecting its values (\<open>array::from_fn\<close>, \<open>map().collect()\<close>).\<close>

fun opt_map :: "('a \<Rightarrow> 'b option) \<Rightarrow> 'a list \<Rightarrow> 'b list option" where
  "opt_map f [] = Some []"
| "opt_map f (x # xs) =
     (case f x of None \<Rightarrow> None
      | Some y \<Rightarrow> (case opt_map f xs of None \<Rightarrow> None | Some ys \<Rightarrow> Some (y # ys)))"

lemma idx_Some [simp]: "i < length xs \<Longrightarrow> idx xs i = Some (xs ! i)"
  by (simp add: idx_def)

lemma idx_None [simp]: "length xs \<le> i \<Longrightarrow> idx xs i = None"
  by (simp add: idx_def)

lemma opt_map_total:
  assumes "\<And>x. x \<in> set xs \<Longrightarrow> f x = Some (g x)"
  shows "opt_map f xs = Some (map g xs)"
  using assms by (induction xs) auto

lemma opt_map_map: "opt_map f (map g xs) = opt_map (f \<circ> g) xs"
  by (induction xs) (simp_all split: option.splits)

lemma opt_map_SomeD:
  "opt_map f xs = Some ys \<Longrightarrow>
     length ys = length xs \<and> (\<forall>i < length xs. f (xs ! i) = Some (ys ! i))"
proof (induction xs arbitrary: ys)
  case Nil
  then show ?case by simp
next
  case (Cons x xs)
  then obtain z zs where "f x = Some z" and "opt_map f xs = Some zs" and "ys = z # zs"
    by (auto split: option.splits)
  with Cons.IH [of zs] show ?case
    by (auto simp: nth_Cons split: nat.splits)
qed

lemma opt_map_spec:
  assumes "\<And>x. x \<in> set xs \<Longrightarrow> \<exists>y. f x = Some y \<and> P x y"
  shows "\<exists>ys. opt_map f xs = Some ys \<and> length ys = length xs \<and> (\<forall>i < length xs. P (xs ! i) (ys ! i))"
  using assms
proof (induction xs)
  case Nil
  then show ?case by simp
next
  case (Cons x xs)
  then obtain y where y: "f x = Some y" "P x y" by auto
  from Cons obtain ys where ys: "opt_map f xs = Some ys" "length ys = length xs"
    "\<forall>i < length xs. P (xs ! i) (ys ! i)" by auto
  have "P ((x # xs) ! i) ((y # ys) ! i)" if "i < length (x # xs)" for i
    using that y(2) ys(3) by (cases i) simp_all
  with y(1) ys(1,2) show ?case by auto
qed

lemma opt_map_upt:
  assumes "\<And>j. j < n \<Longrightarrow> \<exists>y. f j = Some y \<and> P j y"
  shows "\<exists>ys. opt_map f [0..<n] = Some ys \<and> length ys = n \<and> (\<forall>j < n. P j (ys ! j))"
  using opt_map_spec [of "[0..<n]" f P] assms by auto

lemma opt_map_length: "opt_map f xs = Some ys \<Longrightarrow> length ys = length xs"
  by (simp add: opt_map_SomeD)

lemma opt_map_Some_iff: "(\<exists>ys. opt_map f xs = Some ys) \<longleftrightarrow> (\<forall>x \<in> set xs. f x \<noteq> None)"
  by (induction xs) (auto split: option.splits)

lemma map_upt_nth: "length xs = n \<Longrightarrow> map (\<lambda>k. f (xs ! k)) [0..<n] = map f xs"
  by (intro nth_equalityI) simp_all

lemma length_concat_const: "\<forall>xs \<in> set xss. length xs = n \<Longrightarrow> length (concat xss) = n * length xss"
  by (induction xss) simp_all

text \<open>\<open>chunks_exact(n)\<close>: consecutive runs of \<open>n\<close> elements, a shorter rest dropped.\<close>

function chunks_exact :: "nat \<Rightarrow> 'a list \<Rightarrow> 'a list list" where
  "chunks_exact n xs =
     (if n = 0 \<or> length xs < n then [] else take n xs # chunks_exact n (drop n xs))"
  by pat_completeness auto
termination
  by (relation "measure (\<lambda>(n, xs). length xs)") auto

text \<open>\<open>chunks(n)\<close>: as \<open>chunks_exact\<close>, but the shorter rest is a chunk too.\<close>

function chunks :: "nat \<Rightarrow> 'a list \<Rightarrow> 'a list list" where
  "chunks n xs = (if n = 0 \<or> xs = [] then [] else take n xs # chunks n (drop n xs))"
  by pat_completeness auto
termination
  by (relation "measure (\<lambda>(n, xs). length xs)") auto

declare chunks_exact.simps [simp del]
declare chunks.simps [simp del]

lemma chunks_exact_short: "length xs < n \<Longrightarrow> chunks_exact n xs = []"
  by (subst chunks_exact.simps) simp

lemma chunks_exact_append:
  assumes "length xs = n" and "0 < n"
  shows "chunks_exact n (xs @ ys) = xs # chunks_exact n ys"
  using assms by (subst chunks_exact.simps) auto

lemma chunks_exact_concat:
  assumes "0 < n" and "\<forall>xs \<in> set xss. length xs = n"
  shows "chunks_exact n (concat xss) = xss"
  using assms(2)
proof (induction xss)
  case Nil
  with assms(1) show ?case by (simp add: chunks_exact_short)
next
  case (Cons xs xss)
  with assms(1) show ?case by (simp add: chunks_exact_append)
qed

lemma chunks_exact_lengths: "c \<in> set (chunks_exact n xs) \<Longrightarrow> length c = n"
proof (induction n xs rule: chunks_exact.induct)
  case (1 n xs)
  show ?case
  proof (cases "n = 0 \<or> length xs < n")
    case True
    with "1.prems" show ?thesis by (simp add: chunks_exact.simps [of n xs])
  next
    case False
    with "1.prems" have "c = take n xs \<or> c \<in> set (chunks_exact n (drop n xs))"
      by (simp add: chunks_exact.simps [of n xs])
    with False "1.IH" show ?thesis by auto
  qed
qed

lemma length_chunks_exact: "0 < n \<Longrightarrow> length (chunks_exact n xs) = length xs div n"
proof (induction n xs rule: chunks_exact.induct)
  case (1 n xs)
  show ?case
  proof (cases "length xs < n")
    case True
    then show ?thesis by (simp add: chunks_exact_short)
  next
    case False
    with "1.prems" "1.IH" have "length (chunks_exact n (drop n xs)) = (length xs - n) div n"
      by simp
    with False "1.prems" show ?thesis
      by (subst chunks_exact.simps) (simp add: le_div_geq)
  qed
qed

lemma nth_chunks_exact:
  "0 < n \<Longrightarrow> j < length xs div n \<Longrightarrow> chunks_exact n xs ! j = take n (drop (j * n) xs)"
proof (induction n xs arbitrary: j rule: chunks_exact.induct)
  case (1 n xs)
  then have big: "\<not> (n = 0 \<or> length xs < n)" by (auto simp: div_less)
  show ?case
  proof (cases j)
    case 0
    with big show ?thesis by (simp add: chunks_exact.simps [of n xs])
  next
    case (Suc i)
    with "1.prems" big have "i < (length xs - n) div n" by (simp add: le_div_geq)
    with "1.IH" [OF big, of i] "1.prems" big Suc show ?thesis
      by (simp add: chunks_exact.simps [of n xs] add.commute)
  qed
qed

lemma concat_chunks_exact: "length xs mod n = 0 \<Longrightarrow> 0 < n \<Longrightarrow> concat (chunks_exact n xs) = xs"
proof (induction n xs rule: chunks_exact.induct)
  case (1 n xs)
  show ?case
  proof (cases "length xs < n")
    case True
    with "1.prems" show ?thesis by (simp add: chunks_exact_short)
  next
    case False
    with "1.prems" have "length (drop n xs) mod n = 0"
      by (simp add: le_mod_geq)
    with False "1.prems" "1.IH" show ?thesis by (subst chunks_exact.simps) simp
  qed
qed

lemma concat_chunks: "0 < n \<Longrightarrow> concat (chunks n xs) = xs"
proof (induction n xs rule: chunks.induct)
  case (1 n xs)
  then show ?case by (subst chunks.simps) auto
qed

lemma chunks_lengths: "c \<in> set (chunks n xs) \<Longrightarrow> c \<noteq> [] \<and> length c \<le> n"
proof (induction n xs rule: chunks.induct)
  case (1 n xs)
  show ?case
  proof (cases "n = 0 \<or> xs = []")
    case True
    with "1.prems" show ?thesis by (simp add: chunks.simps [of n xs])
  next
    case False
    with "1.prems" have "c = take n xs \<or> c \<in> set (chunks n (drop n xs))"
      by (simp add: chunks.simps [of n xs])
    with False "1.IH" show ?thesis by auto
  qed
qed

text \<open>\<open>div_ceil\<close>, and the number of chunks.\<close>

definition div_ceil :: "nat \<Rightarrow> nat \<Rightarrow> nat" where
  "div_ceil a b = (if a mod b = 0 then a div b else a div b + 1)"

lemma length_chunks: "0 < n \<Longrightarrow> length (chunks n xs) = div_ceil (length xs) n"
proof (induction n xs rule: chunks.induct)
  case (1 n xs)
  show ?case
  proof (cases "xs = []")
    case True
    then show ?thesis by (simp add: chunks.simps div_ceil_def)
  next
    case False
    then have rec: "length (chunks n xs) = Suc (div_ceil (length xs - n) n)"
      using 1 by (subst chunks.simps) simp
    show ?thesis
    proof (cases "n \<le> length xs")
      case True
      then have "length xs = (length xs - n) + n" by simp
      then obtain m where "length xs = m + n" by blast
      with rec "1.prems" show ?thesis by (simp add: div_ceil_def div_add_self2)
    next
      case small: False
      with False rec "1.prems" show ?thesis by (simp add: div_ceil_def)
    qed
  qed
qed

lemma nth_chunks: "0 < n \<Longrightarrow> k < length (chunks n xs) \<Longrightarrow> chunks n xs ! k = take n (drop (k * n) xs)"
proof (induction n xs arbitrary: k rule: chunks.induct)
  case (1 n xs)
  show ?case
  proof (cases "xs = []")
    case True
    with "1.prems" show ?thesis by (simp add: chunks.simps [of n "[]"])
  next
    case False
    with "1.prems" have step: "chunks n xs = take n xs # chunks n (drop n xs)" by (simp add: chunks.simps [of n xs])
    show ?thesis
    proof (cases k)
      case 0
      with step show ?thesis by simp
    next
      case (Suc i)
      with "1.prems" False step "1.IH" [of i] show ?thesis by (simp add: add.commute)
    qed
  qed
qed

lemma chunk_subset: "0 < n \<Longrightarrow> k < length (chunks n xs) \<Longrightarrow> set (chunks n xs ! k) \<subseteq> set xs"
  by (metis nth_chunks set_drop_subset set_take_subset subset_trans)

lemma nth_slice_concat:
  assumes "\<forall>xs \<in> set xss. length xs = n" and "k < length xss"
  shows "take n (drop (k * n) (concat xss)) = xss ! k"
  using assms
proof (induction xss arbitrary: k)
  case Nil
  then show ?case by simp
next
  case (Cons xs xss)
  then show ?case by (cases k) simp_all
qed

lemma nth_concat_const:
  assumes "\<forall>xs \<in> set xss. length xs = n" and "k < length xss" and "j < n"
  shows "concat xss ! (n * k + j) = xss ! k ! j"
  using assms
proof (induction xss arbitrary: k)
  case Nil
  then show ?case by simp
next
  case (Cons xs xss)
  then show ?case by (cases k) (simp_all add: nth_append)
qed

lemma chunks_map: "chunks n (map f xs) = map (map f) (chunks n xs)"
proof (induction n xs rule: chunks.induct)
  case (1 n xs)
  then show ?case
    by (cases "n = 0 \<or> xs = []")
      (auto simp: chunks.simps [of n "map f xs"] chunks.simps [of n xs] chunks.simps [of n "[]"]
        chunks.simps [of 0] drop_map take_map)
qed

section \<open>Words\<close>

lemma unat_sum_list_bound:
  fixes ws :: "'a::len word list"
  assumes "sum_list (map unat ws) < 2 ^ LENGTH('a)"
  shows "unat (sum_list ws) = sum_list (map unat ws)"
  using assms
proof (induction ws)
  case Nil
  then show ?case by simp
next
  case (Cons w ws)
  then have "unat (sum_list ws) = sum_list (map unat ws)" by simp
  with Cons.prems show ?case
    by (simp add: unat_add_lem [THEN iffD1])
qed

lemma int_sum_list: "int (sum_list xs) = sum_list (map int xs)"
  by (induction xs) simp_all

lemma sum_list_le_length:
  fixes f :: "'a \<Rightarrow> nat"
  assumes "\<And>x. x \<in> set xs \<Longrightarrow> f x \<le> b"
  shows "sum_list (map f xs) \<le> length xs * b"
  using assms by (induction xs) (auto intro: add_mono)

lemma unat_ucast_up:
  fixes w :: "'a::len word"
  assumes "LENGTH('a) \<le> LENGTH('b::len)"
  shows "unat (ucast w :: 'b word) = unat w"
proof -
  have "unat w < 2 ^ LENGTH('b)"
    using assms by (meson less_le_trans one_le_numeral power_increasing unsigned_less)
  then show ?thesis
    by (simp add: unsigned_ucast_eq take_bit_nat_eq_self)
qed

lemma unat_ucast_8_16 [simp]: "unat (ucast (w :: u8) :: u16) = unat w"
  by (rule unat_ucast_up) simp

lemma unat_ucast_8_32 [simp]: "unat (ucast (w :: u8) :: u32) = unat w"
  by (rule unat_ucast_up) simp

lemma unat_ucast_16_32 [simp]: "unat (ucast (w :: u16) :: u32) = unat w"
  by (rule unat_ucast_up) simp

lemma unat_ucast_32_16: "unat (ucast (w :: u32) :: u16) = unat w mod 65536"
  by (simp add: unsigned_ucast_eq take_bit_eq_mod)

lemma unat_ucast_32_8: "unat (ucast (w :: u32) :: u8) = unat w mod 256"
  by (simp add: unsigned_ucast_eq take_bit_eq_mod)

lemma unat_ucast_16_8: "unat (ucast (w :: u16) :: u8) = unat w mod 256"
  by (simp add: unsigned_ucast_eq take_bit_eq_mod)

lemma unat_of_nat_u8: "unat (of_nat n :: u8) = n mod 256"
  by (simp add: unat_of_nat)

lemma unat_of_nat_u16: "unat (of_nat n :: u16) = n mod 65536"
  by (simp add: unat_of_nat)

lemma unat_u8_less: "unat (w :: u8) < 256"
  using unsigned_less [of w] by simp

lemma unat_u16_less: "unat (w :: u16) < 65536"
  using unsigned_less [of w] by simp

lemmas unat_word_simps =
  unat_ucast_32_16 unat_ucast_32_8 unat_ucast_16_8 unat_of_nat_u8 unat_of_nat_u16

section \<open>Little-endian bytes\<close>

text \<open>\<open>to_le_bytes\<close> of a number in \<open>n\<close> bytes, and \<open>from_le_bytes\<close>.\<close>

definition to_le_bytes :: "nat \<Rightarrow> nat \<Rightarrow> bytes" where
  "to_le_bytes n x = map (\<lambda>k. of_nat (x div 256 ^ k)) [0..<n]"

fun from_le_bytes :: "bytes \<Rightarrow> nat" where
  "from_le_bytes [] = 0"
| "from_le_bytes (b # bs) = unat b + 256 * from_le_bytes bs"

lemma length_to_le_bytes [simp, len_intro]: "length (to_le_bytes n x) = n"
  by (simp add: to_le_bytes_def)

lemma to_le_bytes_Suc: "to_le_bytes (Suc n) x = of_nat x # to_le_bytes n (x div 256)"
proof -
  have "[0..<Suc n] = 0 # map Suc [0..<n]"
    by (simp add: upt_conv_Cons map_Suc_upt del: upt_Suc)
  then show ?thesis
    by (simp add: to_le_bytes_def div_mult2_eq del: upt_Suc)
qed

lemma from_to_le_bytes: "from_le_bytes (to_le_bytes n x) = x mod 256 ^ n"
proof (induction n arbitrary: x)
  case 0
  then show ?case by (simp add: to_le_bytes_def)
next
  case (Suc n)
  have "from_le_bytes (to_le_bytes (Suc n) x) = x mod 256 + 256 * (x div 256 mod 256 ^ n)"
    by (simp only: to_le_bytes_Suc from_le_bytes.simps Suc.IH unat_of_nat_u8)
  also have "\<dots> = 256 * (x div 256 mod 256 ^ n) + x mod 256"
    by (rule add.commute)
  also have "\<dots> = x mod (256 * 256 ^ n)"
    by (rule mod_mult2_eq [symmetric])
  finally show ?case by (simp only: power_Suc)
qed

lemma to_le_bytes_inj:
  assumes "to_le_bytes n x = to_le_bytes n y" and "x < 256 ^ n" and "y < 256 ^ n"
  shows "x = y"
  using assms by (metis from_to_le_bytes mod_less)

lemma from_le_bytes_less: "from_le_bytes bs < 256 ^ length bs"
proof (induction bs)
  case Nil
  then show ?case by simp
next
  case (Cons b bs)
  have "b' + 256 * x < 256 * m" if "b' < 256" and "x < m" for b' x m :: nat
    using that by arith
  from this [OF unat_u8_less Cons.IH] show ?case
    by (simp only: from_le_bytes.simps list.size(4) add_0_right One_nat_def add_Suc_right power_Suc)
qed

lemma to_from_le_bytes: "to_le_bytes (length bs) (from_le_bytes bs) = bs"
proof (induction bs)
  case Nil
  then show ?case by (simp add: to_le_bytes_def)
next
  case (Cons b bs)
  have "(of_nat (unat b + 256 * from_le_bytes bs) :: u8) = b"
    unfolding word_unat_eq_iff unat_of_nat_u8 using unat_u8_less [of b] by simp
  moreover have "(unat b + 256 * from_le_bytes bs) div 256 = from_le_bytes bs"
    using unat_u8_less [of b] by simp
  ultimately show ?case
    using Cons.IH by (simp only: from_le_bytes.simps to_le_bytes_Suc list.size(4) add_0_right One_nat_def add_Suc_right)
qed

section \<open>Encodings\<close>

text \<open>
  What everything that is written to be read again promises: the decoder accepts exactly the encodings of
  the \<open>valid\<close> values. Keys, \<open>tau\<close> and text are instances.
\<close>

locale codec =
  fixes valid :: "'a \<Rightarrow> bool" and encode :: "'a \<Rightarrow> 'b" and decode :: "'b \<Rightarrow> ('e, 'a) res"
  assumes decodes: "decode b = Ok a \<longleftrightarrow> valid a \<and> encode a = b"
begin

lemma decode_encode: "valid a \<Longrightarrow> decode (encode a) = Ok a"
  by (simp add: decodes)

lemma decoded_valid: "decode b = Ok a \<Longrightarrow> valid a"
  by (simp add: decodes)

lemma encode_eq: "valid a \<Longrightarrow> valid a' \<Longrightarrow> encode a = encode a' \<longleftrightarrow> a = a'"
  by (metis decode_encode res.inject(1))

lemma encoded_in: "valid a \<Longrightarrow> \<forall>x \<in> set xs. valid x \<Longrightarrow> encode a \<in> encode ` set xs \<longleftrightarrow> a \<in> set xs"
  by (auto simp: encode_eq)

end

end
