(* ===== verification/Modular.thy ===== *)
theory Modular
  imports Prelude
begin

text \<open>
  \<open>pool-prf/src/params.rs\<close>, \<open>modular.rs\<close> and \<open>round.rs\<close>: the LWR parameters, arithmetic in
  \<open>Z_q\<close>, \<open>Z_p\<close> and \<open>Z_Delta\<close>, and the rounding from \<open>Z_q\<close> to \<open>Z_p\<close>. Integers have the widths of
  the source (\<open>Zq = u16\<close>, \<open>Zp = Zdelta = u8\<close>, the accumulators \<open>u32\<close>); \<open>usize\<close> is \<^typ>\<open>nat\<close>.
  Every \<open>assert!\<close> is a \<^term>\<open>None\<close>.
\<close>

unbundle bit_operations_syntax

section \<open>Parameters\<close>

type_synonym zq = u16
type_synonym zp = u8
type_synonym zdelta = u8
type_synonym zq_accum = u32
type_synonym zp_accum = u32

text \<open>\<open>const fn log2\<close>: \<open>trailing_zeros\<close>, for a power of two only.\<close>

definition is_power_of_two :: "zq \<Rightarrow> bool" where
  "is_power_of_two v \<longleftrightarrow> v \<noteq> 0 \<and> v AND (v - 1) = 0"

fun trailing_zeros :: "nat \<Rightarrow> nat" where
  "trailing_zeros v = (if v = 0 \<or> odd v then 0 else Suc (trailing_zeros (v div 2)))"

declare trailing_zeros.simps [simp del]

definition log2_zq :: "zq \<Rightarrow> nat option" where
  "log2_zq v = (if is_power_of_two v then Some (trailing_zeros (unat v)) else None)"

definition par_N :: nat where "par_N = 482"
definition par_Q :: zq where "par_Q = 4096"
definition LOG_Q :: nat where "LOG_Q = the (log2_zq par_Q)"
definition par_P :: zq where "par_P = 256"
definition LOG_P :: nat where "LOG_P = the (log2_zq par_P)"
definition DELTA_ZQ :: zq where "DELTA_ZQ = par_Q div par_P"
definition DELTA :: nat where "DELTA = unat DELTA_ZQ"
definition LOG_DELTA :: nat where "LOG_DELTA = LOG_Q - LOG_P"
definition ZP_MAX :: zp where "ZP_MAX = ucast (par_P - 1)"
definition H_ROWS :: nat where "H_ROWS = 16"
definition OUTPUT_ELEMENTS :: nat where "OUTPUT_ELEMENTS = H_ROWS"
definition RUNS_PER_EVALUATION :: nat where "RUNS_PER_EVALUATION = OUTPUT_ELEMENTS"
definition LAMBDA_BITS :: nat where "LAMBDA_BITS = 128"
definition LAMBDA_BYTES :: nat where "LAMBDA_BYTES = LAMBDA_BITS div 8"

lemma log2_par_Q: "log2_zq par_Q = Some 12"
  by (simp add: log2_zq_def is_power_of_two_def par_Q_def trailing_zeros.simps)

lemma log2_par_P: "log2_zq par_P = Some 8"
  by (simp add: log2_zq_def is_power_of_two_def par_P_def trailing_zeros.simps)

lemma unat_par_Q [simp]: "unat par_Q = 4096" by (simp add: par_Q_def)
lemma unat_par_P [simp]: "unat par_P = 256" by (simp add: par_P_def)
lemma LOG_Q [simp]: "LOG_Q = 12" by (simp add: LOG_Q_def log2_par_Q)
lemma LOG_P [simp]: "LOG_P = 8" by (simp add: LOG_P_def log2_par_P)
lemma DELTA_ZQ [simp]: "DELTA_ZQ = 16" by (simp add: DELTA_ZQ_def par_Q_def par_P_def)
lemma DELTA [simp]: "DELTA = 16" by (simp add: DELTA_def)
lemma LOG_DELTA [simp]: "LOG_DELTA = 4" by (simp add: LOG_DELTA_def)
lemma H_ROWS_pos [simp]: "0 < H_ROWS" by (simp add: H_ROWS_def)
lemma RUNS_H_ROWS: "RUNS_PER_EVALUATION = H_ROWS"
  by (simp add: RUNS_PER_EVALUATION_def OUTPUT_ELEMENTS_def)
lemma LAMBDA_BYTES [simp]: "LAMBDA_BYTES = 16"
  by (simp add: LAMBDA_BYTES_def LAMBDA_BITS_def)

section \<open>Arithmetic modulo \<open>q\<close>, \<open>p\<close> and \<open>\<Delta>\<close> (modular.rs)\<close>

definition reduce_q :: "zq_accum \<Rightarrow> zq" where
  "reduce_q x = ucast (x mod ucast par_Q)"

definition quotient_q :: "zq_accum \<Rightarrow> zq_accum" where
  "quotient_q x = x div ucast par_Q"

definition reduce_p :: "zp_accum \<Rightarrow> zp" where
  "reduce_p x = ucast (x mod ucast par_P)"

definition reduce_delta :: "zq \<Rightarrow> zdelta" where
  "reduce_delta x = ucast (x mod DELTA_ZQ)"

definition sub_q :: "zq \<Rightarrow> zq \<Rightarrow> zq option" where
  "sub_q x y =
     (if x < par_Q \<and> y < par_Q then Some (reduce_q (ucast x + ucast par_Q - ucast y)) else None)"

definition add_p :: "zp \<Rightarrow> zp \<Rightarrow> zp option" where
  "add_p x y =
     (if (ucast x :: zq) < par_P \<and> (ucast y :: zq) < par_P
      then Some (reduce_p (ucast x + ucast y)) else None)"

definition sub_p :: "zp \<Rightarrow> zp \<Rightarrow> zp option" where
  "sub_p x y =
     (if (ucast x :: zq) < par_P \<and> (ucast y :: zq) < par_P
      then Some (reduce_p (ucast x + ucast par_P - ucast y)) else None)"

definition sub_delta :: "zdelta \<Rightarrow> zdelta \<Rightarrow> zdelta option" where
  "sub_delta x y =
     (if unat x < DELTA \<and> unat y < DELTA
      then Some (of_nat ((unat x + DELTA - unat y) mod DELTA)) else None)"

section \<open>Rounding (round.rs)\<close>

definition round_zq :: "zq \<Rightarrow> zq option" where
  "round_zq v =
     (if v < par_Q then
        let quotient = v div DELTA_ZQ; remainder = v mod DELTA_ZQ in
        Some (if remainder > DELTA_ZQ div 2 then quotient + 1 else quotient)
      else None)"

definition round_zq_to_zp :: "zq \<Rightarrow> zp option" where
  "round_zq_to_zp v = do { r \<leftarrow> round_zq v; Some (reduce_p (ucast r)) }"

section \<open>What the operations compute\<close>

lemma less_par_Q: "v < par_Q \<longleftrightarrow> unat v < 4096"
  by (simp add: word_less_nat_alt)

lemma unat_reduce_q [nat_of_word]: "unat (reduce_q x) = unat x mod 4096"
proof -
  have "unat x mod 4096 mod 65536 = unat x mod 4096"
    by (rule mod_less) (simp add: less_trans [OF mod_less_divisor])
  then show ?thesis
    by (simp add: reduce_q_def unat_ucast_32_16 unat_mod_distrib)
qed

lemma unat_quotient_q [nat_of_word]: "unat (quotient_q x) = unat x div 4096"
  by (simp add: quotient_q_def unat_div_distrib)

lemma unat_reduce_p [nat_of_word]: "unat (reduce_p x) = unat x mod 256"
  by (simp add: reduce_p_def unat_ucast_32_8 unat_mod_distrib)

lemma unat_reduce_delta [nat_of_word]: "unat (reduce_delta x) = unat x mod 16"
proof -
  have "unat x mod 16 mod 256 = unat x mod 16"
    by (rule mod_less) (simp add: less_trans [OF mod_less_divisor])
  then show ?thesis
    by (simp add: reduce_delta_def unat_ucast_16_8 unat_mod_distrib)
qed

lemma reduce_q_less [simp, intro]: "reduce_q x < par_Q"
  by (simp add: less_par_Q unat_reduce_q)

lemma unat_sub_q:
  assumes "unat x < 4096" and "unat y < 4096"
  shows "\<exists>z. sub_q x y = Some z \<and> unat z = (unat x + 4096 - unat y) mod 4096"
proof -
  have le: "(ucast y :: u32) \<le> ucast x + ucast par_Q"
    using assms by (simp add: word_le_nat_alt unat_word_ariths)
  have "unat (ucast x + ucast par_Q - ucast y :: u32) = unat x + 4096 - unat y"
    using assms by (simp add: unat_sub [OF le] unat_word_ariths)
  with assms show ?thesis
    by (simp add: sub_q_def less_par_Q unat_reduce_q)
qed

lemma unat_add_p: "\<exists>z. add_p x y = Some z \<and> unat z = (unat x + unat y) mod 256"
  using unat_u8_less [of x] unat_u8_less [of y]
  by (simp add: add_p_def word_less_nat_alt unat_reduce_p unat_word_ariths)

lemma unat_sub_p: "\<exists>z. sub_p x y = Some z \<and> unat z = (unat x + 256 - unat y) mod 256"
proof -
  have b: "unat x < 256" "unat y < 256" by (rule unat_u8_less)+
  have le: "(ucast y :: u32) \<le> ucast x + ucast par_P"
    using b by (simp add: word_le_nat_alt unat_word_ariths)
  have "unat (ucast x + ucast par_P - ucast y :: u32) = unat x + 256 - unat y"
    using b by (simp add: unat_sub [OF le] unat_word_ariths)
  with b show ?thesis
    by (simp add: sub_p_def word_less_nat_alt unat_reduce_p)
qed

lemma unat_sub_delta:
  assumes "unat x < 16" and "unat y < 16"
  shows "\<exists>z. sub_delta x y = Some z \<and> unat z = (unat x + 16 - unat y) mod 16"
proof -
  have "(unat x + 16 - unat y) mod 16 mod 256 = (unat x + 16 - unat y) mod 16"
    by (rule mod_less) (simp add: less_trans [OF mod_less_divisor])
  with assms show ?thesis by (simp add: sub_delta_def unat_of_nat_u8)
qed

lemma sub_delta_None: "sub_delta x y = None \<longleftrightarrow> 16 \<le> unat x \<or> 16 \<le> unat y"
  by (auto simp: sub_delta_def)

lemma unat_round_zq:
  assumes "unat v < 4096"
  shows "\<exists>r. round_zq v = Some r \<and> unat r = (unat v + 7) div 16"
proof -
  have div: "unat (v div DELTA_ZQ) = unat v div 16" and mod: "unat (v mod DELTA_ZQ) = unat v mod 16"
    by (simp_all add: unat_div_distrib unat_mod_distrib)
  have half: "DELTA_ZQ div 2 = 8" by simp
  have up: "unat (v div DELTA_ZQ + 1) = unat v div 16 + 1"
    using assms by (simp add: unat_word_ariths unat_div_distrib)
  have gt: "v mod DELTA_ZQ > DELTA_ZQ div 2 \<longleftrightarrow> 8 < unat v mod 16"
    unfolding half word_less_nat_alt mod by simp
  have sum: "(if 8 < n mod 16 then n div 16 + 1 else n div 16) = (n + 7) div 16" for n :: nat
  proof -
    have "(a * 16 + b + 7) div 16 = (if 8 < b then a + 1 else a)" if "b < 16" for a b :: nat
      using that by auto
    from this [of "n mod 16" "n div 16"] show ?thesis by simp
  qed
  have val: "round_zq v =
      Some (if 8 < unat v mod 16 then v div DELTA_ZQ + 1 else v div DELTA_ZQ)"
    using assms by (simp only: round_zq_def less_par_Q if_True Let_def gt)
  have "unat (if 8 < unat v mod 16 then v div DELTA_ZQ + 1 else v div DELTA_ZQ) = (unat v + 7) div 16"
    unfolding sum [symmetric] by (simp only: div up split: if_split) blast
  with val show ?thesis by blast
qed

lemma unat_round_zq_to_zp:
  assumes "unat v < 4096"
  shows "\<exists>r. round_zq_to_zp v = Some r \<and> unat r = (unat v + 7) div 16 mod 256"
proof -
  obtain r where "round_zq v = Some r" and "unat r = (unat v + 7) div 16"
    using unat_round_zq [OF assms] by auto
  then show ?thesis by (simp add: round_zq_to_zp_def unat_reduce_p)
qed

lemma round_zq_to_zp_None: "round_zq_to_zp v = None \<longleftrightarrow> 4096 \<le> unat v"
  by (auto simp: round_zq_to_zp_def round_zq_def less_par_Q Let_def)

end
