(* ===== verification/Prf.thy ===== *)
theory Prf
  imports Modular
begin

text \<open>
  \<open>pool-prf/src/hash.rs\<close> and \<open>prf.rs\<close>: the random oracle into \<open>Z_q^(H_ROWS x N)\<close>, the secret key
  with its serialisation, and the PRF \<open>Eval(sk, t, x)\<close>.

  BLAKE3 is a parameter: \<open>xof ctx msg i\<close> is byte \<open>i\<close> of the output stream of
  \<open>Hasher::new_derive_key(ctx)\<close> after it absorbed \<open>msg\<close>. The bytes a random number generator fills
  an array with are an argument of the operation that draws them.
\<close>

section \<open>The random oracle (hash.rs)\<close>

type_synonym xof = "string \<Rightarrow> bytes \<Rightarrow> nat \<Rightarrow> u8"

datatype zq_vector = ZqVector (as_slice: "zq list")
datatype zq_matrix = ZqMatrix (matrix_rows: "zq_vector list")

definition mrow :: "zq_matrix \<Rightarrow> nat \<Rightarrow> zq_vector option" where
  "mrow m i = idx (matrix_rows m) i"

definition RO_DOMAIN_SEPARATOR :: string where
  "RO_DOMAIN_SEPARATOR = ''pool-oprf v1 random oracle to zq matrix''"

text \<open>The bytes the hasher absorbs: the tag's length, the tag, the input.\<close>

definition ro_message :: "bytes \<Rightarrow> bytes \<Rightarrow> bytes" where
  "ro_message tag input = to_le_bytes 8 (length tag) @ tag @ input"

definition hash_to_zq_matrix :: "xof \<Rightarrow> bytes \<Rightarrow> bytes \<Rightarrow> zq_matrix" where
  "hash_to_zq_matrix xof tag input =
     (let total = H_ROWS * par_N;
          stream = xof RO_DOMAIN_SEPARATOR (ro_message tag input);
          buf = map stream [0..<total * 2];
          element = (\<lambda>row i.
            let offset = row * par_N * 2;
                lo = ucast (buf ! (offset + 2 * i)) :: zq;
                hi = ucast (buf ! (offset + 2 * i + 1)) :: zq
            in reduce_q (ucast (lo OR push_bit 8 hi)))
      in ZqMatrix (map (\<lambda>row. ZqVector (map (element row) [0..<par_N])) [0..<H_ROWS]))"

section \<open>The secret key (prf.rs)\<close>

datatype secret_key = SecretKey (as_bits: "u8 list")
datatype prf_output = PrfOutput (elements: "zp list")

text \<open>\<open>SecretKey::random\<close>: the low bit of each of the \<open>N\<close> bytes drawn.\<close>

definition random_key :: "bytes \<Rightarrow> secret_key" where
  "random_key drawn = SecretKey (map (\<lambda>k. k AND 1) drawn)"

definition from_bits :: "u8 list \<Rightarrow> secret_key option" where
  "from_bits bits = (if \<forall>b \<in> set bits. b \<le> 1 then Some (SecretKey bits) else None)"

datatype de_error = ExpectedBytes nat nat | KeyBytesNotBits

definition serialize_key :: "secret_key \<Rightarrow> bytes" where
  "serialize_key sk = as_bits sk"

definition deserialize_key :: "bytes \<Rightarrow> (de_error, secret_key) res" where
  "deserialize_key bs =
     (if length bs = par_N then ok_or KeyBytesNotBits (from_bits bs)
      else Err (ExpectedBytes par_N (length bs)))"

section \<open>Evaluation (prf.rs)\<close>

definition inner_product :: "zq_vector \<Rightarrow> secret_key \<Rightarrow> zq" where
  "inner_product v sk =
     reduce_q (sum_list (map (\<lambda>(vi, si). ucast vi * ucast si) (zip (as_slice v) (as_bits sk))))"

definition evaluate_single_row :: "secret_key \<Rightarrow> zq_vector \<Rightarrow> zp option" where
  "evaluate_single_row sk v = round_zq_to_zp (inner_product v sk)"

definition evaluate_with_matrix :: "secret_key \<Rightarrow> zq_matrix \<Rightarrow> prf_output option" where
  "evaluate_with_matrix sk m = do {
     out \<leftarrow> opt_map (\<lambda>r. do { v \<leftarrow> mrow m r; evaluate_single_row sk v }) [0..<OUTPUT_ELEMENTS];
     Some (PrfOutput out) }"

definition evaluate :: "xof \<Rightarrow> secret_key \<Rightarrow> bytes \<Rightarrow> bytes \<Rightarrow> prf_output option" where
  "evaluate xof sk tag input = evaluate_with_matrix sk (hash_to_zq_matrix xof tag input)"

section \<open>Well-formed values\<close>

text \<open>The array lengths of the Rust types, and the ranges the constructors keep.\<close>

definition wf_key :: "secret_key \<Rightarrow> bool" where
  "wf_key sk \<longleftrightarrow> length (as_bits sk) = par_N \<and> (\<forall>b \<in> set (as_bits sk). b \<le> 1)"

definition wf_vector :: "zq_vector \<Rightarrow> bool" where
  "wf_vector v \<longleftrightarrow> length (as_slice v) = par_N \<and> (\<forall>e \<in> set (as_slice v). e < par_Q)"

definition wf_matrix :: "zq_matrix \<Rightarrow> bool" where
  "wf_matrix m \<longleftrightarrow> length (matrix_rows m) = H_ROWS \<and> (\<forall>v \<in> set (matrix_rows m). wf_vector v)"

text \<open>The inner product over the naturals, what the sums of the program are compared with.\<close>

definition dot :: "zq list \<Rightarrow> u8 list \<Rightarrow> nat" where
  "dot vs ss = sum_list (map (\<lambda>(v, s). unat v * unat s) (zip vs ss))"

section \<open>The random oracle: shape, range and framing\<close>

lemma length_matrix_rows [simp, len_intro]: "length (matrix_rows (hash_to_zq_matrix xof t x)) = H_ROWS"
  by (simp add: hash_to_zq_matrix_def Let_def)

lemma hash_row:
  assumes "r < H_ROWS"
  obtains v where "mrow (hash_to_zq_matrix xof t x) r = Some v" and "wf_vector v"
proof -
  let ?v = "matrix_rows (hash_to_zq_matrix xof t x) ! r"
  have "wf_vector ?v"
    using assms by (auto simp: hash_to_zq_matrix_def Let_def wf_vector_def)
  moreover have "mrow (hash_to_zq_matrix xof t x) r = Some ?v"
    using assms by (simp add: mrow_def)
  ultimately show ?thesis using that by blast
qed

lemma wf_hash: "wf_matrix (hash_to_zq_matrix xof t x)"
  by (auto simp: wf_matrix_def wf_vector_def hash_to_zq_matrix_def Let_def)

lemma ro_message_inj:
  assumes "ro_message t x = ro_message t' x'" and "length t < 2 ^ 64" and "length t' < 2 ^ 64"
  shows "t = t' \<and> x = x'"
proof -
  have pow: "(256 :: nat) ^ 8 = 2 ^ 64" by simp
  have len: "to_le_bytes 8 (length t) = to_le_bytes 8 (length t')" and rest: "t @ x = t' @ x'"
    using assms(1) by (simp_all add: ro_message_def append_eq_append_conv)
  have "length t = length t'"
    by (rule to_le_bytes_inj [OF len]) (use assms(2,3) in \<open>simp_all only: pow\<close>)
  with rest show ?thesis by simp
qed

text \<open>Element \<open>i\<close> of row \<open>r\<close> is the 12 low bits of two consecutive bytes of the stream.\<close>

lemma hash_element:
  fixes xof :: xof and t x :: bytes and r i :: nat
  assumes "r < H_ROWS" and "i < par_N"
  defines "k \<equiv> 2 * (r * par_N + i)"
  defines "s \<equiv> xof RO_DOMAIN_SEPARATOR (ro_message t x)"
  shows "unat (as_slice (matrix_rows (hash_to_zq_matrix xof t x) ! r) ! i)
           = (unat (s k) + 256 * unat (s (k + 1))) mod 4096"
proof -
  have k: "k + 1 < H_ROWS * par_N * 2"
  proof -
    have "r * par_N + i < Suc r * par_N" using assms(2) by simp
    also have "\<dots> \<le> H_ROWS * par_N" by (rule mult_le_mono1) (use assms(1) in simp)
    finally show ?thesis by (simp add: k_def)
  qed
  have or: "unat ((ucast lo :: u16) OR push_bit 8 (ucast hi)) = unat lo + 256 * unat hi"
    for lo hi :: u8
  proof -
    have "(ucast lo :: u16) AND push_bit 8 (ucast hi) = 0"
      by (rule bit_word_eqI) (auto simp: bit_simps dest: bit_imp_le_length)
    then have "(ucast lo :: u16) OR push_bit 8 (ucast hi) = ucast lo + push_bit 8 (ucast hi)"
      by (simp add: disjunctive_add_eq_or)
    moreover have "unat (push_bit 8 (ucast hi :: u16)) = 256 * unat hi"
      using unat_u8_less [of hi] by (simp add: push_bit_eq_mult unat_word_ariths)
    ultimately show ?thesis
      using unat_u8_less [of lo] unat_u8_less [of hi] by (simp add: unat_word_ariths)
  qed
  have off: "r * par_N * 2 + 2 * i = k" by (simp add: k_def algebra_simps)
  show ?thesis
    using assms(1,2) k
    by (simp add: hash_to_zq_matrix_def Let_def off unat_reduce_q or flip: s_def del: upt_Suc)
qed

section \<open>The key: constructors and serialisation\<close>

lemma u8_le_1: "(b :: u8) \<le> 1 \<longleftrightarrow> unat b \<le> 1"
  by (simp add: word_le_nat_alt)

lemma wf_random_key: "length drawn = par_N \<Longrightarrow> wf_key (random_key drawn)"
  by (auto simp: wf_key_def random_key_def word_and_le1)

lemma from_bits_eq_Some: "from_bits bits = Some sk \<longleftrightarrow> as_bits sk = bits \<and> (\<forall>b \<in> set bits. b \<le> 1)"
  by (cases sk) (auto simp: from_bits_def)

lemma deserialize_Ok_iff:
  "deserialize_key bs = Ok sk \<longleftrightarrow> wf_key sk \<and> serialize_key sk = bs"
  by (cases sk) (auto simp: deserialize_key_def from_bits_def wf_key_def serialize_key_def)

interpretation key_bytes: codec wf_key serialize_key deserialize_key
  by unfold_locales (rule deserialize_Ok_iff)

section \<open>Evaluation: what it computes, and that it never panics\<close>

lemma dot_Nil [simp]: "dot [] ss = 0" "dot vs [] = 0"
  by (simp_all add: dot_def)

lemma dot_Cons [simp]: "dot (v # vs) (s # ss) = unat v * unat s + dot vs ss"
  by (simp add: dot_def)

lemma dot_bound:
  assumes "\<forall>v \<in> set vs. unat v \<le> b" and "\<forall>s \<in> set ss. unat s \<le> 1"
  shows "dot vs ss \<le> length vs * b"
  using assms
proof (induction vs arbitrary: ss)
  case Nil
  then show ?case by simp
next
  case (Cons v vs)
  show ?case
  proof (cases ss)
    case Nil
    then show ?thesis by simp
  next
    case (Cons s ss')
    have "unat v * unat s \<le> b * 1"
      by (rule mult_le_mono) (use Cons.prems Cons in simp_all)
    moreover have "dot vs ss' \<le> length vs * b"
      by (rule Cons.IH) (use Cons.prems Cons in simp_all)
    ultimately show ?thesis by (simp add: Cons)
  qed
qed

lemma unat_mult_small:
  assumes "unat v * unat s < 2 ^ 32"
  shows "unat ((ucast (v :: u16) :: u32) * ucast (s :: u8)) = unat v * unat s"
  using assms by (simp add: unat_word_ariths)

text \<open>A 32-bit sum of products of \<open>Z_q\<close> elements with bytes below \<open>2^8\<close> does not wrap.\<close>

lemma unat_dot_sum:
  assumes "dot vs ss < 2 ^ 32"
  shows "unat (sum_list (map (\<lambda>(v, s). (ucast v :: u32) * ucast s) (zip vs ss))) = dot vs ss"
proof -
  have prod: "unat ((ucast v :: u32) * ucast s) = unat v * unat s"
    if "(v, s) \<in> set (zip vs ss)" for v :: u16 and s :: u8
  proof (rule unat_mult_small)
    have "unat v < 65536" and "unat s < 256" by (rule unat_u16_less, rule unat_u8_less)
    then have "unat v * unat s \<le> 65535 * 255" by (intro mult_le_mono) simp_all
    then show "unat v * unat s < 2 ^ 32" by simp
  qed
  then have "map unat (map (\<lambda>(v, s). (ucast v :: u32) * ucast s) (zip vs ss))
               = map (\<lambda>(v, s). unat v * unat s) (zip vs ss)"
    by (auto simp only: map_map comp_def intro!: map_cong)
  with assms show ?thesis
    by (subst unat_sum_list_bound) (simp_all add: dot_def del: map_map)
qed

lemma wf_vector_bound: "wf_vector v \<Longrightarrow> e \<in> set (as_slice v) \<Longrightarrow> unat e \<le> 4095"
  by (auto simp: wf_vector_def less_par_Q)

lemma wf_key_bit: "wf_key sk \<Longrightarrow> i < par_N \<Longrightarrow> as_bits sk ! i = 0 \<or> as_bits sk ! i = 1"
proof -
  assume "wf_key sk" and "i < par_N"
  then have "as_bits sk ! i \<le> 1" by (simp add: wf_key_def)
  then have "unat (as_bits sk ! i) = 0 \<or> unat (as_bits sk ! i) = 1" by (auto simp: word_le_nat_alt)
  then show ?thesis by (auto simp: word_unat_eq_iff)
qed

lemma wf_key_bound: "wf_key sk \<Longrightarrow> b \<in> set (as_bits sk) \<Longrightarrow> unat b \<le> 1"
  by (auto simp: wf_key_def u8_le_1)

lemma dot_key_bound:
  assumes "wf_vector v" and "wf_key sk"
  shows "dot (as_slice v) (as_bits sk) \<le> 482 * 4095"
proof -
  have "dot (as_slice v) (as_bits sk) \<le> length (as_slice v) * 4095"
    by (rule dot_bound) (use assms wf_vector_bound wf_key_bound in blast)+
  with assms(1) show ?thesis by (simp add: wf_vector_def par_N_def)
qed

lemma unat_inner_product:
  assumes "wf_vector v" and "wf_key sk"
  shows "unat (inner_product v sk) = dot (as_slice v) (as_bits sk) mod 4096"
proof -
  have "dot (as_slice v) (as_bits sk) < 2 ^ 32"
    using dot_key_bound [OF assms] by simp
  then show ?thesis
    by (simp add: inner_product_def unat_reduce_q unat_dot_sum)
qed

definition prf_element :: "nat \<Rightarrow> nat" where
  "prf_element ip = (ip mod 4096 + 7) div 16 mod 256"

lemma unat_evaluate_single_row:
  assumes "wf_vector v" and "wf_key sk"
  shows "\<exists>e. evaluate_single_row sk v = Some e
           \<and> unat e = prf_element (dot (as_slice v) (as_bits sk))"
  using unat_round_zq_to_zp [of "inner_product v sk"]
  by (simp add: evaluate_single_row_def prf_element_def unat_inner_product [OF assms])

lemma evaluate_row:
  assumes "wf_key sk"
  shows "\<exists>out. evaluate xof sk t x = Some out \<and> length (elements out) = OUTPUT_ELEMENTS \<and>
           (\<forall>r < OUTPUT_ELEMENTS. \<exists>v. mrow (hash_to_zq_matrix xof t x) r = Some v \<and>
              evaluate_single_row sk v = Some (elements out ! r))"
proof -
  let ?m = "hash_to_zq_matrix xof t x"
  let ?f = "\<lambda>r. do { v \<leftarrow> mrow ?m r; evaluate_single_row sk v }"
  have "?f r \<noteq> None" if "r \<in> set [0..<OUTPUT_ELEMENTS]" for r
  proof -
    from that have "r < H_ROWS" by (simp add: OUTPUT_ELEMENTS_def)
    then obtain v where v: "mrow ?m r = Some v" and "wf_vector v" by (rule hash_row)
    with unat_evaluate_single_row [OF _ assms] show ?thesis by fastforce
  qed
  then obtain out where out: "opt_map ?f [0..<OUTPUT_ELEMENTS] = Some out"
    using opt_map_Some_iff [of ?f "[0..<OUTPUT_ELEMENTS]"] by blast
  from opt_map_SomeD [OF out] have len: "length out = OUTPUT_ELEMENTS"
    and each: "\<forall>r < OUTPUT_ELEMENTS. ?f r = Some (out ! r)" by simp_all
  have "\<exists>v. mrow ?m r = Some v \<and> evaluate_single_row sk v = Some (out ! r)" if "r < OUTPUT_ELEMENTS" for r
    using each that by (auto split: option.splits simp: bind_eq_Some_conv)
  with out len show ?thesis
    by (auto simp: evaluate_def evaluate_with_matrix_def)
qed

end
