(* ===== verification/DeltaOt.thy ===== *)
theory DeltaOt
  imports Prf
begin

text \<open>
  \<open>pool-oprf/src/delta_ot.rs\<close>: 1-out-of-\<open>Delta\<close> random OT from binary random OTs.

  A block is its 16 bytes. The OT extension of CryProt is a parameter: \<open>send n\<close> and
  \<open>rand_choice_receive n\<close> are what the calls return. \<open>blake3 msg i\<close> is byte \<open>i\<close> of the hash of
  \<open>msg\<close>, and \<open>base_ot_count\<close> is CryProt's \<open>BASE_OT_COUNT\<close>. A \<open>subtle::Choice\<close> is a \<^typ>\<open>bool\<close>.
\<close>

section \<open>Blocks and hashing\<close>

type_synonym block = bytes
type_synonym hash = "bytes \<Rightarrow> nat \<Rightarrow> u8"

definition BLOCK_BYTES :: nat where "BLOCK_BYTES = 16"

definition first_chunk :: "nat \<Rightarrow> (nat \<Rightarrow> u8) \<Rightarrow> bytes" where
  "first_chunk n stream = map stream [0..<n]"

lemma length_first_chunk [simp, len_intro]: "length (first_chunk n s) = n"
  by (simp add: first_chunk_def)

definition next_multiple_of :: "nat \<Rightarrow> nat \<Rightarrow> nat" where
  "next_multiple_of n m = (if n mod m = 0 then n else n + (m - n mod m))"

section \<open>The operations (delta_ot.rs)\<close>

definition required_binary_ot_count :: "nat \<Rightarrow> nat \<Rightarrow> nat option" where
  "required_binary_ot_count base_ot_count delta_ot_count =
     (if delta_ot_count > 0 then Some (next_multiple_of (LOG_DELTA * delta_ot_count) base_ot_count)
      else None)"

definition choice_bit :: "zdelta \<Rightarrow> nat \<Rightarrow> u8" where
  "choice_bit value i = (if drop_bit i value AND 1 \<noteq> 0 then 1 else 0)"

definition unwrap_u8 :: "bool \<Rightarrow> u8" where
  "unwrap_u8 c = (if c then 1 else 0)"

definition choice_from_bits :: "bool list \<Rightarrow> zdelta" where
  "choice_from_bits bits =
     fold (\<lambda>(i, c) index. index OR push_bit i (unwrap_u8 c)) (enumerate 0 bits) 0"

definition derive_ot_block :: "hash \<Rightarrow> block list \<Rightarrow> zdelta \<Rightarrow> block option" where
  "derive_ot_block blake3 blocks choice =
     (if unat choice < DELTA
      then Some (first_chunk BLOCK_BYTES (blake3 (concat blocks @ [choice])))
      else None)"

definition select_and_derive_ot_block ::
  "hash \<Rightarrow> (block \<times> block) list \<Rightarrow> zdelta \<Rightarrow> block option" where
  "select_and_derive_ot_block blake3 pairs choice =
     derive_ot_block blake3
       (map (\<lambda>i. if choice_bit choice i = 0 then fst (pairs ! i) else snd (pairs ! i)) [0..<LOG_DELTA])
       choice"

definition delta_ot_send ::
  "hash \<Rightarrow> nat \<Rightarrow> (nat \<Rightarrow> ('e, (block \<times> block) list) res) \<Rightarrow> nat \<Rightarrow> ('e, block list list) res"
where
  "delta_ot_send blake3 base_ot_count send delta_ot_count =
     res_bind (expect (required_binary_ot_count base_ot_count delta_ot_count)) (\<lambda>n.
     res_bind (send n) (\<lambda>pairs.
     expect (opt_map
       (\<lambda>ot_pairs. opt_map (\<lambda>choice. select_and_derive_ot_block blake3 ot_pairs (of_nat choice))
                      [0..<DELTA])
       (take delta_ot_count (chunks_exact LOG_DELTA pairs)))))"

definition delta_ot_receive ::
  "hash \<Rightarrow> nat \<Rightarrow> (nat \<Rightarrow> ('e, block list \<times> bool list) res) \<Rightarrow> nat
     \<Rightarrow> ('e, block list \<times> zdelta list) res" where
  "delta_ot_receive blake3 base_ot_count rand_choice_receive delta_ot_count =
     res_bind (expect (required_binary_ot_count base_ot_count delta_ot_count)) (\<lambda>n.
     res_bind (rand_choice_receive n) (\<lambda>(ot_blocks, binary_choices).
     let choices = map choice_from_bits (take delta_ot_count (chunks_exact LOG_DELTA binary_choices))
     in res_bind (expect (opt_map (\<lambda>(selected, choice). derive_ot_block blake3 selected choice)
                            (zip (chunks_exact LOG_DELTA ot_blocks) choices)))
          (\<lambda>blocks. Ok (blocks, choices))))"

text \<open>What a random OT gives its two sides: the receiver's block is the one of the sender's pair
  at the receiver's choice.\<close>

definition rot_agree ::
  "nat \<Rightarrow> (block \<times> block) list \<Rightarrow> block list \<Rightarrow> bool list \<Rightarrow> bool" where
  "rot_agree n pairs blocks choices \<longleftrightarrow>
     length pairs = n \<and> length blocks = n \<and> length choices = n \<and>
     (\<forall>i < n. blocks ! i = (if choices ! i then snd (pairs ! i) else fst (pairs ! i)))"

section \<open>Choice bits\<close>

lemma next_multiple_of_ge: "n \<le> next_multiple_of n m"
  by (simp add: next_multiple_of_def)

lemma choice_bit_eq: "choice_bit v i = (if Bit_Operations.bit v i then 1 else 0)"
  by (simp add: choice_bit_def bit_iff_odd_drop_bit even_iff_mod_2_eq_zero and_one_eq)

lemma LOG_DELTA_list: "length bits = LOG_DELTA \<Longrightarrow> \<exists>a b c d. bits = [a, b, c, d]"
  by (auto simp: length_Suc_conv eval_nat_numeral)

lemma choice_from_bits_4:
  "choice_from_bits [a, b, c, d] =
     unwrap_u8 a OR push_bit 1 (unwrap_u8 b) OR push_bit 2 (unwrap_u8 c) OR push_bit 3 (unwrap_u8 d)"
  by (simp add: choice_from_bits_def or.assoc eval_nat_numeral)

lemma unat_choice_from_bits: "length bits = LOG_DELTA \<Longrightarrow> unat (choice_from_bits bits) < 16"
proof -
  assume "length bits = LOG_DELTA"
  then obtain a b c d where "bits = [a, b, c, d]" using LOG_DELTA_list by blast
  then show ?thesis
    by (cases a; cases b; cases c; cases d) (simp_all add: choice_from_bits_4 unwrap_u8_def)
qed

lemma choice_bit_from_bits:
  assumes "length bits = LOG_DELTA" and "i < LOG_DELTA"
  shows "choice_bit (choice_from_bits bits) i = unwrap_u8 (bits ! i)"
proof -
  obtain a b c d where bits: "bits = [a, b, c, d]" using LOG_DELTA_list assms(1) by blast
  have "i = 0 \<or> i = 1 \<or> i = 2 \<or> i = 3" using assms(2) by auto
  then show ?thesis
    unfolding bits
    by (elim disjE; cases a; cases b; cases c; cases d)
      (simp_all add: choice_from_bits_4 unwrap_u8_def choice_bit_def)
qed

lemma choice_bits_round_trip:
  assumes "unat v < 16"
  shows "choice_from_bits (map (\<lambda>i. choice_bit v i \<noteq> 0) [0..<LOG_DELTA]) = v"
proof -
  obtain k where v: "v = of_nat k" and k: "k < 16" using assms that [of "unat v"] by simp
  have "k \<in> {0, 1, 2, 3, 4, 5, 6, 7, 8, 9, 10, 11, 12, 13, 14, 15}"
  proof -
    have "n \<in> {0, 1, 2, 3, 4, 5, 6, 7, 8, 9, 10, 11, 12, 13, 14, 15}" if "n < 16" for n :: nat
    proof -
      have "n \<in> set [0..<16]" using that by simp
      then show ?thesis by (simp add: upt_rec eval_nat_numeral del: set_upt)
    qed
    then show ?thesis using k .
  qed
  moreover have "[0..<LOG_DELTA] = [0, 1, 2, 3]" by (simp add: upt_conv_Cons)
  ultimately show ?thesis
    unfolding v insert_iff empty_iff
    by (elim disjE) (simp_all add: choice_from_bits_4 unwrap_u8_def choice_bit_def)
qed

section \<open>Sender and receiver agree\<close>

lemma derive_ot_block_Some:
  assumes "unat c < 16"
  shows "derive_ot_block h bs c = Some (first_chunk BLOCK_BYTES (h (concat bs @ [c])))"
  using assms by (simp add: derive_ot_block_def)

lemma length_derive_ot_block: "derive_ot_block h bs c = Some b \<Longrightarrow> length b = 16"
  by (auto simp: derive_ot_block_def BLOCK_BYTES_def split: if_splits)

lemma sender_blocks:
  "\<exists>out. opt_map (\<lambda>choice. select_and_derive_ot_block h ps (of_nat choice)) [0..<DELTA] = Some out
     \<and> length out = 16 \<and> (\<forall>c < 16. length (out ! c) = 16
         \<and> select_and_derive_ot_block h ps (of_nat c) = Some (out ! c))"
proof -
  let ?f = "\<lambda>choice. select_and_derive_ot_block h ps (of_nat choice)"
  have "\<exists>b. ?f c = Some b \<and> (length b = 16 \<and> ?f c = Some b)" if "c < 16" for c
    using that by (simp add: select_and_derive_ot_block_def derive_ot_block_def unat_of_nat_u8 BLOCK_BYTES_def)
  from opt_map_upt [of 16 ?f, OF this] show ?thesis by auto
qed

text \<open>The receiver's four blocks are the ones the sender selects by the bits of the choice.\<close>

lemma select_receiver_blocks:
  assumes "length ps = LOG_DELTA" and "length bs = LOG_DELTA" and "length cs = LOG_DELTA"
    and "\<forall>i < LOG_DELTA. bs ! i = (if cs ! i then snd (ps ! i) else fst (ps ! i))"
  shows "select_and_derive_ot_block h ps (choice_from_bits cs) = derive_ot_block h bs (choice_from_bits cs)"
proof -
  have "map (\<lambda>i. if choice_bit (choice_from_bits cs) i = 0 then fst (ps ! i) else snd (ps ! i))
          [0..<LOG_DELTA] = bs"
    using assms by (intro nth_equalityI) (auto simp: choice_bit_from_bits [OF assms(3)] unwrap_u8_def)
  then show ?thesis by (simp add: select_and_derive_ot_block_def)
qed

lemma rot_agree_chunk:
  assumes "rot_agree n ps bs cs" and "(j + 1) * 4 \<le> n" and "i < 4"
  shows "chunks_exact 4 bs ! j ! i
           = (if chunks_exact 4 cs ! j ! i then snd (chunks_exact 4 ps ! j ! i)
              else fst (chunks_exact 4 ps ! j ! i))"
proof -
  have "j < n div 4" using assms(2) by (simp add: less_eq_div_iff_mult_less_eq Suc_le_eq [symmetric])
  with assms show ?thesis by (auto simp: rot_agree_def nth_chunks_exact)
qed

lemma delta_ot_agree:
  assumes "required_binary_ot_count base count = Some n"
    and "send n = Ok pairs" and "receive n = Ok (blocks, choices)"
    and "rot_agree n pairs blocks choices"
  shows "\<exists>sent bs cs. delta_ot_send h base send count = Ok sent
           \<and> delta_ot_receive h base receive count = Ok (bs, cs)
           \<and> length sent = count \<and> length bs = count \<and> length cs = count
           \<and> (\<forall>j < count. unat (cs ! j) < 16 \<and> length (sent ! j) = 16 \<and> length (bs ! j) = 16
                \<and> (\<forall>c < 16. length (sent ! j ! c) = 16) \<and> sent ! j ! unat (cs ! j) = bs ! j)"
proof -
  have n: "4 * count \<le> n"
    using assms(1) next_multiple_of_ge [of "4 * count" base]
    by (auto simp: required_binary_ot_count_def split: if_splits)
  then have count: "count \<le> n div 4" by linarith
  let ?P = "chunks_exact 4 pairs" and ?B = "chunks_exact 4 blocks" and ?C = "chunks_exact 4 choices"
  have lens: "length ?P = n div 4" "length ?B = n div 4" "length ?C = n div 4"
    using assms(4) by (simp_all add: rot_agree_def length_chunks_exact)
  let ?g = "\<lambda>ps. opt_map (\<lambda>choice. select_and_derive_ot_block h ps (of_nat choice)) [0..<DELTA]"
  let ?Q = "\<lambda>ps out. length out = 16 \<and> (\<forall>c < 16. length (out ! c) = 16
         \<and> select_and_derive_ot_block h ps (of_nat c) = Some (out ! c))"
  obtain sent where sent: "opt_map ?g (take count ?P) = Some sent" "length sent = count"
    "\<forall>j < count. ?Q (?P ! j) (sent ! j)"
    using opt_map_spec [of "take count ?P" ?g ?Q] sender_blocks count lens(1) by force
  define cs where "cs = map choice_from_bits (take count ?C)"
  have cs: "length cs = count" "\<forall>j < count. cs ! j = choice_from_bits (?C ! j)"
    using count lens(3) by (simp_all add: cs_def)
  have chunk4: "length (chunks_exact 4 xs ! j) = 4" if "j < length (chunks_exact 4 xs)" for xs :: "'x list" and j
    using that by (rule chunks_exact_lengths [OF nth_mem])
  have small: "unat (cs ! j) < 16" if "j < count" for j
    using that cs(2) chunk4 [of j choices] count lens(3) by (auto intro: unat_choice_from_bits)
  let ?f = "\<lambda>(selected, choice). derive_ot_block h selected choice"
  have "\<exists>b. ?f p = Some b \<and> ?f p = Some b" if p: "p \<in> set (zip ?B cs)" for p
  proof -
    obtain sel c where "p = (sel, c)" and "c \<in> set cs" using p by (metis set_zip_rightD surj_pair)
    with small cs(1) show ?thesis by (auto simp: in_set_conv_nth derive_ot_block_def)
  qed
  then obtain bs where bs: "opt_map ?f (zip ?B cs) = Some bs" "length bs = count"
    "\<forall>j < count. derive_ot_block h (?B ! j) (cs ! j) = Some (bs ! j)"
    using opt_map_spec [of "zip ?B cs" ?f "\<lambda>p b. ?f p = Some b"] cs(1) count lens(2) by force
  have "sent ! j ! unat (cs ! j) = bs ! j" if j: "j < count" for j
  proof -
    have "select_and_derive_ot_block h (?P ! j) (choice_from_bits (?C ! j))
            = derive_ot_block h (?B ! j) (choice_from_bits (?C ! j))"
      using j count lens n rot_agree_chunk [OF assms(4), of j]
      by (intro select_receiver_blocks) (simp_all add: chunk4)
    moreover have "select_and_derive_ot_block h (?P ! j) (of_nat (unat (cs ! j)))
                     = Some (sent ! j ! unat (cs ! j))"
      using sent(3) j small by blast
    ultimately show ?thesis using bs(3) cs(2) j by simp
  qed
  moreover have "length (bs ! j) = 16" if "j < count" for j
    using that bs(3) length_derive_ot_block by blast
  moreover have "delta_ot_send h base send count = Ok sent"
    using assms(1,2) sent(1) by (simp add: delta_ot_send_def)
  moreover have "delta_ot_receive h base receive count = Ok (bs, cs)"
    using assms(1,3) bs(1) by (simp add: delta_ot_receive_def Let_def cs_def)
  ultimately show ?thesis using sent bs(2) cs(1) small by blast
qed

end
