(* ===== verification/Expand.thy ===== *)
theory Expand
  imports DeltaOt
begin

text \<open>
  The pure part of \<open>pool-oprf/src/preprocessing.rs\<close>: session identifiers, \<open>tau\<close> and its wire form,
  the expansion of OT blocks into masks and pads, and the run budget \<open>Runs\<close> behind the interface
  \<open>run_budget\<close>. \<open>usize\<close> and \<open>u64\<close> counters are \<^typ>\<open>nat\<close>; the one multiplication that could
  overflow, in \<open>tau_for\<close>, is checked there as the source does.
\<close>

section \<open>Sessions and \<open>tau\<close>\<close>

type_synonym uid = bytes

definition random_uid :: "bytes \<Rightarrow> uid" where
  "random_uid drawn = take LAMBDA_BYTES drawn"

definition USIZE_MAX :: nat where "USIZE_MAX = 2 ^ 64 - 1"

definition tau_for :: "nat \<Rightarrow> nat option" where
  "tau_for evaluations =
     (if evaluations * H_ROWS \<le> USIZE_MAX then Some (evaluations * H_ROWS) else None)"

definition evaluations_for :: "nat \<Rightarrow> nat" where
  "evaluations_for runs = runs div H_ROWS"

definition encode_tau :: "nat \<Rightarrow> bytes" where
  "encode_tau tau = to_le_bytes 8 tau"

datatype tau_error = TauWrongLength

definition decode_tau :: "bytes \<Rightarrow> (tau_error, nat) res" where
  "decode_tau bs = (if length bs = 8 then Ok (from_le_bytes bs) else Err TauWrongLength)"

section \<open>Masks and pads from OT blocks\<close>

definition R_DOMAIN_SEPARATOR :: string where
  "R_DOMAIN_SEPARATOR = ''pool-oprf v1 zq mask from ot seed''"

definition MASK_BYTES :: nat where "MASK_BYTES = 2"

definition expand :: "xof \<Rightarrow> block \<Rightarrow> nat \<Rightarrow> zq list" where
  "expand xof ot_block first_run =
     (let stream = xof R_DOMAIN_SEPARATOR ot_block;
          position = first_run * MASK_BYTES;
          buf = map (\<lambda>i. stream (position + i)) [0..<H_ROWS * MASK_BYTES];
          raws = chunks_exact MASK_BYTES buf
      in map (\<lambda>raw. reduce_q (ucast (of_nat (from_le_bytes raw) :: zq))) (take H_ROWS raws))"

definition r_prime_from_block :: "block \<Rightarrow> zp option" where
  "r_prime_from_block block =
     (if 1 \<le> length block then Some (reduce_p (ucast (block ! 0))) else None)"

record rc_entry =
  rc_b_prime :: zdelta
  rc_r_prime :: zp

record rs_entry =
  rs_b :: u8
  rs_ot_block :: block

section \<open>The run budget\<close>

record runs =
  runs_tau :: nat
  runs_ctr :: nat

definition runs_new :: "nat \<Rightarrow> runs" where
  "runs_new tau = \<lparr> runs_tau = tau, runs_ctr = 0 \<rparr>"

definition runs_remaining :: "runs \<Rightarrow> nat" where
  "runs_remaining r = runs_tau r - runs_ctr r"

definition runs_take :: "nat \<Rightarrow> runs \<Rightarrow> runs \<times> nat option" where
  "runs_take count r =
     (if runs_remaining r < count then (r, None)
      else (r\<lparr> runs_ctr := runs_ctr r + count \<rparr>, Some (runs_ctr r)))"

definition wf_runs :: "runs \<Rightarrow> bool" where
  "wf_runs r \<longleftrightarrow> runs_ctr r \<le> runs_tau r"

section \<open>The interface of a budget\<close>

text \<open>
  A budget hands out consecutive runs, once each. \<open>spent\<close> is how many runs are gone, \<open>total\<close> how
  many there ever are. The client's and the server's states offer the same interface.
\<close>

locale run_budget =
  fixes valid :: "'s \<Rightarrow> bool"
    and total :: "'s \<Rightarrow> nat"
    and spent :: "'s \<Rightarrow> nat"
    and take_runs :: "nat \<Rightarrow> 's \<Rightarrow> 's \<times> nat option"
  assumes take_some: "valid s \<Longrightarrow> spent s + n \<le> total s \<Longrightarrow> snd (take_runs n s) = Some (spent s)"
    and take_spends: "valid s \<Longrightarrow> spent s + n \<le> total s \<Longrightarrow> spent (fst (take_runs n s)) = spent s + n"
    and take_none: "valid s \<Longrightarrow> total s < spent s + n \<Longrightarrow> take_runs n s = (s, None)"
    and take_total: "valid s \<Longrightarrow> total (fst (take_runs n s)) = total s"
    and take_valid: "valid s \<Longrightarrow> valid (fst (take_runs n s))"
    and spent_total: "valid s \<Longrightarrow> spent s \<le> total s"
begin

text \<open>The runs each of a sequence of takes got.\<close>

fun takes :: "nat list \<Rightarrow> 's \<Rightarrow> nat list list \<times> 's" where
  "takes [] s = ([], s)"
| "takes (n # ns) s =
     (let (s', first) = take_runs n s;
          (rest, s'') = takes ns s'
      in ((case first of None \<Rightarrow> [] | Some f \<Rightarrow> [f..<f + n]) # rest, s''))"

lemma take_cases:
  assumes "valid s"
  obtains (taken) "spent s + n \<le> total s" "snd (take_runs n s) = Some (spent s)"
      "spent (fst (take_runs n s)) = spent s + n"
    | (refused) "total s < spent s + n" "take_runs n s = (s, None)"
  using assms take_some take_spends take_none by (meson not_less)

lemma takes_are_consecutive:
  assumes "valid s"
  shows "valid (snd (takes ns s)) \<and> spent s \<le> spent (snd (takes ns s)) \<and>
     total (snd (takes ns s)) = total s \<and>
     concat (fst (takes ns s)) = [spent s..<spent (snd (takes ns s))]"
  using assms
proof (induction ns arbitrary: s)
  case Nil
  then show ?case by simp
next
  case (Cons n ns)
  let ?s' = "fst (take_runs n s)"
  have IH: "valid (snd (takes ns ?s'))" "spent ?s' \<le> spent (snd (takes ns ?s'))"
    "total (snd (takes ns ?s')) = total ?s'"
    "concat (fst (takes ns ?s')) = [spent ?s'..<spent (snd (takes ns ?s'))]"
    using Cons.IH [OF take_valid [OF Cons.prems]] by blast+
  have split: "fst (takes (n # ns) s) =
      (case snd (take_runs n s) of None \<Rightarrow> [] | Some f \<Rightarrow> [f..<f + n]) # fst (takes ns ?s')"
    "snd (takes (n # ns) s) = snd (takes ns ?s')"
    by (simp_all add: Let_def case_prod_unfold)
  show ?case
  proof (rule take_cases [OF Cons.prems, of n], goal_cases)
    case 1
    obtain d where "spent (snd (takes ns ?s')) = spent s + n + d"
      using IH(2) 1(3) by (metis le_Suc_ex)
    with 1 IH split show ?case
      by (simp add: take_total [OF Cons.prems] upt_add_eq_append [symmetric])
  next
    case 2
    with IH split show ?case by simp
  qed
qed

text \<open>No run is handed out twice, and none past the budget.\<close>

lemma takes_distinct:
  assumes "valid s"
  shows "distinct (concat (fst (takes ns s)))"
    and "r \<in> set (concat (fst (takes ns s))) \<Longrightarrow> r < total s"
proof -
  show "distinct (concat (fst (takes ns s)))"
    using takes_are_consecutive [OF assms] by (metis distinct_upt)
  assume "r \<in> set (concat (fst (takes ns s)))"
  moreover have "spent (snd (takes ns s)) \<le> total s"
    using takes_are_consecutive [OF assms] spent_total by metis
  ultimately show "r < total s"
    using takes_are_consecutive [OF assms, of ns] by (metis atLeastLessThan_iff less_le_trans set_upt)
qed

end

interpretation runs_budget: run_budget wf_runs runs_tau runs_ctr runs_take
  by unfold_locales (auto simp: wf_runs_def runs_take_def runs_remaining_def)

section \<open>What the expansion computes\<close>

text \<open>Mask \<open>j\<close> of a block: bytes \<open>2j\<close> and \<open>2j + 1\<close> of its stream, reduced.\<close>

definition mask_at :: "xof \<Rightarrow> block \<Rightarrow> nat \<Rightarrow> nat" where
  "mask_at xof ot_block j =
     (let s = xof R_DOMAIN_SEPARATOR ot_block
      in (unat (s (2 * j)) + 256 * unat (s (2 * j + 1))) mod 4096)"

lemma expand_spec:
  "length (expand xof b first) = H_ROWS \<and>
   (\<forall>k < H_ROWS. unat (expand xof b first ! k) = mask_at xof b (first + k))"
proof -
  define s where "s = xof R_DOMAIN_SEPARATOR b"
  let ?buf = "map (\<lambda>i. s (first * 2 + i)) [0..<H_ROWS * 2]"
  have buf: "length ?buf = 32" by (simp add: H_ROWS_def)
  have len: "length (chunks_exact 2 ?buf) = 16"
    by (simp add: length_chunks_exact H_ROWS_def del: upt_Suc)
  have chunk: "chunks_exact 2 ?buf ! k = [s (2 * (first + k)), s (2 * (first + k) + 1)]" if "k < 16" for k
  proof -
    have "chunks_exact 2 ?buf ! k = take 2 (drop (k * 2) ?buf)"
      using that buf by (intro nth_chunks_exact) simp_all
    also have "\<dots> = [?buf ! (k * 2), ?buf ! (k * 2 + 1)]"
      using that buf by (simp add: take_Suc_conv_app_nth numeral_2_eq_2 del: upt_Suc)
    finally show ?thesis using that by (simp add: H_ROWS_def algebra_simps del: upt_Suc)
  qed
  have val: "unat (reduce_q (ucast (of_nat (from_le_bytes [x, y]) :: zq)))
               = (unat x + 256 * unat y) mod 4096" for x y
  proof -
    have "unat x + 256 * unat y < 65536"
      using unat_u8_less [of x] unat_u8_less [of y] by linarith
    then have "unat (of_nat n :: zq) = n" if "n = unat x + 256 * unat y" for n
      using that by (simp only: unat_of_nat_u16 mod_less)
    then have "unat (of_nat (from_le_bytes [x, y]) :: zq) = from_le_bytes [x, y]" by simp
    then show ?thesis by (simp only: unat_reduce_q unat_ucast_16_32) simp
  qed
  have "expand xof b first = map (\<lambda>raw. reduce_q (ucast (of_nat (from_le_bytes raw) :: zq)))
          (take 16 (chunks_exact 2 ?buf))"
    by (simp add: expand_def Let_def MASK_BYTES_def s_def H_ROWS_def)
  with len chunk val show ?thesis
    by (simp add: mask_at_def Let_def s_def [symmetric] H_ROWS_def del: from_le_bytes.simps)
qed

lemma length_expand [simp, len_intro]: "length (expand xof b first) = 16"
  using expand_spec [of xof b first] by (simp add: H_ROWS_def)

lemma unat_expand: "k < 16 \<Longrightarrow> unat (expand xof b first ! k) = mask_at xof b (first + k)"
  using expand_spec [of xof b first] by (simp add: H_ROWS_def)

lemma mask_at_less: "mask_at xof b j < 4096"
  by (simp add: mask_at_def Let_def)

lemma expand_less: "x \<in> set (expand xof b first) \<Longrightarrow> unat x < 4096"
  by (auto simp: in_set_conv_nth unat_expand mask_at_less)

lemma r_prime_Some: "length b = 16 \<Longrightarrow> r_prime_from_block b = Some (b ! 0)"
  by (simp add: r_prime_from_block_def word_unat_eq_iff unat_reduce_p unat_u8_less)

section \<open>\<open>tau\<close>\<close>

lemma decode_tau_Ok_iff: "decode_tau bs = Ok tau \<longleftrightarrow> tau < 2 ^ 64 \<and> encode_tau tau = bs"
proof
  assume "decode_tau bs = Ok tau"
  then have "length bs = 8" "tau = from_le_bytes bs" by (simp_all add: decode_tau_def split: if_splits)
  then show "tau < 2 ^ 64 \<and> encode_tau tau = bs"
    using from_le_bytes_less [of bs] to_from_le_bytes [of bs] by (simp add: encode_tau_def)
qed (auto simp: decode_tau_def encode_tau_def from_to_le_bytes)

interpretation tau_bytes: codec "\<lambda>tau. tau < 2 ^ 64" encode_tau decode_tau
  by unfold_locales (rule decode_tau_Ok_iff)

lemma evaluations_for_tau_for: "tau_for ev = Some tau \<Longrightarrow> evaluations_for tau = ev"
  by (auto simp: tau_for_def evaluations_for_def split: if_splits)

end
