(* ===== verification/BlindEval.thy ===== *)
theory BlindEval
  imports Prf
begin

text \<open>
  \<open>pool-eval/src/lib.rs\<close>: the equations of the paper's BlindEval. Arrays \<open>[Zq; N]\<close> and
  \<open>[Zp; DELTA]\<close> are lists, their lengths a hypothesis where one is used. \<^term>\<open>None\<close> is a panic
  (an unreduced operand, an index out of range); that the 32-bit accumulators do not wrap is
  proved, not assumed.
\<close>

section \<open>The equations\<close>

definition r_sigma_sum :: "secret_key \<Rightarrow> zq list \<Rightarrow> zq option" where
  "r_sigma_sum sk masks = do {
     terms \<leftarrow> opt_map (\<lambda>(sk_i, r_i). if sk_i = 0 then Some r_i else sub_q 0 r_i)
                 (zip (as_bits sk) masks);
     Some (reduce_q (sum_list (map ucast terms))) }"

definition a_sigma_sum :: "secret_key \<Rightarrow> zq \<Rightarrow> zq list \<Rightarrow> zq" where
  "a_sigma_sum sk r_tilde e =
     reduce_q (sum_list (map (\<lambda>(sk_i, e_i). ucast (if sk_i = 0 then 0 else e_i))
                          (zip (as_bits sk) e)) + ucast r_tilde)"

definition rounded :: "zq \<Rightarrow> nat \<Rightarrow> zp option" where
  "rounded a_tilde j = do { d \<leftarrow> sub_q a_tilde (of_nat j); round_zq_to_zp d }"

definition pad :: "zp list \<Rightarrow> nat \<Rightarrow> zdelta \<Rightarrow> zp option" where
  "pad pads j b_bar_prime = do { d \<leftarrow> sub_delta (of_nat j) b_bar_prime; idx pads (unat d) }"

definition respond :: "zq \<Rightarrow> zp list \<Rightarrow> zdelta \<Rightarrow> zp list option" where
  "respond a_tilde pads b_bar_prime =
     opt_map (\<lambda>j. do {
       x \<leftarrow> rounded a_tilde j;
       y \<leftarrow> pad pads j b_bar_prime;
       add_p x y }) [0..<DELTA]"

section \<open>Sums over coordinates\<close>

lemma sum_list_zip:
  assumes "length xs = n" and "length ys = n"
  shows "sum_list (map (\<lambda>(x, y). f x y) (zip xs ys)) = (\<Sum>i<n. f (xs ! i) (ys ! i))"
proof -
  have "sum_list (map (\<lambda>(x, y). f x y) (zip xs ys)) = (\<Sum>i = 0..<n. f (xs ! i) (ys ! i))"
    using assms by (subst sum_list_sum_nth) (auto intro: sum.cong)
  then show ?thesis by (simp add: atLeast0LessThan)
qed

lemma dot_sum:
  "length vs = n \<Longrightarrow> length ss = n \<Longrightarrow> dot vs ss = (\<Sum>i<n. unat (vs ! i) * unat (ss ! i))"
  unfolding dot_def by (rule sum_list_zip)

text \<open>The server's signed sum \<open>\<Sum> (1 - 2 sk_i) r_i\<close>, over the integers.\<close>

definition signed_sum :: "u8 list \<Rightarrow> zq list \<Rightarrow> int" where
  "signed_sum ss rs =
     sum_list (map (\<lambda>(s, r). if s = 0 then int (unat r) else - int (unat r)) (zip ss rs))"

lemma signed_sum_sum:
  "length ss = n \<Longrightarrow> length rs = n \<Longrightarrow>
     signed_sum ss rs = (\<Sum>i<n. if ss ! i = 0 then int (unat (rs ! i)) else - int (unat (rs ! i)))"
  unfolding signed_sum_def by (rule sum_list_zip)

text \<open>A term that is subtracted is \<open>q\<close> minus it, so that no term is negative.\<close>

definition sigma_term :: "u8 \<Rightarrow> zq \<Rightarrow> nat" where
  "sigma_term s r = (if s = 0 then unat r else (4096 - unat r) mod 4096)"

lemma sigma_term_cong:
  assumes "unat r < 4096"
  shows "int (sigma_term s r) mod 4096 = (if s = 0 then int (unat r) else - int (unat r)) mod 4096"
proof -
  have "int ((4096 - unat r) mod 4096) mod 4096 = (4096 - int (unat r)) mod 4096"
    using assms by (simp add: zmod_int of_nat_diff)
  then show ?thesis by (simp add: sigma_term_def mod_diff_left_eq [symmetric, of 4096])
qed

lemma sum_list_zip_cong_mod:
  assumes "\<forall>(x, y) \<in> set (zip xs ys). (f x y :: int) mod m = g x y mod m"
  shows "sum_list (map (\<lambda>(x, y). f x y) (zip xs ys)) mod m
           = sum_list (map (\<lambda>(x, y). g x y) (zip xs ys)) mod m"
  using assms
proof (induction xs arbitrary: ys)
  case Nil
  then show ?case by simp
next
  case (Cons x xs)
  show ?case
  proof (cases ys)
    case Nil
    then show ?thesis by simp
  next
    case (Cons y ys')
    with Cons.prems Cons.IH [of ys'] show ?thesis
      by (auto intro: mod_add_cong)
  qed
qed

lemma sub_q_zero:
  assumes "unat r < 4096"
  shows "\<exists>z. sub_q 0 r = Some z \<and> unat z = (4096 - unat r) mod 4096"
  using unat_sub_q [of 0 r] assms by simp

lemma r_sigma_terms:
  assumes "\<forall>r \<in> set rs. unat r < 4096"
  shows "\<exists>terms. opt_map (\<lambda>(s, r). if s = 0 then Some r else sub_q 0 r) (zip ss rs) = Some terms
           \<and> map unat terms = map (\<lambda>(s, r). sigma_term s r) (zip ss rs)"
  using assms
proof (induction ss arbitrary: rs)
  case Nil
  then show ?case by simp
next
  case (Cons s ss)
  show ?case
  proof (cases rs)
    case Nil
    then show ?thesis by simp
  next
    case (Cons r rs')
    with Cons.prems Cons.IH [of rs'] obtain terms where
      "opt_map (\<lambda>(s, r). if s = 0 then Some r else sub_q 0 r) (zip ss rs') = Some terms"
      "map unat terms = map (\<lambda>(s, r). sigma_term s r) (zip ss rs')" by auto
    moreover obtain z where "sub_q 0 r = Some z" and "unat z = (4096 - unat r) mod 4096"
      using sub_q_zero [of r] Cons.prems Cons by auto
    ultimately show ?thesis using Cons by (auto simp: sigma_term_def)
  qed
qed

lemma r_sigma_sum_Some:
  assumes "\<forall>r \<in> set rs. unat r < 4096" and "length rs \<le> 482"
  shows "\<exists>z. r_sigma_sum sk rs = Some z \<and> unat z < 4096
           \<and> int (unat z) = signed_sum (as_bits sk) rs mod 4096"
proof -
  let ?ss = "as_bits sk"
  let ?t = "map (\<lambda>(s, r). sigma_term s r) (zip ?ss rs)"
  obtain terms where terms:
    "opt_map (\<lambda>(s, r). if s = 0 then Some r else sub_q 0 r) (zip ?ss rs) = Some terms"
    "map unat terms = ?t"
    using r_sigma_terms [OF assms(1)] by blast
  have "sum_list ?t \<le> length (zip ?ss rs) * 4096"
  proof (rule sum_list_le_length)
    fix p assume "p \<in> set (zip ?ss rs)"
    then obtain s r where "p = (s, r)" and "r \<in> set rs"
      by (metis set_zip_rightD surj_pair)
    with assms(1) show "(case p of (s, r) \<Rightarrow> sigma_term s r) \<le> 4096"
      by (auto simp: sigma_term_def intro: less_imp_le)
  qed
  also have "\<dots> \<le> 482 * 4096" using assms(2) by simp
  finally have small: "sum_list (map unat (map ucast terms :: u32 list)) < 2 ^ 32"
    by (simp add: comp_def terms(2))
  then have small': "sum_list (map unat (map ucast terms :: u32 list)) < 2 ^ LENGTH(32)" by simp
  have "unat (sum_list (map ucast terms :: u32 list)) = sum_list ?t"
    unfolding unat_sum_list_bound [OF small']
    by (simp add: comp_def terms(2))
  then have nat: "unat (reduce_q (sum_list (map ucast terms))) = sum_list ?t mod 4096"
    by (simp add: unat_reduce_q)
  have "int (sum_list ?t) mod 4096 = signed_sum ?ss rs mod 4096"
  proof -
    have "int (sum_list ?t) = sum_list (map (\<lambda>(s, r). int (sigma_term s r)) (zip ?ss rs))"
      by (simp add: int_sum_list comp_def case_prod_unfold)
    also have "\<dots> mod 4096 = signed_sum ?ss rs mod 4096"
      unfolding signed_sum_def
      by (rule sum_list_zip_cong_mod) (use assms(1) sigma_term_cong in \<open>auto dest: set_zip_rightD\<close>)
    finally show ?thesis .
  qed
  then have "int (unat (reduce_q (sum_list (map ucast terms)))) = signed_sum ?ss rs mod 4096"
    by (simp only: nat zmod_int of_nat_numeral)
  moreover have "unat (reduce_q (sum_list (map ucast terms))) < 4096" by (simp add: nat)
  moreover have "r_sigma_sum sk rs = Some (reduce_q (sum_list (map ucast terms)))"
    by (simp add: r_sigma_sum_def terms(1))
  ultimately show ?thesis by blast
qed

lemma unat_a_sigma_sum:
  assumes "wf_key sk" and "\<forall>x \<in> set e. unat x < 4096" and "length e \<le> 482" and "unat r < 4096"
  shows "unat (a_sigma_sum sk r e) = (dot e (as_bits sk) + unat r) mod 4096"
proof -
  let ?ss = "as_bits sk"
  let ?w = "map (\<lambda>(s, x). ucast (if s = 0 then 0 else x)) (zip ?ss e) :: u32 list"
  have val: "unat (ucast (if s = 0 then 0 else x) :: u32) = unat x * unat s"
    if "s \<in> set ?ss" for s and x :: zq
  proof -
    from wf_key_bound [OF assms(1) that] have "unat s = 0 \<or> unat s = 1" by linarith
    then show ?thesis by (auto simp: unat_eq_zero)
  qed
  have "map unat ?w = map (\<lambda>(s, x). unat x * unat s) (zip ?ss e)"
    unfolding map_map by (rule map_cong [OF refl]) (use val in \<open>auto dest: set_zip_leftD\<close>)
  moreover have "sum_list (map (\<lambda>(s, x). unat x * unat s) (zip ?ss e)) = dot e ?ss"
    unfolding dot_def by (subst zip_commute) (simp add: comp_def case_prod_unfold)
  ultimately have sum: "sum_list (map unat ?w) = dot e ?ss" by (simp only:)
  have "dot e ?ss \<le> length e * 4095"
    by (rule dot_bound) (use assms(2) wf_key_bound [OF assms(1)] in auto)
  also have "\<dots> \<le> 482 * 4095" using assms(3) by simp
  finally have bound: "dot e ?ss \<le> 482 * 4095" .
  then have "unat (sum_list ?w) = dot e ?ss"
    by (subst unat_sum_list_bound) (simp_all only: sum, simp)
  with bound assms(4) have "unat (sum_list ?w + ucast r) = dot e ?ss + unat r"
    by (simp add: unat_word_ariths)
  then show ?thesis by (simp add: a_sigma_sum_def unat_reduce_q)
qed

section \<open>The response\<close>

lemma unat_of_nat_delta: "j < 16 \<Longrightarrow> unat (of_nat j :: zdelta) = j"
  by (simp add: unat_of_nat_u8)

lemma rounded_Some:
  assumes "unat a < 4096" and "j < 16"
  shows "\<exists>x. rounded a j = Some x
           \<and> unat x = ((unat a + 4096 - j) mod 4096 + 7) div 16 mod 256"
proof -
  have j: "unat (of_nat j :: zq) = j" using assms(2) by (simp add: unat_of_nat_u16)
  then obtain d where d: "sub_q a (of_nat j) = Some d" "unat d = (unat a + 4096 - j) mod 4096"
    using unat_sub_q [of a "of_nat j"] assms by auto
  then have "unat d < 4096" by simp
  from unat_round_zq_to_zp [OF this] d show ?thesis by (auto simp: rounded_def)
qed

lemma pad_Some:
  assumes "j < 16" and "unat b < 16" and "length pads = 16"
  shows "pad pads j b = Some (pads ! ((j + 16 - unat b) mod 16))"
proof -
  obtain d where "sub_delta (of_nat j) b = Some d" "unat d = (j + 16 - unat b) mod 16"
    using unat_sub_delta [of "of_nat j" b] assms by (auto simp: unat_of_nat_delta)
  with assms(3) show ?thesis by (simp add: pad_def)
qed

lemma respond_Some:
  assumes "unat a < 4096" and "unat b < 16" and "length pads = 16"
  shows "\<exists>y. respond a pads b = Some y \<and> length y = 16 \<and>
           (\<forall>j < 16. unat (y ! j) = (((unat a + 4096 - j) mod 4096 + 7) div 16
                        + unat (pads ! ((j + 16 - unat b) mod 16))) mod 256)"
proof -
  let ?f = "\<lambda>j. do { x \<leftarrow> rounded a j; y \<leftarrow> pad pads j b; add_p x y }"
  have each: "\<exists>z. ?f j = Some z \<and> unat z = (((unat a + 4096 - j) mod 4096 + 7) div 16
                 + unat (pads ! ((j + 16 - unat b) mod 16))) mod 256" if "j < 16" for j
  proof -
    obtain x where x: "rounded a j = Some x"
      "unat x = ((unat a + 4096 - j) mod 4096 + 7) div 16 mod 256"
      using rounded_Some [OF assms(1) \<open>j < 16\<close>] by blast
    obtain z where "add_p x (pads ! ((j + 16 - unat b) mod 16)) = Some z"
      "unat z = (unat x + unat (pads ! ((j + 16 - unat b) mod 16))) mod 256"
      using unat_add_p by blast
    with x pad_Some [OF \<open>j < 16\<close> assms(2,3)] show ?thesis by (simp add: mod_add_left_eq)
  qed
  from opt_map_upt [of 16, OF each] show ?thesis by (simp add: respond_def)
qed

end
