(* ===== verification/Statements.thy ===== *)
theory Statements
  imports BlindEval
begin

text \<open>
  \<open>pool-voprf/src/commitments.rs\<close>, \<open>constraints/*.rs\<close> and \<open>statements/*.rs\<close>: what the server of a
  VOPRF proves. A constraint is a relation between values, a statement is public values, and
  \<open>holds_for\<close> ties the statement to a witness.

  The trait \<open>Commitment\<close> is an argument: \<open>commit\<close> of the kind the constraint uses. The arrays of the
  source are lists, whose lengths the \<open>wf\<close> predicates state. A guard of the source that excludes a
  panic comes first in its conjunction here too, so a panic could only make a constraint fail to
  hold, and \<open>r_sigma_sum\<close> and \<open>respond\<close> are proved not to panic behind their guards.
\<close>

section \<open>What each commitment commits to (commitments.rs)\<close>

type_synonym commitment_randomness = "128 word"

record masks_input =
  mi_masks :: "zq list"
  mi_randomness :: commitment_randomness

record mask_sums_input =
  msi_r_sigma_sums :: "zq list"
  msi_randomness :: commitment_randomness

record pad_input =
  pi_pad :: zp
  pi_randomness :: commitment_randomness

section \<open>The constraints (constraints/*.rs)\<close>

text \<open>(K) \<open>pk = Commit(Key, sk)\<close>.\<close>

definition key_holds :: "(secret_key \<Rightarrow> 'pk) \<Rightarrow> 'pk \<Rightarrow> secret_key \<Rightarrow> bool" where
  "key_holds commit pk sk \<longleftrightarrow> commit sk = pk"

text \<open>(S) \<open>c_(b_bar_i xor sk_i, i) = Commit(Masks, r_(b_i, i), ot_block_(b_i, i))\<close>.\<close>

definition server_masks_holds ::
  "(masks_input \<Rightarrow> 'c) \<Rightarrow> ('c \<times> 'c) list \<Rightarrow> u8 list \<Rightarrow> secret_key \<Rightarrow> zq list list
     \<Rightarrow> commitment_randomness list \<Rightarrow> bool" where
  "server_masks_holds commit c b_bar sk masks ot_blocks \<longleftrightarrow>
     list_all (\<lambda>i.
       let b_bar_i = b_bar ! i;
           b_i = b_bar_i XOR (as_bits sk ! i);
           input = \<lparr> mi_masks = masks ! i, mi_randomness = ot_blocks ! i \<rparr>
       in b_bar_i \<le> 1
          \<and> (if b_i = 0 then fst (c ! i) = commit input
             else b_i = 1 \<and> snd (c ! i) = commit input)) [0..<par_N]"

text \<open>(T) \<open>r_tilde^k = Sum_i (1 - 2 sk_i) r^k_(b_i, i) mod q\<close>.\<close>

definition column :: "nat \<Rightarrow> 'a list list \<Rightarrow> 'a list" where
  "column k rows = map (\<lambda>row. row ! k) rows"

definition sum_of_masks_holds :: "secret_key \<Rightarrow> zq list list \<Rightarrow> zq list \<Rightarrow> bool" where
  "sum_of_masks_holds sk masks r_sigma_sums \<longleftrightarrow>
     list_all (\<lambda>r. r < par_Q) (concat masks) \<and>
     list_all (\<lambda>k. r_sigma_sum sk (column k masks) = Some (r_sigma_sums ! k))
       [0..<RUNS_PER_EVALUATION]"

text \<open>(M) \<open>m = Commit(MaskSum, r_tilde^0 .. , randomness)\<close>.\<close>

definition mask_sum_holds ::
  "(mask_sums_input \<Rightarrow> 'm) \<Rightarrow> 'm \<Rightarrow> zq list \<Rightarrow> commitment_randomness \<Rightarrow> bool" where
  "mask_sum_holds commit m r_sigma_sums randomness \<longleftrightarrow>
     commit \<lparr> msi_r_sigma_sums = r_sigma_sums, msi_randomness = randomness \<rparr> = m"

text \<open>(P) \<open>d_j = Commit(Pad, r'_j, ot_block'_j)\<close>.\<close>

definition pads_holds ::
  "(pad_input \<Rightarrow> 'd) \<Rightarrow> 'd list \<Rightarrow> zp list \<Rightarrow> commitment_randomness list \<Rightarrow> bool" where
  "pads_holds commit d pads randomness \<longleftrightarrow>
     list_all (\<lambda>j. commit \<lparr> pi_pad = pads ! j, pi_randomness = randomness ! j \<rparr> = d ! j)
       [0..<DELTA]"

text \<open>(A): every key and every \<open>r_tilde\<close> have a sum, so it only asks for operands in range.\<close>

definition sum_holds :: "zq list \<Rightarrow> zq \<Rightarrow> bool" where
  "sum_holds e r_tilde \<longleftrightarrow> r_tilde < par_Q \<and> list_all (\<lambda>x. x < par_Q) e"

text \<open>(R): every entry of the response is computed correctly.\<close>

definition response_holds :: "zp list \<Rightarrow> zdelta \<Rightarrow> zq \<Rightarrow> zp list \<Rightarrow> bool" where
  "response_holds y b_bar_prime a_tilde pads \<longleftrightarrow>
     unat b_bar_prime < DELTA \<and> a_tilde < par_Q \<and> respond a_tilde pads b_bar_prime = Some y"

section \<open>The setup statement (statements/setup.rs)\<close>

record 'pk setup_statement =
  ss_pk :: 'pk

definition setup_for_key :: "(secret_key \<Rightarrow> 'pk) \<Rightarrow> secret_key \<Rightarrow> 'pk setup_statement" where
  "setup_for_key commit sk = \<lparr> ss_pk = commit sk \<rparr>"

definition setup_holds_for ::
  "(secret_key \<Rightarrow> 'pk) \<Rightarrow> 'pk setup_statement \<Rightarrow> secret_key \<Rightarrow> bool" where
  "setup_holds_for commit st sk \<longleftrightarrow> key_holds commit (ss_pk st) sk"

section \<open>The preprocessing statement (statements/preprocessing.rs)\<close>

record ('c, 'm) evaluation_statement =
  es_c :: "('c \<times> 'c) list"
  es_m :: 'm

record ('pk, 'c, 'm) preprocessing_statement =
  ps_pk :: 'pk
  ps_b_bar :: "u8 list"
  ps_evaluations :: "('c, 'm) evaluation_statement list"

record evaluation_witness =
  ew_masks :: "zq list list"
  ew_r_sigma_sums :: "zq list"
  ew_m_randomness :: commitment_randomness

record preprocessing_witness =
  pw_sk :: secret_key
  pw_ot_blocks :: "commitment_randomness list"
  pw_evaluations :: "evaluation_witness list"

definition preprocessing_honest ::
  "(secret_key \<Rightarrow> 'pk) \<Rightarrow> (mask_sums_input \<Rightarrow> 'm) \<Rightarrow> preprocessing_witness \<Rightarrow> u8 list
     \<Rightarrow> ('c \<times> 'c) list list \<Rightarrow> ('pk, 'c, 'm) preprocessing_statement" where
  "preprocessing_honest commit_pk commit_m w b_bar cs =
     \<lparr> ps_pk = commit_pk (pw_sk w), ps_b_bar = b_bar,
       ps_evaluations = map (\<lambda>(c, ev). \<lparr> es_c = c,
           es_m = commit_m \<lparr> msi_r_sigma_sums = ew_r_sigma_sums ev,
                             msi_randomness = ew_m_randomness ev \<rparr> \<rparr>)
         (zip cs (pw_evaluations w)) \<rparr>"

definition evaluation_holds_for ::
  "(masks_input \<Rightarrow> 'c) \<Rightarrow> (mask_sums_input \<Rightarrow> 'm) \<Rightarrow> u8 list \<Rightarrow> secret_key
     \<Rightarrow> commitment_randomness list \<Rightarrow> ('c, 'm) evaluation_statement \<Rightarrow> evaluation_witness \<Rightarrow> bool"
where
  "evaluation_holds_for commit_c commit_m b_bar sk ot_blocks st w \<longleftrightarrow>
     server_masks_holds commit_c (es_c st) b_bar sk (ew_masks w) ot_blocks \<and>
     sum_of_masks_holds sk (ew_masks w) (ew_r_sigma_sums w) \<and>
     mask_sum_holds commit_m (es_m st) (ew_r_sigma_sums w) (ew_m_randomness w)"

definition preprocessing_holds_for ::
  "(secret_key \<Rightarrow> 'pk) \<Rightarrow> (masks_input \<Rightarrow> 'c) \<Rightarrow> (mask_sums_input \<Rightarrow> 'm)
     \<Rightarrow> ('pk, 'c, 'm) preprocessing_statement \<Rightarrow> preprocessing_witness \<Rightarrow> bool" where
  "preprocessing_holds_for commit_pk commit_c commit_m st w \<longleftrightarrow>
     key_holds commit_pk (ps_pk st) (pw_sk w) \<and>
     ps_evaluations st \<noteq> [] \<and>
     length (ps_evaluations st) = length (pw_evaluations w) \<and>
     list_all (\<lambda>(ev, ew).
         evaluation_holds_for commit_c commit_m (ps_b_bar st) (pw_sk w) (pw_ot_blocks w) ev ew)
       (zip (ps_evaluations st) (pw_evaluations w))"

section \<open>The online statement (statements/online.rs)\<close>

record 'd run_statement =
  run_d :: "'d list"
  run_e :: "zq list"
  run_b_bar_prime :: zdelta
  run_y :: "zp list"

record ('pk, 'm, 'd) online_statement =
  os_pk :: 'pk
  os_m :: 'm
  os_runs :: "'d run_statement list"

record run_witness =
  rw_r_sigma_sum :: zq
  rw_pads :: "zp list"
  rw_d_randomness :: "commitment_randomness list"

record online_witness =
  ow_sk :: secret_key
  ow_m_randomness :: commitment_randomness
  ow_runs :: "run_witness list"

definition ow_r_sigma_sums :: "online_witness \<Rightarrow> zq list" where
  "ow_r_sigma_sums w = map rw_r_sigma_sum (ow_runs w)"

definition run_honest ::
  "(pad_input \<Rightarrow> 'd) \<Rightarrow> secret_key \<Rightarrow> run_witness \<Rightarrow> zq list \<Rightarrow> zdelta \<Rightarrow> 'd run_statement option"
where
  "run_honest commit_d sk w e b_bar_prime = do {
     y \<leftarrow> respond (a_sigma_sum sk (rw_r_sigma_sum w) e) (rw_pads w) b_bar_prime;
     Some \<lparr> run_d = map (\<lambda>j. commit_d \<lparr> pi_pad = rw_pads w ! j,
                                         pi_randomness = rw_d_randomness w ! j \<rparr>) [0..<DELTA],
            run_e = e, run_b_bar_prime = b_bar_prime, run_y = y \<rparr> }"

definition online_honest ::
  "(secret_key \<Rightarrow> 'pk) \<Rightarrow> (mask_sums_input \<Rightarrow> 'm) \<Rightarrow> (pad_input \<Rightarrow> 'd) \<Rightarrow> online_witness
     \<Rightarrow> zq list list \<Rightarrow> zdelta list \<Rightarrow> ('pk, 'm, 'd) online_statement option" where
  "online_honest commit_pk commit_m commit_d w e b_bar_prime = do {
     runs \<leftarrow> opt_map (\<lambda>k. run_honest commit_d (ow_sk w) (ow_runs w ! k) (e ! k) (b_bar_prime ! k))
               [0..<RUNS_PER_EVALUATION];
     Some \<lparr> os_pk = commit_pk (ow_sk w),
            os_m = commit_m \<lparr> msi_r_sigma_sums = ow_r_sigma_sums w,
                              msi_randomness = ow_m_randomness w \<rparr>,
            os_runs = runs \<rparr> }"

definition run_holds_for ::
  "(pad_input \<Rightarrow> 'd) \<Rightarrow> secret_key \<Rightarrow> 'd run_statement \<Rightarrow> run_witness \<Rightarrow> bool" where
  "run_holds_for commit_d sk st w \<longleftrightarrow>
     pads_holds commit_d (run_d st) (rw_pads w) (rw_d_randomness w) \<and>
     sum_holds (run_e st) (rw_r_sigma_sum w) \<and>
     response_holds (run_y st) (run_b_bar_prime st)
       (a_sigma_sum sk (rw_r_sigma_sum w) (run_e st)) (rw_pads w)"

definition online_holds_for ::
  "(secret_key \<Rightarrow> 'pk) \<Rightarrow> (mask_sums_input \<Rightarrow> 'm) \<Rightarrow> (pad_input \<Rightarrow> 'd)
     \<Rightarrow> ('pk, 'm, 'd) online_statement \<Rightarrow> online_witness \<Rightarrow> bool" where
  "online_holds_for commit_pk commit_m commit_d st w \<longleftrightarrow>
     key_holds commit_pk (os_pk st) (ow_sk w) \<and>
     mask_sum_holds commit_m (os_m st) (ow_r_sigma_sums w) (ow_m_randomness w) \<and>
     list_all (\<lambda>(run, rw). run_holds_for commit_d (ow_sk w) run rw) (zip (os_runs st) (ow_runs w))"

section \<open>The array lengths of the source\<close>

definition wf_run_witness :: "run_witness \<Rightarrow> bool" where
  "wf_run_witness w \<longleftrightarrow> length (rw_pads w) = DELTA \<and> length (rw_d_randomness w) = DELTA"

definition wf_online_witness :: "online_witness \<Rightarrow> bool" where
  "wf_online_witness w \<longleftrightarrow> wf_key (ow_sk w) \<and> length (ow_runs w) = RUNS_PER_EVALUATION \<and>
     (\<forall>rw \<in> set (ow_runs w). wf_run_witness rw)"

definition wf_run_statement :: "'d run_statement \<Rightarrow> bool" where
  "wf_run_statement st \<longleftrightarrow>
     length (run_d st) = DELTA \<and> length (run_e st) = par_N \<and> length (run_y st) = DELTA"

definition wf_online_statement :: "('pk, 'm, 'd) online_statement \<Rightarrow> bool" where
  "wf_online_statement st \<longleftrightarrow> length (os_runs st) = RUNS_PER_EVALUATION \<and>
     (\<forall>run \<in> set (os_runs st). wf_run_statement run)"

definition wf_masks :: "zq list list \<Rightarrow> bool" where
  "wf_masks masks \<longleftrightarrow>
     length masks = par_N \<and> (\<forall>row \<in> set masks. length row = RUNS_PER_EVALUATION)"

definition wf_evaluation_witness :: "evaluation_witness \<Rightarrow> bool" where
  "wf_evaluation_witness w \<longleftrightarrow>
     wf_masks (ew_masks w) \<and> length (ew_r_sigma_sums w) = RUNS_PER_EVALUATION"

definition wf_preprocessing_witness :: "preprocessing_witness \<Rightarrow> bool" where
  "wf_preprocessing_witness w \<longleftrightarrow> wf_key (pw_sk w) \<and> length (pw_ot_blocks w) = par_N \<and>
     (\<forall>ew \<in> set (pw_evaluations w). wf_evaluation_witness ew)"

section \<open>An honest statement holds\<close>

lemma RUNS_16 [simp]: "RUNS_PER_EVALUATION = 16"
  by (simp add: RUNS_PER_EVALUATION_def OUTPUT_ELEMENTS_def H_ROWS_def)

lemma unat_a_sigma_less: "unat (a_sigma_sum sk r e) < 4096"
  by (simp add: a_sigma_sum_def unat_reduce_q)

lemma run_honest_holds:
  assumes "wf_run_witness w" and "unat (rw_r_sigma_sum w) < 4096"
    and "\<forall>x \<in> set e. unat x < 4096" and "length e = par_N" and "unat b < 16"
  shows "\<exists>st. run_honest commit_d sk w e b = Some st \<and> run_holds_for commit_d sk st w
           \<and> wf_run_statement st \<and> run_e st = e \<and> run_b_bar_prime st = b"
proof -
  let ?a = "a_sigma_sum sk (rw_r_sigma_sum w) e"
  have "length (rw_pads w) = 16" using assms(1) by (simp add: wf_run_witness_def)
  from respond_Some [OF unat_a_sigma_less assms(5) this] obtain y where
    y: "respond ?a (rw_pads w) b = Some y" and "length y = 16" by blast
  with assms(2-5) unat_a_sigma_less [of sk "rw_r_sigma_sum w" e] show ?thesis
    by (auto simp: run_honest_def run_holds_for_def pads_holds_def sum_holds_def
        response_holds_def less_par_Q list_all_iff wf_run_statement_def simp del: upt_Suc)
qed

lemma online_honest_holds:
  assumes "wf_online_witness w"
    and "\<forall>rw \<in> set (ow_runs w). unat (rw_r_sigma_sum rw) < 4096"
    and "\<forall>k < RUNS_PER_EVALUATION. length (e ! k) = par_N \<and> (\<forall>x \<in> set (e ! k). unat x < 4096)"
    and "\<forall>k < RUNS_PER_EVALUATION. unat (b ! k) < 16"
  shows "\<exists>st. online_honest commit_pk commit_m commit_d w e b = Some st
           \<and> online_holds_for commit_pk commit_m commit_d st w \<and> wf_online_statement st
           \<and> (\<forall>k < RUNS_PER_EVALUATION.
                 run_honest commit_d (ow_sk w) (ow_runs w ! k) (e ! k) (b ! k) = Some (os_runs st ! k))"
proof -
  let ?f = "\<lambda>k. run_honest commit_d (ow_sk w) (ow_runs w ! k) (e ! k) (b ! k)"
  let ?P = "\<lambda>k st. ?f k = Some st \<and> run_holds_for commit_d (ow_sk w) st (ow_runs w ! k)
              \<and> wf_run_statement st"
  have len: "length (ow_runs w) = 16" using assms(1) by (simp add: wf_online_witness_def)
  have "\<exists>st. ?f k = Some st \<and> ?P k st" if "k < 16" for k
  proof -
    have "ow_runs w ! k \<in> set (ow_runs w)" using that len by simp
    with assms(1,2) have "wf_run_witness (ow_runs w ! k)"
      and "unat (rw_r_sigma_sum (ow_runs w ! k)) < 4096" by (simp_all add: wf_online_witness_def)
    from run_honest_holds [OF this] assms(3,4) that show ?thesis by fastforce
  qed
  from opt_map_upt [of 16 ?f ?P, OF this] obtain runs where
    runs: "opt_map ?f [0..<16] = Some runs" "length runs = 16" "\<forall>k < 16. ?P k (runs ! k)" by blast
  have "list_all (\<lambda>(run, rw). run_holds_for commit_d (ow_sk w) run rw) (zip runs (ow_runs w))"
    using runs(2,3) len by (auto simp: list_all_length)
  moreover have "\<forall>run \<in> set runs. wf_run_statement run"
    using runs(2,3) by (auto simp: in_set_conv_nth)
  ultimately show ?thesis
    using runs by (auto simp: online_honest_def online_holds_for_def key_holds_def
        mask_sum_holds_def wf_online_statement_def simp del: upt_Suc)
qed

text \<open>What the server's checks and its own sums give for one evaluation.\<close>

definition evaluation_consistent ::
  "(masks_input \<Rightarrow> 'c) \<Rightarrow> u8 list \<Rightarrow> preprocessing_witness \<Rightarrow> ('c \<times> 'c) list \<Rightarrow> evaluation_witness \<Rightarrow> bool"
where
  "evaluation_consistent commit_c b_bar w c ew \<longleftrightarrow>
     server_masks_holds commit_c c b_bar (pw_sk w) (ew_masks ew) (pw_ot_blocks w) \<and>
     sum_of_masks_holds (pw_sk w) (ew_masks ew) (ew_r_sigma_sums ew)"

lemma preprocessing_honest_holds:
  assumes "cs \<noteq> []" and "length cs = length (pw_evaluations w)"
    and "\<forall>v < length cs. evaluation_consistent commit_c b_bar w (cs ! v) (pw_evaluations w ! v)"
  shows "preprocessing_holds_for commit_pk commit_c commit_m
           (preprocessing_honest commit_pk commit_m w b_bar cs) w"
proof -
  let ?st = "preprocessing_honest commit_pk commit_m w b_bar cs"
  have len: "length (ps_evaluations ?st) = length cs"
    using assms(2) by (simp add: preprocessing_honest_def)
  have "evaluation_holds_for commit_c commit_m b_bar (pw_sk w) (pw_ot_blocks w)
          (ps_evaluations ?st ! v) (pw_evaluations w ! v)" if "v < length cs" for v
    using assms(2,3) that
    by (simp add: preprocessing_honest_def evaluation_holds_for_def evaluation_consistent_def
        mask_sum_holds_def)
  with assms(1,2) len show ?thesis
    by (auto simp: preprocessing_holds_for_def key_holds_def list_all_length
        preprocessing_honest_def)
qed

lemma setup_honest_holds: "setup_holds_for commit (setup_for_key commit sk) sk"
  by (simp add: setup_holds_for_def setup_for_key_def key_holds_def)

end
