(* ===== verification/Voprf.thy ===== *)
theory Voprf
  imports Expand Statements
begin

text \<open>
  \<open>pool-oprf/src/voprf.rs\<close>: the layer between the protocol and the proof system, with the row
  messages of \<open>online.rs\<close> it reads. The streams of the preprocessing are arguments here (the list of
  messages received) and results (the list of messages sent); \<open>Protocol\<close> puts them on channels.

  The record \<open>crypto\<close> collects what the protocol is given: BLAKE3 and the OT layer from outside the
  repository, and \<open>commit\<close>, \<open>prove\<close> and \<open>verify\<close> of the backend (the commitments of the Plonky3
  backend are modelled in \<open>Plonky3Commitments\<close>). All four kinds of commitment are digests of one
  type, as in the source.
\<close>

section \<open>The backend\<close>

record ('c, 'proof, 'pe, 've) crypto =
  cr_xof :: xof
  cr_hash :: hash
  cr_base_ot_count :: nat
  commit_key :: "secret_key \<Rightarrow> 'c"
  commit_masks :: "masks_input \<Rightarrow> 'c"
  commit_mask_sum :: "mask_sums_input \<Rightarrow> 'c"
  commit_pad :: "pad_input \<Rightarrow> 'c"
  prove_setup :: "'c setup_statement \<Rightarrow> secret_key \<Rightarrow> ('pe, 'proof) res"
  verify_setup :: "'c setup_statement \<Rightarrow> 'proof \<Rightarrow> ('ve, unit) res"
  prove_preprocessing ::
    "('c, 'c, 'c) preprocessing_statement \<Rightarrow> preprocessing_witness \<Rightarrow> ('pe, 'proof) res"
  verify_preprocessing :: "('c, 'c, 'c) preprocessing_statement \<Rightarrow> 'proof \<Rightarrow> ('ve, unit) res"
  prove_online_st :: "('c, 'c, 'c) online_statement \<Rightarrow> online_witness \<Rightarrow> ('pe, 'proof) res"
  verify_online_st :: "('c, 'c, 'c) online_statement \<Rightarrow> 'proof \<Rightarrow> ('ve, unit) res"

section \<open>Rows of the online messages (online.rs)\<close>

record row_request =
  row_e :: "zq list"
  row_b_bar_prime :: zdelta

record row_response =
  resp_y :: "zp list"
  resp_ctr :: nat

section \<open>Setup\<close>

definition MAX_VOPRF_BATCH_EVALUATIONS :: nat where
  "MAX_VOPRF_BATCH_EVALUATIONS = 8"

datatype 'c verified_key = VerifiedKey (verified_pk: 'c)

definition verified_key_verify ::
  "('c, 'proof, 'pe, 've) crypto \<Rightarrow> 'c \<Rightarrow> 'proof \<Rightarrow> ('ve, 'c verified_key) res" where
  "verified_key_verify cr pk proof =
     res_bind (verify_setup cr \<lparr> ss_pk = pk \<rparr> proof) (\<lambda>_. Ok (VerifiedKey pk))"

definition voprf_setup ::
  "('c, 'proof, 'pe, 've) crypto \<Rightarrow> secret_key \<Rightarrow> ('pe, 'c \<times> 'proof) res" where
  "voprf_setup cr sk =
     (let statement = setup_for_key (commit_key cr) sk
      in res_bind (prove_setup cr statement sk) (\<lambda>proof. Ok (ss_pk statement, proof)))"

section \<open>Commitments from OT blocks\<close>

definition randomness :: "block \<Rightarrow> commitment_randomness" where
  "randomness ot_block = of_nat (from_le_bytes ot_block)"

definition first_run :: "nat \<Rightarrow> nat" where
  "first_run v = v * RUNS_PER_EVALUATION"

definition masks_commitment :: "('c, 'proof, 'pe, 've) crypto \<Rightarrow> nat \<Rightarrow> block \<Rightarrow> 'c" where
  "masks_commitment cr v ot_block =
     commit_masks cr \<lparr> mi_masks = expand (cr_xof cr) ot_block (first_run v),
                       mi_randomness = randomness ot_block \<rparr>"

definition pad_commitment :: "('c, 'proof, 'pe, 've) crypto \<Rightarrow> block \<Rightarrow> 'c option" where
  "pad_commitment cr ot_block = do {
     pad \<leftarrow> r_prime_from_block ot_block;
     Some (commit_pad cr \<lparr> pi_pad = pad, pi_randomness = randomness ot_block \<rparr>) }"

datatype domain = Key | MaskSum | Pad | Masks | MaskSumRandomness

fun domain_value :: "domain \<Rightarrow> u32" where
  "domain_value Key = 1"
| "domain_value MaskSum = 2"
| "domain_value Pad = 3"
| "domain_value Masks = 4"
| "domain_value MaskSumRandomness = 5"

definition mask_sum_randomness :: "hash \<Rightarrow> block list \<Rightarrow> commitment_randomness" where
  "mask_sum_randomness blake3 ot_blocks =
     of_nat (from_le_bytes (first_chunk 16
       (blake3 (to_le_bytes 4 (unat (domain_value MaskSumRandomness)) @ concat ot_blocks))))"

section \<open>What each side keeps\<close>

record 'c client_voprf =
  cv_pk :: "'c verified_key"
  cv_m :: "'c list"
  cv_d :: "'c list list"

record server_voprf =
  sv_delta_ot_blocks :: "block list list"

definition online_statement_of ::
  "'c client_voprf \<Rightarrow> nat \<Rightarrow> row_request list \<Rightarrow> ('c, 'c, 'c) online_statement option" where
  "online_statement_of cv first rows = do {
     m \<leftarrow> idx (cv_m cv) (first div RUNS_PER_EVALUATION);
     runs \<leftarrow> opt_map (\<lambda>k. do {
         d \<leftarrow> idx (cv_d cv) (first + k);
         row \<leftarrow> idx rows k;
         Some \<lparr> run_d = d, run_e = row_e row, run_b_bar_prime = row_b_bar_prime row,
                run_y = replicate DELTA 0 \<rparr> }) [0..<RUNS_PER_EVALUATION];
     Some \<lparr> os_pk = verified_pk (cv_pk cv), os_m = m, os_runs = runs \<rparr> }"

fun set_ys :: "'d run_statement list \<Rightarrow> row_response list \<Rightarrow> 'd run_statement list" where
  "set_ys (run # runs) (row # rows) = run\<lparr> run_y := resp_y row \<rparr> # set_ys runs rows"
| "set_ys runs [] = runs"
| "set_ys [] rows = []"

definition verify_online ::
  "('c, 'proof, 'pe, 've) crypto \<Rightarrow> ('c, 'c, 'c) online_statement \<Rightarrow> row_response list \<Rightarrow> 'proof
     \<Rightarrow> ('ve, unit) res" where
  "verify_online cr statement rows proof =
     verify_online_st cr (statement\<lparr> os_runs := set_ys (os_runs statement) rows \<rparr>) proof"

definition run_witness_of :: "block list \<Rightarrow> zq \<Rightarrow> run_witness option" where
  "run_witness_of ot_blocks r_tilde = do {
     pads \<leftarrow> opt_map (\<lambda>j. do { b \<leftarrow> idx ot_blocks j; r_prime_from_block b }) [0..<DELTA];
     d_randomness \<leftarrow> opt_map (\<lambda>j. map_option randomness (idx ot_blocks j)) [0..<DELTA];
     Some \<lparr> rw_r_sigma_sum = r_tilde, rw_pads = pads, rw_d_randomness = d_randomness \<rparr> }"

definition online_witness_of ::
  "hash \<Rightarrow> server_voprf \<Rightarrow> secret_key \<Rightarrow> nat \<Rightarrow> zq list \<Rightarrow> online_witness option" where
  "online_witness_of blake3 sv sk first r_sigma_sums = do {
     blocks0 \<leftarrow> idx (sv_delta_ot_blocks sv) first;
     runs \<leftarrow> opt_map (\<lambda>k. do {
         ot_blocks \<leftarrow> idx (sv_delta_ot_blocks sv) (first + k);
         r_tilde \<leftarrow> idx r_sigma_sums k;
         run_witness_of ot_blocks r_tilde }) [0..<RUNS_PER_EVALUATION];
     Some \<lparr> ow_sk = sk, ow_m_randomness = mask_sum_randomness blake3 blocks0, ow_runs = runs \<rparr> }"

definition prove_online ::
  "('c, 'proof, 'pe, 've) crypto \<Rightarrow> server_voprf \<Rightarrow> secret_key \<Rightarrow> nat \<Rightarrow> row_request list \<Rightarrow> zq list
     \<Rightarrow> ('pe, 'proof) res" where
  "prove_online cr sv sk first rows r_sigma_sums =
     res_bind (expect (online_witness_of (cr_hash cr) sv sk first r_sigma_sums)) (\<lambda>witness.
     res_bind (expect (opt_map (\<lambda>k. map_option row_e (idx rows k)) [0..<RUNS_PER_EVALUATION])) (\<lambda>e.
     res_bind (expect (opt_map (\<lambda>k. map_option row_b_bar_prime (idx rows k))
                 [0..<RUNS_PER_EVALUATION])) (\<lambda>b_bar_prime.
     res_bind (expect (online_honest (commit_key cr) (commit_mask_sum cr) (commit_pad cr) witness e
                 b_bar_prime)) (\<lambda>statement.
     prove_online_st cr statement witness))))"

section \<open>The preprocessing of a VOPRF\<close>

text \<open>\<open>PreprocError\<close>. The errors of the OT, the connection and the codec carry no detail.\<close>

datatype ('pe, 've) preproc_error =
    OtFailed | ConnectionFailed | IoFailed | UnexpectedClose | Malformed string | ZeroTau
  | VoprfTauTooSmall nat | TauMismatch nat nat | MasksMismatch | PadsMismatch
  | PreprocProve 'pe | PreprocVerify 've

text \<open>Client, \<open>send_masks_commitments\<close>: the messages \<open>c^v\<close>, in order.\<close>

definition masks_commitments ::
  "('c, 'proof, 'pe, 've) crypto \<Rightarrow> (block \<times> block) list \<Rightarrow> nat \<Rightarrow> ('c \<times> 'c) list list option" where
  "masks_commitments cr ot_blocks evaluations =
     opt_map (\<lambda>v. opt_map (\<lambda>i. map_option (\<lambda>(b0, b1). (masks_commitment cr v b0, masks_commitment cr v b1))
                             (idx ot_blocks i)) [0..<par_N])
       [0..<evaluations]"

text \<open>Server, the check of \<open>receive_masks_commitments\<close>: \<open>None\<close> is an index out of range.\<close>

definition masks_match ::
  "('c, 'proof, 'pe, 've) crypto \<Rightarrow> rs_entry list \<Rightarrow> ('c \<times> 'c) list list \<Rightarrow> bool" where
  "masks_match cr r_s c \<longleftrightarrow>
     list_all (\<lambda>(v, c_v). list_all (\<lambda>(entry, c_i).
         (if rs_b entry = 0 then fst c_i else snd c_i) = masks_commitment cr v (rs_ot_block entry))
       (zip r_s c_v)) (enumerate 0 c)"

text \<open>Server, \<open>send_pads_commitments\<close>: the messages \<open>d^(v, 0) ..\<close> of each evaluation, in order.\<close>

definition pads_commitments ::
  "('c, 'proof, 'pe, 've) crypto \<Rightarrow> block list list \<Rightarrow> nat \<Rightarrow> 'c list list list option" where
  "pads_commitments cr delta_ot_blocks evaluations =
     opt_map (\<lambda>v.
       if (v + 1) * RUNS_PER_EVALUATION \<le> length delta_ot_blocks then
         opt_map (\<lambda>ot_blocks. opt_map (\<lambda>j. do { b \<leftarrow> idx ot_blocks j; pad_commitment cr b }) [0..<DELTA])
           (take RUNS_PER_EVALUATION (drop (v * RUNS_PER_EVALUATION) delta_ot_blocks))
       else None) [0..<evaluations]"

text \<open>Client, the check of one run in \<open>receive_pads_commitments\<close>, and of the runs of one message.\<close>

definition check_pads ::
  "('c, 'proof, 'pe, 've) crypto \<Rightarrow> block list \<Rightarrow> zdelta list \<Rightarrow> nat \<Rightarrow> 'c list
     \<Rightarrow> (('pe, 've) preproc_error, unit) res"
where
  "check_pads cr ot_blocks choices run d =
     res_bind (expect (do { choice \<leftarrow> idx choices run; b \<leftarrow> idx ot_blocks run;
                            ours \<leftarrow> pad_commitment cr b; theirs \<leftarrow> idx d (unat choice);
                            Some (theirs = ours) })) (\<lambda>equal.
     if equal then Ok () else Err PadsMismatch)"

fun check_pads_all ::
  "('c, 'proof, 'pe, 've) crypto \<Rightarrow> block list \<Rightarrow> zdelta list \<Rightarrow> nat \<Rightarrow> 'c list list
     \<Rightarrow> (('pe, 've) preproc_error, unit) res" where
  "check_pads_all cr ot_blocks choices run [] = Ok ()"
| "check_pads_all cr ot_blocks choices run (d # ds) =
     res_bind (check_pads cr ot_blocks choices run d) (\<lambda>_.
     check_pads_all cr ot_blocks choices (Suc run) ds)"

text \<open>The server's masks of evaluation \<open>v\<close> and their signed sums.\<close>

definition evaluation_witness_of ::
  "xof \<Rightarrow> secret_key \<Rightarrow> rs_entry list \<Rightarrow> nat \<Rightarrow> commitment_randomness \<Rightarrow> evaluation_witness option"
where
  "evaluation_witness_of xof sk r_s v m_randomness = do {
     masks \<leftarrow> opt_map (\<lambda>i. map_option (\<lambda>entry. expand xof (rs_ot_block entry) (first_run v)) (idx r_s i))
                [0..<par_N];
     r_sigma_sums \<leftarrow> opt_map (\<lambda>k. r_sigma_sum sk (column k masks)) [0..<RUNS_PER_EVALUATION];
     Some \<lparr> ew_masks = masks, ew_r_sigma_sums = r_sigma_sums, ew_m_randomness = m_randomness \<rparr> }"

record ('c, 'proof) preprocessing_proof =
  pp_m :: "'c list"
  pp_proof :: 'proof

text \<open>Server, \<open>prove\<close>: the witness, the honest statement, the proof and the message with \<open>m\<close>.\<close>

definition preprocessing_witness_of ::
  "('c, 'proof, 'pe, 've) crypto \<Rightarrow> secret_key \<Rightarrow> rs_entry list \<Rightarrow> block list list \<Rightarrow> nat
     \<Rightarrow> preprocessing_witness option" where
  "preprocessing_witness_of cr sk r_s delta_ot_blocks evaluations = do {
     evs \<leftarrow> opt_map (\<lambda>v. do {
         blocks0 \<leftarrow> idx delta_ot_blocks (v * RUNS_PER_EVALUATION);
         evaluation_witness_of (cr_xof cr) sk r_s v (mask_sum_randomness (cr_hash cr) blocks0) })
       [0..<evaluations];
     ots \<leftarrow> opt_map (\<lambda>i. map_option (\<lambda>entry. randomness (rs_ot_block entry)) (idx r_s i)) [0..<par_N];
     Some \<lparr> pw_sk = sk, pw_ot_blocks = ots, pw_evaluations = evs \<rparr> }"

definition server_prove ::
  "('c, 'proof, 'pe, 've) crypto \<Rightarrow> secret_key \<Rightarrow> rs_entry list \<Rightarrow> u8 list \<Rightarrow> ('c \<times> 'c) list list
     \<Rightarrow> block list list \<Rightarrow> (('pe, 've) preproc_error, ('c, 'proof) preprocessing_proof \<times> server_voprf) res" where
  "server_prove cr sk r_s b_bar c delta_ot_blocks =
     res_bind (expect (preprocessing_witness_of cr sk r_s delta_ot_blocks (length c))) (\<lambda>witness.
     let statement = preprocessing_honest (commit_key cr) (commit_mask_sum cr) witness b_bar c
     in res_bind (map_err PreprocProve (prove_preprocessing cr statement witness)) (\<lambda>proof.
        Ok (\<lparr> pp_m = map es_m (ps_evaluations statement), pp_proof = proof \<rparr>,
            \<lparr> sv_delta_ot_blocks = delta_ot_blocks \<rparr>)))"

text \<open>Client, \<open>finish\<close>: \<open>m\<close> and the proof of the statement about \<open>pk\<close>, \<open>b_bar\<close>, its own \<open>c\<close>.\<close>

definition client_statement ::
  "'c verified_key \<Rightarrow> u8 list \<Rightarrow> ('c \<times> 'c) list list \<Rightarrow> 'c list \<Rightarrow> ('c, 'c, 'c) preprocessing_statement"
where
  "client_statement pk b_bar c m =
     \<lparr> ps_pk = verified_pk pk, ps_b_bar = b_bar,
       ps_evaluations = map (\<lambda>(c_v, m_v). \<lparr> es_c = c_v, es_m = m_v \<rparr>) (zip c m) \<rparr>"

definition client_finish ::
  "('c, 'proof, 'pe, 've) crypto \<Rightarrow> 'c verified_key \<Rightarrow> u8 list \<Rightarrow> ('c \<times> 'c) list list \<Rightarrow> 'c list list
     \<Rightarrow> ('c, 'proof) preprocessing_proof \<Rightarrow> (('pe, 've) preproc_error, 'c client_voprf) res" where
  "client_finish cr pk b_bar c d message =
     (if length (pp_m message) \<noteq> length c then Err (Malformed ''m has wrong length'')
      else res_bind (map_err PreprocVerify
               (verify_preprocessing cr (client_statement pk b_bar c (pp_m message)) (pp_proof message)))
             (\<lambda>_. Ok \<lparr> cv_pk = pk, cv_m = pp_m message, cv_d = d \<rparr>))"

end
