(* ===== verification/States.thy ===== *)
theory States
  imports Voprf
begin

text \<open>
  \<open>ClientState\<close> and \<open>ServerState\<close> of \<open>pool-oprf/src/preprocessing.rs\<close>: what each side keeps of a
  preprocessing, the masks it reads off its OT blocks and the runs it spends. \<open>matched\<close> is the
  relation a preprocessing establishes between the two states, and the interface \<open>run_budget\<close> is
  interpreted on both.
\<close>

section \<open>The client's state\<close>

record 'c client_state =
  cs_ot_blocks :: "(block \<times> block) list"
  cs_bhat :: "u8 list"
  cs_r_c :: "rc_entry list"
  cs_uid :: uid
  cs_runs :: runs
  cs_voprf :: "'c client_voprf option"

text \<open>\<open>ClientState::new\<close>, whose \<open>into_array\<close> panics on a wrong length.\<close>

definition into_array :: "nat \<Rightarrow> 'a list \<Rightarrow> 'a list option" where
  "into_array n v = (if length v = n then Some v else None)"

definition client_state_new ::
  "(block \<times> block) list \<Rightarrow> u8 list \<Rightarrow> rc_entry list \<Rightarrow> uid \<Rightarrow> 'c client_voprf option
     \<Rightarrow> 'c client_state option" where
  "client_state_new ot_blocks bhat r_c uid voprf = do {
     ot_blocks \<leftarrow> into_array par_N ot_blocks;
     bhat \<leftarrow> into_array par_N bhat;
     Some \<lparr> cs_ot_blocks = ot_blocks, cs_bhat = bhat, cs_r_c = r_c, cs_uid = uid,
            cs_runs = runs_new (length r_c), cs_voprf = voprf \<rparr> }"

definition client_remaining_runs :: "'c client_state \<Rightarrow> nat" where
  "client_remaining_runs st = runs_remaining (cs_runs st)"

definition pair_nth :: "'a \<times> 'a \<Rightarrow> nat \<Rightarrow> 'a option" where
  "pair_nth p i = (if i = 0 then Some (fst p) else if i = 1 then Some (snd p) else None)"

definition r_bhat :: "xof \<Rightarrow> 'c client_state \<Rightarrow> nat \<Rightarrow> nat \<Rightarrow> zq list option" where
  "r_bhat xof st i first = do {
     blocks \<leftarrow> idx (cs_ot_blocks st) i;
     b \<leftarrow> idx (cs_bhat st) i;
     block \<leftarrow> pair_nth blocks (unat b);
     Some (expand xof block first) }"

definition r_not_bhat :: "xof \<Rightarrow> 'c client_state \<Rightarrow> nat \<Rightarrow> nat \<Rightarrow> zq list option" where
  "r_not_bhat xof st i first = do {
     blocks \<leftarrow> idx (cs_ot_blocks st) i;
     b \<leftarrow> idx (cs_bhat st) i;
     block \<leftarrow> (if unat b \<le> 1 then pair_nth blocks (1 - unat b) else None);
     Some (expand xof block first) }"

definition client_r_c :: "'c client_state \<Rightarrow> nat \<Rightarrow> rc_entry option" where
  "client_r_c st j = idx (cs_r_c st) j"

definition client_next_runs :: "nat \<Rightarrow> 'c client_state \<Rightarrow> 'c client_state \<times> nat option" where
  "client_next_runs count st =
     (let (r, first) = runs_take count (cs_runs st) in (st\<lparr> cs_runs := r \<rparr>, first))"

section \<open>The server's state\<close>

record server_state =
  ss_r_s :: "rs_entry list"
  ss_s_s :: "zp list list"
  ss_uid :: uid
  ss_runs :: runs
  ss_voprf :: "server_voprf option"

definition server_state_new ::
  "rs_entry list \<Rightarrow> zp list list \<Rightarrow> uid \<Rightarrow> server_voprf option \<Rightarrow> server_state option" where
  "server_state_new r_s s_s uid voprf = do {
     r_s \<leftarrow> into_array par_N r_s;
     Some \<lparr> ss_r_s = r_s, ss_s_s = s_s, ss_uid = uid, ss_runs = runs_new (length s_s),
            ss_voprf = voprf \<rparr> }"

definition server_remaining_runs :: "server_state \<Rightarrow> nat" where
  "server_remaining_runs st = runs_remaining (ss_runs st)"

definition server_r :: "xof \<Rightarrow> server_state \<Rightarrow> nat \<Rightarrow> nat \<Rightarrow> zq list option" where
  "server_r xof st i first =
     map_option (\<lambda>entry. expand xof (rs_ot_block entry) first) (idx (ss_r_s st) i)"

definition server_s_s :: "server_state \<Rightarrow> nat \<Rightarrow> zp list option" where
  "server_s_s st j = idx (ss_s_s st) j"

definition server_next_runs :: "nat \<Rightarrow> server_state \<Rightarrow> server_state \<times> nat option" where
  "server_next_runs count st =
     (let (r, first) = runs_take count (ss_runs st) in (st\<lparr> ss_runs := r \<rparr>, first))"

section \<open>Well-formed states\<close>

definition wf_client :: "'c client_state \<Rightarrow> bool" where
  "wf_client st \<longleftrightarrow>
     length (cs_ot_blocks st) = par_N \<and> length (cs_bhat st) = par_N \<and>
     (\<forall>b \<in> set (cs_bhat st). unat b \<le> 1) \<and>
     (\<forall>rc \<in> set (cs_r_c st). unat (rc_b_prime rc) < 16) \<and>
     runs_tau (cs_runs st) = length (cs_r_c st) \<and> wf_runs (cs_runs st) \<and>
     (case cs_voprf st of None \<Rightarrow> True
      | Some cv \<Rightarrow> length (cv_m cv) = evaluations_for (length (cs_r_c st)) \<and>
          length (cv_d cv) = evaluations_for (length (cs_r_c st)) * RUNS_PER_EVALUATION \<and>
          (\<forall>d \<in> set (cv_d cv). length d = DELTA) \<and>
          runs_ctr (cs_runs st) mod RUNS_PER_EVALUATION = 0)"

definition wf_server :: "server_state \<Rightarrow> bool" where
  "wf_server st \<longleftrightarrow>
     length (ss_r_s st) = par_N \<and> (\<forall>entry \<in> set (ss_r_s st). unat (rs_b entry) \<le> 1) \<and>
     (\<forall>pads \<in> set (ss_s_s st). length pads = 16) \<and>
     runs_tau (ss_runs st) = length (ss_s_s st) \<and> wf_runs (ss_runs st) \<and>
     (case ss_voprf st of None \<Rightarrow> True
      | Some sv \<Rightarrow> length (sv_delta_ot_blocks sv) = length (ss_s_s st) \<and>
          (\<forall>bs \<in> set (sv_delta_ot_blocks sv). length bs = 16 \<and> (\<forall>b \<in> set bs. length b = 16)))"

text \<open>What the preprocessing establishes, and the online phase keeps as long as both sides spend the
  same runs.\<close>

definition matched :: "secret_key \<Rightarrow> 'c client_state \<Rightarrow> server_state \<Rightarrow> bool" where
  "matched sk cs ss \<longleftrightarrow>
     cs_uid cs = ss_uid ss \<and> cs_runs cs = ss_runs ss \<and>
     (\<forall>i < par_N. let entry = ss_r_s ss ! i; blocks = cs_ot_blocks cs ! i in
        rs_ot_block entry = (if rs_b entry = 0 then fst blocks else snd blocks) \<and>
        cs_bhat cs ! i = rs_b entry XOR (as_bits sk ! i)) \<and>
     (\<forall>j < length (cs_r_c cs).
        rc_r_prime (cs_r_c cs ! j) = ss_s_s ss ! j ! unat (rc_b_prime (cs_r_c cs ! j)))"

section \<open>What the two sides of a VOPRF keep\<close>

definition block_pads :: "block list \<Rightarrow> zp list" where
  "block_pads bs = map (\<lambda>b. b ! 0) bs"

definition block_pad_commitments :: "('c, 'proof, 'pe, 've) crypto \<Rightarrow> block list \<Rightarrow> 'c list" where
  "block_pad_commitments cr bs =
     map (\<lambda>b. commit_pad cr \<lparr> pi_pad = b ! 0, pi_randomness = randomness b \<rparr>) bs"

definition wf_blocks :: "block list \<Rightarrow> bool" where
  "wf_blocks bs \<longleftrightarrow> length bs = 16 \<and> (\<forall>b \<in> set bs. length b = 16)"

lemma pad_commitment_Some:
  "length b = 16 \<Longrightarrow>
     pad_commitment cr b = Some (commit_pad cr \<lparr> pi_pad = b ! 0, pi_randomness = randomness b \<rparr>)"
  by (simp add: pad_commitment_def r_prime_Some)

text \<open>The blocks a VOPRF server keeps are those its pads came from.\<close>

definition pads_consistent :: "server_state \<Rightarrow> bool" where
  "pads_consistent ss \<longleftrightarrow> (case ss_voprf ss of None \<Rightarrow> True
     | Some sv \<Rightarrow> (\<forall>j < length (ss_s_s ss). ss_s_s ss ! j = block_pads (sv_delta_ot_blocks sv ! j)))"

text \<open>What a VOPRF preprocessing adds to \<open>matched\<close>: the client holds the commitments to the server's
  pads and mask sums, under the server's key.\<close>

definition matched_voprf ::
  "('c, 'proof, 'pe, 've) crypto \<Rightarrow> secret_key \<Rightarrow> 'c client_state \<Rightarrow> server_state \<Rightarrow> bool" where
  "matched_voprf cr sk cs ss \<longleftrightarrow>
     (case (cs_voprf cs, ss_voprf ss) of
        (None, None) \<Rightarrow> True
      | (Some cv, Some sv) \<Rightarrow>
          verified_pk (cv_pk cv) = commit_key cr sk \<and>
          (\<forall>j < length (cv_d cv). cv_d cv ! j = block_pad_commitments cr (sv_delta_ot_blocks sv ! j)) \<and>
          (\<forall>v < length (cv_m cv). \<exists>sums. length sums = 16 \<and>
             (\<forall>k < 16. r_sigma_sum sk (map (\<lambda>i. expand (cr_xof cr) (rs_ot_block (ss_r_s ss ! i)) (16 * v) ! k)
                          [0..<par_N]) = Some (sums ! k)) \<and>
             cv_m cv ! v = commit_mask_sum cr \<lparr> msi_r_sigma_sums = sums,
               msi_randomness = mask_sum_randomness (cr_hash cr) (sv_delta_ot_blocks sv ! (16 * v)) \<rparr>)
      | _ \<Rightarrow> False)"

section \<open>Both states are run budgets\<close>

definition client_valid :: "'c client_state \<Rightarrow> bool" where
  "client_valid st \<longleftrightarrow> wf_runs (cs_runs st)"

definition client_total :: "'c client_state \<Rightarrow> nat" where
  "client_total st = runs_tau (cs_runs st)"

definition client_spent :: "'c client_state \<Rightarrow> nat" where
  "client_spent st = runs_ctr (cs_runs st)"

definition server_valid :: "server_state \<Rightarrow> bool" where
  "server_valid st \<longleftrightarrow> wf_runs (ss_runs st)"

definition server_total :: "server_state \<Rightarrow> nat" where
  "server_total st = runs_tau (ss_runs st)"

definition server_spent :: "server_state \<Rightarrow> nat" where
  "server_spent st = runs_ctr (ss_runs st)"

lemmas budget_defs = client_valid_def client_total_def client_spent_def
  server_valid_def server_total_def server_spent_def client_next_runs_def server_next_runs_def

interpretation client_budget: run_budget client_valid client_total client_spent client_next_runs
  by unfold_locales (auto simp: budget_defs case_prod_unfold Let_def wf_runs_def
      runs_take_def runs_remaining_def)

interpretation server_budget: run_budget server_valid server_total server_spent server_next_runs
  by unfold_locales (auto simp: budget_defs case_prod_unfold Let_def wf_runs_def
      runs_take_def runs_remaining_def)

lemma client_remaining: "client_remaining_runs st = client_total st - client_spent st"
  by (simp add: client_remaining_runs_def runs_remaining_def budget_defs)

lemma server_remaining: "server_remaining_runs st = server_total st - server_spent st"
  by (simp add: server_remaining_runs_def runs_remaining_def budget_defs)

lemma client_next_runs_Some:
  assumes "wf_runs (cs_runs st)" and "n \<le> client_remaining_runs st"
  shows "client_next_runs n st =
    (st\<lparr> cs_runs := \<lparr> runs_tau = client_total st, runs_ctr = client_spent st + n \<rparr> \<rparr>, Some (client_spent st))"
  using assms
  by (cases "cs_runs st") (auto simp: budget_defs client_remaining_runs_def runs_take_def wf_runs_def)

lemma server_next_runs_Some:
  assumes "wf_runs (ss_runs st)" and "n \<le> server_remaining_runs st"
  shows "server_next_runs n st =
    (st\<lparr> ss_runs := \<lparr> runs_tau = server_total st, runs_ctr = server_spent st + n \<rparr> \<rparr>, Some (server_spent st))"
  using assms
  by (cases "ss_runs st") (auto simp: budget_defs server_remaining_runs_def runs_take_def wf_runs_def)

section \<open>Masks of a well-formed state\<close>

lemma wf_client_bhat:
  assumes "wf_client st" and "i < par_N"
  shows "unat (cs_bhat st ! i) = 0 \<or> unat (cs_bhat st ! i) = 1"
proof -
  have "cs_bhat st ! i \<in> set (cs_bhat st)" using assms by (simp add: wf_client_def)
  with assms(1) have "unat (cs_bhat st ! i) \<le> 1" by (simp add: wf_client_def)
  then show ?thesis by linarith
qed

definition client_block :: "'c client_state \<Rightarrow> nat \<Rightarrow> block" where
  "client_block st i =
     (if cs_bhat st ! i = 0 then fst (cs_ot_blocks st ! i) else snd (cs_ot_blocks st ! i))"

definition client_other_block :: "'c client_state \<Rightarrow> nat \<Rightarrow> block" where
  "client_other_block st i =
     (if cs_bhat st ! i = 0 then snd (cs_ot_blocks st ! i) else fst (cs_ot_blocks st ! i))"

lemma r_bhat_Some:
  assumes "wf_client st" and "i < par_N"
  shows "r_bhat xof st i first = Some (expand xof (client_block st i) first)"
    and "r_not_bhat xof st i first = Some (expand xof (client_other_block st i) first)"
  using assms(1,2) wf_client_bhat [OF assms]
  by (auto simp: r_bhat_def r_not_bhat_def client_block_def client_other_block_def pair_nth_def
      wf_client_def unat_eq_zero)

lemma server_r_Some:
  "wf_server st \<Longrightarrow> i < par_N \<Longrightarrow>
     server_r xof st i first = Some (expand xof (rs_ot_block (ss_r_s st ! i)) first)"
  by (simp add: server_r_def wf_server_def)

end
