(* ===== verification/Online.thy ===== *)
theory Online
  imports States
begin

text \<open>
  \<open>pool-oprf/src/online.rs\<close>: Request, BlindEval and Finalize of the paper's Figure 4, batched. An
  operation on a state returns the new state with its result, so that what an error leaves spent
  is visible. A panic inside the pure row computations is \<^term>\<open>None\<close> there and \<^term>\<open>Panic\<close> here.
\<close>

section \<open>Messages, states and errors\<close>

definition MAX_TAG_LEN :: nat where "MAX_TAG_LEN = 1024"
definition MAX_BATCH_EVALUATIONS :: nat where "MAX_BATCH_EVALUATIONS = 1024"

datatype request_error =
    RequestExhausted nat nat
  | TagTooLong nat
  | EmptyBatch
  | BatchTooLarge nat
  | VoprfBatchTooLarge nat

datatype 'pe blind_eval_error =
    UnknownSession uid
  | BlindEvalExhausted nat nat
  | MalformedRequest string
  | BlindEvalProve 'pe

datatype 've finalize_error =
    SessionMismatch uid uid
  | MalformedResponse string
  | CounterMismatch nat nat nat
  | NotSingle nat
  | FinalizeVerify 've

record request_message =
  req_uid :: uid
  req_tag :: bytes
  req_rows :: "row_request list"

definition req_evaluations :: "request_message \<Rightarrow> nat" where
  "req_evaluations req = length (req_rows req) div H_ROWS"

record 'proof response_message =
  rep_uid :: uid
  rep_rows :: "row_response list"
  rep_proofs :: "'proof list"

definition rep_evaluations :: "'proof response_message \<Rightarrow> nat" where
  "rep_evaluations rep = length (rep_rows rep) div H_ROWS"

record row_finalize_state =
  fin_ctr :: nat
  fin_r_sigma :: zq
  fin_r_prime :: zp

record 'c finalize_state =
  fs_uid :: uid
  fs_rows :: "row_finalize_state list"
  fs_voprf :: "('c, 'c, 'c) online_statement list option"

definition fs_evaluations :: "'c finalize_state \<Rightarrow> nat" where
  "fs_evaluations fs = length (fs_rows fs) div H_ROWS"

section \<open>Request\<close>

text \<open>The \<open>H_ROWS\<close> runs of one evaluation. The masks of coordinate \<open>i\<close> are read once, for all rows.\<close>

definition request_evaluation ::
  "xof \<Rightarrow> 'c client_state \<Rightarrow> nat \<Rightarrow> zq_matrix \<Rightarrow> (row_request list \<times> row_finalize_state list) option"
where
  "request_evaluation xof st first m = do {
     a \<leftarrow> opt_map (\<lambda>k. map_option as_slice (mrow m k)) [0..<H_ROWS];
     masks \<leftarrow> opt_map (\<lambda>i. do {
         r_bhats \<leftarrow> r_bhat xof st i first;
         r_not_bhats \<leftarrow> r_not_bhat xof st i first;
         Some (r_bhats, r_not_bhats) }) [0..<par_N];
     rows \<leftarrow> opt_map (\<lambda>k.
         let e = map (\<lambda>i. reduce_q (ucast (a ! k ! i) + ucast (fst (masks ! i) ! k)
                                    + ucast (snd (masks ! i) ! k))) [0..<par_N];
             r_sigma_acc = sum_list (map (\<lambda>i. ucast (fst (masks ! i) ! k)) [0..<par_N]) :: zq_accum;
             ctr = first + k;
             r_sigma = reduce_q r_sigma_acc
         in do {
           rc \<leftarrow> client_r_c st ctr;
           b_bar_prime \<leftarrow> sub_delta (reduce_delta r_sigma) (rc_b_prime rc);
           Some (\<lparr> row_e = e, row_b_bar_prime = b_bar_prime \<rparr>,
                 \<lparr> fin_ctr = ctr, fin_r_sigma = r_sigma, fin_r_prime = rc_r_prime rc \<rparr>) })
       [0..<H_ROWS];
     Some (map fst rows, map snd rows) }"

fun request_loop ::
  "xof \<Rightarrow> bytes \<Rightarrow> 'c client_state \<Rightarrow> bytes list
     \<Rightarrow> 'c client_state
        \<times> (row_request list \<times> row_finalize_state list \<times> ('c, 'c, 'c) online_statement list) option"
where
  "request_loop xof tag st [] = (st, Some ([], [], []))"
| "request_loop xof tag st (input # inputs) =
     (let m = hash_to_zq_matrix xof tag input;
          (st, taken) = client_next_runs H_ROWS st
      in case taken of None \<Rightarrow> (st, None) | Some first \<Rightarrow>
         (case request_evaluation xof st first m of None \<Rightarrow> (st, None) | Some (rows, fins) \<Rightarrow>
         (case (case cs_voprf st of None \<Rightarrow> Some []
                | Some voprf \<Rightarrow> map_option (\<lambda>s. [s]) (online_statement_of voprf first rows)) of
            None \<Rightarrow> (st, None)
          | Some statement \<Rightarrow>
              (case request_loop xof tag st inputs of
                 (st, None) \<Rightarrow> (st, None)
               | (st, Some (rows', fins', statements)) \<Rightarrow>
                   (st, Some (rows @ rows', fins @ fins', statement @ statements))))))"

definition request_batch ::
  "xof \<Rightarrow> 'c client_state \<Rightarrow> bytes \<Rightarrow> bytes list
     \<Rightarrow> 'c client_state \<times> (request_error, request_message \<times> 'c finalize_state) res" where
  "request_batch xof st tag inputs =
     (if length tag > MAX_TAG_LEN then (st, Err (TagTooLong (length tag)))
      else if inputs = [] then (st, Err EmptyBatch)
      else if length inputs > MAX_BATCH_EVALUATIONS then (st, Err (BatchTooLarge (length inputs)))
      else if cs_voprf st \<noteq> None \<and> length inputs > MAX_VOPRF_BATCH_EVALUATIONS
        then (st, Err (VoprfBatchTooLarge (length inputs)))
      else case tau_for (length inputs) of None \<Rightarrow> (st, Panic)
      | Some needed_runs \<Rightarrow>
          let have_runs = client_remaining_runs st in
          if have_runs < needed_runs then (st, Err (RequestExhausted needed_runs have_runs))
          else case request_loop xof tag st inputs of
                 (st', None) \<Rightarrow> (st', Panic)
               | (st', Some (rows, fin_rows, statements)) \<Rightarrow>
                   (st', Ok (\<lparr> req_uid = cs_uid st, req_tag = tag, req_rows = rows \<rparr>,
                             \<lparr> fs_uid = cs_uid st, fs_rows = fin_rows,
                               fs_voprf = map_option (\<lambda>_. statements) (cs_voprf st) \<rparr>)))"

definition request ::
  "xof \<Rightarrow> 'c client_state \<Rightarrow> bytes \<Rightarrow> bytes
     \<Rightarrow> 'c client_state \<times> (request_error, request_message \<times> 'c finalize_state) res" where
  "request xof st tag x = request_batch xof st tag [x]"

section \<open>BlindEval\<close>

definition blind_eval_one ::
  "xof \<Rightarrow> server_state \<Rightarrow> secret_key \<Rightarrow> row_request list \<Rightarrow> nat \<Rightarrow> (row_response list \<times> zq list) option"
where
  "blind_eval_one xof st sk reqs first =
     (if length reqs = H_ROWS then do {
        r \<leftarrow> opt_map (\<lambda>i. server_r xof st i first) [0..<par_N];
        out \<leftarrow> opt_map (\<lambda>(k, req).
            let ctr = first + k; masks = map (\<lambda>i. r ! i ! k) [0..<par_N]
            in do {
              r_tilde \<leftarrow> r_sigma_sum sk masks;
              pads \<leftarrow> server_s_s st ctr;
              y \<leftarrow> respond (a_sigma_sum sk r_tilde (row_e req)) pads (row_b_bar_prime req);
              Some (\<lparr> resp_y = y, resp_ctr = ctr \<rparr>, r_tilde) })
          (enumerate 0 reqs);
        Some (map fst out, map snd out) }
      else None)"

fun blind_eval_loop ::
  "('c, 'proof, 'pe, 've) crypto \<Rightarrow> secret_key \<Rightarrow> server_state \<Rightarrow> row_request list list
     \<Rightarrow> server_state \<times> ('pe blind_eval_error, row_response list \<times> 'proof list) res" where
  "blind_eval_loop cr sk st [] = (st, Ok ([], []))"
| "blind_eval_loop cr sk st (eval # evals) =
     (let (st, taken) = server_next_runs H_ROWS st
      in case taken of None \<Rightarrow> (st, Panic) | Some first \<Rightarrow>
         (case blind_eval_one (cr_xof cr) st sk eval first of None \<Rightarrow> (st, Panic)
          | Some (rows, r_sigma_sums) \<Rightarrow>
         (case (case ss_voprf st of None \<Rightarrow> Ok []
                | Some voprf \<Rightarrow> res_bind (map_err BlindEvalProve
                    (prove_online cr voprf sk first eval r_sigma_sums)) (\<lambda>proof. Ok [proof])) of
            Err e \<Rightarrow> (st, Err e)
          | Panic \<Rightarrow> (st, Panic)
          | Ok proof \<Rightarrow>
              (case blind_eval_loop cr sk st evals of
                 (st, Ok (rows', proofs)) \<Rightarrow> (st, Ok (rows @ rows', proof @ proofs))
               | (st, Err e) \<Rightarrow> (st, Err e)
               | (st, Panic) \<Rightarrow> (st, Panic)))))"

text \<open>The checks of each row, in order; the first row that fails one decides.\<close>

fun check_rows :: "row_request list \<Rightarrow> ('pe blind_eval_error, unit) res" where
  "check_rows [] = Ok ()"
| "check_rows (row # rows) =
     (if list_ex (\<lambda>e. par_Q \<le> e) (row_e row) then Err (MalformedRequest ''e has an element outside Zq'')
      else if DELTA \<le> unat (row_b_bar_prime row)
        then Err (MalformedRequest ''b_bar' is outside [0, DELTA)'')
      else check_rows rows)"

definition check_request ::
  "server_state \<Rightarrow> request_message \<Rightarrow> ('pe blind_eval_error, unit) res" where
  "check_request st req =
     (if req_uid req \<noteq> ss_uid st then Err (UnknownSession (req_uid req))
      else if length (req_tag req) > MAX_TAG_LEN
        then Err (MalformedRequest ''tag is longer than MAX_TAG_LEN'')
      else if req_rows req = [] \<or> length (req_rows req) mod H_ROWS \<noteq> 0
        then Err (MalformedRequest ''row count is not a whole number of evaluations'')
      else if req_evaluations req > MAX_BATCH_EVALUATIONS
        then Err (MalformedRequest ''batch is larger than MAX_BATCH_EVALUATIONS'')
      else if ss_voprf st \<noteq> None \<and> req_evaluations req > MAX_VOPRF_BATCH_EVALUATIONS
        then Err (MalformedRequest ''batch is larger than MAX_VOPRF_BATCH_EVALUATIONS'')
      else res_bind (check_rows (req_rows req)) (\<lambda>_.
        let needed_runs = length (req_rows req); have_runs = server_remaining_runs st in
        if have_runs < needed_runs then Err (BlindEvalExhausted needed_runs have_runs)
        else Ok ()))"

definition blind_eval ::
  "('c, 'proof, 'pe, 've) crypto \<Rightarrow> server_state \<Rightarrow> secret_key \<Rightarrow> request_message
     \<Rightarrow> server_state \<times> ('pe blind_eval_error, 'proof response_message) res" where
  "blind_eval cr st sk req =
     (case check_request st req of
        Err e \<Rightarrow> (st, Err e)
      | Panic \<Rightarrow> (st, Panic)
      | Ok _ \<Rightarrow>
          (case blind_eval_loop cr sk st (chunks_exact H_ROWS (req_rows req)) of
             (st', Ok (rows, proofs)) \<Rightarrow>
               (st', Ok \<lparr> rep_uid = ss_uid st', rep_rows = rows, rep_proofs = proofs \<rparr>)
           | (st', Err e) \<Rightarrow> (st', Err e)
           | (st', Panic) \<Rightarrow> (st', Panic)))"

section \<open>Finalize\<close>

definition finalize_row :: "row_finalize_state \<Rightarrow> row_response \<Rightarrow> zp option" where
  "finalize_row fin resp =
     (let r_sigma_mod_delta = unat (reduce_delta (fin_r_sigma fin));
          r = fin_r_prime fin
      in do {
        y_j \<leftarrow> idx (resp_y resp) r_sigma_mod_delta;
        y \<leftarrow> sub_p y_j r;
        let r_sigma_div_delta = (fin_r_sigma fin - of_nat r_sigma_mod_delta) div DELTA_ZQ;
        sub_p y (ucast r_sigma_div_delta) })"

text \<open>The rows of one evaluation, numbered from \<open>row\<close>.\<close>

fun finalize_rows ::
  "nat \<Rightarrow> (row_finalize_state \<times> row_response) list \<Rightarrow> ('ve finalize_error, zp list) res" where
  "finalize_rows row [] = Ok []"
| "finalize_rows row ((fin, resp) # rest) =
     (if resp_ctr resp \<noteq> fin_ctr fin then Err (CounterMismatch row (fin_ctr fin) (resp_ctr resp))
      else res_bind (expect (finalize_row fin resp)) (\<lambda>out.
           res_bind (finalize_rows (Suc row) rest) (\<lambda>outs. Ok (out # outs))))"

fun finalize_evaluations ::
  "nat \<Rightarrow> (row_finalize_state list \<times> row_response list) list
     \<Rightarrow> ('ve finalize_error, prf_output list) res" where
  "finalize_evaluations eval [] = Ok []"
| "finalize_evaluations eval ((fin_rows, resp_rows) # rest) =
     res_bind (finalize_rows (eval * H_ROWS) (zip fin_rows resp_rows)) (\<lambda>out.
     res_bind (finalize_evaluations (Suc eval) rest) (\<lambda>outputs. Ok (PrfOutput out # outputs)))"

fun verify_all ::
  "('c, 'proof, 'pe, 've) crypto \<Rightarrow> (('c, 'c, 'c) online_statement \<times> row_response list \<times> 'proof) list
     \<Rightarrow> ('ve finalize_error, unit) res" where
  "verify_all cr [] = Ok ()"
| "verify_all cr ((statement, rows, proof) # rest) =
     res_bind (map_err FinalizeVerify (verify_online cr statement rows proof)) (\<lambda>_. verify_all cr rest)"

definition finalize_batch ::
  "('c, 'proof, 'pe, 've) crypto \<Rightarrow> 'c finalize_state \<Rightarrow> 'proof response_message
     \<Rightarrow> ('ve finalize_error, prf_output list) res" where
  "finalize_batch cr st resp =
     (if rep_uid resp \<noteq> fs_uid st then Err (SessionMismatch (fs_uid st) (rep_uid resp))
      else if length (rep_rows resp) \<noteq> length (fs_rows st)
        then Err (MalformedResponse ''wrong number of rows'')
      else if length (fs_rows st) mod H_ROWS \<noteq> 0 then Panic
      else res_bind
        (case fs_voprf st of None \<Rightarrow> Ok ()
         | Some statements \<Rightarrow>
             if length (rep_proofs resp) \<noteq> length statements
             then Err (MalformedResponse ''not one proof per evaluation'')
             else verify_all cr
                    (zip statements (zip (chunks_exact H_ROWS (rep_rows resp)) (rep_proofs resp))))
        (\<lambda>_. finalize_evaluations 0
               (zip (chunks_exact H_ROWS (fs_rows st)) (chunks_exact H_ROWS (rep_rows resp)))))"

definition finalize ::
  "('c, 'proof, 'pe, 've) crypto \<Rightarrow> 'c finalize_state \<Rightarrow> 'proof response_message
     \<Rightarrow> ('ve finalize_error, prf_output) res" where
  "finalize cr st resp =
     (if fs_evaluations st \<noteq> 1 then Err (NotSingle (fs_evaluations st))
      else res_bind (finalize_batch cr st resp) (\<lambda>outputs.
           if outputs = [] then Panic else Ok (last outputs)))"

end
