(* ===== verification/RowIdentity.thy ===== *)
theory RowIdentity
  imports Online
begin

text \<open>
  The algebra of one run, behind the correctness of the online phase: blinding cancels
  (\<open>blinding_cancels\<close>), and taking the pad and the quotient of \<open>r_Sigma\<close> off the response entry at
  \<open>r_Sigma mod Delta\<close> leaves the rounded inner product (\<open>finalize_row_spec\<close>).
\<close>

lemma sum_cong_mod:
  fixes f g :: "'i \<Rightarrow> int"
  assumes "\<And>i. i \<in> A \<Longrightarrow> f i mod m = g i mod m"
  shows "sum f A mod m = sum g A mod m"
proof -
  have "sum f A mod m = (\<Sum>i\<in>A. f i mod m) mod m" by (rule mod_sum_eq [symmetric])
  also have "\<dots> = (\<Sum>i\<in>A. g i mod m) mod m" using assms by (simp cong: sum.cong)
  also have "\<dots> = sum g A mod m" by (rule mod_sum_eq)
  finally show ?thesis .
qed

text \<open>One coordinate: \<open>e = a + x + y\<close>, the server knows \<open>x\<close> where the key bit is 0 and \<open>y\<close> where
  it is 1.\<close>

lemma blinding_term:
  fixes e a x y :: nat
  assumes "e = (a + x + y) mod 4096" and "s = 0 \<or> s = (1 :: nat)"
    and "m = (if s = 0 then x else y)"
  shows "(int (e * s) + (if s = 0 then int m else - int m)) mod 4096 = int (a * s + x) mod 4096"
proof (cases "s = 0")
  case True
  with assms(3) show ?thesis by simp
next
  case False
  with assms have s: "s = 1" and m: "m = y" by simp_all
  have "int e mod 4096 = (int a + int x + int y) mod 4096"
    unfolding assms(1) by (simp add: zmod_int)
  then have "(int e + - int y) mod 4096 = (int a + int x + int y + - int y) mod 4096"
    by (rule mod_add_cong) simp
  with s m show ?thesis by simp
qed

lemma blinding_cancels:
  assumes lens: "length e = n" "length a = n" "length ss = n" "length ms = n"
    and bits: "\<And>i. i < n \<Longrightarrow> unat (ss ! i) = 0 \<or> unat (ss ! i) = 1"
    and e: "\<And>i. i < n \<Longrightarrow> unat (e ! i) = (unat (a ! i) + x i + y i) mod 4096"
    and m: "\<And>i. i < n \<Longrightarrow> unat (ms ! i) = (if ss ! i = 0 then x i else y i)"
    and r: "int r = signed_sum ss ms mod 4096"
  shows "(dot e ss + r) mod 4096 = (dot a ss + (\<Sum>i<n. x i)) mod 4096"
proof -
  let ?s = "\<lambda>i. unat (ss ! i)"
  have term_eq: "(int (unat (e ! i) * ?s i) + (if ss ! i = 0 then int (unat (ms ! i)) else - int (unat (ms ! i)))) mod 4096
      = int (unat (a ! i) * ?s i + x i) mod 4096" if "i \<in> {..<n}" for i
  proof -
    have z: "(ss ! i = 0) = (?s i = 0)" by (simp add: unat_eq_zero)
    from that have i: "i < n" by simp
    show ?thesis
      unfolding z
      by (rule blinding_term [where y = "y i"]) (use e [OF i] bits [OF i] m [OF i] z in simp_all)
  qed
  have "int (dot e ss + r) mod 4096 = (int (dot e ss) + signed_sum ss ms) mod 4096"
    using r by (simp add: mod_add_right_eq)
  also have "int (dot e ss) + signed_sum ss ms
      = (\<Sum>i<n. int (unat (e ! i) * ?s i) + (if ss ! i = 0 then int (unat (ms ! i)) else - int (unat (ms ! i))))"
    using lens by (simp only: dot_sum signed_sum_sum sum.distrib of_nat_sum)
  also have "\<dots> mod 4096 = (\<Sum>i<n. int (unat (a ! i) * ?s i + x i)) mod 4096"
    by (rule sum_cong_mod [OF term_eq])
  also have "(\<Sum>i<n. int (unat (a ! i) * ?s i + x i)) = int (dot a ss + (\<Sum>i<n. x i))"
    using lens by (simp only: dot_sum of_nat_add of_nat_sum sum.distrib)
  finally have "int ((dot e ss + r) mod 4096) = int ((dot a ss + (\<Sum>i<n. x i)) mod 4096)"
    by (simp only: zmod_int of_nat_numeral)
  then show ?thesis by (simp only: of_nat_eq_iff)
qed

text \<open>The rounded part: adding \<open>16 d\<close> before rounding adds \<open>d\<close> after it.\<close>

lemma round_shift:
  fixes v d :: nat
  assumes "v < 4096" and "d < 256"
  shows "(((v + 16 * d) mod 4096 + 7) div 16 + 256 - d) mod 256 = (v + 7) div 16 mod 256"
proof (cases "v + 16 * d < 4096")
  case True
  have "(v + 16 * d + 7) div 16 = (v + 7) div 16 + d" by simp
  then show ?thesis using True by simp
next
  case False
  then have m: "(v + 16 * d) mod 4096 = v + 16 * d - 4096"
    using assms by (simp add: mod_if)
  have "v + 16 * d - 4096 + 7 + 16 * 256 = v + 7 + 16 * d" using False by simp
  moreover have "(v + 7 + 16 * d) div 16 = (v + 7) div 16 + d" by simp
  ultimately have "(v + 16 * d - 4096 + 7 + 16 * 256) div 16 = (v + 7) div 16 + d" by (simp only:)
  then have "(v + 16 * d - 4096 + 7) div 16 + 256 = (v + 7) div 16 + d" by simp
  then show ?thesis unfolding m by simp
qed

lemma unblind_index:
  fixes r b :: nat
  assumes "b < 16"
  shows "(r mod 16 + 16 - (r mod 16 + 16 - b) mod 16) mod 16 = b"
proof -
  have "(j + 16 - (j + 16 - b) mod 16) mod 16 = b" if "j < 16" for j :: nat
    using that assms by (cases "b \<le> j") (auto simp: mod_if)
  then show ?thesis by simp
qed

lemma shifted_sum:
  fixes ip r :: nat
  assumes "r < 4096"
  shows "((ip + r) mod 4096 + 4096 - r mod 16) mod 4096 = (ip mod 4096 + 16 * (r div 16)) mod 4096"
proof -
  have "r mod 16 < 16" by simp
  then have le: "r mod 16 \<le> 4096" by linarith
  have "((ip + r) mod 4096 + 4096 - r mod 16) mod 4096 = ((ip + r) mod 4096 + (4096 - r mod 16)) mod 4096"
    using le by simp
  also have "\<dots> = (ip + r + (4096 - r mod 16)) mod 4096" by (rule mod_add_left_eq)
  also have "ip + r + (4096 - r mod 16) = ip + 16 * (r div 16) + 4096"
    using le mult_div_mod_eq [of 16 r] by linarith
  also have "(ip + 16 * (r div 16) + 4096) mod 4096 = (ip mod 4096 + 16 * (r div 16)) mod 4096"
    by (simp add: mod_add_left_eq)
  finally show ?thesis .
qed

lemma mod_256_sub:
  fixes x d :: nat
  assumes "d < 256"
  shows "(x mod 256 + 256 - d) mod 256 = (x + 256 - d) mod 256"
proof -
  have "(x mod 256 + 256 - d) mod 256 = (x mod 256 + (256 - d)) mod 256" using assms by simp
  also have "\<dots> = (x + (256 - d)) mod 256" by (rule mod_add_left_eq)
  also have "x + (256 - d) = x + 256 - d" using assms by simp
  finally show ?thesis .
qed

lemma mod_256_add_sub:
  fixes x d :: nat
  assumes "d < 256"
  shows "((x + d) mod 256 + 256 - d) mod 256 = x mod 256"
proof -
  have "((x + d) mod 256 + 256 - d) mod 256 = (x + d + 256 - d) mod 256"
    by (rule mod_256_sub [OF assms])
  also have "x + d + 256 - d = x + 256" by simp
  finally show ?thesis by simp
qed

text \<open>Only the entry of the response that the client reads matters.\<close>

lemma finalize_entry_spec:
  assumes a: "unat a = (ip + unat (fin_r_sigma fin)) mod 4096"
    and r: "unat (fin_r_sigma fin) < 4096" and len: "length (resp_y resp) = 16"
    and entry: "unat (resp_y resp ! (unat (fin_r_sigma fin) mod 16))
      = (((unat a + 4096 - unat (fin_r_sigma fin) mod 16) mod 4096 + 7) div 16 + unat (fin_r_prime fin)) mod 256"
  shows "\<exists>out. finalize_row fin resp = Some out \<and> unat out = prf_element ip"
proof -
  let ?R = "unat (fin_r_sigma fin)"
  let ?j = "?R mod 16" and ?d = "?R div 16"
  let ?x = "((ip mod 4096 + 16 * ?d) mod 4096 + 7) div 16"
  have y_j: "unat (resp_y resp ! ?j) = (?x + unat (fin_r_prime fin)) mod 256"
    using entry by (simp only: a shifted_sum [OF r])
  obtain u where u: "sub_p (resp_y resp ! ?j) (fin_r_prime fin) = Some u"
    "unat u = (unat (resp_y resp ! ?j) + 256 - unat (fin_r_prime fin)) mod 256"
    using unat_sub_p by blast
  have ux: "unat u = ?x mod 256"
    unfolding u(2) y_j by (rule mod_256_add_sub [OF unat_u8_less])
  have j16: "unat (of_nat ?j :: zq) = ?j" by (simp add: unat_of_nat_u16)
  have d: "unat ((fin_r_sigma fin - of_nat ?j) div DELTA_ZQ) = ?d"
  proof -
    have "unat (fin_r_sigma fin - of_nat ?j) = ?R - ?j"
      by (subst unat_sub) (simp_all add: word_le_nat_alt j16)
    then have "unat ((fin_r_sigma fin - of_nat ?j) div DELTA_ZQ) = (?R - ?j) div 16"
      by (simp add: unat_div_distrib)
    then show ?thesis by (simp add: minus_mod_eq_mult_div)
  qed
  have d256: "?d < 256" using r by simp
  obtain out where out: "sub_p u (ucast ((fin_r_sigma fin - of_nat ?j) div DELTA_ZQ)) = Some out"
    "unat out = (unat u + 256 - unat (ucast ((fin_r_sigma fin - of_nat ?j) div DELTA_ZQ) :: zp)) mod 256"
    using unat_sub_p by blast
  have "unat (ucast ((fin_r_sigma fin - of_nat ?j) div DELTA_ZQ) :: zp) = ?d"
    using d d256 by (simp add: unat_ucast_16_8 del: DELTA_ZQ)
  then have "unat out = (?x mod 256 + 256 - ?d) mod 256"
    by (simp only: out(2) ux)
  also have "\<dots> = (?x + 256 - ?d) mod 256"
    by (rule mod_256_sub [OF d256])
  also have "\<dots> = prf_element ip"
    unfolding prf_element_def by (rule round_shift) (simp_all add: d256)
  finally have "unat out = prf_element ip" .
  moreover have "finalize_row fin resp = Some out"
    using u(1) out(1) len by (simp add: finalize_row_def Let_def unat_reduce_delta del: DELTA_ZQ)
  ultimately show ?thesis by blast
qed

lemma finalize_row_spec:
  assumes a: "unat a = (ip + unat (fin_r_sigma fin)) mod 4096"
    and r: "unat (fin_r_sigma fin) < 4096"
    and bp: "unat bp = (unat (fin_r_sigma fin) mod 16 + 16 - b') mod 16" and b': "b' < 16"
    and pads: "length pads = 16" "fin_r_prime fin = pads ! b'"
    and y: "respond a pads bp = Some (resp_y resp)"
  shows "\<exists>out. finalize_row fin resp = Some out \<and> unat out = prf_element ip"
proof (rule finalize_entry_spec [OF a r])
  let ?j = "unat (fin_r_sigma fin) mod 16"
  have "unat a < 4096" and "unat bp < 16" by (simp_all add: a bp)
  from respond_Some [OF this pads(1)] y show "length (resp_y resp) = 16"
    and "unat (resp_y resp ! ?j) = (((unat a + 4096 - ?j) mod 4096 + 7) div 16 + unat (fin_r_prime fin)) mod 256"
    by (auto simp: bp unblind_index [OF b'] pads(2))
qed

end
