(* ===== verification/OnlineRows.thy ===== *)
theory OnlineRows
  imports RowIdentity
begin

text \<open>
  One evaluation of the online phase: what \<open>request_evaluation\<close> and \<open>blind_eval_one\<close> put in each row
  (and that neither panics on well-formed states), and that a row of matched states unblinds to the
  element of the PRF output.
\<close>

section \<open>A request row\<close>

definition request_row_ok ::
  "xof \<Rightarrow> 'c client_state \<Rightarrow> nat \<Rightarrow> zq_matrix \<Rightarrow> nat \<Rightarrow> row_request \<Rightarrow> row_finalize_state \<Rightarrow> bool" where
  "request_row_ok xof cs first m k rq fin \<longleftrightarrow>
     length (row_e rq) = par_N \<and>
     (\<forall>i < par_N. unat (row_e rq ! i) =
        (unat (as_slice (matrix_rows m ! k) ! i) + mask_at xof (client_block cs i) (first + k)
           + mask_at xof (client_other_block cs i) (first + k)) mod 4096) \<and>
     fin_ctr fin = first + k \<and>
     unat (fin_r_sigma fin) = (\<Sum>i<par_N. mask_at xof (client_block cs i) (first + k)) mod 4096 \<and>
     unat (row_b_bar_prime rq) = (unat (fin_r_sigma fin) mod 16 + 16
        - unat (rc_b_prime (cs_r_c cs ! (first + k)))) mod 16 \<and>
     fin_r_prime fin = rc_r_prime (cs_r_c cs ! (first + k))"

lemma client_block_runs [simp]:
  "client_block (cs\<lparr> cs_runs := r \<rparr>) i = client_block cs i"
  "client_other_block (cs\<lparr> cs_runs := r \<rparr>) i = client_other_block cs i"
  by (simp_all add: client_block_def client_other_block_def)

lemma request_row_ok_runs [simp]:
  "request_row_ok xof (cs\<lparr> cs_runs := r \<rparr>) first m k rq fin = request_row_ok xof cs first m k rq fin"
  by (simp add: request_row_ok_def)

lemma unat_sum3:
  fixes a b c :: zq
  assumes "unat a < 4096" and "unat b < 4096" and "unat c < 4096"
  shows "unat (reduce_q (ucast a + ucast b + ucast c)) = (unat a + unat b + unat c) mod 4096"
proof -
  have "unat (ucast a + ucast b + ucast c :: u32) = unat a + unat b + unat c"
    using assms by (simp add: unat_word_ariths)
  then show ?thesis by (simp add: unat_reduce_q)
qed

lemma unat_sum_index:
  fixes f :: "nat \<Rightarrow> zq"
  assumes "\<And>i. i < n \<Longrightarrow> unat (f i) < 4096" and "n \<le> 482"
  shows "unat (reduce_q (sum_list (map (\<lambda>i. ucast (f i)) [0..<n]))) = (\<Sum>i<n. unat (f i)) mod 4096"
proof -
  let ?ws = "map (\<lambda>i. ucast (f i)) [0..<n] :: u32 list"
  have m: "map unat ?ws = map (\<lambda>i. unat (f i)) [0..<n]" by simp
  have "sum_list (map (\<lambda>i. unat (f i)) [0..<n]) \<le> length [0..<n] * 4096"
    by (rule sum_list_le_length) (use assms(1) in \<open>auto intro: less_imp_le\<close>)
  also have "\<dots> \<le> 482 * 4096" using assms(2) by simp
  finally have "sum_list (map unat ?ws) < 2 ^ LENGTH(32)" unfolding m by simp
  then have "unat (sum_list ?ws) = sum_list (map (\<lambda>i. unat (f i)) [0..<n])"
    by (subst unat_sum_list_bound) (simp_all only: m)
  also have "\<dots> = (\<Sum>i<n. unat (f i))"
    by (simp add: interv_sum_list_conv_sum_set_nat atLeast0LessThan)
  finally show ?thesis by (simp add: unat_reduce_q)
qed

lemma par_N_le: "par_N \<le> 482" by (simp add: par_N_def)

text \<open>Row \<open>k\<close> of a request, over the pairs of masks of all key bits and the rows of the matrix.\<close>

abbreviation mask_pairs :: "xof \<Rightarrow> 'c client_state \<Rightarrow> nat \<Rightarrow> (zq list \<times> zq list) list" where
  "mask_pairs xof cs first \<equiv> map (\<lambda>i. (expand xof (client_block cs i) first, expand xof (client_other_block cs i) first)) [0..<par_N]"

abbreviation matrix_slices :: "zq_matrix \<Rightarrow> zq list list" where
  "matrix_slices m \<equiv> map (\<lambda>k. as_slice (matrix_rows m ! k)) [0..<16]"

abbreviation mask_total :: "(zq list \<times> zq list) list \<Rightarrow> nat \<Rightarrow> zq_accum" where
  "mask_total masks k \<equiv> sum_list (map (\<lambda>i. ucast (fst (masks ! i) ! k)) [0..<par_N])"

abbreviation blinded_row :: "zq list list \<Rightarrow> (zq list \<times> zq list) list \<Rightarrow> nat \<Rightarrow> zq list" where
  "blinded_row a masks k \<equiv> map (\<lambda>i. reduce_q (ucast (a ! k ! i) + ucast (fst (masks ! i) ! k)
                                    + ucast (snd (masks ! i) ! k))) [0..<par_N]"

abbreviation request_row ::
  "'c client_state \<Rightarrow> zq list list \<Rightarrow> (zq list \<times> zq list) list \<Rightarrow> nat \<Rightarrow> nat \<Rightarrow> (row_request \<times> row_finalize_state) option" where
  "request_row cs a masks first k \<equiv> Option.bind (client_r_c cs (first + k)) (\<lambda>rc.
     Option.bind (sub_delta (reduce_delta (reduce_q (mask_total masks k))) (rc_b_prime rc)) (\<lambda>b.
     Some (\<lparr> row_e = blinded_row a masks k, row_b_bar_prime = b \<rparr>,
           \<lparr> fin_ctr = first + k, fin_r_sigma = reduce_q (mask_total masks k), fin_r_prime = rc_r_prime rc \<rparr>)))"

lemma unat_blinded:
  assumes m: "wf_vector (matrix_rows m ! k)" and k: "k < 16" and i: "i < par_N"
  shows "unat (blinded_row (matrix_slices m) (mask_pairs xof cs first) k ! i)
    = (unat (as_slice (matrix_rows m ! k) ! i) + mask_at xof (client_block cs i) (first + k)
        + mask_at xof (client_other_block cs i) (first + k)) mod 4096"
proof -
  have "as_slice (matrix_rows m ! k) ! i \<in> set (as_slice (matrix_rows m ! k))" using m i by (simp add: wf_vector_def)
  then have "unat (as_slice (matrix_rows m ! k) ! i) < 4096"
    using wf_vector_bound [OF m, of "as_slice (matrix_rows m ! k) ! i"] by linarith
  with i k mask_at_less show ?thesis
    by (simp add: unat_sum3 unat_expand k del: upt_Suc)
qed

lemma unat_mask_total:
  assumes k: "k < 16"
  shows "unat (reduce_q (mask_total (mask_pairs xof cs first) k))
    = (\<Sum>i<par_N. mask_at xof (client_block cs i) (first + k)) mod 4096"
proof -
  let ?B = "\<lambda>i. expand xof (client_block cs i) first"
  have B: "unat (?B i ! k) = mask_at xof (client_block cs i) (first + k)" for i by (simp add: unat_expand k)
  have "mask_total (mask_pairs xof cs first) k = sum_list (map (\<lambda>i. ucast (?B i ! k)) [0..<par_N])"
    by (rule arg_cong [where f = sum_list], rule map_cong) simp_all
  then have "unat (reduce_q (mask_total (mask_pairs xof cs first) k)) = (\<Sum>i<par_N. unat (?B i ! k)) mod 4096"
    by (simp only: unat_sum_index [OF _ par_N_le] B mask_at_less)
  then show ?thesis by (simp only: B)
qed

lemma request_row_Some:
  assumes wf: "wf_client cs" and m: "wf_vector (matrix_rows m ! k)" and first: "first + 16 \<le> length (cs_r_c cs)" and k: "k < 16"
  shows "\<exists>p. request_row cs (matrix_slices m) (mask_pairs xof cs first) first k = Some p
    \<and> request_row_ok xof cs first m k (fst p) (snd p)"
proof -
  let ?rc = "cs_r_c cs ! (first + k)" and ?acc = "reduce_q (mask_total (mask_pairs xof cs first) k)"
  have rc: "client_r_c cs (first + k) = Some ?rc" and "?rc \<in> set (cs_r_c cs)"
    using first k by (simp_all add: client_r_c_def)
  with wf have b': "unat (rc_b_prime ?rc) < 16" by (simp add: wf_client_def)
  obtain b where b: "sub_delta (reduce_delta ?acc) (rc_b_prime ?rc) = Some b"
    "unat b = (unat ?acc mod 16 + 16 - unat (rc_b_prime ?rc)) mod 16"
    using unat_sub_delta [of "reduce_delta ?acc" "rc_b_prime ?rc"] b' by (auto simp: unat_reduce_delta)
  let ?p = "(\<lparr> row_e = blinded_row (matrix_slices m) (mask_pairs xof cs first) k, row_b_bar_prime = b \<rparr>,
               \<lparr> fin_ctr = first + k, fin_r_sigma = ?acc, fin_r_prime = rc_r_prime ?rc \<rparr>)"
  have "request_row cs (matrix_slices m) (mask_pairs xof cs first) first k = Some ?p"
    using rc b(1) by (simp del: upt_Suc map_map)
  moreover have "request_row_ok xof cs first m k (fst ?p) (snd ?p)"
    unfolding request_row_ok_def
    by (intro conjI allI impI) (simp_all add: unat_blinded [OF m k] unat_mask_total [OF k] b(2) del: upt_Suc map_map nth_map)
  ultimately show ?thesis by blast
qed

lemma request_evaluation_Some:
  assumes wf: "wf_client cs" and m: "wf_matrix m" and first: "first + 16 \<le> length (cs_r_c cs)"
  shows "\<exists>rows fins. request_evaluation xof cs first m = Some (rows, fins)
           \<and> length rows = 16 \<and> length fins = 16
           \<and> (\<forall>k < 16. request_row_ok xof cs first m k (rows ! k) (fins ! k))"
proof -
  have H: "H_ROWS = 16" by (simp add: H_ROWS_def)
  have ma: "length (matrix_rows m) = 16" and wfrow: "\<And>k. k < 16 \<Longrightarrow> wf_vector (matrix_rows m ! k)"
    using m by (simp_all add: wf_matrix_def H)
  have a: "opt_map (\<lambda>k. map_option as_slice (mrow m k)) [0..<16] = Some (matrix_slices m)"
    by (rule opt_map_total) (simp add: mrow_def ma)
  have masks: "opt_map (\<lambda>i. do { r_bhats \<leftarrow> r_bhat xof cs i first;
         r_not_bhats \<leftarrow> r_not_bhat xof cs i first; Some (r_bhats, r_not_bhats) }) [0..<par_N] = Some (mask_pairs xof cs first)"
    by (rule opt_map_total) (simp add: r_bhat_Some [OF wf])
  let ?f = "request_row cs (matrix_slices m) (mask_pairs xof cs first) first"
  from opt_map_upt [of 16 ?f, OF request_row_Some [OF wf wfrow first]] obtain ps where ps: "opt_map ?f [0..<16] = Some ps"
    "length ps = 16" "\<forall>k < 16. request_row_ok xof cs first m k (fst (ps ! k)) (snd (ps ! k))" by blast
  have "request_evaluation xof cs first m = Some (map fst ps, map snd ps)"
    unfolding request_evaluation_def H a masks Let_def by (simp only: ps(1) bind.bind_lunit)
  with ps show ?thesis by simp
qed

section \<open>A response row\<close>

definition response_row_ok ::
  "xof \<Rightarrow> server_state \<Rightarrow> secret_key \<Rightarrow> nat \<Rightarrow> nat \<Rightarrow> row_request \<Rightarrow> row_response \<Rightarrow> zq \<Rightarrow> bool" where
  "response_row_ok xof ss sk first k rq rep r_tilde \<longleftrightarrow>
     resp_ctr rep = first + k \<and> unat r_tilde < 4096 \<and>
     r_sigma_sum sk (map (\<lambda>i. expand xof (rs_ot_block (ss_r_s ss ! i)) first ! k) [0..<par_N])
       = Some r_tilde \<and>
     respond (a_sigma_sum sk r_tilde (row_e rq)) (ss_s_s ss ! (first + k)) (row_b_bar_prime rq)
       = Some (resp_y rep)"

lemma response_row_ok_runs [simp]:
  "response_row_ok xof (ss\<lparr> ss_runs := r \<rparr>) sk first k rq rep t = response_row_ok xof ss sk first k rq rep t"
  by (simp add: response_row_ok_def)

definition wf_row_request :: "row_request \<Rightarrow> bool" where
  "wf_row_request rq \<longleftrightarrow> length (row_e rq) = par_N \<and> (\<forall>x \<in> set (row_e rq). unat x < 4096)
     \<and> unat (row_b_bar_prime rq) < 16"

lemma blind_eval_one_Some:
  assumes wf: "wf_server ss" and first: "first + 16 \<le> length (ss_s_s ss)"
    and reqs: "length reqs = 16" "\<forall>rq \<in> set reqs. unat (row_b_bar_prime rq) < 16"
  shows "\<exists>rows sums. blind_eval_one xof ss sk reqs first = Some (rows, sums)
           \<and> length rows = 16 \<and> length sums = 16
           \<and> (\<forall>k < 16. response_row_ok xof ss sk first k (reqs ! k) (rows ! k) (sums ! k))"
proof -
  let ?R = "\<lambda>i. expand xof (rs_ot_block (ss_r_s ss ! i)) first"
  have r: "opt_map (\<lambda>i. server_r xof ss i first) [0..<par_N] = Some (map ?R [0..<par_N])"
    by (rule opt_map_total) (simp add: server_r_Some [OF wf])
  let ?f = "\<lambda>(k, req). do {
              r_tilde \<leftarrow> r_sigma_sum sk (map (\<lambda>i. map ?R [0..<par_N] ! i ! k) [0..<par_N]);
              pads \<leftarrow> server_s_s ss (first + k);
              y \<leftarrow> respond (a_sigma_sum sk r_tilde (row_e req)) pads (row_b_bar_prime req);
              Some (\<lparr> resp_y = y, resp_ctr = first + k \<rparr>, r_tilde) }"
  let ?Q = "\<lambda>(k, req) p. response_row_ok xof ss sk first k req (fst p) (snd p)"
  have each: "\<exists>p. ?f x = Some p \<and> ?Q x p" if x: "x \<in> set (enumerate 0 reqs)" for x
  proof -
    obtain k where k: "k < 16" and xk: "x = (k, reqs ! k)"
      using x reqs(1) by (auto simp: in_set_conv_nth nth_enumerate_eq)
    let ?ms = "map (\<lambda>i. ?R i ! k) [0..<par_N]"
    have eq: "map (\<lambda>i. map ?R [0..<par_N] ! i ! k) [0..<par_N] = ?ms" by simp
    have "\<forall>r \<in> set ?ms. unat r < 4096" by (auto simp: unat_expand k mask_at_less)
    moreover have "length ?ms \<le> 482" by (simp add: par_N_le)
    ultimately obtain t where t: "r_sigma_sum sk ?ms = Some t" "unat t < 4096"
      using r_sigma_sum_Some by blast
    have pads: "server_s_s ss (first + k) = Some (ss_s_s ss ! (first + k))"
      and "ss_s_s ss ! (first + k) \<in> set (ss_s_s ss)"
      using first k by (simp_all add: server_s_s_def)
    with wf have "length (ss_s_s ss ! (first + k)) = 16" by (simp add: wf_server_def)
    moreover have "unat (row_b_bar_prime (reqs ! k)) < 16" using reqs k by simp
    ultimately obtain y where "respond (a_sigma_sum sk t (row_e (reqs ! k)))
        (ss_s_s ss ! (first + k)) (row_b_bar_prime (reqs ! k)) = Some y"
      using respond_Some [OF unat_a_sigma_less] by blast
    with t pads show ?thesis unfolding xk prod.case eq by (simp add: response_row_ok_def)
  qed
  obtain ps where ps: "opt_map ?f (enumerate 0 reqs) = Some ps" "length ps = 16"
    "\<forall>k < 16. ?Q (enumerate 0 reqs ! k) (ps ! k)"
    using opt_map_spec [of "enumerate 0 reqs" ?f ?Q, OF each] reqs(1) by auto
  have "blind_eval_one xof ss sk reqs first = Some (map fst ps, map snd ps)"
    using reqs(1) ps(1) by (simp add: blind_eval_one_def r H_ROWS_def Let_def case_prod_unfold)
  with ps reqs(1) show ?thesis by (simp add: nth_enumerate_eq)
qed

section \<open>One row of matched states\<close>

lemma xor_bit:
  assumes "unat (b :: u8) \<le> 1" and "unat (s :: u8) \<le> 1"
  shows "(b XOR s = 0) = ((b = 0) = (s = 0))"
proof -
  have bit: "w = 0 \<or> w = 1" if "unat (w :: u8) \<le> 1" for w
  proof -
    from that have "unat w = 0 \<or> unat w = 1" by linarith
    then show ?thesis by (simp add: word_unat_eq_iff)
  qed
  from bit [OF assms(1)] bit [OF assms(2)] show ?thesis by auto
qed

text \<open>The server's block of coordinate \<open>i\<close> is the client's blinding block where \<open>sk_i = 0\<close> and the
  other one where \<open>sk_i = 1\<close>.\<close>

lemma matched_block:
  assumes "matched sk cs ss" and "wf_server ss" and "wf_key sk" and "i < par_N"
  shows "rs_ot_block (ss_r_s ss ! i)
           = (if as_bits sk ! i = 0 then client_block cs i else client_other_block cs i)"
proof -
  let ?b = "rs_b (ss_r_s ss ! i)" and ?s = "as_bits sk ! i"
  have "unat ?b \<le> 1" using assms(2,4) by (simp add: wf_server_def)
  moreover have "unat ?s \<le> 1"
    using assms(3,4) wf_key_bound [OF assms(3), of ?s] by (simp add: wf_key_def)
  ultimately have "(?b XOR ?s = 0) = ((?b = 0) = (?s = 0))" by (rule xor_bit)
  moreover have "rs_ot_block (ss_r_s ss ! i)
      = (if ?b = 0 then fst (cs_ot_blocks cs ! i) else snd (cs_ot_blocks cs ! i))"
    and "cs_bhat cs ! i = ?b XOR ?s"
    using assms(1,4) by (simp_all add: matched_def Let_def)
  ultimately show ?thesis by (auto simp: client_block_def client_other_block_def)
qed

text \<open>What a request row unblinds, whatever the server is: masks \<open>ms\<close> that are the client's where the
  key bit picks them, and the one entry of the response that the client reads.\<close>

lemma entry_unblinds:
  assumes sk: "wf_key sk" and mat: "wf_matrix mx" and k: "k < 16"
    and rq: "request_row_ok xof cs first mx k rq fin"
    and ms: "length ms = par_N" "\<And>i. i < par_N \<Longrightarrow> unat (ms ! i) = mask_at xof
        (if as_bits sk ! i = 0 then client_block cs i else client_other_block cs i) (first + k)"
    and t: "r_sigma_sum sk ms = Some t" "unat t < 4096"
    and len: "length (resp_y rep) = 16"
    and entry: "unat (resp_y rep ! (unat (fin_r_sigma fin) mod 16))
      = (((unat (a_sigma_sum sk t (row_e rq)) + 4096 - unat (fin_r_sigma fin) mod 16) mod 4096 + 7) div 16
          + unat (fin_r_prime fin)) mod 256"
  shows "\<exists>out. finalize_row fin rep = Some out
           \<and> evaluate_single_row sk (matrix_rows mx ! k) = Some out"
proof -
  let ?j = "first + k"
  let ?row = "matrix_rows mx ! k"
  let ?x = "\<lambda>i. mask_at xof (client_block cs i) ?j" and ?y = "\<lambda>i. mask_at xof (client_other_block cs i) ?j"
  have row: "wf_vector ?row" using mat k by (simp add: wf_matrix_def H_ROWS_def)
  have e: "length (row_e rq) = par_N" "\<And>i. i < par_N \<Longrightarrow>
      unat (row_e rq ! i) = (unat (as_slice ?row ! i) + ?x i + ?y i) mod 4096"
    and r: "unat (fin_r_sigma fin) = (\<Sum>i<par_N. ?x i) mod 4096"
    using rq by (simp_all add: request_row_ok_def)
  have "\<forall>r \<in> set ms. unat r < 4096" using ms by (auto simp: in_set_conv_nth mask_at_less)
  then have signed: "int (unat t) = signed_sum (as_bits sk) ms mod 4096"
    using r_sigma_sum_Some [of ms sk] t(1) ms(1) par_N_le by auto
  have bits: "unat (as_bits sk ! i) = 0 \<or> unat (as_bits sk ! i) = 1" if "i < par_N" for i
    using wf_key_bound [OF sk, of "as_bits sk ! i"] that sk by (simp add: wf_key_def le_Suc_eq)
  have "(dot (row_e rq) (as_bits sk) + unat t) mod 4096
          = (dot (as_slice ?row) (as_bits sk) + (\<Sum>i<par_N. ?x i)) mod 4096"
    by (rule blinding_cancels [where ms = ms and y = ?y])
      (use e signed bits row sk ms in \<open>simp_all add: wf_vector_def wf_key_def\<close>)
  moreover have e_small: "\<forall>x \<in> set (row_e rq). unat x < 4096" using e by (auto simp: in_set_conv_nth)
  have "unat (a_sigma_sum sk t (row_e rq)) = (dot (row_e rq) (as_bits sk) + unat t) mod 4096"
    by (rule unat_a_sigma_sum [OF sk e_small _ t(2)]) (simp add: e(1) par_N_le)
  ultimately have a: "unat (a_sigma_sum sk t (row_e rq))
      = (dot (as_slice ?row) (as_bits sk) + unat (fin_r_sigma fin)) mod 4096"
    by (simp only: r mod_add_right_eq)
  have "unat (fin_r_sigma fin) < 4096" by (simp add: r)
  from finalize_entry_spec [OF a this len entry] obtain out where
    out: "finalize_row fin rep = Some out" "unat out = prf_element (dot (as_slice ?row) (as_bits sk))"
    by blast
  obtain out' where "evaluate_single_row sk ?row = Some out'"
    "unat out' = prf_element (dot (as_slice ?row) (as_bits sk))"
    using unat_evaluate_single_row [OF row sk] by blast
  moreover from this out have "out = out'" by (simp only: word_unat_eq_iff)
  ultimately show ?thesis using out by blast
qed

text \<open>The index of the response that the client reads is the one its choice of pads opens.\<close>

lemma request_row_index:
  assumes "request_row_ok xof cs first m k rq fin" and "unat (rc_b_prime (cs_r_c cs ! (first + k))) < 16"
  shows "(unat (fin_r_sigma fin) mod 16 + 16 - unat (row_b_bar_prime rq)) mod 16
    = unat (rc_b_prime (cs_r_c cs ! (first + k)))"
  using assms unblind_index [OF assms(2), of "unat (fin_r_sigma fin)"] by (simp add: request_row_ok_def)

lemma row_unblinds:
  assumes m: "matched sk cs ss" and wfs: "wf_server ss" and wfc: "wf_client cs" and sk: "wf_key sk"
    and mat: "wf_matrix mx" and k: "k < 16"
    and first: "first + 16 \<le> length (cs_r_c cs)" "first + 16 \<le> length (ss_s_s ss)"
    and rq: "request_row_ok xof cs first mx k rq fin"
    and rep: "response_row_ok xof ss sk first k rq rep r_tilde"
  shows "\<exists>out. finalize_row fin rep = Some out
           \<and> evaluate_single_row sk (matrix_rows mx ! k) = Some out"
proof -
  let ?rc = "cs_r_c cs ! (first + k)" and ?pads = "ss_s_s ss ! (first + k)"
  have t: "unat r_tilde < 4096"
    "r_sigma_sum sk (map (\<lambda>i. expand xof (rs_ot_block (ss_r_s ss ! i)) first ! k) [0..<par_N]) = Some r_tilde"
    and y: "respond (a_sigma_sum sk r_tilde (row_e rq)) ?pads (row_b_bar_prime rq) = Some (resp_y rep)"
    using rep by (simp_all add: response_row_ok_def)
  have j: "first + k < length (cs_r_c cs)" "first + k < length (ss_s_s ss)" using first k by simp_all
  have b': "unat (rc_b_prime ?rc) < 16" using wfc j(1) by (simp add: wf_client_def)
  have pads: "length ?pads = 16" using wfs j(2) by (simp add: wf_server_def)
  have b_bar': "unat (row_b_bar_prime rq) < 16" using rq by (simp add: request_row_ok_def)
  have pad: "fin_r_prime fin = ?pads ! unat (rc_b_prime ?rc)"
    using m j(1) rq by (simp add: matched_def request_row_ok_def)
  note respond = respond_Some [OF unat_a_sigma_less b_bar' pads, of sk r_tilde "row_e rq"]
  show ?thesis
  proof (rule entry_unblinds [OF sk mat k rq _ _ t(2,1)])
    show "unat (map (\<lambda>i. expand xof (rs_ot_block (ss_r_s ss ! i)) first ! k) [0..<par_N] ! i)
        = mask_at xof (if as_bits sk ! i = 0 then client_block cs i else client_other_block cs i) (first + k)"
      if "i < par_N" for i
      using that matched_block [OF m wfs sk that] by (simp add: unat_expand k)
  qed (use respond y request_row_index [OF rq b'] pad in auto)
qed

end
