(* ===== verification/OnlineBatch.thy ===== *)
theory OnlineBatch
  imports OnlineRows
begin

text \<open>
  The loops over a batch: \<open>request_loop\<close> and \<open>blind_eval_loop\<close> return one block of \<open>H_ROWS\<close> rows per
  evaluation, on consecutive runs, and what each spends.
\<close>

section \<open>Spending runs\<close>

definition client_spend :: "nat \<Rightarrow> 'c client_state \<Rightarrow> 'c client_state" where
  "client_spend n cs = cs\<lparr> cs_runs := \<lparr> runs_tau = client_total cs, runs_ctr = client_spent cs + n \<rparr> \<rparr>"

definition server_spend :: "nat \<Rightarrow> server_state \<Rightarrow> server_state" where
  "server_spend n ss = ss\<lparr> ss_runs := \<lparr> runs_tau = server_total ss, runs_ctr = server_spent ss + n \<rparr> \<rparr>"

lemma client_spend_simps [simp]:
  "client_total (client_spend n cs) = client_total cs"
  "client_spent (client_spend n cs) = client_spent cs + n"
  "cs_voprf (client_spend n cs) = cs_voprf cs"
  "cs_uid (client_spend n cs) = cs_uid cs"
  "cs_r_c (client_spend n cs) = cs_r_c cs"
  "client_spend m (client_spend n cs) = client_spend (n + m) cs"
  "request_row_ok xof (client_spend n cs) first mx k rq fin = request_row_ok xof cs first mx k rq fin"
  by (simp_all add: client_spend_def budget_defs add.assoc)

lemma server_spend_simps [simp]:
  "server_total (server_spend n ss) = server_total ss"
  "server_spent (server_spend n ss) = server_spent ss + n"
  "ss_voprf (server_spend n ss) = ss_voprf ss"
  "ss_uid (server_spend n ss) = ss_uid ss"
  "ss_s_s (server_spend n ss) = ss_s_s ss"
  "server_spend m (server_spend n ss) = server_spend (n + m) ss"
  "response_row_ok xof (server_spend n ss) sk first k rq rep t = response_row_ok xof ss sk first k rq rep t"
  by (simp_all add: server_spend_def budget_defs add.assoc)

lemma client_spend_0 [simp]: "client_spend 0 cs = cs"
  by (cases cs) (simp add: client_spend_def budget_defs)

lemma server_spend_0 [simp]: "server_spend 0 ss = ss"
  by (cases ss) (simp add: server_spend_def budget_defs)

lemma wf_client_spend:
  assumes "wf_client cs" and "client_spent cs + n \<le> client_total cs" and "n mod 16 = 0"
  shows "wf_client (client_spend n cs)"
  using assms by (auto simp: wf_client_def client_spend_def budget_defs wf_runs_def mod_add_eq [symmetric]
      split: option.splits)

lemma wf_server_spend:
  assumes "wf_server ss" and "server_spent ss + n \<le> server_total ss"
  shows "wf_server (server_spend n ss)"
  using assms by (auto simp: wf_server_def server_spend_def budget_defs wf_runs_def split: option.splits)

lemma client_next_runs_spend:
  assumes "wf_client cs" and "client_spent cs + n \<le> client_total cs"
  shows "client_next_runs n cs = (client_spend n cs, Some (client_spent cs))"
  using assms client_next_runs_Some [of cs n]
  by (simp add: client_spend_def client_remaining wf_client_def)

lemma server_next_runs_spend:
  assumes "wf_server ss" and "server_spent ss + n \<le> server_total ss"
  shows "server_next_runs n ss = (server_spend n ss, Some (server_spent ss))"
  using assms server_next_runs_Some [of ss n]
  by (simp add: server_spend_def server_remaining wf_server_def)

lemma matched_spend:
  "matched sk cs ss \<Longrightarrow> matched sk (client_spend n cs) (server_spend n ss)"
  by (simp add: matched_def client_spend_def server_spend_def budget_defs Let_def)

lemma wf_client_total: "wf_client cs \<Longrightarrow> client_total cs = length (cs_r_c cs)"
  by (simp add: wf_client_def budget_defs)

lemma wf_server_total: "wf_server ss \<Longrightarrow> server_total ss = length (ss_s_s ss)"
  by (simp add: wf_server_def budget_defs)

lemma wf_client_spent: "wf_client cs \<Longrightarrow> client_spent cs \<le> client_total cs"
  by (simp add: wf_client_def budget_defs wf_runs_def)

lemma H_ROWS_16 [simp]: "H_ROWS = 16"
  by (simp add: H_ROWS_def)

section \<open>The client's online statement\<close>

lemma online_statement_of_Some:
  assumes "first div 16 < length (cv_m cv)" and "first + 16 \<le> length (cv_d cv)" and "length rows = 16"
  shows "\<exists>st. online_statement_of cv first rows = Some st \<and> os_pk st = verified_pk (cv_pk cv)
           \<and> os_m st = cv_m cv ! (first div 16) \<and> length (os_runs st) = 16
           \<and> (\<forall>k < 16. os_runs st ! k = \<lparr> run_d = cv_d cv ! (first + k), run_e = row_e (rows ! k),
                run_b_bar_prime = row_b_bar_prime (rows ! k), run_y = replicate DELTA 0 \<rparr>)"
proof -
  let ?g = "\<lambda>k. \<lparr> run_d = cv_d cv ! (first + k), run_e = row_e (rows ! k),
                run_b_bar_prime = row_b_bar_prime (rows ! k), run_y = replicate DELTA 0 \<rparr>"
  have "opt_map (\<lambda>k. do { d \<leftarrow> idx (cv_d cv) (first + k); row \<leftarrow> idx rows k;
         Some \<lparr> run_d = d, run_e = row_e row, run_b_bar_prime = row_b_bar_prime row,
                run_y = replicate DELTA 0 \<rparr> }) [0..<16] = Some (map ?g [0..<16])"
    by (rule opt_map_total) (use assms in simp)
  with assms(1) show ?thesis by (simp add: online_statement_of_def del: upt_Suc)
qed

section \<open>The request loop\<close>

definition statement_ok ::
  "'c client_voprf \<Rightarrow> nat \<Rightarrow> row_request list \<Rightarrow> ('c, 'c, 'c) online_statement \<Rightarrow> bool" where
  "statement_ok cv first rows st \<longleftrightarrow> online_statement_of cv first rows = Some st"

definition request_block_ok ::
  "xof \<Rightarrow> 'c client_state \<Rightarrow> nat \<Rightarrow> zq_matrix \<Rightarrow> row_request list \<Rightarrow> row_finalize_state list \<Rightarrow> bool" where
  "request_block_ok xof cs first m rows fins \<longleftrightarrow> length rows = 16 \<and> length fins = 16 \<and>
     (\<forall>k < 16. request_row_ok xof cs first m k (rows ! k) (fins ! k))"

lemma request_block_ok_spend [simp]:
  "request_block_ok xof (client_spend n cs) first m rows fins = request_block_ok xof cs first m rows fins"
  by (simp add: request_block_ok_def)

lemma wf_client_statement:
  assumes wf: "wf_client cs" and cv: "cs_voprf cs = Some cv"
    and first: "first mod 16 = 0" "first + 16 \<le> client_total cs" and "length rows = 16"
  shows "\<exists>st. online_statement_of cv first rows = Some st"
proof -
  let ?tau = "length (cs_r_c cs)"
  have len: "length (cv_m cv) = ?tau div 16" "length (cv_d cv) = ?tau div 16 * 16"
    using wf cv by (simp_all add: wf_client_def evaluations_for_def)
  have "(first + 16) div 16 \<le> ?tau div 16"
    using first(2) by (intro div_le_mono) (simp add: wf_client_total [OF wf])
  then have "first div 16 < length (cv_m cv)" by (simp add: len)
  moreover have "first + 16 \<le> length (cv_d cv)"
    using \<open>(first + 16) div 16 \<le> ?tau div 16\<close> first(1) len(2) by (metis add_self_mod_2 div_mult_mod_eq
        mult_le_mono1 mod_add_self2 add_0_right)
  ultimately show ?thesis using online_statement_of_Some assms(5) by blast
qed

text \<open>What the loop adds to the statements for one evaluation, and a turn of it.\<close>

lemma request_loop_Cons:
  fixes cs :: "'c client_state"
  assumes wf: "wf_client cs" and fits: "client_spent cs + 16 \<le> client_total cs"
  obtains rows fins and stat :: "('c, 'c, 'c) online_statement list" where
    "request_block_ok xof cs (client_spent cs) (hash_to_zq_matrix xof tag x) rows fins"
    "case cs_voprf cs of None \<Rightarrow> stat = [] | Some cv \<Rightarrow> \<exists>st. stat = [st] \<and> statement_ok cv (client_spent cs) rows st"
    "request_loop xof tag cs (x # xs) = (case request_loop xof tag (client_spend 16 cs) xs of (cs', None) \<Rightarrow> (cs', None)
       | (cs', Some (rows', fins', sts)) \<Rightarrow> (cs', Some (rows @ rows', fins @ fins', stat @ sts)))"
proof -
  let ?first = "client_spent cs" and ?m = "hash_to_zq_matrix xof tag x" and ?cs' = "client_spend 16 cs"
  have wf': "wf_client ?cs'" by (rule wf_client_spend [OF wf fits]) simp
  have next': "client_next_runs 16 cs = (?cs', Some ?first)"
    by (rule client_next_runs_spend [OF wf fits])
  have "?first + 16 \<le> length (cs_r_c ?cs')" using fits by (simp add: wf_client_total [OF wf])
  from request_evaluation_Some [where xof = xof, OF wf' wf_hash [of xof tag x] this]
  obtain rows fins where ev: "request_evaluation xof ?cs' ?first ?m = Some (rows, fins)"
    and block: "request_block_ok xof cs ?first ?m rows fins"
    by (auto simp: request_block_ok_def)
  obtain stat where stat: "case cs_voprf cs of None \<Rightarrow> stat = [] | Some cv \<Rightarrow> \<exists>st. stat = [st] \<and> statement_ok cv ?first rows st"
    "(case cs_voprf cs of None \<Rightarrow> Some [] | Some voprf \<Rightarrow> map_option (\<lambda>s. [s]) (online_statement_of voprf ?first rows)) = Some stat"
  proof (cases "cs_voprf cs")
    case None
    then show ?thesis by (intro that [of "[]"]) simp_all
  next
    case (Some cv)
    have "?first mod 16 = 0" "length rows = 16"
      using wf Some block by (simp_all add: wf_client_def budget_defs request_block_ok_def)
    from wf_client_statement [OF wf Some this(1) fits this(2)]
    obtain st where "online_statement_of cv ?first rows = Some st" ..
    with Some show ?thesis by (intro that [of "[st]"]) (simp_all add: statement_ok_def)
  qed
  from that [OF block stat(1)] show ?thesis by (simp add: Let_def next' ev stat(2))
qed

lemma request_loop_Some:
  assumes "wf_client cs" and "client_spent cs + 16 * length xs \<le> client_total cs"
  shows "\<exists>rss fss sts. request_loop xof tag cs xs
             = (client_spend (16 * length xs) cs, Some (concat rss, concat fss, sts))
           \<and> length rss = length xs \<and> length fss = length xs
           \<and> (\<forall>v < length xs. request_block_ok xof cs (client_spent cs + 16 * v)
                  (hash_to_zq_matrix xof tag (xs ! v)) (rss ! v) (fss ! v))
           \<and> (case cs_voprf cs of None \<Rightarrow> sts = []
              | Some cv \<Rightarrow> length sts = length xs \<and> (\<forall>v < length xs.
                    statement_ok cv (client_spent cs + 16 * v) (rss ! v) (sts ! v)))"
  using assms
proof (induction xs arbitrary: cs)
  case Nil
  then show ?case by (auto split: option.splits)
next
  case (Cons x xs)
  let ?first = "client_spent cs" and ?cs' = "client_spend 16 cs"
  have fits: "?first + 16 \<le> client_total cs" using Cons.prems(2) by simp
  have wf': "wf_client ?cs'" by (rule wf_client_spend [OF Cons.prems(1) fits]) simp
  obtain rows fins stat where block: "request_block_ok xof cs ?first (hash_to_zq_matrix xof tag x) rows fins"
    and stat: "case cs_voprf cs of None \<Rightarrow> stat = [] | Some cv \<Rightarrow> \<exists>st. stat = [st] \<and> statement_ok cv ?first rows st"
    and turn: "request_loop xof tag cs (x # xs) = (case request_loop xof tag ?cs' xs of (cs', None) \<Rightarrow> (cs', None)
       | (cs', Some (rows', fins', sts)) \<Rightarrow> (cs', Some (rows @ rows', fins @ fins', stat @ sts)))"
    by (rule request_loop_Cons [OF Cons.prems(1) fits])
  have rest_fits: "client_spent ?cs' + 16 * length xs \<le> client_total ?cs'"
    using Cons.prems(2) by simp
  obtain rss fss sts where
    rest: "request_loop xof tag ?cs' xs
       = (client_spend (16 + 16 * length xs) cs, Some (concat rss, concat fss, sts))"
    and lens: "length rss = length xs" "length fss = length xs"
    and blocks: "\<forall>v < length xs. request_block_ok xof cs (?first + 16 + 16 * v)
                  (hash_to_zq_matrix xof tag (xs ! v)) (rss ! v) (fss ! v)"
    and stats: "case cs_voprf cs of None \<Rightarrow> sts = []
              | Some cv \<Rightarrow> length sts = length xs \<and> (\<forall>v < length xs.
                    statement_ok cv (?first + 16 + 16 * v) (rss ! v) (sts ! v))"
    using Cons.IH [OF wf' rest_fits]
    unfolding client_spend_simps request_block_ok_spend by (elim exE conjE) (rule that)
  have "request_loop xof tag cs (x # xs)
     = (client_spend (16 * length (x # xs)) cs, Some (concat (rows # rss), concat (fins # fss), stat @ sts))"
    unfolding turn rest by (simp add: add.commute)
  moreover have "\<forall>v < length (x # xs). request_block_ok xof cs (?first + 16 * v)
                  (hash_to_zq_matrix xof tag ((x # xs) ! v)) ((rows # rss) ! v) ((fins # fss) ! v)"
    using block blocks by (auto simp: nth_Cons add.assoc split: nat.splits)
  moreover have "case cs_voprf cs of None \<Rightarrow> stat @ sts = []
              | Some cv \<Rightarrow> length (stat @ sts) = length (x # xs) \<and> (\<forall>v < length (x # xs).
                    statement_ok cv (?first + 16 * v) ((rows # rss) ! v) ((stat @ sts) ! v))"
    using stat stats by (auto simp: nth_Cons add.assoc split: option.splits nat.splits)
  moreover have "length (rows # rss) = length (x # xs)" "length (fins # fss) = length (x # xs)"
    using lens by simp_all
  ultimately show ?case by blast
qed

end
