(* ===== verification/OnlineServer.thy ===== *)
theory OnlineServer
  imports OnlineBatch
begin

text \<open>
  The server's half of the online phase: the statement and witness \<open>prove_online\<close> proves, and the
  loop of \<open>blind_eval\<close> over the evaluations of a request with every way it can end.
\<close>

section \<open>The statement behind a response\<close>

lemma run_witness_of_Some:
  assumes "wf_blocks bs"
  shows "run_witness_of bs t = Some \<lparr> rw_r_sigma_sum = t, rw_pads = block_pads bs,
           rw_d_randomness = map randomness bs \<rparr>"
proof -
  have len: "length bs = 16" and b: "\<And>j. j < 16 \<Longrightarrow> length (bs ! j) = 16"
    using assms by (simp_all add: wf_blocks_def)
  have "opt_map (\<lambda>j. do { b \<leftarrow> idx bs j; r_prime_from_block b }) [0..<16]
      = Some (map (\<lambda>j. bs ! j ! 0) [0..<16])"
    by (rule opt_map_total) (simp add: len r_prime_Some b)
  moreover have "opt_map (\<lambda>j. map_option randomness (idx bs j)) [0..<16]
      = Some (map (\<lambda>j. randomness (bs ! j)) [0..<16])"
    by (rule opt_map_total) (simp add: len)
  ultimately show ?thesis
    by (simp add: run_witness_of_def block_pads_def map_upt_nth [OF len]
        map_upt_nth [OF len, where f = "\<lambda>b. b ! 0"] del: upt_Suc)
qed

definition online_witness_for :: "hash \<Rightarrow> block list list \<Rightarrow> secret_key \<Rightarrow> nat \<Rightarrow> zq list \<Rightarrow> online_witness"
where
  "online_witness_for h blocks sk first sums =
     \<lparr> ow_sk = sk, ow_m_randomness = mask_sum_randomness h (blocks ! first),
       ow_runs = map (\<lambda>k. \<lparr> rw_r_sigma_sum = sums ! k, rw_pads = block_pads (blocks ! (first + k)),
           rw_d_randomness = map randomness (blocks ! (first + k)) \<rparr>) [0..<16] \<rparr>"

lemma online_witness_of_Some:
  assumes "first + 16 \<le> length (sv_delta_ot_blocks sv)" and "length sums = 16"
    and "\<forall>bs \<in> set (sv_delta_ot_blocks sv). wf_blocks bs"
  shows "online_witness_of h sv sk first sums
           = Some (online_witness_for h (sv_delta_ot_blocks sv) sk first sums)"
proof -
  let ?bs = "sv_delta_ot_blocks sv"
  have "opt_map (\<lambda>k. do { ot_blocks \<leftarrow> idx ?bs (first + k); r_tilde \<leftarrow> idx sums k;
         run_witness_of ot_blocks r_tilde }) [0..<16]
     = Some (map (\<lambda>k. \<lparr> rw_r_sigma_sum = sums ! k, rw_pads = block_pads (?bs ! (first + k)),
           rw_d_randomness = map randomness (?bs ! (first + k)) \<rparr>) [0..<16])"
    by (rule opt_map_total) (use assms in \<open>simp add: run_witness_of_Some\<close>)
  then show ?thesis
    using assms(1) by (simp add: online_witness_of_def online_witness_for_def del: upt_Suc)
qed

text \<open>The statement of an honest server, run by run.\<close>

definition server_statement ::
  "('c, 'proof, 'pe, 've) crypto \<Rightarrow> block list list \<Rightarrow> secret_key \<Rightarrow> nat \<Rightarrow> zq list \<Rightarrow> row_request list
     \<Rightarrow> row_response list \<Rightarrow> ('c, 'c, 'c) online_statement" where
  "server_statement cr blocks sk first sums rows reps =
     \<lparr> os_pk = commit_key cr sk,
       os_m = commit_mask_sum cr \<lparr> msi_r_sigma_sums = sums,
                msi_randomness = mask_sum_randomness (cr_hash cr) (blocks ! first) \<rparr>,
       os_runs = map (\<lambda>k. \<lparr> run_d = block_pad_commitments cr (blocks ! (first + k)),
           run_e = row_e (rows ! k), run_b_bar_prime = row_b_bar_prime (rows ! k),
           run_y = resp_y (reps ! k) \<rparr>) [0..<16] \<rparr>"

definition response_block_ok ::
  "xof \<Rightarrow> server_state \<Rightarrow> secret_key \<Rightarrow> nat \<Rightarrow> row_request list \<Rightarrow> row_response list \<Rightarrow> zq list \<Rightarrow> bool"
where
  "response_block_ok xof ss sk first rqs reps sums \<longleftrightarrow>
     length rqs = 16 \<and> length reps = 16 \<and> length sums = 16 \<and>
     (\<forall>k < 16. response_row_ok xof ss sk first k (rqs ! k) (reps ! k) (sums ! k))"

lemma response_block_ok_spend [simp]:
  "response_block_ok xof (server_spend n ss) sk first rqs reps sums
     = response_block_ok xof ss sk first rqs reps sums"
  by (simp add: response_block_ok_def)

lemma pads_consistent_spend [simp]: "pads_consistent (server_spend n ss) = pads_consistent ss"
  by (simp add: pads_consistent_def split: option.splits)

text \<open>An online statement of the source's types that holds for a witness of the source's types.\<close>

definition cr_online_holds ::
  "('c, 'proof, 'pe, 've) crypto \<Rightarrow> ('c, 'c, 'c) online_statement \<Rightarrow> online_witness \<Rightarrow> bool" where
  "cr_online_holds cr st w \<longleftrightarrow> wf_online_statement st \<and> wf_online_witness w \<and>
     online_holds_for (commit_key cr) (commit_mask_sum cr) (commit_pad cr) st w"

lemma run_honest_server:
  assumes "length bs = 16" and "respond (a_sigma_sum sk t e) (block_pads bs) b = Some y"
  shows "run_honest (commit_pad cr) sk \<lparr> rw_r_sigma_sum = t, rw_pads = block_pads bs,
           rw_d_randomness = map randomness bs \<rparr> e b
     = Some \<lparr> run_d = block_pad_commitments cr bs, run_e = e, run_b_bar_prime = b, run_y = y \<rparr>"
proof -
  have "map (\<lambda>j. commit_pad cr \<lparr> pi_pad = block_pads bs ! j, pi_randomness = map randomness bs ! j \<rparr>) [0..<16]
      = block_pad_commitments cr bs"
    using assms(1) by (intro nth_equalityI) (simp_all add: block_pad_commitments_def block_pads_def)
  with assms(2) show ?thesis by (simp add: run_honest_def del: upt_Suc)
qed

text \<open>The witness of an honest answer is one of the source's types.\<close>

lemma honest_online_witness:
  assumes "wf_key sk" and "\<forall>b \<in> set blocks. wf_blocks b" and "first + 16 \<le> length blocks"
  shows "wf_online_witness (online_witness_for h blocks sk first sums)"
  using assms by (auto simp: wf_online_witness_def online_witness_for_def wf_run_witness_def block_pads_def wf_blocks_def)

text \<open>Its honest statement is what the client sees of the answer.\<close>

lemma honest_online_statement:
  assumes wf: "wf_server ss" and sv: "ss_voprf ss = Some sv"
    and pads: "pads_consistent ss" and first: "first + 16 \<le> length (ss_s_s ss)"
    and block: "response_block_ok (cr_xof cr) ss sk first rqs reps sums"
  defines "w \<equiv> online_witness_for (cr_hash cr) (sv_delta_ot_blocks sv) sk first sums"
  shows "online_honest (commit_key cr) (commit_mask_sum cr) (commit_pad cr) w (map row_e rqs) (map row_b_bar_prime rqs)
    = Some (server_statement cr (sv_delta_ot_blocks sv) sk first sums rqs reps)"
proof -
  let ?bs = "sv_delta_ot_blocks sv" and ?st = "server_statement cr (sv_delta_ot_blocks sv) sk first sums rqs reps"
  have lens: "length rqs = 16" "length sums = 16" using block by (simp_all add: response_block_ok_def)
  have run: "run_honest (commit_pad cr) (ow_sk w) (ow_runs w ! k) (map row_e rqs ! k)
      (map row_b_bar_prime rqs ! k) = Some (os_runs ?st ! k)" if k: "k < 16" for k
  proof -
    have len: "length (?bs ! (first + k)) = 16" using wf sv first k by (simp add: wf_server_def)
    have own: "ss_s_s ss ! (first + k) = block_pads (?bs ! (first + k))"
      using pads sv first k by (simp add: pads_consistent_def)
    have "respond (a_sigma_sum sk (sums ! k) (row_e (rqs ! k))) (block_pads (?bs ! (first + k)))
        (row_b_bar_prime (rqs ! k)) = Some (resp_y (reps ! k))"
      unfolding own [symmetric] using block k by (simp add: response_block_ok_def response_row_ok_def)
    then show ?thesis
      using k lens len by (simp add: w_def online_witness_for_def server_statement_def run_honest_server)
  qed
  have sums: "ow_r_sigma_sums w = sums"
    using map_upt_nth [OF lens(2), of id] by (simp add: w_def ow_r_sigma_sums_def online_witness_for_def comp_def)
  have "opt_map (\<lambda>k. run_honest (commit_pad cr) (ow_sk w) (ow_runs w ! k) (map row_e rqs ! k)
      (map row_b_bar_prime rqs ! k)) [0..<16] = Some (map (\<lambda>k. os_runs ?st ! k) [0..<16])"
    by (rule opt_map_total) (simp add: run)
  moreover have "map (\<lambda>k. os_runs ?st ! k) [0..<16] = os_runs ?st"
    by (intro nth_equalityI) (simp_all add: server_statement_def)
  ultimately show ?thesis
    by (simp add: online_honest_def sums del: upt_Suc)
      (simp add: w_def server_statement_def online_witness_for_def del: upt_Suc)
qed

lemma prove_online_proves:
  assumes wf: "wf_server ss" and sk: "wf_key sk" and sv: "ss_voprf ss = Some sv"
    and pads: "pads_consistent ss" and first: "first + 16 \<le> length (ss_s_s ss)"
    and rqs: "\<forall>rq \<in> set rqs. wf_row_request rq"
    and block: "response_block_ok (cr_xof cr) ss sk first rqs reps sums"
  shows "prove_online cr sv sk first rqs sums
           = prove_online_st cr (server_statement cr (sv_delta_ot_blocks sv) sk first sums rqs reps)
               (online_witness_for (cr_hash cr) (sv_delta_ot_blocks sv) sk first sums)
         \<and> cr_online_holds cr (server_statement cr (sv_delta_ot_blocks sv) sk first sums rqs reps)
               (online_witness_for (cr_hash cr) (sv_delta_ot_blocks sv) sk first sums)"
proof -
  let ?bs = "sv_delta_ot_blocks sv"
  let ?w = "online_witness_for (cr_hash cr) ?bs sk first sums" and ?st = "server_statement cr ?bs sk first sums rqs reps"
  have lens: "length rqs = 16" "length sums = 16" and small: "\<forall>k < 16. unat (sums ! k) < 4096"
    using block by (simp_all add: response_block_ok_def response_row_ok_def)
  have bs: "length ?bs = length (ss_s_s ss)" "\<forall>b \<in> set ?bs. wf_blocks b"
    using wf sv by (simp_all add: wf_server_def wf_blocks_def)
  have w: "online_witness_of (cr_hash cr) sv sk first sums = Some ?w"
    by (rule online_witness_of_Some) (use bs first lens in simp_all)
  note honest = honest_online_statement [OF wf sv pads first block]
  have e: "opt_map (\<lambda>k. map_option f (idx rqs k)) [0..<16] = Some (map f rqs)"
    for f :: "row_request \<Rightarrow> 'x"
    using lens by (subst opt_map_total [where g = "\<lambda>k. f (rqs ! k)"]) (simp_all add: map_upt_nth)
  have "prove_online cr sv sk first rqs sums = prove_online_st cr ?st ?w"
    by (simp add: prove_online_def w e honest del: upt_Suc)
  moreover have "cr_online_holds cr ?st ?w"
  proof -
    have wfw: "wf_online_witness ?w" by (rule honest_online_witness [OF sk bs(2)]) (simp add: first bs(1))
    have "\<forall>rw \<in> set (ow_runs ?w). unat (rw_r_sigma_sum rw) < 4096" using small by (auto simp: online_witness_for_def)
    moreover have "wf_row_request (rqs ! k)" if "k < 16" for k using rqs lens(1) that by simp
    then have "\<forall>k < RUNS_PER_EVALUATION. length (map row_e rqs ! k) = par_N
        \<and> (\<forall>x \<in> set (map row_e rqs ! k). unat x < 4096)" "\<forall>k < RUNS_PER_EVALUATION. unat (map row_b_bar_prime rqs ! k) < 16"
      using lens(1) by (simp_all add: wf_row_request_def)
    ultimately show ?thesis
      using online_honest_holds [OF wfw, of "map row_e rqs" "map row_b_bar_prime rqs" "commit_key cr" "commit_mask_sum cr" "commit_pad cr"] wfw
      by (auto simp: honest cr_online_holds_def)
  qed
  ultimately show ?thesis by blast
qed

end
