(* ===== verification/OnlineCorrect.thy ===== *)
theory OnlineCorrect
  imports OnlineServer
begin

text \<open>
  The online phase end to end: every way the server's loop ends, what \<open>finalize_batch\<close> returns for the
  answers of an honest server, and that the three operations on matched states compute the PRF.
\<close>

section \<open>The server's loop\<close>

definition proof_ok ::
  "('c, 'proof, 'pe, 've) crypto \<Rightarrow> server_voprf \<Rightarrow> secret_key \<Rightarrow> nat \<Rightarrow> row_request list
     \<Rightarrow> row_response list \<Rightarrow> zq list \<Rightarrow> 'proof \<Rightarrow> bool" where
  "proof_ok cr sv sk first rqs reps sums proof \<longleftrightarrow>
     prove_online_st cr (server_statement cr (sv_delta_ot_blocks sv) sk first sums rqs reps)
       (online_witness_for (cr_hash cr) (sv_delta_ot_blocks sv) sk first sums) = Ok proof \<and>
     cr_online_holds cr (server_statement cr (sv_delta_ot_blocks sv) sk first sums rqs reps)
       (online_witness_for (cr_hash cr) (sv_delta_ot_blocks sv) sk first sums)"

definition responses_ok ::
  "('c, 'proof, 'pe, 've) crypto \<Rightarrow> server_state \<Rightarrow> secret_key \<Rightarrow> nat \<Rightarrow> row_request list list
     \<Rightarrow> row_response list list \<Rightarrow> zq list list \<Rightarrow> 'proof list \<Rightarrow> bool" where
  "responses_ok cr ss sk first evals reps sums proofs \<longleftrightarrow>
     length reps = length evals \<and> length sums = length evals \<and>
     (\<forall>v < length evals. response_block_ok (cr_xof cr) ss sk (first + 16 * v) (evals ! v) (reps ! v) (sums ! v)) \<and>
     (case ss_voprf ss of None \<Rightarrow> proofs = []
      | Some sv \<Rightarrow> length proofs = length evals \<and> (\<forall>v < length evals.
          proof_ok cr sv sk (first + 16 * v) (evals ! v) (reps ! v) (sums ! v) (proofs ! v)))"

text \<open>The loop answers everything, or stops at the first evaluation whose proof fails.\<close>

definition proving_failed ::
  "('c, 'proof, 'pe, 've) crypto \<Rightarrow> server_state \<Rightarrow> 'pe \<Rightarrow> bool" where
  "proving_failed cr ss e \<longleftrightarrow> ss_voprf ss \<noteq> None \<and>
     (\<exists>st w. cr_online_holds cr st w \<and> prove_online_st cr st w = Err e)"

text \<open>The prover returns a proof or an error on a statement that holds.\<close>

definition prover_total :: "('c, 'proof, 'pe, 've) crypto \<Rightarrow> bool" where
  "prover_total cr \<longleftrightarrow> (\<forall>st w. cr_online_holds cr st w \<longrightarrow> prove_online_st cr st w \<noteq> Panic)"

lemma proving_failed_spend [simp]: "proving_failed cr (server_spend n ss) e = proving_failed cr ss e"
  by (simp add: proving_failed_def)

lemma responses_ok_spend [simp]:
  "responses_ok cr (server_spend n ss) sk first evals reps sums proofs
     = responses_ok cr ss sk first evals reps sums proofs"
  by (simp add: responses_ok_def)

lemma responses_ok_Cons:
  assumes "response_block_ok (cr_xof cr) ss sk first eval rows tsum"
    and "case ss_voprf ss of None \<Rightarrow> p = []
         | Some sv \<Rightarrow> \<exists>proof. p = [proof] \<and> proof_ok cr sv sk first eval rows tsum proof"
    and "responses_ok cr ss sk (first + 16) evals reps sums proofs"
  shows "responses_ok cr ss sk first (eval # evals) (rows # reps) (tsum # sums) (p @ proofs)"
  using assms by (auto simp: responses_ok_def nth_Cons add.assoc split: option.splits nat.splits)

text \<open>What the loop adds to the proofs for one evaluation.\<close>

abbreviation server_proof ::
  "('c, 'proof, 'pe, 've) crypto \<Rightarrow> server_state \<Rightarrow> secret_key \<Rightarrow> nat \<Rightarrow> row_request list \<Rightarrow> zq list
     \<Rightarrow> ('pe blind_eval_error, 'proof list) res" where
  "server_proof cr ss sk first eval tsum \<equiv> (case ss_voprf ss of None \<Rightarrow> Ok []
     | Some voprf \<Rightarrow> res_bind (map_err BlindEvalProve (prove_online cr voprf sk first eval tsum)) (\<lambda>proof. Ok [proof]))"

lemma server_proof_cases:
  assumes wf: "wf_server ss" and sk: "wf_key sk" and pads: "pads_consistent ss" and first: "first + 16 \<le> length (ss_s_s ss)"
    and eval: "\<forall>rq \<in> set eval. wf_row_request rq" and block: "response_block_ok (cr_xof cr) ss sk first eval rows tsum"
    and total: "prover_total cr"
  obtains (proved) p where "server_proof cr ss sk first eval tsum = Ok p"
      "case ss_voprf ss of None \<Rightarrow> p = [] | Some sv \<Rightarrow> \<exists>proof. p = [proof] \<and> proof_ok cr sv sk first eval rows tsum proof"
    | (failed) e where "server_proof cr ss sk first eval tsum = Err (BlindEvalProve e)" "proving_failed cr ss e"
proof (cases "ss_voprf ss")
  case None
  with proved show ?thesis by simp
next
  case (Some sv)
  let ?st = "server_statement cr (sv_delta_ot_blocks sv) sk first tsum eval rows"
  let ?w = "online_witness_for (cr_hash cr) (sv_delta_ot_blocks sv) sk first tsum"
  have proves: "prove_online cr sv sk first eval tsum = prove_online_st cr ?st ?w" "cr_online_holds cr ?st ?w"
    using prove_online_proves [OF wf sk Some pads first eval block] by blast+
  show ?thesis
  proof (cases "prove_online_st cr ?st ?w")
    case (Ok x)
    with Some proves proved show ?thesis by (simp add: proof_ok_def)
  next
    case (Err e)
    then have "proving_failed cr ss e" using Some proves(2) by (auto simp: proving_failed_def)
    with Some proves(1) Err failed show ?thesis by simp
  next
    case Panic
    with total proves(2) show ?thesis by (auto simp: prover_total_def)
  qed
qed

text \<open>One turn of the loop.\<close>

lemma blind_eval_loop_Cons:
  assumes wf: "wf_server ss" and eval: "length eval = 16" "\<forall>rq \<in> set eval. wf_row_request rq"
    and fits: "server_spent ss + 16 \<le> server_total ss"
  obtains rows tsum where "response_block_ok (cr_xof cr) ss sk (server_spent ss) eval rows tsum"
    "blind_eval_loop cr sk ss (eval # evals) = (case server_proof cr ss sk (server_spent ss) eval tsum of
         Err e \<Rightarrow> (server_spend 16 ss, Err e) | Panic \<Rightarrow> (server_spend 16 ss, Panic)
       | Ok proof \<Rightarrow> (case blind_eval_loop cr sk (server_spend 16 ss) evals of
             (st, Ok (rows', proofs)) \<Rightarrow> (st, Ok (rows @ rows', proof @ proofs))
           | (st, Err e) \<Rightarrow> (st, Err e)
           | (st, Panic) \<Rightarrow> (st, Panic)))"
proof -
  let ?first = "server_spent ss" and ?ss' = "server_spend 16 ss"
  have wf': "wf_server ?ss'" by (rule wf_server_spend [OF wf fits])
  have next': "server_next_runs 16 ss = (?ss', Some ?first)"
    by (rule server_next_runs_spend [OF wf fits])
  have "?first + 16 \<le> length (ss_s_s ss)"
    using fits by (simp add: wf_server_total [OF wf])
  moreover have "\<forall>rq \<in> set eval. unat (row_b_bar_prime rq) < 16" using eval(2) by (simp add: wf_row_request_def)
  ultimately obtain rows tsum where one: "blind_eval_one (cr_xof cr) ?ss' sk eval ?first = Some (rows, tsum)"
    and block: "response_block_ok (cr_xof cr) ss sk ?first eval rows tsum"
    using blind_eval_one_Some [where xof = "cr_xof cr" and sk = sk, OF wf' _ eval(1), of ?first] eval(1)
    by (auto simp: response_block_ok_def)
  from that [OF block] show ?thesis by (simp add: Let_def next' one)
qed

lemma blind_eval_loop_cases:
  assumes "wf_server ss" and "wf_key sk" and "pads_consistent ss"
    and "\<forall>eval \<in> set evals. length eval = 16 \<and> (\<forall>rq \<in> set eval. wf_row_request rq)"
    and "server_spent ss + 16 * length evals \<le> server_total ss"
    and "prover_total cr"
  shows "(\<exists>reps sums proofs. blind_eval_loop cr sk ss evals
              = (server_spend (16 * length evals) ss, Ok (concat reps, proofs))
            \<and> responses_ok cr ss sk (server_spent ss) evals reps sums proofs)
       \<or> (\<exists>n e. n < length evals \<and> proving_failed cr ss e \<and>
            blind_eval_loop cr sk ss evals = (server_spend (16 * (n + 1)) ss, Err (BlindEvalProve e)))"
  using assms(1-5)
proof (induction evals arbitrary: ss)
  case Nil
  show ?case
    by (intro disjI1 exI [of _ "[]"]) (simp add: responses_ok_def split: option.split)
next
  case (Cons eval evals)
  let ?first = "server_spent ss" and ?ss' = "server_spend 16 ss"
  have eval: "length eval = 16" "\<forall>rq \<in> set eval. wf_row_request rq" using Cons.prems(4) by simp_all
  have fits: "?first + 16 \<le> server_total ss" using Cons.prems(5) by simp
  have rest: "(\<exists>reps sums proofs. blind_eval_loop cr sk ?ss' evals
              = (server_spend (16 + 16 * length evals) ss, Ok (concat reps, proofs))
            \<and> responses_ok cr ss sk (?first + 16) evals reps sums proofs)
       \<or> (\<exists>n e. n < length evals \<and> proving_failed cr ss e \<and>
            blind_eval_loop cr sk ?ss' evals = (server_spend (16 + 16 * (n + 1)) ss, Err (BlindEvalProve e)))"
    using Cons.IH [OF wf_server_spend [OF Cons.prems(1) fits]] Cons.prems(2-5) by simp
  obtain rows tsum where block: "response_block_ok (cr_xof cr) ss sk ?first eval rows tsum"
    and turn: "blind_eval_loop cr sk ss (eval # evals) = (case server_proof cr ss sk ?first eval tsum of
         Err e \<Rightarrow> (?ss', Err e) | Panic \<Rightarrow> (?ss', Panic)
       | Ok proof \<Rightarrow> (case blind_eval_loop cr sk ?ss' evals of
             (st, Ok (rows', proofs)) \<Rightarrow> (st, Ok (rows @ rows', proof @ proofs))
           | (st, Err e) \<Rightarrow> (st, Err e)
           | (st, Panic) \<Rightarrow> (st, Panic)))"
    by (rule blind_eval_loop_Cons [OF Cons.prems(1) eval fits])
  have "?first + 16 \<le> length (ss_s_s ss)"
    using fits by (simp add: wf_server_total [OF Cons.prems(1)])
  from Cons.prems(1-3) this eval(2) block assms(6) show ?case
  proof (cases rule: server_proof_cases)
    case (proved p)
    from rest show ?thesis
    proof (elim disjE exE conjE)
      fix reps sums proofs
      assume "blind_eval_loop cr sk ?ss' evals = (server_spend (16 + 16 * length evals) ss, Ok (concat reps, proofs))"
        and ok: "responses_ok cr ss sk (?first + 16) evals reps sums proofs"
      then have "blind_eval_loop cr sk ss (eval # evals)
          = (server_spend (16 * length (eval # evals)) ss, Ok (concat (rows # reps), p @ proofs))"
        unfolding turn proved(1) by simp
      with responses_ok_Cons [OF block proved(2) ok] show ?thesis by blast
    next
      fix n e
      assume "blind_eval_loop cr sk ?ss' evals = (server_spend (16 + 16 * (n + 1)) ss, Err (BlindEvalProve e))"
        and n: "n < length evals" and e: "proving_failed cr ss e"
      then have "blind_eval_loop cr sk ss (eval # evals) = (server_spend (16 * (Suc n + 1)) ss, Err (BlindEvalProve e))"
        unfolding turn proved(1) by simp
      moreover have "Suc n < length (eval # evals)" using n by simp
      ultimately show ?thesis using e by blast
    qed
  next
    case (failed e)
    then have "blind_eval_loop cr sk ss (eval # evals) = (server_spend (16 * (0 + 1)) ss, Err (BlindEvalProve e))"
      unfolding turn by simp
    moreover have "0 < length (eval # evals)" by simp
    ultimately show ?thesis using failed(2) by blast
  qed
qed

section \<open>Finalize on an honest response\<close>

lemma finalize_rows_Ok:
  assumes "opt_map (\<lambda>(fin, rep). finalize_row fin rep) ps = Some outs"
    and "\<forall>(fin, rep) \<in> set ps. resp_ctr rep = fin_ctr fin"
  shows "finalize_rows n ps = Ok outs"
  using assms
proof (induction ps arbitrary: n outs)
  case Nil
  then show ?case by simp
next
  case (Cons p ps)
  obtain fin rep where p: "p = (fin, rep)" by fastforce
  from Cons.prems p obtain out outs' where "finalize_row fin rep = Some out"
    and "opt_map (\<lambda>(fin, rep). finalize_row fin rep) ps = Some outs'" and "outs = out # outs'"
    by (auto split: option.splits)
  with Cons p show ?case by simp
qed

lemma finalize_evaluations_Ok:
  assumes "length outs = length ps"
    and "\<forall>v < length ps. \<forall>n. finalize_rows n (zip (fst (ps ! v)) (snd (ps ! v)))
           = (Ok (elements (outs ! v)) :: ('ve finalize_error, zp list) res)"
  shows "finalize_evaluations n ps = (Ok outs :: ('ve finalize_error, prf_output list) res)"
  using assms
proof (induction ps arbitrary: n outs)
  case Nil
  then show ?case by simp
next
  case (Cons p ps)
  obtain fin rep where p: "p = (fin, rep)" by fastforce
  from Cons.prems(1) obtain out outs' where outs: "outs = out # outs'" by (cases outs) auto
  have head: "finalize_rows m (zip fin rep) = (Ok (elements out) :: ('ve finalize_error, zp list) res)" for m
    using Cons.prems(2) [rule_format, of 0 m] by (simp add: p outs)
  have "finalize_evaluations (Suc n) ps = (Ok outs' :: ('ve finalize_error, prf_output list) res)"
  proof (rule Cons.IH)
    show "length outs' = length ps" using Cons.prems(1) by (simp add: outs)
    show "\<forall>v < length ps. \<forall>n. finalize_rows n (zip (fst (ps ! v)) (snd (ps ! v)))
            = (Ok (elements (outs' ! v)) :: ('ve finalize_error, zp list) res)"
      using Cons.prems(2) by (auto simp: outs dest: spec [of _ "Suc _"])
  qed
  with head show ?case by (simp add: p outs)
qed

lemma request_block_wf:
  assumes "request_block_ok xof cs first m rows fins"
  shows "length rows = 16 \<and> (\<forall>rq \<in> set rows. wf_row_request rq)"
proof -
  have "wf_row_request (rows ! k)" if "k < 16" for k
  proof -
    have "request_row_ok xof cs first m k (rows ! k) (fins ! k)"
      using assms that by (simp add: request_block_ok_def)
    then show ?thesis by (auto simp: request_row_ok_def wf_row_request_def in_set_conv_nth)
  qed
  then show ?thesis using assms by (auto simp: request_block_ok_def in_set_conv_nth)
qed

text \<open>The rows of one evaluation make its output, if each unblinds to its element.\<close>

lemma block_outputs:
  assumes sk: "wf_key sk" and lens: "length fins = 16" "length reps = 16"
    and each: "\<And>k. k < 16 \<Longrightarrow> \<exists>e. finalize_row (fins ! k) (reps ! k) = Some e
        \<and> evaluate_single_row sk (matrix_rows (hash_to_zq_matrix xof tag x) ! k) = Some e"
  shows "\<exists>out. evaluate xof sk tag x = Some out
    \<and> opt_map (\<lambda>(fin, rep). finalize_row fin rep) (zip fins reps) = Some (elements out)"
proof -
  obtain out where out: "evaluate xof sk tag x = Some out" "length (elements out) = 16"
    and rows: "\<And>r. r < 16 \<Longrightarrow> \<exists>v. mrow (hash_to_zq_matrix xof tag x) r = Some v
        \<and> evaluate_single_row sk v = Some (elements out ! r)"
    using evaluate_row [OF sk, of xof tag x] by (auto simp: OUTPUT_ELEMENTS_def)
  have row: "finalize_row (fins ! k) (reps ! k) = Some (elements out ! k)" if k: "k < 16" for k
    using each [OF k] rows [OF k] k by (auto simp: mrow_def)
  have "zip fins reps = map (\<lambda>k. (fins ! k, reps ! k)) [0..<16]"
    using lens by (intro nth_equalityI) simp_all
  moreover have "opt_map (\<lambda>k. finalize_row (fins ! k) (reps ! k)) [0..<16] = Some (map (\<lambda>k. elements out ! k) [0..<16])"
    by (rule opt_map_total) (simp add: row)
  moreover have "map (\<lambda>k. elements out ! k) [0..<16] = elements out"
    using map_upt_nth [OF out(2), of id] by simp
  ultimately have "opt_map (\<lambda>(fin, rep). finalize_row fin rep) (zip fins reps) = Some (elements out)"
    by (simp add: opt_map_map comp_def del: upt_Suc)
  with out(1) show ?thesis by blast
qed

text \<open>One evaluation of matched states unblinds to the PRF of its input.\<close>

lemma block_unblinds:
  assumes m: "matched sk cs ss" and wfs: "wf_server ss" and wfc: "wf_client cs" and sk: "wf_key sk"
    and first: "first + 16 \<le> length (cs_r_c cs)" "first + 16 \<le> length (ss_s_s ss)"
    and rq: "request_block_ok xof cs first (hash_to_zq_matrix xof tag x) rqs fins"
    and rep: "response_block_ok xof ss sk first rqs reps sums"
  shows "\<exists>out. evaluate xof sk tag x = Some out \<and> (\<forall>n. finalize_rows n (zip fins reps) = Ok (elements out))"
proof -
  have lens: "length fins = 16" "length reps = 16"
    using rq rep by (simp_all add: request_block_ok_def response_block_ok_def)
  have each: "request_row_ok xof cs first (hash_to_zq_matrix xof tag x) k (rqs ! k) (fins ! k)"
    "response_row_ok xof ss sk first k (rqs ! k) (reps ! k) (sums ! k)" if k: "k < 16" for k
    using rq rep k by (simp_all add: request_block_ok_def response_block_ok_def)
  have "\<exists>e. finalize_row (fins ! k) (reps ! k) = Some e
      \<and> evaluate_single_row sk (matrix_rows (hash_to_zq_matrix xof tag x) ! k) = Some e" if k: "k < 16" for k
    by (rule row_unblinds [OF m wfs wfc sk wf_hash k first each [OF k]])
  from block_outputs [OF sk lens this] obtain out where out: "evaluate xof sk tag x = Some out"
    "opt_map (\<lambda>(fin, rep). finalize_row fin rep) (zip fins reps) = Some (elements out)" by blast
  have "finalize_rows n (zip fins reps) = Ok (elements out)" for n
    by (rule finalize_rows_Ok [OF out(2)])
      (use each lens in \<open>auto simp: in_set_zip request_row_ok_def response_row_ok_def\<close>)
  with out(1) show ?thesis by blast
qed

section \<open>The statements of the two sides agree\<close>

lemma matched_voprf_spend:
  "matched_voprf cr sk cs ss \<Longrightarrow> matched_voprf cr sk (client_spend n cs) (server_spend n ss)"
  by (cases "cs_voprf cs"; cases "ss_voprf ss") (simp_all add: matched_voprf_def server_spend_def)

lemma nth_set_ys: "k < length runs \<Longrightarrow> k < length rows \<Longrightarrow>
    set_ys runs rows ! k = (runs ! k)\<lparr> run_y := resp_y (rows ! k) \<rparr>"
  by (induction runs rows arbitrary: k rule: set_ys.induct) (auto simp: nth_Cons split: nat.splits)

lemma length_set_ys [simp]: "length (set_ys runs rows) = length runs"
  by (induction runs rows rule: set_ys.induct) simp_all

lemma statements_agree:
  assumes mv: "matched_voprf cr sk cs ss" and cv: "cs_voprf cs = Some cv" and sv: "ss_voprf ss = Some sv"
    and v: "v < length (cv_m cv)" "16 * v + 16 \<le> length (cv_d cv)"
    and st: "statement_ok cv (16 * v) rows st" and rows: "length rows = 16"
    and block: "response_block_ok (cr_xof cr) ss sk (16 * v) rows reps sums"
  shows "st\<lparr> os_runs := set_ys (os_runs st) reps \<rparr>
           = server_statement cr (sv_delta_ot_blocks sv) sk (16 * v) sums rows reps"
proof -
  let ?bs = "sv_delta_ot_blocks sv"
  from online_statement_of_Some [of "16 * v" cv rows] v rows st have
    st_pk: "os_pk st = verified_pk (cv_pk cv)" and st_m: "os_m st = cv_m cv ! v"
    and st_runs: "length (os_runs st) = 16" "\<And>k. k < 16 \<Longrightarrow> os_runs st ! k =
       \<lparr> run_d = cv_d cv ! (16 * v + k), run_e = row_e (rows ! k),
         run_b_bar_prime = row_b_bar_prime (rows ! k), run_y = replicate DELTA 0 \<rparr>"
    by (auto simp: statement_ok_def)
  have pk: "verified_pk (cv_pk cv) = commit_key cr sk"
    and d: "\<And>j. j < length (cv_d cv) \<Longrightarrow> cv_d cv ! j = block_pad_commitments cr (?bs ! j)"
    using mv cv sv by (simp_all add: matched_voprf_def)
  obtain sums' where sums': "length sums' = 16"
    "\<And>k. k < 16 \<Longrightarrow> r_sigma_sum sk (map (\<lambda>i. expand (cr_xof cr) (rs_ot_block (ss_r_s ss ! i)) (16 * v) ! k)
       [0..<par_N]) = Some (sums' ! k)"
    "cv_m cv ! v = commit_mask_sum cr \<lparr> msi_r_sigma_sums = sums',
       msi_randomness = mask_sum_randomness (cr_hash cr) (?bs ! (16 * v)) \<rparr>"
    using mv cv sv v(1) unfolding matched_voprf_def by fastforce
  have blk: "length reps = 16" "length sums = 16"
    "\<And>k. k < 16 \<Longrightarrow> response_row_ok (cr_xof cr) ss sk (16 * v) k (rows ! k) (reps ! k) (sums ! k)"
    using block by (simp_all add: response_block_ok_def)
  have "sums' ! k = sums ! k" if "k < 16" for k
    using blk(3) [OF that] sums'(2) [OF that] by (simp add: response_row_ok_def)
  with sums'(1) blk(2) have sums: "sums' = sums" by (intro nth_equalityI) simp_all
  have "set_ys (os_runs st) reps = os_runs (server_statement cr ?bs sk (16 * v) sums rows reps)"
  proof (rule nth_equalityI)
    show "length (set_ys (os_runs st) reps) = length (os_runs (server_statement cr ?bs sk (16 * v) sums rows reps))"
      by (simp add: st_runs(1) server_statement_def)
    fix k assume "k < length (set_ys (os_runs st) reps)"
    then have k: "k < 16" by (simp add: st_runs(1))
    with v(2) have "16 * v + k < length (cv_d cv)" by simp
    with k show "set_ys (os_runs st) reps ! k = os_runs (server_statement cr ?bs sk (16 * v) sums rows reps) ! k"
      by (simp add: nth_set_ys st_runs blk(1) d server_statement_def)
  qed
  with st_pk st_m pk sums'(3) sums show ?thesis
    by (cases st) (simp add: server_statement_def)
qed

lemma verify_all_Ok:
  assumes "length sts = n" and "length reps = n" and "length proofs = n"
    and "\<forall>v < n. verify_online cr (sts ! v) (reps ! v) (proofs ! v) = Ok ()"
  shows "verify_all cr (zip sts (zip reps proofs)) = Ok ()"
  using assms
proof (induction sts arbitrary: n reps proofs)
  case Nil
  then show ?case by simp
next
  case (Cons st sts)
  then obtain rep reps' proof1 proofs' where l: "reps = rep # reps'" "proofs = proof1 # proofs'"
    by (cases reps; cases proofs) auto
  have "verify_online cr st rep proof1 = Ok ()"
    using Cons.prems(1,4) l by (metis length_greater_0_conv list.distinct(1) nth_Cons_0)
  moreover have "verify_all cr (zip sts (zip reps' proofs')) = Ok ()"
  proof (rule Cons.IH [of "length sts"])
    show "\<forall>v < length sts. verify_online cr (sts ! v) (reps' ! v) (proofs' ! v) = Ok ()"
      using Cons.prems(1,4) l by (metis Suc_less_eq length_Cons nth_Cons_Suc)
  qed (use Cons.prems l in auto)
  ultimately show ?case by (simp add: l)
qed

end
