(* ===== verification/OnlineEnd.thy ===== *)
theory OnlineEnd
  imports OnlineCorrect
begin

text \<open>
  The public operations \<open>request_batch\<close>, \<open>blind_eval\<close> and \<open>finalize_batch\<close>: on every branch, what they
  return and what they leave of the run budget, and the correctness of the three together.
\<close>

section \<open>\<open>request_batch\<close>\<close>

definition max_batch :: "'v option \<Rightarrow> nat" where
  "max_batch voprf = (if voprf = None then MAX_BATCH_EVALUATIONS else MAX_VOPRF_BATCH_EVALUATIONS)"

lemma max_batch_le: "max_batch voprf \<le> 1024"
  by (simp add: max_batch_def MAX_BATCH_EVALUATIONS_def MAX_VOPRF_BATCH_EVALUATIONS_def)

lemma tau_for_batch: "n \<le> 1024 \<Longrightarrow> tau_for n = Some (16 * n)"
  by (simp add: tau_for_def USIZE_MAX_def)

lemma request_batch_Ok:
  assumes wf: "wf_client cs" and tag: "length tag \<le> MAX_TAG_LEN" and xs: "xs \<noteq> []"
    and max: "length xs \<le> max_batch (cs_voprf cs)"
    and runs: "16 * length xs \<le> client_remaining_runs cs"
  shows "\<exists>rss fss sts. request_batch xof cs tag xs = (client_spend (16 * length xs) cs,
             Ok (\<lparr> req_uid = cs_uid cs, req_tag = tag, req_rows = concat rss \<rparr>,
                 \<lparr> fs_uid = cs_uid cs, fs_rows = concat fss,
                   fs_voprf = map_option (\<lambda>_. sts) (cs_voprf cs) \<rparr>))
           \<and> length rss = length xs \<and> length fss = length xs
           \<and> (\<forall>v < length xs. request_block_ok xof cs (client_spent cs + 16 * v)
                  (hash_to_zq_matrix xof tag (xs ! v)) (rss ! v) (fss ! v))
           \<and> (case cs_voprf cs of None \<Rightarrow> sts = []
              | Some cv \<Rightarrow> length sts = length xs \<and> (\<forall>v < length xs.
                    statement_ok cv (client_spent cs + 16 * v) (rss ! v) (sts ! v)))"
proof -
  have le: "length xs \<le> 1024" using max max_batch_le le_trans by blast
  have "client_spent cs + 16 * length xs \<le> client_total cs"
    using runs xs wf_client_spent [OF wf] by (auto simp: client_remaining)
  from request_loop_Some [OF wf this, of xof tag] obtain rss fss sts where
    loop: "request_loop xof tag cs xs = (client_spend (16 * length xs) cs, Some (concat rss, concat fss, sts))"
    and rest: "length rss = length xs" "length fss = length xs"
      "\<forall>v < length xs. request_block_ok xof cs (client_spent cs + 16 * v)
                  (hash_to_zq_matrix xof tag (xs ! v)) (rss ! v) (fss ! v)"
      "case cs_voprf cs of None \<Rightarrow> sts = []
              | Some cv \<Rightarrow> length sts = length xs \<and> (\<forall>v < length xs.
                    statement_ok cv (client_spent cs + 16 * v) (rss ! v) (sts ! v))"
    by (elim exE conjE) (rule that)
  have "request_batch xof cs tag xs = (client_spend (16 * length xs) cs,
             Ok (\<lparr> req_uid = cs_uid cs, req_tag = tag, req_rows = concat rss \<rparr>,
                 \<lparr> fs_uid = cs_uid cs, fs_rows = concat fss,
                   fs_voprf = map_option (\<lambda>_. sts) (cs_voprf cs) \<rparr>))"
    using tag xs max runs le
    by (auto simp: request_batch_def max_batch_def MAX_BATCH_EVALUATIONS_def tau_for_batch loop)
  with rest show ?thesis by blast
qed

text \<open>Every refusal, and that it leaves the state as it was.\<close>

lemma request_batch_refuses:
  assumes "wf_client cs"
  shows "snd (request_batch xof cs tag xs) = Err e \<Longrightarrow> fst (request_batch xof cs tag xs) = cs"
    and "snd (request_batch xof cs tag xs) \<noteq> Panic"
proof -
  have "(\<exists>e. request_batch xof cs tag xs = (cs, Err e))
      \<or> (length tag \<le> MAX_TAG_LEN \<and> xs \<noteq> [] \<and> length xs \<le> max_batch (cs_voprf cs)
         \<and> 16 * length xs \<le> client_remaining_runs cs)"
    by (auto simp: request_batch_def max_batch_def tau_for_batch MAX_BATCH_EVALUATIONS_def Let_def)
  then have "(\<exists>e. request_batch xof cs tag xs = (cs, Err e)) \<or> (\<exists>st r. request_batch xof cs tag xs = (st, Ok r))"
    using request_batch_Ok [OF assms] by blast
  then show "snd (request_batch xof cs tag xs) = Err e \<Longrightarrow> fst (request_batch xof cs tag xs) = cs"
    and "snd (request_batch xof cs tag xs) \<noteq> Panic" by auto
qed

text \<open>What a request that was made tells.\<close>

lemma request_batch_conditions:
  assumes "request_batch xof cs tag xs = (cs', Ok r)"
  shows "length tag \<le> MAX_TAG_LEN" and "xs \<noteq> []" and "length xs \<le> max_batch (cs_voprf cs)"
    and "16 * length xs \<le> client_remaining_runs cs"
  using assms by (auto simp: request_batch_def max_batch_def tau_for_batch MAX_BATCH_EVALUATIONS_def Let_def
      split: if_splits option.splits)

lemma request_batch_OkD:
  assumes "request_batch xof cs tag xs = (cs', Ok r)" and wf: "wf_client cs"
  obtains rss fss sts where
    "r = (\<lparr> req_uid = cs_uid cs, req_tag = tag, req_rows = concat rss \<rparr>,
          \<lparr> fs_uid = cs_uid cs, fs_rows = concat fss, fs_voprf = map_option (\<lambda>_. sts) (cs_voprf cs) \<rparr>)"
    "length rss = length xs" "length fss = length xs" "16 * length xs \<le> client_remaining_runs cs"
    "\<And>v. v < length xs \<Longrightarrow> request_block_ok xof cs (client_spent cs + 16 * v)
        (hash_to_zq_matrix xof tag (xs ! v)) (rss ! v) (fss ! v)"
    "\<And>cv v. cs_voprf cs = Some cv \<Longrightarrow> length sts = length xs \<and>
        (v < length xs \<longrightarrow> statement_ok cv (client_spent cs + 16 * v) (rss ! v) (sts ! v))"
proof -
  note conds = request_batch_conditions [OF assms(1)]
  from request_batch_Ok [OF wf conds, of xof] obtain rss fss sts where
    "request_batch xof cs tag xs = (client_spend (16 * length xs) cs,
       Ok (\<lparr> req_uid = cs_uid cs, req_tag = tag, req_rows = concat rss \<rparr>,
           \<lparr> fs_uid = cs_uid cs, fs_rows = concat fss, fs_voprf = map_option (\<lambda>_. sts) (cs_voprf cs) \<rparr>))"
    "length rss = length xs" "length fss = length xs"
    "\<forall>v < length xs. request_block_ok xof cs (client_spent cs + 16 * v)
        (hash_to_zq_matrix xof tag (xs ! v)) (rss ! v) (fss ! v)"
    "case cs_voprf cs of None \<Rightarrow> sts = [] | Some cv \<Rightarrow> length sts = length xs \<and> (\<forall>v < length xs.
        statement_ok cv (client_spent cs + 16 * v) (rss ! v) (sts ! v))"
    by (elim exE conjE) (rule that)
  with assms(1) conds(4) show ?thesis by (intro that [of rss fss sts]) auto
qed

section \<open>\<open>blind_eval\<close>\<close>

definition acceptable :: "server_state \<Rightarrow> request_message \<Rightarrow> bool" where
  "acceptable ss req \<longleftrightarrow> req_uid req = ss_uid ss \<and> length (req_tag req) \<le> MAX_TAG_LEN \<and>
     req_rows req \<noteq> [] \<and> length (req_rows req) mod 16 = 0 \<and>
     length (req_rows req) div 16 \<le> max_batch (ss_voprf ss) \<and>
     (\<forall>row \<in> set (req_rows req). (\<forall>x \<in> set (row_e row). x < par_Q) \<and> unat (row_b_bar_prime row) < 16) \<and>
     length (req_rows req) \<le> server_remaining_runs ss"

lemma check_rows_Ok_iff:
  "check_rows rows = Ok () \<longleftrightarrow>
     (\<forall>row \<in> set rows. (\<forall>x \<in> set (row_e row). x < par_Q) \<and> unat (row_b_bar_prime row) < 16)"
  by (induction rows) (auto simp: list_ex_iff not_le [symmetric])

lemma check_rows_not_Panic [simp]: "check_rows rows \<noteq> Panic"
  by (induction rows) auto

lemma check_request_Ok_iff:
  "(check_request ss req :: ('pe blind_eval_error, unit) res) = Ok () \<longleftrightarrow> acceptable ss req"
proof -
  have small: "MAX_VOPRF_BATCH_EVALUATIONS \<le> MAX_BATCH_EVALUATIONS"
    by (simp add: MAX_BATCH_EVALUATIONS_def MAX_VOPRF_BATCH_EVALUATIONS_def)
  let ?rows = "check_rows (req_rows req) :: ('pe blind_eval_error, unit) res"
  note rows = check_rows_Ok_iff [where 'a = 'pe, of "req_rows req"]
  show ?thesis
  proof (cases ?rows)
    case (Ok u)
    then have "?rows = Ok ()" by simp
    with small rows show ?thesis
      by (auto simp: check_request_def acceptable_def max_batch_def req_evaluations_def Let_def)
  next
    case (Err e)
    with rows have "\<not> (\<forall>row \<in> set (req_rows req).
        (\<forall>x \<in> set (row_e row). x < par_Q) \<and> unat (row_b_bar_prime row) < 16)"
      by simp
    with Err show ?thesis by (auto simp: check_request_def acceptable_def)
  qed simp
qed

lemma check_request_not_Panic:
  "(check_request ss req :: ('pe blind_eval_error, unit) res) \<noteq> Panic"
  by (cases "check_rows (req_rows req) :: ('pe blind_eval_error, unit) res")
    (simp_all add: check_request_def Let_def)

definition wf_request :: "request_message \<Rightarrow> bool" where
  "wf_request req \<longleftrightarrow> (\<forall>row \<in> set (req_rows req). length (row_e row) = par_N)"

lemma blind_eval_refuses:
  fixes cr :: "('c, 'proof, 'pe, 've) crypto"
  assumes "\<not> acceptable ss req"
  shows "\<exists>e. check_request ss req = (Err e :: ('pe blind_eval_error, unit) res)
           \<and> blind_eval cr ss sk req = (ss, Err e)"
proof (cases "check_request ss req :: ('pe blind_eval_error, unit) res")
  case (Ok u)
  then have "check_request ss req = (Ok () :: ('pe blind_eval_error, unit) res)" by simp
  with assms check_request_Ok_iff show ?thesis by blast
qed (use check_request_not_Panic in \<open>auto simp: blind_eval_def\<close>)

lemma acceptable_evals:
  assumes acc: "acceptable ss req" and wfr: "wf_request req"
  shows "\<forall>eval \<in> set (chunks_exact 16 (req_rows req)). length eval = 16 \<and> (\<forall>rq \<in> set eval. wf_row_request rq)"
    and "16 * length (chunks_exact 16 (req_rows req)) = length (req_rows req)"
    and "concat (chunks_exact 16 (req_rows req)) = req_rows req"
proof -
  have mod: "length (req_rows req) mod 16 = 0" using acc by (simp add: acceptable_def)
  then show c: "concat (chunks_exact 16 (req_rows req)) = req_rows req"
    by (simp add: concat_chunks_exact)
  have "rq \<in> set (req_rows req)" if "eval \<in> set (chunks_exact 16 (req_rows req))" "rq \<in> set eval" for rq eval
    using that c by (metis UN_I set_concat)
  moreover have "wf_row_request rq" if "rq \<in> set (req_rows req)" for rq
    using acc wfr that by (auto simp: acceptable_def wf_request_def wf_row_request_def less_par_Q)
  ultimately show "\<forall>eval \<in> set (chunks_exact 16 (req_rows req)). length eval = 16 \<and> (\<forall>rq \<in> set eval. wf_row_request rq)"
    using chunks_exact_lengths by blast
  show "16 * length (chunks_exact 16 (req_rows req)) = length (req_rows req)"
    using mod by (simp add: length_chunks_exact) (metis add_0_right mult_div_mod_eq)
qed

lemma blind_eval_accepts:
  assumes wf: "wf_server ss" and sk: "wf_key sk" and pads: "pads_consistent ss"
    and wfr: "wf_request req" and acc: "acceptable ss req"
    and np: "prover_total cr"
  shows "(\<exists>reps sums proofs. blind_eval cr ss sk req = (server_spend (length (req_rows req)) ss,
              Ok \<lparr> rep_uid = ss_uid ss, rep_rows = concat reps, rep_proofs = proofs \<rparr>)
            \<and> responses_ok cr ss sk (server_spent ss) (chunks_exact 16 (req_rows req)) reps sums proofs)
       \<or> (\<exists>n e. n < length (chunks_exact 16 (req_rows req)) \<and> proving_failed cr ss e \<and>
            blind_eval cr ss sk req = (server_spend (16 * (n + 1)) ss, Err (BlindEvalProve e)))"
proof -
  let ?evals = "chunks_exact 16 (req_rows req)"
  note ev = acceptable_evals [OF acc wfr]
  have "server_spent ss + 16 * length ?evals \<le> server_total ss"
    using acc wf by (auto simp: acceptable_def ev(2) server_remaining wf_server_def budget_defs wf_runs_def)
  note cases = blind_eval_loop_cases [OF wf sk pads ev(1) this np]
  have ok: "check_request ss req = Ok ()" using acc check_request_Ok_iff by blast
  have def: "blind_eval cr ss sk req = (case blind_eval_loop cr sk ss ?evals of
             (st', Ok (rows, proofs)) \<Rightarrow>
               (st', Ok \<lparr> rep_uid = ss_uid st', rep_rows = rows, rep_proofs = proofs \<rparr>)
           | (st', Err e) \<Rightarrow> (st', Err e)
           | (st', Panic) \<Rightarrow> (st', Panic))"
    by (simp add: blind_eval_def ok)
  from cases show ?thesis
  proof (elim disjE exE conjE)
    fix reps sums proofs
    assume l: "blind_eval_loop cr sk ss ?evals = (server_spend (16 * length ?evals) ss, Ok (concat reps, proofs))"
      and r: "responses_ok cr ss sk (server_spent ss) ?evals reps sums proofs"
    have "blind_eval cr ss sk req = (server_spend (length (req_rows req)) ss,
              Ok \<lparr> rep_uid = ss_uid ss, rep_rows = concat reps, rep_proofs = proofs \<rparr>)"
      unfolding def l by (simp add: ev(2))
    with r show ?thesis by blast
  next
    fix n e
    assume l: "blind_eval_loop cr sk ss ?evals = (server_spend (16 * (n + 1)) ss, Err (BlindEvalProve e))"
      and n: "n < length ?evals" and e: "proving_failed cr ss e"
    have "blind_eval cr ss sk req = (server_spend (16 * (n + 1)) ss, Err (BlindEvalProve e))"
      unfolding def l by simp
    with n e show ?thesis by blast
  qed
qed

section \<open>The three together\<close>

definition complete_online :: "('c, 'proof, 'pe, 've) crypto \<Rightarrow> bool" where
  "complete_online cr \<longleftrightarrow> (\<forall>st w. cr_online_holds cr st w \<longrightarrow>
     (\<exists>p. prove_online_st cr st w = Ok p \<and> verify_online_st cr st p = Ok ()))"

lemma complete_onlineD:
  assumes "complete_online cr" and "cr_online_holds cr st w" and "prove_online_st cr st w = Ok p"
  shows "verify_online_st cr st p = Ok ()"
  using assms by (force simp: complete_online_def)

lemma complete_prover_total: "complete_online cr \<Longrightarrow> prover_total cr"
  by (force simp: complete_online_def prover_total_def)

lemma complete_not_failed: "complete_online cr \<Longrightarrow> \<not> proving_failed cr ss e"
  by (force simp: complete_online_def proving_failed_def)

text \<open>An honest server's proof of one evaluation passes the client's check.\<close>

lemma honest_proof_verifies:
  fixes cr :: "('c, 'proof, 'pe, 've) crypto"
  assumes wfc: "wf_client cs" and mv: "matched_voprf cr sk cs ss" and complete: "complete_online cr"
    and cv: "cs_voprf cs = Some cv" and sv: "ss_voprf ss = Some sv" and inside: "client_spent cs + 16 * v + 16 \<le> length (cs_r_c cs)"
    and rs: "length rs = 16" and st: "statement_ok cv (client_spent cs + 16 * v) rs st"
    and block: "response_block_ok (cr_xof cr) ss sk (client_spent cs + 16 * v) rs rep tsum"
    and pr: "proof_ok cr sv sk (client_spent cs + 16 * v) rs rep tsum proof"
  shows "verify_online cr st rep proof = Ok ()"
proof -
  have wfv: "length (cv_m cv) = length (cs_r_c cs) div 16"
    "length (cv_d cv) = length (cs_r_c cs) div 16 * 16" "client_spent cs mod 16 = 0"
    using wfc cv by (simp_all add: wf_client_def evaluations_for_def budget_defs)
  define u where "u = client_spent cs div 16 + v"
  have u: "client_spent cs + 16 * v = 16 * u" using wfv(3) unfolding u_def by (metis add_0_right distrib_left mult_div_mod_eq)
  have "16 * u + 16 \<le> length (cs_r_c cs)" using inside by (simp add: u)
  then have le: "Suc u \<le> length (cs_r_c cs) div 16" by (simp add: less_eq_div_iff_mult_less_eq)
  then have uv: "u < length (cv_m cv)" by (simp add: wfv(1))
  from mult_le_mono1 [OF le, of 16] have uv': "16 * u + 16 \<le> length (cv_d cv)" by (simp add: wfv(2))
  have "verify_online cr st rep proof
      = verify_online_st cr (server_statement cr (sv_delta_ot_blocks sv) sk (16 * u) tsum rs rep) proof"
    using statements_agree [OF mv cv sv uv uv'] rs st block by (simp add: verify_online_def u)
  moreover have "proof_ok cr sv sk (16 * u) rs rep tsum proof" using pr by (simp add: u)
  then have "verify_online_st cr (server_statement cr (sv_delta_ot_blocks sv) sk (16 * u) tsum rs rep) proof = Ok ()"
    unfolding proof_ok_def by (elim conjE) (rule complete_onlineD [OF complete])
  ultimately show ?thesis by simp
qed

lemma honest_proofs_verify:
  fixes cr :: "('c, 'proof, 'pe, 've) crypto"
  assumes wfc: "wf_client cs" and mv: "matched_voprf cr sk cs ss" and complete: "complete_online cr"
    and inside: "\<And>v. v < length xs \<Longrightarrow> client_spent cs + 16 * v + 16 \<le> length (cs_r_c cs)" and lens: "length rss = length xs"
    and rq: "\<forall>v < length xs. length (rss ! v) = 16"
    and sts: "case cs_voprf cs of None \<Rightarrow> sts = []
              | Some cv \<Rightarrow> length sts = length xs \<and> (\<forall>v < length xs.
                    statement_ok cv (client_spent cs + 16 * v) (rss ! v) (sts ! v))"
    and rep: "responses_ok cr ss sk (client_spent cs) rss reps sums proofs"
  shows "(case cs_voprf cs of None \<Rightarrow> Ok ()
         | Some cv \<Rightarrow> if length proofs \<noteq> length sts then Err (MalformedResponse ''not one proof per evaluation'')
             else verify_all cr (zip sts (zip reps proofs))) = (Ok () :: ('ve finalize_error, unit) res)"
proof (cases "cs_voprf cs")
  case None
  then show ?thesis by simp
next
  case (Some cv)
  with mv obtain sv where sv: "ss_voprf ss = Some sv" by (auto simp: matched_voprf_def split: option.splits)
  have len: "length sts = length xs" "length proofs = length xs" "length reps = length xs"
    using Some sv sts rep lens by (simp_all add: responses_ok_def)
  have "verify_online cr (sts ! v) (reps ! v) (proofs ! v) = Ok ()" if v: "v < length xs" for v
    by (rule honest_proof_verifies [OF wfc mv complete Some sv inside [OF v], of "rss ! v" _ _ "sums ! v"])
      (use Some sv sts rep lens rq v in \<open>simp_all add: responses_ok_def\<close>)
  then have "verify_all cr (zip sts (zip reps proofs)) = Ok ()"
    by (intro verify_all_Ok [where n = "length xs"]) (use len in simp_all)
  with Some len show ?thesis by simp
qed

text \<open>The rows of an honest answer make the outputs.\<close>

lemma honest_outputs:
  fixes cr :: "('c, 'proof, 'pe, 've) crypto"
  assumes wfc: "wf_client cs" and wfs: "wf_server ss" and sk: "wf_key sk" and m: "matched sk cs ss"
    and inside: "\<And>v. v < length xs \<Longrightarrow> client_spent cs + 16 * v + 16 \<le> length (cs_r_c cs)"
    and lens: "length rss = length xs" "length fss = length xs"
    and rq: "\<forall>v < length xs. request_block_ok (cr_xof cr) cs (client_spent cs + 16 * v)
                  (hash_to_zq_matrix (cr_xof cr) tag (xs ! v)) (rss ! v) (fss ! v)"
    and rep: "responses_ok cr ss sk (client_spent cs) rss reps sums proofs"
  shows "\<exists>outs. finalize_evaluations 0 (zip fss reps) = (Ok outs :: ('ve finalize_error, prf_output list) res)
    \<and> map (evaluate (cr_xof cr) sk tag) xs = map Some outs"
proof -
  let ?n = "length xs" and ?first = "client_spent cs"
  have tot: "length (ss_s_s ss) = length (cs_r_c cs)"
    using wf_client_total [OF wfc] wf_server_total [OF wfs] m by (simp add: matched_def budget_defs)
  have rlens: "length reps = ?n"
    and blk: "\<And>v. v < ?n \<Longrightarrow> response_block_ok (cr_xof cr) ss sk (?first + 16 * v) (rss ! v) (reps ! v) (sums ! v)"
    using rep lens(1) by (simp_all add: responses_ok_def)
  have each: "\<exists>out. evaluate (cr_xof cr) sk tag (xs ! v) = Some out
      \<and> (\<forall>n. finalize_rows n (zip (fss ! v) (reps ! v))
             = (Ok (elements out) :: ('ve finalize_error, zp list) res))" if v: "v < ?n" for v
    using block_unblinds [OF m wfs wfc sk _ _ rq [rule_format, OF v] blk [OF v]] inside [OF v] tot by simp
  define outs where "outs = map (\<lambda>v. the (evaluate (cr_xof cr) sk tag (xs ! v))) [0..<?n]"
  have outs: "length outs = ?n" "\<And>v. v < ?n \<Longrightarrow> evaluate (cr_xof cr) sk tag (xs ! v) = Some (outs ! v)"
    "\<And>v n. v < ?n \<Longrightarrow> finalize_rows n (zip (fss ! v) (reps ! v))
         = (Ok (elements (outs ! v)) :: ('ve finalize_error, zp list) res)"
    using each by (force simp: outs_def)+
  have "finalize_evaluations 0 (zip fss reps) = (Ok outs :: ('ve finalize_error, prf_output list) res)"
    by (rule finalize_evaluations_Ok) (use outs(1,3) lens(2) rlens in simp_all)
  moreover have "map (evaluate (cr_xof cr) sk tag) xs = map Some outs"
    using outs by (intro nth_equalityI) simp_all
  ultimately show ?thesis by blast
qed

lemma finalize_honest:
  fixes cr :: "('c, 'proof, 'pe, 've) crypto"
  assumes wfc: "wf_client cs" and wfs: "wf_server ss" and sk: "wf_key sk"
    and m: "matched sk cs ss" and mv: "matched_voprf cr sk cs ss" and complete: "complete_online cr"
    and fits: "client_spent cs + 16 * length xs \<le> client_total cs"
    and lens: "length rss = length xs" "length fss = length xs"
    and rq: "\<forall>v < length xs. request_block_ok (cr_xof cr) cs (client_spent cs + 16 * v)
                  (hash_to_zq_matrix (cr_xof cr) tag (xs ! v)) (rss ! v) (fss ! v)"
    and sts: "case cs_voprf cs of None \<Rightarrow> sts = []
              | Some cv \<Rightarrow> length sts = length xs \<and> (\<forall>v < length xs.
                    statement_ok cv (client_spent cs + 16 * v) (rss ! v) (sts ! v))"
    and rep: "responses_ok cr ss sk (client_spent cs) rss reps sums proofs"
  shows "\<exists>outs. finalize_batch cr \<lparr> fs_uid = uid, fs_rows = concat fss, fs_voprf = map_option (\<lambda>_. sts) (cs_voprf cs) \<rparr>
             \<lparr> rep_uid = uid, rep_rows = concat reps, rep_proofs = proofs \<rparr> = Ok outs
           \<and> map (evaluate (cr_xof cr) sk tag) xs = map Some outs"
proof -
  let ?n = "length xs"
  have tot: "client_total cs = length (cs_r_c cs)" using wf_client_total [OF wfc] by (simp add: budget_defs)
  have inside: "client_spent cs + 16 * v + 16 \<le> length (cs_r_c cs)" if "v < ?n" for v
    using that fits tot by linarith
  obtain outs where evs: "finalize_evaluations 0 (zip fss reps) = (Ok outs :: ('ve finalize_error, prf_output list) res)"
    and outs: "map (evaluate (cr_xof cr) sk tag) xs = map Some outs"
    using honest_outputs [OF wfc wfs sk m inside lens rq rep] by blast
  have sixteen: "\<forall>v < ?n. length (rss ! v) = 16" using rq by (simp add: request_block_ok_def)
  note verified = honest_proofs_verify [OF wfc mv complete inside lens(1) sixteen sts rep]
  have rlens: "length reps = ?n" using rep lens(1) by (simp add: responses_ok_def)
  have "\<forall>r \<in> set reps. length r = 16" "\<forall>f \<in> set fss. length f = 16"
    using rep rq rlens lens by (auto simp: in_set_conv_nth responses_ok_def response_block_ok_def request_block_ok_def)
  then have chunks: "chunks_exact 16 (concat reps) = reps" "chunks_exact 16 (concat fss) = fss"
    and rows: "length (concat reps) = 16 * ?n" "length (concat fss) = 16 * ?n"
    using rlens lens by (simp_all only: chunks_exact_concat length_concat_const zero_less_numeral)
  have "finalize_batch cr \<lparr> fs_uid = uid, fs_rows = concat fss, fs_voprf = map_option (\<lambda>_. sts) (cs_voprf cs) \<rparr>
             \<lparr> rep_uid = uid, rep_rows = concat reps, rep_proofs = proofs \<rparr> = Ok outs"
    using verified evs rows chunks by (cases "cs_voprf cs") (simp_all add: finalize_batch_def split: if_splits)
  with outs show ?thesis by blast
qed

lemma request_is_acceptable:
  assumes wfc: "wf_client cs" and wfs: "wf_server ss" and m: "matched sk cs ss" and mv: "matched_voprf cr sk cs ss"
    and tag: "length tag \<le> MAX_TAG_LEN" and xs: "xs \<noteq> []" and max: "length xs \<le> max_batch (cs_voprf cs)"
    and runs: "16 * length xs \<le> client_remaining_runs cs"
    and len: "length rss = length xs"
    and rq: "\<forall>v < length xs. request_block_ok xof cs (client_spent cs + 16 * v)
                  (hash_to_zq_matrix xof tag (xs ! v)) (rss ! v) (fss ! v)"
  defines "req \<equiv> \<lparr> req_uid = cs_uid cs, req_tag = tag, req_rows = concat rss \<rparr>"
  shows "acceptable ss req" and "wf_request req" and "length (req_rows req) = 16 * length xs"
    and "chunks_exact 16 (req_rows req) = rss"
proof -
  have blocks: "length r = 16 \<and> (\<forall>rq \<in> set r. wf_row_request rq)" if r: "r \<in> set rss" for r
  proof -
    obtain v where "v < length rss" and "r = rss ! v" using r by (auto simp: in_set_conv_nth)
    with rq len request_block_wf show ?thesis by metis
  qed
  then show rows: "length (req_rows req) = 16 * length xs"
    using len length_concat_const [of rss 16] by (simp add: req_def del: length_concat)
  show "chunks_exact 16 (req_rows req) = rss"
    using blocks by (simp add: req_def chunks_exact_concat)
  have wf: "wf_row_request rq" if "rq \<in> set (req_rows req)" for rq
    using that blocks by (auto simp: req_def)
  then show "wf_request req" by (simp add: wf_request_def wf_row_request_def)
  have "(cs_voprf cs = None) = (ss_voprf ss = None)"
    using mv by (auto simp: matched_voprf_def split: option.splits)
  then have "max_batch (ss_voprf ss) = max_batch (cs_voprf cs)" by (simp add: max_batch_def)
  moreover have "server_remaining_runs ss = client_remaining_runs cs"
    using m by (simp add: matched_def client_remaining server_remaining budget_defs)
  moreover have "req_rows req \<noteq> []" using rows xs by (metis length_0_conv mult_is_0 zero_neq_numeral)
  moreover have "req_uid req = ss_uid ss" using m by (simp add: req_def matched_def)
  moreover have "req_tag req = tag" by (simp add: req_def)
  ultimately show "acceptable ss req"
    using tag max runs rows wf
    unfolding acceptable_def wf_row_request_def less_par_Q by simp
qed

lemma oprf_run:
  assumes wfc: "wf_client cs" and wfs: "wf_server ss" and sk: "wf_key sk" and pads: "pads_consistent ss"
    and m: "matched sk cs ss" and mv: "matched_voprf cr sk cs ss" and complete: "complete_online cr"
    and tag: "length tag \<le> MAX_TAG_LEN" and xs: "xs \<noteq> []" and max: "length xs \<le> max_batch (cs_voprf cs)"
    and runs: "16 * length xs \<le> client_remaining_runs cs"
  shows "\<exists>req fin rep outs.
      request_batch (cr_xof cr) cs tag xs = (client_spend (16 * length xs) cs, Ok (req, fin))
    \<and> blind_eval cr ss sk req = (server_spend (16 * length xs) ss, Ok rep)
    \<and> finalize_batch cr fin rep = Ok outs
    \<and> map (evaluate (cr_xof cr) sk tag) xs = map Some outs"
proof -
  obtain rss fss sts where
    req: "request_batch (cr_xof cr) cs tag xs = (client_spend (16 * length xs) cs,
             Ok (\<lparr> req_uid = cs_uid cs, req_tag = tag, req_rows = concat rss \<rparr>,
                 \<lparr> fs_uid = cs_uid cs, fs_rows = concat fss,
                   fs_voprf = map_option (\<lambda>_. sts) (cs_voprf cs) \<rparr>))"
    and lens: "length rss = length xs" "length fss = length xs"
    and rq: "\<forall>v < length xs. request_block_ok (cr_xof cr) cs (client_spent cs + 16 * v)
                  (hash_to_zq_matrix (cr_xof cr) tag (xs ! v)) (rss ! v) (fss ! v)"
    and sts: "case cs_voprf cs of None \<Rightarrow> sts = []
              | Some cv \<Rightarrow> length sts = length xs \<and> (\<forall>v < length xs.
                    statement_ok cv (client_spent cs + 16 * v) (rss ! v) (sts ! v))"
    using request_batch_Ok [OF wfc tag xs max runs, of "cr_xof cr"] by (elim exE conjE) (rule that)
  let ?req = "\<lparr> req_uid = cs_uid cs, req_tag = tag, req_rows = concat rss \<rparr>"
  note acc = request_is_acceptable [OF wfc wfs m mv tag xs max runs lens(1) rq]
  have spent: "server_spent ss = client_spent cs" and uid: "ss_uid ss = cs_uid cs"
    using m by (simp_all add: matched_def budget_defs)
  have "\<exists>reps sums proofs. blind_eval cr ss sk ?req = (server_spend (16 * length xs) ss,
              Ok \<lparr> rep_uid = cs_uid cs, rep_rows = concat reps, rep_proofs = proofs \<rparr>)
            \<and> responses_ok cr ss sk (client_spent cs) rss reps sums proofs"
    using blind_eval_accepts [OF wfs sk pads acc(2,1) complete_prover_total [OF complete]]
      complete_not_failed [OF complete]
    unfolding acc(3,4) spent uid by blast
  then obtain reps sums proofs where
    rep: "blind_eval cr ss sk ?req = (server_spend (16 * length xs) ss,
              Ok \<lparr> rep_uid = cs_uid cs, rep_rows = concat reps, rep_proofs = proofs \<rparr>)"
    and ok: "responses_ok cr ss sk (client_spent cs) rss reps sums proofs" by blast
  have fits: "client_spent cs + 16 * length xs \<le> client_total cs"
    using runs wf_client_spent [OF wfc] by (simp add: client_remaining le_diff_conv2 add.commute)
  from finalize_honest [OF wfc wfs sk m mv complete fits lens rq sts ok, of "cs_uid cs"] req rep
  show ?thesis by blast
qed

end
