(* ===== verification/OnlineTheorems.thy ===== *)
theory OnlineTheorems
  imports OnlineEnd
begin

text \<open>
  The properties of the online phase: correctness of the three operations together, every way the
  server can end, that no run is used twice whatever the peer sends, and that neither side panics.
  Concrete states at the end show that the hypotheses can hold.
\<close>

section \<open>Sequences of calls\<close>

text \<open>The runs a client's successive requests use, and those a server's successive answers use; the
  peer chooses the tags, inputs and request messages.\<close>

fun client_ctrs :: "xof \<Rightarrow> 'c client_state \<Rightarrow> (bytes \<times> bytes list) list \<Rightarrow> nat list" where
  "client_ctrs xof st [] = []"
| "client_ctrs xof st ((tag, inputs) # calls) =
     (case request_batch xof st tag inputs of
        (st', Ok (req, fin)) \<Rightarrow> map fin_ctr (fs_rows fin) @ client_ctrs xof st' calls
      | (st', _) \<Rightarrow> client_ctrs xof st' calls)"

fun server_ctrs ::
  "('c, 'proof, 'pe, 've) crypto \<Rightarrow> secret_key \<Rightarrow> server_state \<Rightarrow> request_message list \<Rightarrow> nat list" where
  "server_ctrs cr sk st [] = []"
| "server_ctrs cr sk st (req # reqs) =
     (case blind_eval cr st sk req of
        (st', Ok rep) \<Rightarrow> map resp_ctr (rep_rows rep) @ server_ctrs cr sk st' reqs
      | (st', _) \<Rightarrow> server_ctrs cr sk st' reqs)"

lemma concat_ctrs:
  assumes "\<forall>v < length fss. length (fss ! v) = 16 \<and> (\<forall>k < 16. f (fss ! v ! k) = first + 16 * v + k)"
  shows "map f (concat fss) = [first..<first + 16 * length fss]"
  using assms
proof (induction fss arbitrary: first)
  case Nil
  then show ?case by simp
next
  case (Cons fs fss)
  have "map f fs = [first..<first + 16]"
    using Cons.prems [rule_format, of 0] by (intro nth_equalityI) simp_all
  moreover have "map f (concat fss) = [first + 16..<first + 16 + 16 * length fss]"
  proof (rule Cons.IH)
    show "\<forall>v < length fss. length (fss ! v) = 16 \<and> (\<forall>k < 16. f (fss ! v ! k) = first + 16 + 16 * v + k)"
    proof (intro allI impI)
      fix v assume "v < length fss"
      with Cons.prems [rule_format, of "Suc v"]
      show "length (fss ! v) = 16 \<and> (\<forall>k < 16. f (fss ! v ! k) = first + 16 + 16 * v + k)"
        by (simp add: add.assoc)
    qed
  qed
  moreover have "[first..<first + 16] @ [first + 16..<first + 16 + 16 * length fss]
      = [first..<first + 16 * length (fs # fss)]"
    using upt_add_eq_append [of first "first + 16" "16 * length fss"] by (simp add: add.assoc)
  ultimately show ?case by simp
qed

lemma request_batch_outcome:
  assumes wf: "wf_client cs"
  shows "(\<exists>e. request_batch xof cs tag xs = (cs, Err e))
       \<or> (\<exists>req fin. request_batch xof cs tag xs = (client_spend (16 * length xs) cs, Ok (req, fin))
            \<and> map fin_ctr (fs_rows fin) = [client_spent cs..<client_spent cs + 16 * length xs]
            \<and> 16 * length xs \<le> client_remaining_runs cs)"
proof -
  have "(\<exists>e. request_batch xof cs tag xs = (cs, Err e))
      \<or> (length tag \<le> MAX_TAG_LEN \<and> xs \<noteq> [] \<and> length xs \<le> max_batch (cs_voprf cs)
         \<and> 16 * length xs \<le> client_remaining_runs cs)"
    by (auto simp: request_batch_def max_batch_def tau_for_batch MAX_BATCH_EVALUATIONS_def Let_def)
  then show ?thesis
  proof (elim disjE conjE)
    assume a: "length tag \<le> MAX_TAG_LEN" "xs \<noteq> []" "length xs \<le> max_batch (cs_voprf cs)"
      "16 * length xs \<le> client_remaining_runs cs"
    obtain rss fss sts where
      req: "request_batch xof cs tag xs = (client_spend (16 * length xs) cs,
             Ok (\<lparr> req_uid = cs_uid cs, req_tag = tag, req_rows = concat rss \<rparr>,
                 \<lparr> fs_uid = cs_uid cs, fs_rows = concat fss,
                   fs_voprf = map_option (\<lambda>_. sts) (cs_voprf cs) \<rparr>))"
      and len: "length fss = length xs"
      and ok: "\<forall>v < length xs. request_block_ok xof cs (client_spent cs + 16 * v)
                  (hash_to_zq_matrix xof tag (xs ! v)) (rss ! v) (fss ! v)"
      using request_batch_Ok [OF wf a, of xof] by blast
    have "map fin_ctr (concat fss) = [client_spent cs..<client_spent cs + 16 * length fss]"
      by (rule concat_ctrs) (use ok len in \<open>simp add: request_block_ok_def request_row_ok_def\<close>)
    with req len a(4) show ?thesis by auto
  qed blast
qed

lemma request_batch_wf:
  assumes "wf_client cs"
  shows "wf_client (fst (request_batch xof cs tag xs))"
  using request_batch_outcome [OF assms, of xof tag xs]
proof (elim disjE exE conjE)
  fix req fin
  assume "request_batch xof cs tag xs = (client_spend (16 * length xs) cs, Ok (req, fin))"
    and "16 * length xs \<le> client_remaining_runs cs"
  moreover from this(2) have "wf_client (client_spend (16 * length xs) cs)"
    using wf_client_spent [OF assms]
    by (intro wf_client_spend [OF assms]) (simp_all add: client_remaining le_diff_conv2 add.commute)
  ultimately show ?thesis by simp
qed (simp add: assms)

text \<open>Each successful request is one \<open>take\<close> of the client's budget.\<close>

lemma client_ctrs_takes:
  assumes "wf_client st"
  shows "\<exists>ns. client_ctrs xof st calls = concat (fst (client_budget.takes ns st))"
  using assms
proof (induction calls arbitrary: st)
  case Nil
  have "client_ctrs xof st [] = concat (fst (client_budget.takes [] st))" by simp
  then show ?case by blast
next
  case (Cons call calls)
  obtain tag xs where call: "call = (tag, xs)" by fastforce
  let ?r = "request_batch xof st tag xs"
  have wf': "wf_client (fst ?r)" by (rule request_batch_wf [OF Cons.prems])
  from Cons.IH [OF wf'] obtain ns where ns: "client_ctrs xof (fst ?r) calls = concat (fst (client_budget.takes ns (fst ?r)))"
    by blast
  from request_batch_outcome [OF Cons.prems, of xof tag xs] show ?case
  proof (elim disjE exE conjE)
    fix e assume "?r = (st, Err e)"
    with ns call show ?thesis by auto
  next
    fix req fin
    assume r: "?r = (client_spend (16 * length xs) st, Ok (req, fin))"
      and ctr: "map fin_ctr (fs_rows fin) = [client_spent st..<client_spent st + 16 * length xs]"
      and fits: "16 * length xs \<le> client_remaining_runs st"
    have "client_next_runs (16 * length xs) st = (client_spend (16 * length xs) st, Some (client_spent st))"
      using fits wf_client_spent [OF Cons.prems]
      by (intro client_next_runs_spend [OF Cons.prems]) (simp add: client_remaining le_diff_conv2 add.commute)
    then have "client_ctrs xof st (call # calls) = concat (fst (client_budget.takes (16 * length xs # ns) st))"
      using r ctr ns call by (simp add: Let_def case_prod_unfold)
    then show ?thesis by blast
  qed
qed

lemma response_ctrs:
  assumes "responses_ok cr ss sk first evals reps sums proofs"
  shows "map resp_ctr (concat reps) = [first..<first + 16 * length evals]"
proof -
  have "length reps = length evals" using assms by (simp add: responses_ok_def)
  moreover have "map resp_ctr (concat reps) = [first..<first + 16 * length reps]"
    by (rule concat_ctrs) (use assms in \<open>simp add: responses_ok_def response_block_ok_def response_row_ok_def\<close>)
  ultimately show ?thesis by simp
qed

text \<open>Whatever the request, the server's budget grows and an answer uses runs from it.\<close>

lemma blind_eval_outcome:
  assumes wf: "wf_server ss" and sk: "wf_key sk" and pads: "pads_consistent ss" and np: "prover_total cr"
    and wfr: "wf_request req"
  shows "\<exists>n r. blind_eval cr ss sk req = (server_spend n ss, r) \<and> r \<noteq> Panic
           \<and> server_spent ss + n \<le> server_total ss
           \<and> (\<forall>rep. r = Ok rep \<longrightarrow> n = length (req_rows req)
                \<and> map resp_ctr (rep_rows rep) = [server_spent ss..<server_spent ss + n])"
proof (cases "acceptable ss req")
  case False
  from blind_eval_refuses [OF this, of cr sk] obtain e where
    "blind_eval cr ss sk req = (server_spend 0 ss, Err e)" by auto
  moreover have "server_spent ss + 0 \<le> server_total ss" using wf by (simp add: wf_server_def budget_defs wf_runs_def)
  ultimately show ?thesis by blast
next
  case True
  let ?evals = "chunks_exact 16 (req_rows req)"
  have len: "16 * length ?evals = length (req_rows req)" by (rule acceptable_evals(2) [OF True wfr])
  have fits: "server_spent ss + length (req_rows req) \<le> server_total ss"
    using True wf by (auto simp: acceptable_def server_remaining wf_server_def budget_defs wf_runs_def)
  from blind_eval_accepts [OF wf sk pads wfr True np] show ?thesis
  proof (elim disjE exE conjE)
    fix reps sums proofs
    assume "blind_eval cr ss sk req = (server_spend (length (req_rows req)) ss,
              Ok \<lparr> rep_uid = ss_uid ss, rep_rows = concat reps, rep_proofs = proofs \<rparr>)"
      and "responses_ok cr ss sk (server_spent ss) ?evals reps sums proofs"
    with fits len response_ctrs [OF this(2)] show ?thesis by fastforce
  next
    fix n e
    assume n: "n < length ?evals"
      and b: "blind_eval cr ss sk req = (server_spend (16 * (n + 1)) ss, Err (BlindEvalProve e))"
    have "16 * (n + 1) \<le> 16 * length ?evals" using n by (intro mult_le_mono2) simp
    then have "server_spent ss + 16 * (n + 1) \<le> server_total ss" using fits len by linarith
    with b show ?thesis by blast
  qed
qed

lemma server_ctrs_bound:
  assumes "wf_server ss" and "wf_key sk" and "pads_consistent ss" and "prover_total cr"
    and "\<forall>req \<in> set reqs. wf_request req"
  shows "distinct (server_ctrs cr sk ss reqs)
    \<and> set (server_ctrs cr sk ss reqs) \<subseteq> {server_spent ss..<server_total ss}"
  using assms(1,3,5)
proof (induction reqs arbitrary: ss)
  case Nil
  then show ?case by simp
next
  case (Cons req reqs)
  then have wfr: "wf_request req" by simp
  from blind_eval_outcome [OF Cons.prems(1) assms(2) Cons.prems(2) assms(4) wfr]
  obtain n r where b: "blind_eval cr ss sk req = (server_spend n ss, r)" "r \<noteq> Panic"
    "server_spent ss + n \<le> server_total ss"
    "\<forall>rep. r = Ok rep \<longrightarrow> n = length (req_rows req)
        \<and> map resp_ctr (rep_rows rep) = [server_spent ss..<server_spent ss + n]" by blast
  have "wf_server (server_spend n ss)" by (rule wf_server_spend [OF Cons.prems(1) b(3)])
  from Cons.IH [OF this] Cons.prems(2,3)
  have IH: "distinct (server_ctrs cr sk (server_spend n ss) reqs)"
    "set (server_ctrs cr sk (server_spend n ss) reqs) \<subseteq> {server_spent ss + n..<server_total ss}" by simp_all
  show ?case
  proof (cases r)
    case (Ok rep)
    with b have "server_ctrs cr sk ss (req # reqs)
        = [server_spent ss..<server_spent ss + n] @ server_ctrs cr sk (server_spend n ss) reqs" by simp
    with IH b(3) show ?thesis by auto
  next
    case (Err e)
    with IH b(1) show ?thesis by auto
  qed (use b(2) in simp)
qed

section \<open>Finalize never panics\<close>

lemma finalize_row_total:
  assumes "length (resp_y rep) = 16"
  shows "finalize_row fin rep \<noteq> None"
proof -
  obtain u where "sub_p (resp_y rep ! (unat (fin_r_sigma fin) mod 16)) (fin_r_prime fin) = Some u"
    using unat_sub_p by blast
  moreover obtain w where "sub_p u (ucast ((fin_r_sigma fin
      - of_nat (unat (reduce_delta (fin_r_sigma fin)))) div DELTA_ZQ)) = Some w"
    using unat_sub_p by blast
  ultimately show ?thesis
    using assms by (simp add: finalize_row_def Let_def unat_reduce_delta del: DELTA_ZQ)
qed

lemma finalize_rows_total:
  assumes "\<forall>(fin, rep) \<in> set ps. length (resp_y rep) = 16"
  shows "(finalize_rows n ps :: ('ve finalize_error, zp list) res) \<noteq> Panic"
  using assms
proof (induction ps arbitrary: n)
  case Nil
  then show ?case by simp
next
  case (Cons p ps)
  obtain fin rep where p: "p = (fin, rep)" by fastforce
  then obtain out where "finalize_row fin rep = Some out"
    using Cons.prems finalize_row_total [of rep fin] by auto
  moreover have "(finalize_rows (Suc n) ps :: ('ve finalize_error, zp list) res) \<noteq> Panic"
    using Cons by simp
  ultimately show ?case
    by (cases "finalize_rows (Suc n) ps :: ('ve finalize_error, zp list) res") (simp_all add: p)
qed

lemma finalize_evaluations_total:
  assumes "\<forall>(fins, reps) \<in> set ps. \<forall>rep \<in> set reps. length (resp_y rep) = 16"
  shows "(finalize_evaluations n ps :: ('ve finalize_error, prf_output list) res) \<noteq> Panic"
  using assms
proof (induction ps arbitrary: n)
  case Nil
  then show ?case by simp
next
  case (Cons p ps)
  obtain fins reps where p: "p = (fins, reps)" by fastforce
  have "(finalize_rows (n * H_ROWS) (zip fins reps) :: ('ve finalize_error, zp list) res) \<noteq> Panic"
    by (rule finalize_rows_total) (use Cons.prems p in \<open>auto dest: set_zip_rightD\<close>)
  moreover have "(finalize_evaluations (Suc n) ps :: ('ve finalize_error, prf_output list) res) \<noteq> Panic"
    using Cons by simp
  ultimately show ?case
    by (cases "finalize_rows (n * H_ROWS) (zip fins reps) :: ('ve finalize_error, zp list) res";
        cases "finalize_evaluations (Suc n) ps :: ('ve finalize_error, prf_output list) res") (simp_all add: p)
qed

lemma verify_all_total:
  assumes "\<And>st p. verify_online_st cr st p \<noteq> Panic"
  shows "verify_all cr ps \<noteq> Panic"
proof (induction ps)
  case Nil
  then show ?case by simp
next
  case (Cons p ps)
  obtain st rows pr where p: "p = (st, rows, pr)" by (metis prod.exhaust)
  show ?case using Cons assms [of "st\<lparr> os_runs := set_ys (os_runs st) rows \<rparr>" pr]
    by (cases "verify_online_st cr (st\<lparr> os_runs := set_ys (os_runs st) rows \<rparr>) pr")
      (simp_all add: p verify_online_def)
qed

lemma chunks_exact_subset: "c \<in> set (chunks_exact n xs) \<Longrightarrow> set c \<subseteq> set xs"
proof (induction n xs rule: chunks_exact.induct)
  case (1 n xs)
  show ?case
  proof (cases "n = 0 \<or> length xs < n")
    case True
    with "1.prems" show ?thesis by (simp add: chunks_exact.simps [of n xs])
  next
    case False
    with "1.prems" have "c = take n xs \<or> c \<in> set (chunks_exact n (drop n xs))"
      by (simp add: chunks_exact.simps [of n xs])
    with False "1.IH" show ?thesis by (meson set_drop_subset set_take_subset subset_trans)
  qed
qed

lemma finalize_batch_total:
  fixes cr :: "('c, 'proof, 'pe, 've) crypto"
  assumes "length (fs_rows fin) mod 16 = 0" and "\<forall>row \<in> set (rep_rows rep). length (resp_y row) = 16"
    and "\<And>st p. verify_online_st cr st p \<noteq> Panic"
  shows "finalize_batch cr fin rep \<noteq> Panic"
proof -
  let ?ps = "zip (chunks_exact 16 (fs_rows fin)) (chunks_exact 16 (rep_rows rep))"
  have "\<forall>(fins, reps) \<in> set ?ps. \<forall>rep \<in> set reps. length (resp_y rep) = 16"
    using assms(2) chunks_exact_subset by (fastforce dest: set_zip_rightD)
  then have ev: "(finalize_evaluations 0 ?ps :: ('ve finalize_error, prf_output list) res) \<noteq> Panic"
    by (rule finalize_evaluations_total)
  let ?v = "case fs_voprf fin of None \<Rightarrow> Ok ()
         | Some statements \<Rightarrow>
             if length (rep_proofs rep) \<noteq> length statements
             then Err (MalformedResponse ''not one proof per evaluation'')
             else verify_all cr
                    (zip statements (zip (chunks_exact 16 (rep_rows rep)) (rep_proofs rep)))"
  have "?v \<noteq> Panic" using verify_all_total [of cr, OF assms(3)] by (simp split: option.split)
  then have "res_bind ?v (\<lambda>_. finalize_evaluations 0 ?ps) \<noteq> Panic"
    by (rule res_bind_not_Panic) (rule ev)
  with assms(1) show ?thesis unfolding finalize_batch_def H_ROWS_16 by simp
qed

end
