(* ===== verification/Examples.thy ===== *)
theory Examples
  imports OnlineTheorems
begin

text \<open>
  Concrete values at which the hypotheses of the properties hold: an ideal backend (commitments are
  their own inputs, a proof is its witness, checked when it is verified), a stream of zero bytes
  for BLAKE3, and the states of a preprocessing of 32 runs, without and with a VOPRF.
\<close>

section \<open>An ideal backend\<close>

datatype ex_commitment =
    CommitKey secret_key | CommitMasks masks_input | CommitMaskSum mask_sums_input | CommitPad pad_input

datatype ex_proof =
    ProofSetup secret_key | ProofPreprocessing preprocessing_witness | ProofOnline online_witness

definition ex_crypto :: "(ex_commitment, ex_proof, unit, unit) crypto" where
  "ex_crypto = \<lparr>
     cr_xof = (\<lambda>ctx msg i. 0), cr_hash = (\<lambda>msg i. 0), cr_base_ot_count = 128,
     commit_key = CommitKey, commit_masks = CommitMasks, commit_mask_sum = CommitMaskSum,
     commit_pad = CommitPad,
     prove_setup = (\<lambda>st sk. if setup_holds_for CommitKey st sk then Ok (ProofSetup sk) else Err ()),
     verify_setup = (\<lambda>st p. case p of
         ProofSetup sk \<Rightarrow> if setup_holds_for CommitKey st sk then Ok () else Err () | _ \<Rightarrow> Err ()),
     prove_preprocessing = (\<lambda>st w.
         if preprocessing_holds_for CommitKey CommitMasks CommitMaskSum st w
         then Ok (ProofPreprocessing w) else Err ()),
     verify_preprocessing = (\<lambda>st p. case p of
         ProofPreprocessing w \<Rightarrow>
           if preprocessing_holds_for CommitKey CommitMasks CommitMaskSum st w then Ok () else Err ()
       | _ \<Rightarrow> Err ()),
     prove_online_st = (\<lambda>st w.
         if online_holds_for CommitKey CommitMaskSum CommitPad st w then Ok (ProofOnline w) else Err ()),
     verify_online_st = (\<lambda>st p. case p of
         ProofOnline w \<Rightarrow>
           if online_holds_for CommitKey CommitMaskSum CommitPad st w then Ok () else Err ()
       | _ \<Rightarrow> Err ()) \<rparr>"

lemma ex_xof: "cr_xof ex_crypto = (\<lambda>ctx msg i. 0)"
  by (simp add: ex_crypto_def)

lemma ex_complete_online: "complete_online ex_crypto"
  by (simp add: complete_online_def cr_online_holds_def ex_crypto_def)

lemma ex_prover_total: "prover_total ex_crypto"
  by (simp add: prover_total_def cr_online_holds_def ex_crypto_def)

lemma ex_verify_total: "verify_online_st ex_crypto st p \<noteq> Panic"
  by (simp add: ex_crypto_def split: ex_proof.split)

section \<open>A key, and the states of 32 runs\<close>

definition ex_sk :: secret_key where "ex_sk = SecretKey (replicate par_N 1)"
definition ex_block :: block where "ex_block = replicate 16 0"
definition ex_blocks :: "block list" where "ex_blocks = replicate 16 ex_block"

definition client_voprf_for :: "('c, 'proof, 'pe, 've) crypto \<Rightarrow> 'c client_voprf" where
  "client_voprf_for cr = \<lparr> cv_pk = VerifiedKey (commit_key cr ex_sk),
     cv_m = replicate 2 (commit_mask_sum cr \<lparr> msi_r_sigma_sums = replicate 16 0,
        msi_randomness = mask_sum_randomness (cr_hash cr) ex_blocks \<rparr>),
     cv_d = replicate 32 (block_pad_commitments cr ex_blocks) \<rparr>"

definition client_for :: "('c, 'proof, 'pe, 've) crypto \<Rightarrow> bool \<Rightarrow> 'c client_state" where
  "client_for cr voprf = \<lparr> cs_ot_blocks = replicate par_N (ex_block, ex_block), cs_bhat = replicate par_N 1,
     cs_r_c = replicate 32 \<lparr> rc_b_prime = 3, rc_r_prime = 0 \<rparr>, cs_uid = replicate 16 7,
     cs_runs = runs_new 32, cs_voprf = (if voprf then Some (client_voprf_for cr) else None) \<rparr>"

abbreviation ex_client :: "bool \<Rightarrow> ex_commitment client_state" where
  "ex_client \<equiv> client_for ex_crypto"

definition ex_server :: "bool \<Rightarrow> server_state" where
  "ex_server voprf = \<lparr> ss_r_s = replicate par_N \<lparr> rs_b = 0, rs_ot_block = ex_block \<rparr>,
     ss_s_s = replicate 32 (replicate 16 0), ss_uid = replicate 16 7, ss_runs = runs_new 32,
     ss_voprf = (if voprf then Some \<lparr> sv_delta_ot_blocks = replicate 32 ex_blocks \<rparr> else None) \<rparr>"

lemma ex_wf_sk: "wf_key ex_sk"
  by (simp add: wf_key_def ex_sk_def)

lemma ex_wf_client: "wf_client (client_for cr voprf)"
  by (simp add: wf_client_def client_for_def runs_new_def wf_runs_def client_voprf_for_def
      evaluations_for_def block_pad_commitments_def ex_blocks_def)

lemma ex_wf_server: "wf_server (ex_server voprf)"
  by (simp add: wf_server_def ex_server_def runs_new_def wf_runs_def ex_blocks_def ex_block_def)

lemma ex_pads: "pads_consistent (ex_server voprf)"
  by (simp add: pads_consistent_def ex_server_def block_pads_def ex_blocks_def ex_block_def)

lemma ex_matched: "matched ex_sk (client_for cr voprf) (ex_server voprf)"
  by (simp add: matched_def client_for_def ex_server_def ex_sk_def)

lemma expand_zeros: "expand (\<lambda>ctx msg i. 0) b first = replicate 16 0"
proof (rule nth_equalityI)
  show "length (expand (\<lambda>ctx msg i. 0) b first) = length (replicate 16 (0 :: zq))" by simp
  fix k assume "k < length (expand (\<lambda>ctx msg i. 0) b first)"
  then have k: "k < 16" by simp
  have "unat (expand (\<lambda>ctx msg i. 0) b first ! k) = 0"
    by (simp add: unat_expand [OF k] mask_at_def)
  then show "expand (\<lambda>ctx msg i. 0) b first ! k = replicate 16 0 ! k"
    using k by (simp add: unat_eq_zero)
qed

lemma signed_sum_zeros: "signed_sum ss (replicate n 0) = 0"
proof (induction ss arbitrary: n)
  case Nil
  then show ?case by (simp add: signed_sum_def)
next
  case (Cons s ss)
  then show ?case by (cases n) (simp_all add: signed_sum_def)
qed

lemma r_sigma_sum_zeros:
  assumes "n \<le> 482"
  shows "r_sigma_sum sk (replicate n 0) = Some 0"
proof -
  obtain z where z: "r_sigma_sum sk (replicate n 0) = Some z"
    "int (unat z) = signed_sum (as_bits sk) (replicate n 0) mod 4096"
    using r_sigma_sum_Some [of "replicate n 0" sk] assms by auto
  with z show ?thesis by (simp add: signed_sum_zeros word_uint_eq_iff)
qed

lemma ex_matched_voprf:
  fixes cr :: "('c, 'proof, 'pe, 've) crypto"
  assumes xof: "cr_xof cr = (\<lambda>ctx msg i. 0)"
  shows "matched_voprf cr ex_sk (client_for cr voprf) (ex_server voprf)"
proof -
  have "map (\<lambda>i. expand (cr_xof cr) (rs_ot_block (ss_r_s (ex_server voprf) ! i)) (16 * v) ! k) [0..<par_N]
      = replicate par_N 0" if "k < 16" for v k
    using that by (intro nth_equalityI) (simp_all add: xof expand_zeros)
  then have sums: "r_sigma_sum ex_sk (map (\<lambda>i. expand (cr_xof cr)
      (rs_ot_block (ss_r_s (ex_server voprf) ! i)) (16 * v) ! k) [0..<par_N]) = Some (replicate 16 0 ! k)"
    if "k < 16" for v k
    using that r_sigma_sum_zeros [of par_N ex_sk] by (simp add: par_N_def)
  have "\<exists>sums. length sums = 16 \<and> (\<forall>k < 16. r_sigma_sum ex_sk (map (\<lambda>i. expand (cr_xof cr)
      (rs_ot_block (ss_r_s (ex_server voprf) ! i)) (16 * v) ! k) [0..<par_N]) = Some (sums ! k))
    \<and> cv_m (client_voprf_for cr) ! v = commit_mask_sum cr \<lparr> msi_r_sigma_sums = sums,
        msi_randomness = mask_sum_randomness (cr_hash cr) (replicate 32 ex_blocks ! (16 * v)) \<rparr>"
    if "v < 2" for v
    using that sums
    by (intro exI [of _ "replicate 16 0"]) (simp add: client_voprf_for_def xof del: replicate.simps)
  then show ?thesis
    by (auto simp: matched_voprf_def client_for_def ex_server_def client_voprf_for_def xof
        simp del: replicate.simps)
qed

lemma ex_runs:
  "client_remaining_runs (client_for cr voprf) = 32" "server_remaining_runs (ex_server voprf) = 32"
  by (simp_all add: client_remaining_runs_def server_remaining_runs_def runs_remaining_def
      client_for_def ex_server_def runs_new_def)

text \<open>A request of one evaluation, and one that is refused.\<close>

definition ex_request :: request_message where
  "ex_request = \<lparr> req_uid = replicate 16 7, req_tag = [1],
     req_rows = replicate 16 \<lparr> row_e = replicate par_N 1, row_b_bar_prime = 2 \<rparr> \<rparr>"

definition ex_bad_request :: request_message where
  "ex_bad_request = ex_request\<lparr> req_rows := [\<lparr> row_e = replicate par_N 4096, row_b_bar_prime = 2 \<rparr>] \<rparr>"

lemma ex_wf_request: "wf_request ex_request" "wf_request ex_bad_request"
  by (simp_all add: wf_request_def ex_request_def ex_bad_request_def)

end
