(* ===== verification/OprfProperties.thy ===== *)
theory OprfProperties
  imports Examples
begin

text \<open>The properties of the PRF and of the online phase, each with a witness where it has hypotheses.\<close>

section \<open>Correctness\<close>

text \<open>
  C1: on states a preprocessing matched, with enough runs left and a batch within the limits, the
  client's request is accepted by the server, the server's answer is accepted by the client, and
  Finalize returns exactly the PRF of every input under the server's key, with or without a VOPRF.
  Both sides spend the same \<open>16\<close> runs per input and stay matched.
\<close>

theorem oprf_correct:
  assumes "wf_client cs" and "wf_server ss" and "wf_key sk" and "pads_consistent ss"
    and "matched sk cs ss" and "matched_voprf cr sk cs ss" and "complete_online cr"
    and "length tag \<le> MAX_TAG_LEN" and "xs \<noteq> []" and "length xs \<le> max_batch (cs_voprf cs)"
    and "16 * length xs \<le> client_remaining_runs cs"
  shows "\<exists>cs' ss' req fin rep outs.
      request_batch (cr_xof cr) cs tag xs = (cs', Ok (req, fin))
    \<and> blind_eval cr ss sk req = (ss', Ok rep)
    \<and> finalize_batch cr fin rep = Ok outs
    \<and> map (evaluate (cr_xof cr) sk tag) xs = map Some outs
    \<and> client_remaining_runs cs' = client_remaining_runs cs - 16 * length xs
    \<and> matched sk cs' ss' \<and> matched_voprf cr sk cs' ss'"
proof -
  have "client_remaining_runs (client_spend (16 * length xs) cs) = client_remaining_runs cs - 16 * length xs"
    by (simp add: client_remaining)
  with oprf_run [OF assms] matched_spend [OF assms(5)] matched_voprf_spend [OF assms(6)]
  show ?thesis by blast
qed

lemma oprf_correct_witness:
  "\<exists>cs' ss' req fin rep outs.
      request_batch (cr_xof ex_crypto) (ex_client True) [1] [[2], [3]] = (cs', Ok (req, fin))
    \<and> blind_eval ex_crypto (ex_server True) ex_sk req = (ss', Ok rep)
    \<and> finalize_batch ex_crypto fin rep = Ok outs
    \<and> map (evaluate (cr_xof ex_crypto) ex_sk [1]) [[2], [3]] = map Some outs
    \<and> client_remaining_runs cs' = client_remaining_runs (ex_client True) - 16 * length [[2 :: u8], [3]]
    \<and> matched ex_sk cs' ss' \<and> matched_voprf ex_crypto ex_sk cs' ss'"
  by (rule oprf_correct)
    (simp_all add: ex_wf_client ex_wf_server ex_wf_sk ex_pads ex_matched ex_matched_voprf ex_xof ex_complete_online
      ex_runs max_batch_def MAX_TAG_LEN_def MAX_BATCH_EVALUATIONS_def
      MAX_VOPRF_BATCH_EVALUATIONS_def)

text \<open>
  C7: the PRF itself never panics, and element \<open>r\<close> of its output is the inner product of row \<open>r\<close> of the
  random oracle's matrix with the key, over the naturals, reduced modulo \<open>q\<close>, rounded to the nearest
  multiple of \<open>Delta = 16\<close> with ties down, and reduced modulo \<open>p\<close>.
\<close>

theorem evaluate_computes:
  assumes "wf_key sk"
  shows "\<exists>out. evaluate xof sk tag x = Some out \<and> length (elements out) = OUTPUT_ELEMENTS \<and>
    map unat (elements out) =
      map (\<lambda>row. (dot (as_slice row) (as_bits sk) mod 4096 + 7) div 16 mod 256)
        (matrix_rows (hash_to_zq_matrix xof tag x))"
proof -
  let ?m = "hash_to_zq_matrix xof tag x"
  obtain out where out: "evaluate xof sk tag x = Some out" "length (elements out) = OUTPUT_ELEMENTS"
    and rows: "\<forall>r < OUTPUT_ELEMENTS. \<exists>v. mrow ?m r = Some v \<and> evaluate_single_row sk v = Some (elements out ! r)"
    using evaluate_row [OF assms, of xof tag x] by blast
  have "unat (elements out ! r) = prf_element (dot (as_slice (matrix_rows ?m ! r)) (as_bits sk))"
    if r: "r < OUTPUT_ELEMENTS" for r
  proof -
    have r16: "r < H_ROWS" using r by (simp add: OUTPUT_ELEMENTS_def)
    then have row: "mrow ?m r = Some (matrix_rows ?m ! r)" by (simp add: mrow_def)
    moreover obtain v where "mrow ?m r = Some v" "wf_vector v" using hash_row [OF r16] .
    ultimately have "wf_vector (matrix_rows ?m ! r)" by simp
    from unat_evaluate_single_row [OF this assms] rows r row show ?thesis by fastforce
  qed
  then have "map unat (elements out) = map (\<lambda>row. prf_element (dot (as_slice row) (as_bits sk))) (matrix_rows ?m)"
    using out(2) by (intro nth_equalityI) (simp_all add: OUTPUT_ELEMENTS_def)
  with out show ?thesis by (auto simp: prf_element_def)
qed

lemma evaluate_computes_witness:
  "\<exists>out. evaluate (\<lambda>_ _ i. of_nat i) ex_sk [1] [2] = Some out \<and> length (elements out) = OUTPUT_ELEMENTS \<and>
    map unat (elements out) =
      map (\<lambda>row. (dot (as_slice row) (as_bits ex_sk) mod 4096 + 7) div 16 mod 256)
        (matrix_rows (hash_to_zq_matrix (\<lambda>_ _ i. of_nat i) [1] [2]))"
  by (rule evaluate_computes [OF ex_wf_sk])

section \<open>The run budget\<close>

text \<open>
  C8: whatever requests a client makes one after the other, each run is used for at most one row, in
  increasing order, and no run beyond \<open>tau\<close> is used. A run used twice would reveal the input.
\<close>

theorem client_runs_never_reused:
  assumes "wf_client st"
  shows "distinct (client_ctrs xof st calls) \<and> set (client_ctrs xof st calls) \<subseteq> {..<length (cs_r_c st)}"
proof -
  obtain ns where ns: "client_ctrs xof st calls = concat (fst (client_budget.takes ns st))"
    using client_ctrs_takes [OF assms] by blast
  have "client_valid st" using assms by (simp add: wf_client_def client_valid_def)
  from client_budget.takes_distinct [OF this, where ns = ns] show ?thesis
    unfolding ns wf_client_total [OF assms, symmetric] by auto
qed

lemma client_runs_never_reused_witness:
  "distinct (client_ctrs (cr_xof ex_crypto) (ex_client True) [([1], [[2]]), ([1], [[2]])])
   \<and> set (client_ctrs (cr_xof ex_crypto) (ex_client True) [([1], [[2]]), ([1], [[2]])])
        \<subseteq> {..<length (cs_r_c (ex_client True))}"
  by (rule client_runs_never_reused [OF ex_wf_client])

text \<open>
  C9: whatever requests a server answers one after the other, malformed, replayed or failing ones
  included, no two response rows use the same run and all runs are below \<open>tau\<close>: a pad masks one row
  only.
\<close>

theorem server_runs_never_reused:
  assumes "wf_server ss" and "wf_key sk" and "pads_consistent ss" and "prover_total cr"
    and "\<forall>req \<in> set reqs. wf_request req"
  shows "distinct (server_ctrs cr sk ss reqs) \<and>
    set (server_ctrs cr sk ss reqs) \<subseteq> {server_spent ss..<length (ss_s_s ss)}"
  using server_ctrs_bound [OF assms] by (simp add: wf_server_total [OF assms(1)])

lemma server_runs_never_reused_witness:
  "distinct (server_ctrs ex_crypto ex_sk (ex_server True) [ex_request, ex_bad_request, ex_request]) \<and>
    set (server_ctrs ex_crypto ex_sk (ex_server True) [ex_request, ex_bad_request, ex_request])
      \<subseteq> {server_spent (ex_server True)..<length (ss_s_s (ex_server True))}"
  by (rule server_runs_never_reused [OF ex_wf_server ex_wf_sk ex_pads ex_prover_total])
    (simp add: ex_wf_request)

section \<open>Every outcome of the operations\<close>

text \<open>
  C12: \<open>blind_eval\<close> on any request ends in one of three ways. A request that fails a check returns the
  error of the first check it fails and spends nothing. An accepted request is answered on the next
  runs, all of them spent. If the prover fails on evaluation \<open>n\<close>, the error is the prover's, and the
  runs of evaluations \<open>0 .. n\<close> are gone though nothing was answered. It never panics.
\<close>

theorem blind_eval_outcomes:
  fixes cr :: "('c, 'proof, 'pe, 've) crypto"
  assumes "wf_server ss" and "wf_key sk" and "pads_consistent ss" and "prover_total cr"
    and "wf_request req"
  shows "(\<exists>e. check_request ss req = (Err e :: ('pe blind_eval_error, unit) res)
            \<and> blind_eval cr ss sk req = (ss, Err e))
       \<or> (acceptable ss req \<and> (\<exists>rep. blind_eval cr ss sk req = (server_spend (length (req_rows req)) ss, Ok rep)
            \<and> rep_uid rep = ss_uid ss
            \<and> map resp_ctr (rep_rows rep) = [server_spent ss..<server_spent ss + length (req_rows req)]
            \<and> length (rep_proofs rep) = (if ss_voprf ss = None then 0 else req_evaluations req)))
       \<or> (acceptable ss req \<and> (\<exists>n e. n < req_evaluations req \<and> ss_voprf ss \<noteq> None
            \<and> blind_eval cr ss sk req = (server_spend (16 * (n + 1)) ss, Err (BlindEvalProve e))))"
proof (cases "acceptable ss req")
  case False
  from blind_eval_refuses [OF this, of cr sk] show ?thesis by blast
next
  case True
  let ?evals = "chunks_exact 16 (req_rows req)"
  have len: "16 * length ?evals = length (req_rows req)" by (rule acceptable_evals(2) [OF True assms(5)])
  then have evs: "length ?evals = req_evaluations req" by (simp add: req_evaluations_def length_chunks_exact)
  from blind_eval_accepts [OF assms(1,2,3,5) True assms(4)] show ?thesis
  proof (elim disjE exE conjE)
    fix reps sums proofs
    assume b: "blind_eval cr ss sk req = (server_spend (length (req_rows req)) ss,
              Ok \<lparr> rep_uid = ss_uid ss, rep_rows = concat reps, rep_proofs = proofs \<rparr>)"
      and r: "responses_ok cr ss sk (server_spent ss) ?evals reps sums proofs"
    have "length proofs = (if ss_voprf ss = None then 0 else req_evaluations req)"
      using r evs by (auto simp: responses_ok_def split: option.splits)
    with b response_ctrs [OF r] len True show ?thesis by fastforce
  next
    fix n e
    assume n: "n < length ?evals" and f: "proving_failed cr ss e"
      and b: "blind_eval cr ss sk req = (server_spend (16 * (n + 1)) ss, Err (BlindEvalProve e))"
    from f have "ss_voprf ss \<noteq> None" by (simp add: proving_failed_def)
    with n b evs True show ?thesis by metis
  qed
qed

lemma blind_eval_outcomes_witness:
  "(\<exists>e. check_request (ex_server True) ex_request = (Err e :: (unit blind_eval_error, unit) res)
            \<and> blind_eval ex_crypto (ex_server True) ex_sk ex_request = (ex_server True, Err e))
   \<or> (acceptable (ex_server True) ex_request
       \<and> (\<exists>rep. blind_eval ex_crypto (ex_server True) ex_sk ex_request
             = (server_spend (length (req_rows ex_request)) (ex_server True), Ok rep)
          \<and> rep_uid rep = ss_uid (ex_server True)
          \<and> map resp_ctr (rep_rows rep) = [server_spent (ex_server True)..<server_spent (ex_server True)
                + length (req_rows ex_request)]
          \<and> length (rep_proofs rep) = (if ss_voprf (ex_server True) = None then 0
                else req_evaluations ex_request)))
   \<or> (acceptable (ex_server True) ex_request
       \<and> (\<exists>n e. n < req_evaluations ex_request \<and> ss_voprf (ex_server True) \<noteq> None
          \<and> blind_eval ex_crypto (ex_server True) ex_sk ex_request
             = (server_spend (16 * (n + 1)) (ex_server True), Err (BlindEvalProve e))))"
  by (rule blind_eval_outcomes [OF ex_wf_server ex_wf_sk ex_pads ex_prover_total ex_wf_request(1)])

text \<open>
  C13: \<open>request_batch\<close> never panics, and a refused request leaves the client's state as it was. An
  accepted one uses the next \<open>16\<close> runs per input, in order.
\<close>

theorem request_batch_outcomes:
  assumes "wf_client cs"
  shows "(\<exists>e. request_batch xof cs tag xs = (cs, Err e))
       \<or> (\<exists>cs' req fin. request_batch xof cs tag xs = (cs', Ok (req, fin)) \<and> wf_client cs'
            \<and> client_remaining_runs cs = client_remaining_runs cs' + 16 * length xs
            \<and> map fin_ctr (fs_rows fin) = [client_spent cs..<client_spent cs + 16 * length xs])"
  using request_batch_outcome [OF assms, of xof tag xs]
proof (elim disjE exE conjE)
  fix req fin
  assume r: "request_batch xof cs tag xs = (client_spend (16 * length xs) cs, Ok (req, fin))"
    and "map fin_ctr (fs_rows fin) = [client_spent cs..<client_spent cs + 16 * length xs]"
    and "16 * length xs \<le> client_remaining_runs cs"
  moreover have "wf_client (client_spend (16 * length xs) cs)"
    using request_batch_wf [OF assms, of xof tag xs] r by simp
  ultimately show ?thesis by (auto simp: client_remaining)
qed blast

lemma request_batch_outcomes_witness:
  "(\<exists>e. request_batch (cr_xof ex_crypto) (ex_client True) [1] [[2]] = (ex_client True, Err e))
       \<or> (\<exists>cs' req fin. request_batch (cr_xof ex_crypto) (ex_client True) [1] [[2]] = (cs', Ok (req, fin)) \<and> wf_client cs'
            \<and> client_remaining_runs (ex_client True) = client_remaining_runs cs' + 16 * length [[2 :: u8]]
            \<and> map fin_ctr (fs_rows fin) = [client_spent (ex_client True)..<client_spent (ex_client True) + 16 * length [[2 :: u8]]])"
  by (rule request_batch_outcomes [OF ex_wf_client])

text \<open>
  C26: \<open>finalize_batch\<close> does not panic on any response of well-formed rows, whatever its session, number
  of rows, counters or proofs.
\<close>

theorem finalize_batch_never_panics:
  assumes "length (fs_rows fin) mod 16 = 0" and "\<forall>row \<in> set (rep_rows rep). length (resp_y row) = DELTA"
    and "\<And>st p. verify_online_st cr st p \<noteq> Panic"
  shows "finalize_batch cr fin rep \<noteq> Panic"
  by (rule finalize_batch_total) (use assms in simp_all)

lemma finalize_batch_never_panics_witness:
  "finalize_batch ex_crypto \<lparr> fs_uid = [], fs_rows = [], fs_voprf = None \<rparr>
     \<lparr> rep_uid = [1], rep_rows = [\<lparr> resp_y = replicate 16 0, resp_ctr = 5 \<rparr>], rep_proofs = [] \<rparr> \<noteq> Panic"
  by (rule finalize_batch_never_panics) (simp_all add: ex_verify_total)

section \<open>Where comments and code differ\<close>

text \<open>
  A request for more runs than are left is refused for the values in its rows when these are out of
  range: the rows are read before the budget is (\<open>zero_rows\<close> in \<open>pool-oprf/src/server.rs\<close> says that
  every rejection is decided before a row is read).
\<close>

lemma rows_read_before_budget:
  "blind_eval ex_crypto (ex_server False) ex_sk (ex_request\<lparr> req_rows := replicate 48 row \<rparr>) =
     (ex_server False, Err (if list_ex (\<lambda>e. par_Q \<le> e) (row_e row) then MalformedRequest ''e has an element outside Zq''
        else if DELTA \<le> unat (row_b_bar_prime row) then MalformedRequest ''b_bar' is outside [0, DELTA)''
        else BlindEvalExhausted 48 32))"
proof -
  let ?rows = "check_rows (replicate 48 row) :: (unit blind_eval_error, unit) res"
  have "(check_rows (replicate (Suc n) row) :: (unit blind_eval_error, unit) res) = (if list_ex (\<lambda>e. par_Q \<le> e) (row_e row)
      then Err (MalformedRequest ''e has an element outside Zq'')
      else if DELTA \<le> unat (row_b_bar_prime row) then Err (MalformedRequest ''b_bar' is outside [0, DELTA)'') else Ok ())" for n
    by (induction n) auto
  from this [of 47] have rows: "?rows = (if list_ex (\<lambda>e. par_Q \<le> e) (row_e row)
      then Err (MalformedRequest ''e has an element outside Zq'')
      else if DELTA \<le> unat (row_b_bar_prime row) then Err (MalformedRequest ''b_bar' is outside [0, DELTA)'') else Ok ())"
    by (simp only: eval_nat_numeral(2) [symmetric] Suc_numeral) simp
  have "check_request (ex_server False) (ex_request\<lparr> req_rows := replicate 48 row \<rparr>)
      = res_bind ?rows (\<lambda>_. Err (BlindEvalExhausted 48 32))"
    using ex_runs(2) [of False]
    by (simp add: check_request_def ex_request_def ex_server_def req_evaluations_def MAX_TAG_LEN_def
        MAX_BATCH_EVALUATIONS_def Let_def del: replicate.simps)
  with rows show ?thesis by (simp add: blind_eval_def split: if_split)
qed

text \<open>The counter of spent runs reaches \<open>tau\<close> (its comment in \<open>preprocessing.rs\<close> says \<open>0\<close> to \<open>tau - 1\<close>).\<close>

lemma spent_runs_reach_tau: "fst (runs_take tau (runs_new tau)) = \<lparr> runs_tau = tau, runs_ctr = tau \<rparr>"
  by (simp add: runs_take_def runs_new_def runs_remaining_def)

end
