(* ===== verification/Oblivious.thy ===== *)
theory Oblivious
  imports OnlineEnd
begin

text \<open>
  What the messages of the online phase say, without a VOPRF. A request is the same for any inputs, up to
  masks and choices of pads that the server has not; a response is the same for any key, up to choice
  bits and pads that the client has not, as long as the keys give the client's inputs the same outputs.
  The stream of a block that a side does not hold is free: a random oracle nobody asked (\<open>reprogram\<close>).
\<close>

section \<open>Requests\<close>

text \<open>A request row is determined by its equations.\<close>

lemma request_row_unique:
  assumes "request_row_ok xof cs first m k rq fin" and "request_row_ok xof' cs' first m' k rq' fin'"
    and "\<And>i. i < par_N \<Longrightarrow>
      (unat (as_slice (matrix_rows m ! k) ! i) + mask_at xof (client_block cs i) (first + k)
         + mask_at xof (client_other_block cs i) (first + k)) mod 4096 =
      (unat (as_slice (matrix_rows m' ! k) ! i) + mask_at xof' (client_block cs' i) (first + k)
         + mask_at xof' (client_other_block cs' i) (first + k)) mod 4096"
    and "unat (row_b_bar_prime rq) = unat (row_b_bar_prime rq')"
  shows "rq = rq'"
proof -
  have "row_e rq = row_e rq'"
    using assms(1-3) by (intro nth_equalityI) (simp_all add: request_row_ok_def word_unat_eq_iff)
  with assms(4) show ?thesis by (simp add: word_unat_eq_iff)
qed

lemma request_rows_unique:
  assumes "length rss = n" and "length rss' = n"
    and "\<And>v k. v < n \<Longrightarrow> k < 16 \<Longrightarrow> rss ! v ! k = rss' ! v ! k"
    and "\<And>v. v < n \<Longrightarrow> length (rss ! v) = 16 \<and> length (rss' ! v) = 16"
  shows "rss = rss'"
  using assms by (intro nth_equalityI) simp_all

section \<open>Streams nobody read\<close>

definition mask_byte :: "nat \<Rightarrow> nat \<Rightarrow> u8" where
  "mask_byte m p = (if even p then of_nat (m mod 256) else of_nat (m div 256))"

text \<open>The streams of the blocks in \<open>B\<close>, reprogrammed to expand to the masks \<open>m\<close>.\<close>

definition reprogram :: "xof \<Rightarrow> block set \<Rightarrow> (block \<Rightarrow> nat \<Rightarrow> nat) \<Rightarrow> xof" where
  "reprogram xof B m ctx msg p =
     (if ctx = R_DOMAIN_SEPARATOR \<and> msg \<in> B then mask_byte (m msg (p div 2)) p else xof ctx msg p)"

lemma mask_at_reprogram:
  assumes "\<And>b j. m b j < 4096"
  shows "mask_at (reprogram xof B m) b j = (if b \<in> B then m b j else mask_at xof b j)"
proof (cases "b \<in> B")
  case True
  have "m b j div 256 < 256" using assms [of b j] by simp
  then have "unat (mask_byte (m b j) (2 * j)) = m b j mod 256" "unat (mask_byte (m b j) (2 * j + 1)) = m b j div 256"
    by (simp_all add: mask_byte_def unat_of_nat)
  moreover have "(2 * j + 1) div 2 = j" by simp
  ultimately show ?thesis
    using True assms [of b j] by (simp add: mask_at_def reprogram_def Let_def)
qed (simp add: mask_at_def reprogram_def Let_def)

lemma domains_differ: "RO_DOMAIN_SEPARATOR \<noteq> R_DOMAIN_SEPARATOR"
  by (simp add: RO_DOMAIN_SEPARATOR_def R_DOMAIN_SEPARATOR_def)

lemma hash_reprogram [simp]: "hash_to_zq_matrix (reprogram xof B m) tag x = hash_to_zq_matrix xof tag x"
proof -
  have "reprogram xof B m RO_DOMAIN_SEPARATOR msg = xof RO_DOMAIN_SEPARATOR msg" for msg
    by (rule ext) (simp add: reprogram_def domains_differ)
  then show ?thesis by (simp add: hash_to_zq_matrix_def)
qed

section \<open>The client's privacy\<close>

text \<open>Of each pair of blocks, the one that the server did not receive.\<close>

definition unknown_block :: "server_state \<Rightarrow> 'c client_state \<Rightarrow> nat \<Rightarrow> block" where
  "unknown_block ss cs i =
     (if rs_b (ss_r_s ss ! i) = 0 then snd (cs_ot_blocks cs ! i) else fst (cs_ot_blocks cs ! i))"

definition unknown_blocks :: "server_state \<Rightarrow> 'c client_state \<Rightarrow> block set" where
  "unknown_blocks ss cs = unknown_block ss cs ` {..<par_N}"

text \<open>As random blocks are: the server's blocks tell nothing about the others, which are all different.\<close>

definition fresh_blocks :: "server_state \<Rightarrow> 'c client_state \<Rightarrow> bool" where
  "fresh_blocks ss cs \<longleftrightarrow> inj_on (unknown_block ss cs) {..<par_N} \<and>
     (\<forall>i < par_N. rs_ot_block (ss_r_s ss ! i) \<notin> unknown_blocks ss cs)"

text \<open>Streams that agree wherever the server can look: they differ at most on the masks of blocks that it
  does not have.\<close>

definition same_for_server :: "server_state \<Rightarrow> 'c client_state \<Rightarrow> xof \<Rightarrow> xof \<Rightarrow> bool" where
  "same_for_server ss cs xof xof' \<longleftrightarrow>
     (\<forall>ctx msg. xof' ctx msg \<noteq> xof ctx msg \<longrightarrow> ctx = R_DOMAIN_SEPARATOR \<and> msg \<in> unknown_blocks ss cs)"

lemma reprogram_same: "same_for_server ss cs xof (reprogram xof (unknown_blocks ss cs) m)"
  by (auto simp: same_for_server_def reprogram_def fun_eq_iff)

text \<open>The two blocks of a coordinate are the server's and the one it does not have.\<close>

lemma blocks_of_coordinate:
  assumes "matched sk cs ss" and "wf_server ss" and "wf_key sk" and "i < par_N"
  shows "(client_block cs i, client_other_block cs i) =
    (if as_bits sk ! i = 0 then (rs_ot_block (ss_r_s ss ! i), unknown_block ss cs i)
     else (unknown_block ss cs i, rs_ot_block (ss_r_s ss ! i)))"
proof -
  have "{client_block cs i, client_other_block cs i} = {fst (cs_ot_blocks cs ! i), snd (cs_ot_blocks cs ! i)}"
    by (auto simp: client_block_def client_other_block_def)
  have server: "rs_ot_block (ss_r_s ss ! i) = (if rs_b (ss_r_s ss ! i) = 0 then fst (cs_ot_blocks cs ! i)
      else snd (cs_ot_blocks cs ! i))" and bhat: "cs_bhat cs ! i = rs_b (ss_r_s ss ! i) XOR (as_bits sk ! i)"
    using assms(1,4) by (simp_all add: matched_def Let_def)
  have "unat (rs_b (ss_r_s ss ! i)) \<le> 1" using assms(2,4) by (simp add: wf_server_def)
  moreover have "unat (as_bits sk ! i) \<le> 1"
    using assms(3,4) wf_key_bound [OF assms(3), of "as_bits sk ! i"] by (simp add: wf_key_def)
  ultimately have "(cs_bhat cs ! i = 0) = ((rs_b (ss_r_s ss ! i) = 0) = (as_bits sk ! i = 0))"
    unfolding bhat by (rule xor_bit)
  then show ?thesis
    by (auto simp: client_block_def client_other_block_def unknown_block_def server)
qed

text \<open>Entry \<open>i\<close> of row \<open>r\<close> of the matrices of a batch.\<close>

definition input_entry :: "xof \<Rightarrow> bytes \<Rightarrow> bytes list \<Rightarrow> nat \<Rightarrow> nat \<Rightarrow> nat" where
  "input_entry xof tag xs r i =
     unat (as_slice (matrix_rows (hash_to_zq_matrix xof tag (xs ! (r div 16))) ! (r mod 16)) ! i)"

lemma input_entry_less:
  assumes "i < par_N"
  shows "input_entry xof tag xs r i < 4096"
proof -
  let ?row = "matrix_rows (hash_to_zq_matrix xof tag (xs ! (r div 16))) ! (r mod 16)"
  have row: "wf_vector ?row" using wf_hash [of xof tag "xs ! (r div 16)"] by (simp add: wf_matrix_def)
  then have "as_slice ?row ! i \<in> set (as_slice ?row)" using assms by (simp add: wf_vector_def)
  from wf_vector_bound [OF row this] show ?thesis by (simp add: input_entry_def)
qed

text \<open>The masks of unknown blocks that make the request for \<open>xs\<close> the request for \<open>xs'\<close>.\<close>

definition excused_mask ::
  "xof \<Rightarrow> bytes \<Rightarrow> bytes list \<Rightarrow> bytes list \<Rightarrow> nat \<Rightarrow> block \<Rightarrow> nat \<Rightarrow> nat \<Rightarrow> nat" where
  "excused_mask xof tag xs xs' first b i j =
     (if first \<le> j \<and> j < first + 16 * length xs
      then (mask_at xof b j + input_entry xof tag xs (j - first) i + (4096 - input_entry xof tag xs' (j - first) i)) mod 4096
      else mask_at xof b j)"

definition excuse ::
  "server_state \<Rightarrow> 'c client_state \<Rightarrow> xof \<Rightarrow> bytes \<Rightarrow> bytes list \<Rightarrow> bytes list \<Rightarrow> xof" where
  "excuse ss cs xof tag xs xs' = reprogram xof (unknown_blocks ss cs)
     (\<lambda>b. excused_mask xof tag xs xs' (client_spent cs) b (inv_into {..<par_N} (unknown_block ss cs) b))"

lemma excused_mask_less: "excused_mask xof tag xs xs' first b i j < 4096"
  by (simp add: excused_mask_def mask_at_less)

lemma mask_at_excuse:
  assumes "fresh_blocks ss cs" and "i < par_N"
  shows "mask_at (excuse ss cs xof tag xs xs') (unknown_block ss cs i) j
      = excused_mask xof tag xs xs' (client_spent cs) (unknown_block ss cs i) i j"
    and "mask_at (excuse ss cs xof tag xs xs') (rs_ot_block (ss_r_s ss ! i)) j
      = mask_at xof (rs_ot_block (ss_r_s ss ! i)) j"
  using assms by (simp_all add: excuse_def mask_at_reprogram excused_mask_less fresh_blocks_def unknown_blocks_def)

lemma hash_excuse [simp]: "hash_to_zq_matrix (excuse ss cs xof tag xs xs') tag' x = hash_to_zq_matrix xof tag' x"
  by (simp add: excuse_def)

lemma excuse_same: "same_for_server ss cs xof (excuse ss cs xof tag xs xs')"
  unfolding excuse_def by (rule reprogram_same)

lemma shift_cancels:
  fixes a a' x u :: nat
  assumes "a' \<le> 4096"
  shows "(a' + x + (u + a + (4096 - a')) mod 4096) mod 4096 = (a + x + u) mod 4096"
proof -
  have "(a' + x + (u + a + (4096 - a')) mod 4096) mod 4096 = (a' + x + (u + a + (4096 - a'))) mod 4096"
    by (rule mod_add_right_eq)
  also have "a' + x + (u + a + (4096 - a')) = a + x + u + 4096" using assms by simp
  finally show ?thesis by simp
qed

text \<open>Blinded with the new masks, the new inputs are what the old ones were with the old masks.\<close>

lemma excused_entry:
  assumes m: "matched sk cs ss" "wf_server ss" "wf_key sk" and fresh: "fresh_blocks ss cs" and i: "i < par_N"
    and v: "v < length xs" and k: "k < 16"
  defines "j \<equiv> client_spent cs + 16 * v + k"
  shows "(unat (as_slice (matrix_rows (hash_to_zq_matrix xof tag (xs' ! v)) ! k) ! i)
       + mask_at (excuse ss cs xof tag xs xs') (client_block cs i) j
       + mask_at (excuse ss cs xof tag xs xs') (client_other_block cs i) j) mod 4096 =
     (unat (as_slice (matrix_rows (hash_to_zq_matrix xof tag (xs ! v)) ! k) ! i)
       + mask_at xof (client_block cs i) j + mask_at xof (client_other_block cs i) j) mod 4096"
proof -
  let ?U = "unknown_block ss cs i" and ?K = "rs_ot_block (ss_r_s ss ! i)" and ?r = "16 * v + k"
  have pos: "(16 * v + k) div 16 = v" "(16 * v + k) mod 16 = k" using k by simp_all
  have entry: "input_entry xof tag ys ?r i
      = unat (as_slice (matrix_rows (hash_to_zq_matrix xof tag (ys ! v)) ! k) ! i)" for ys
    by (simp only: input_entry_def pos)
  have new: "mask_at (excuse ss cs xof tag xs xs') ?U j
      = (mask_at xof ?U j + input_entry xof tag xs ?r i + (4096 - input_entry xof tag xs' ?r i)) mod 4096"
    using v k by (simp add: mask_at_excuse [OF fresh i] excused_mask_def j_def)
  have sums: "mask_at g (client_block cs i) j + mask_at g (client_other_block cs i) j = mask_at g ?K j + mask_at g ?U j" for g
    using blocks_of_coordinate [OF m i] by (auto split: if_splits)
  have "input_entry xof tag xs' ?r i \<le> 4096" using input_entry_less [OF i] less_imp_le by blast
  from shift_cancels [OF this, of "mask_at xof ?K j" "mask_at xof ?U j" "input_entry xof tag xs ?r i"]
  show ?thesis
    unfolding entry [symmetric] add.assoc sums mask_at_excuse(2) [OF fresh i] new by (simp only: add.assoc)
qed

text \<open>The choices of pads that go with them: those that leave \<open>b_bar'\<close> as it is, with the server's pads.\<close>

definition excused_choice ::
  "server_state \<Rightarrow> xof \<Rightarrow> (nat \<Rightarrow> block) \<Rightarrow> row_request list list \<Rightarrow> nat \<Rightarrow> nat \<Rightarrow> rc_entry" where
  "excused_choice ss xof blinding rss first j =
     (let r_sigma = (\<Sum>i<par_N. mask_at xof (blinding i) j) mod 4096;
          b_bar' = unat (row_b_bar_prime (rss ! ((j - first) div 16) ! ((j - first) mod 16)));
          choice = (r_sigma mod 16 + 16 - b_bar') mod 16
      in \<lparr> rc_b_prime = of_nat choice, rc_r_prime = ss_s_s ss ! j ! choice \<rparr>)"

definition excused_client ::
  "server_state \<Rightarrow> 'c client_state \<Rightarrow> xof \<Rightarrow> row_request list list \<Rightarrow> 'c client_state" where
  "excused_client ss cs xof rss = cs\<lparr> cs_r_c := map (\<lambda>j.
     if client_spent cs \<le> j \<and> j < client_spent cs + 16 * length rss
     then excused_choice ss xof (client_block cs) rss (client_spent cs) j else cs_r_c cs ! j) [0..<length (cs_r_c cs)] \<rparr>"

lemma unat_choice: "unat (of_nat (n mod 16) :: zdelta) = n mod 16"
proof -
  have "n mod 16 < 16" by simp
  then have "n mod 16 < 256" by linarith
  then show ?thesis by (simp add: unat_of_nat)
qed

lemma excused_client_simps [simp]:
  "client_block (excused_client ss cs xof rss) i = client_block cs i"
  "client_other_block (excused_client ss cs xof rss) i = client_other_block cs i"
  "client_spent (excused_client ss cs xof rss) = client_spent cs"
  "client_total (excused_client ss cs xof rss) = client_total cs"
  "client_remaining_runs (excused_client ss cs xof rss) = client_remaining_runs cs"
  "cs_voprf (excused_client ss cs xof rss) = cs_voprf cs"
  "cs_uid (excused_client ss cs xof rss) = cs_uid cs"
  "length (cs_r_c (excused_client ss cs xof rss)) = length (cs_r_c cs)"
  by (simp_all add: excused_client_def client_block_def client_other_block_def budget_defs client_remaining_runs_def)

lemma excused_choice_range: "unat (rc_b_prime (excused_choice ss xof blinding rss first j)) < 16"
  by (simp add: excused_choice_def Let_def unat_choice)

lemma wf_client_choices:
  assumes "wf_client cs" and "length rc = length (cs_r_c cs)" and "\<forall>c \<in> set rc. unat (rc_b_prime c) < 16"
  shows "wf_client (cs\<lparr> cs_r_c := rc \<rparr>)"
  using assms by (cases "cs_voprf cs") (simp_all add: wf_client_def)

lemma excused_client_wf:
  assumes "wf_client cs"
  shows "wf_client (excused_client ss cs xof rss)"
  unfolding excused_client_def
  by (rule wf_client_choices [OF assms]) (use assms in \<open>auto simp: wf_client_def excused_choice_range\<close>)

lemma excused_client_matched:
  assumes "matched sk cs ss"
  shows "matched sk (excused_client ss cs xof rss) ss"
  using assms by (auto simp: matched_def excused_client_def excused_choice_def Let_def unat_choice simp del: unat_of_nat)

lemma excused_request_row:
  assumes m: "matched sk cs ss" "wf_server ss" "wf_key sk" and fresh: "fresh_blocks ss cs"
    and v: "v < length xs" and k: "k < 16" and len: "length rss = length xs"
    and fits: "client_spent cs + 16 * length xs \<le> length (cs_r_c cs)"
    and rq: "request_row_ok xof cs (client_spent cs + 16 * v) (hash_to_zq_matrix xof tag (xs ! v)) k (rss ! v ! k) fin"
    and rq': "request_row_ok (excuse ss cs xof tag xs xs') (excused_client ss cs (excuse ss cs xof tag xs xs') rss)
       (client_spent cs + 16 * v) (hash_to_zq_matrix xof tag (xs' ! v)) k row fin'"
  shows "row = rss ! v ! k"
proof (rule request_row_unique [OF rq' rq])
  let ?xof = "excuse ss cs xof tag xs xs'" and ?j = "client_spent cs + 16 * v + k"
  let ?cs = "excused_client ss cs ?xof rss" and ?b = "unat (row_b_bar_prime (rss ! v ! k))"
  show "(unat (as_slice (matrix_rows (hash_to_zq_matrix xof tag (xs' ! v)) ! k) ! i)
         + mask_at ?xof (client_block ?cs i) ?j + mask_at ?xof (client_other_block ?cs i) ?j) mod 4096 =
      (unat (as_slice (matrix_rows (hash_to_zq_matrix xof tag (xs ! v)) ! k) ! i)
         + mask_at xof (client_block cs i) ?j + mask_at xof (client_other_block cs i) ?j) mod 4096" if "i < par_N" for i
    using excused_entry [OF m fresh that v k] by simp
  let ?r = "(\<Sum>i<par_N. mask_at ?xof (client_block cs i) ?j) mod 4096"
  have pos: "(?j - client_spent cs) div 16 = v" "(?j - client_spent cs) mod 16 = k" using k by simp_all
  have j: "?j < client_spent cs + 16 * length rss" "?j < length (cs_r_c cs)" using v k len fits by simp_all
  have "cs_r_c ?cs ! ?j = excused_choice ss ?xof (client_block cs) rss (client_spent cs) ?j"
    using j by (simp add: excused_client_def)
  then have "unat (rc_b_prime (cs_r_c ?cs ! ?j)) = (?r mod 16 + 16 - ?b) mod 16"
    unfolding excused_choice_def Let_def pos by (simp add: unat_choice del: unat_of_nat)
  moreover have "unat (row_b_bar_prime row) = (?r mod 16 + 16 - unat (rc_b_prime (cs_r_c ?cs ! ?j))) mod 16"
    using rq' by (simp add: request_row_ok_def)
  moreover have "?b < 16" using rq by (simp add: request_row_ok_def)
  ultimately show "unat (row_b_bar_prime row) = ?b" by (simp only: unblind_index)
qed

lemma request_excused:
  assumes wfc: "wf_client cs" and m: "matched sk cs ss" "wf_server ss" "wf_key sk" and fresh: "fresh_blocks ss cs"
    and run: "request_batch xof cs tag xs = (cs1, Ok (req, fin))" and len: "length xs' = length xs"
  obtains xof' cs' cs1' fin' where
    "same_for_server ss cs xof xof'" "wf_client cs'" "matched sk cs' ss" "cs' = cs\<lparr> cs_r_c := cs_r_c cs' \<rparr>"
    "request_batch xof' cs' tag xs' = (cs1', Ok (req, fin'))"
proof -
  note conds = request_batch_conditions [OF run]
  obtain rss fss where req: "req = \<lparr> req_uid = cs_uid cs, req_tag = tag, req_rows = concat rss \<rparr>" "length rss = length xs" "length fss = length xs"
    and rows: "\<And>v. v < length xs \<Longrightarrow> request_block_ok xof cs (client_spent cs + 16 * v)
       (hash_to_zq_matrix xof tag (xs ! v)) (rss ! v) (fss ! v)"
    by (rule request_batch_OkD [OF run wfc]) auto
  have ok: "client_spent cs + 16 * length xs \<le> client_total cs"
    using conds(2,4) wf_client_spent [OF wfc] by (auto simp: client_remaining)
  let ?xof = "excuse ss cs xof tag xs xs'"
  let ?cs = "excused_client ss cs ?xof rss"
  have wf': "wf_client ?cs" by (rule excused_client_wf [OF wfc])
  have "xs' \<noteq> []" "length xs' \<le> max_batch (cs_voprf ?cs)" "16 * length xs' \<le> client_remaining_runs ?cs"
    using conds len by auto
  from request_batch_Ok [OF wf' conds(1) this, of ?xof] obtain rss' fss' sts' where
    run': "request_batch ?xof ?cs tag xs' = (client_spend (16 * length xs') ?cs,
             Ok (\<lparr> req_uid = cs_uid ?cs, req_tag = tag, req_rows = concat rss' \<rparr>,
                 \<lparr> fs_uid = cs_uid ?cs, fs_rows = concat fss', fs_voprf = map_option (\<lambda>_. sts') (cs_voprf ?cs) \<rparr>))"
    and rows': "length rss' = length xs'" "\<forall>v < length xs'. request_block_ok ?xof ?cs (client_spent ?cs + 16 * v)
                  (hash_to_zq_matrix ?xof tag (xs' ! v)) (rss' ! v) (fss' ! v)"
    by (elim exE conjE) (rule that)
  have fits: "client_spent cs + 16 * length xs \<le> length (cs_r_c cs)" using ok by (simp add: wf_client_total [OF wfc])
  have "rss' = rss"
  proof (rule request_rows_unique [of _ "length xs"])
    show "rss' ! v ! k = rss ! v ! k" if v: "v < length xs" and k: "k < 16" for v k
    proof (rule excused_request_row [OF m fresh v k req(2) fits])
      show "request_row_ok xof cs (client_spent cs + 16 * v) (hash_to_zq_matrix xof tag (xs ! v)) k (rss ! v ! k) (fss ! v ! k)"
        using rows [OF v] k by (simp add: request_block_ok_def)
      show "request_row_ok ?xof ?cs (client_spent cs + 16 * v) (hash_to_zq_matrix xof tag (xs' ! v)) k (rss' ! v ! k) (fss' ! v ! k)"
        using rows'(2) len v k by (simp add: request_block_ok_def)
    qed
    show "length (rss' ! v) = 16 \<and> length (rss ! v) = 16" if "v < length xs" for v
      using rows'(2) rows [OF that] len that by (simp add: request_block_ok_def)
  qed (use rows'(1) req(2) len in simp_all)
  with run' have "request_batch ?xof ?cs tag xs' = (client_spend (16 * length xs') ?cs, Ok (req,
      \<lparr> fs_uid = cs_uid ?cs, fs_rows = concat fss', fs_voprf = map_option (\<lambda>_. sts') (cs_voprf ?cs) \<rparr>))"
    by (simp add: req(1))
  from that [OF excuse_same wf' excused_client_matched [OF m(1)] _ this] show ?thesis
    by (simp add: excused_client_def)
qed

section \<open>The server's privacy\<close>

text \<open>The choice bits and blocks of a server with key \<open>sk\<close> whose masked key bits were those that the client
  has.\<close>

definition receiver_entry :: "secret_key \<Rightarrow> 'c client_state \<Rightarrow> nat \<Rightarrow> rs_entry" where
  "receiver_entry sk cs i =
     (let b = cs_bhat cs ! i XOR as_bits sk ! i
      in \<lparr> rs_b = b, rs_ot_block = (if b = 0 then fst (cs_ot_blocks cs ! i) else snd (cs_ot_blocks cs ! i)) \<rparr>)"

definition server_for :: "secret_key \<Rightarrow> 'c client_state \<Rightarrow> server_state \<Rightarrow> server_state" where
  "server_for sk cs ss = ss\<lparr> ss_r_s := map (receiver_entry sk cs) [0..<par_N] \<rparr>"

lemma bit_cases:
  assumes "unat (w :: u8) \<le> 1"
  shows "w = 0 \<or> w = 1"
  using assms by (cases "unat w") (auto simp: word_unat_eq_iff le_Suc_eq)

lemma bhat_bit:
  assumes "wf_client cs" and "i < par_N"
  shows "cs_bhat cs ! i = 0 \<or> cs_bhat cs ! i = 1"
  using wf_client_bhat [OF assms] by (intro bit_cases) auto

lemma receiver_entry_bit:
  assumes "wf_client cs" and "wf_key sk" and "i < par_N"
  shows "unat (rs_b (receiver_entry sk cs i)) \<le> 1"
  using bhat_bit [OF assms(1,3)] wf_key_bit [OF assms(2,3)] by (auto simp: receiver_entry_def Let_def)

lemma server_for_simps [simp]:
  "ss_s_s (server_for sk cs ss) = ss_s_s ss"
  "ss_uid (server_for sk cs ss) = ss_uid ss"
  "ss_runs (server_for sk cs ss) = ss_runs ss"
  "ss_voprf (server_for sk cs ss) = ss_voprf ss"
  by (simp_all add: server_for_def)

lemma wf_server_for:
  assumes "wf_client cs" and "wf_server ss" and "wf_key sk"
  shows "wf_server (server_for sk cs ss)"
proof -
  have "unat (rs_b e) \<le> 1" if "e \<in> set (ss_r_s (server_for sk cs ss))" for e
    using that receiver_entry_bit [OF assms(1,3)] by (auto simp: server_for_def)
  moreover have "length (ss_r_s (server_for sk cs ss)) = par_N" by (simp add: server_for_def)
  ultimately show ?thesis using assms(2) by (cases "ss_voprf ss") (simp_all add: wf_server_def)
qed

lemma matched_server_for:
  assumes "matched sk' cs ss"
  shows "matched sk cs (server_for sk cs ss)"
proof -
  have "rs_b (receiver_entry sk cs i) XOR as_bits sk ! i = cs_bhat cs ! i" for i
    by (simp add: receiver_entry_def Let_def xor.assoc)
  moreover have "rs_ot_block (receiver_entry sk cs i)
      = (if rs_b (receiver_entry sk cs i) = 0 then fst (cs_ot_blocks cs ! i) else snd (cs_ot_blocks cs ! i))" for i
    by (simp add: receiver_entry_def Let_def)
  ultimately show ?thesis using assms by (simp add: matched_def server_for_def Let_def)
qed

text \<open>Pads for a given response, whatever the sum it is computed from.\<close>

definition shifted_pads :: "zp list \<Rightarrow> zdelta \<Rightarrow> zp list \<Rightarrow> zp list \<Rightarrow> zp list" where
  "shifted_pads pads b y y0 =
     map (\<lambda>t. pads ! t + (y ! ((t + unat b) mod 16) - y0 ! ((t + unat b) mod 16))) [0..<16]"

lemma length_shifted_pads [simp]: "length (shifted_pads pads b y y0) = 16"
  by (simp add: shifted_pads_def)

lemma zp_sum:
  assumes "unat (z :: zp) = (c + unat p) mod 256"
  shows "z = of_nat c + p"
  using assms by (simp add: word_unat_eq_iff unat_word_ariths unat_of_nat mod_add_left_eq)

lemma respond_shifted:
  assumes a: "unat a < 4096" and b: "unat b < 16" and pads: "length pads = 16"
    and y0: "respond a pads b = Some y0" and y: "length y = 16"
  shows "respond a (shifted_pads pads b y y0) b = Some y"
proof -
  let ?pads = "shifted_pads pads b y y0"
  let ?c = "\<lambda>j. ((unat a + 4096 - j) mod 4096 + 7) div 16"
  obtain y1 where y1: "respond a ?pads b = Some y1" "length y1 = 16"
    "\<And>j. j < 16 \<Longrightarrow> unat (y1 ! j) = (?c j + unat (?pads ! ((j + 16 - unat b) mod 16))) mod 256"
    using respond_Some [OF a b, of ?pads] by auto
  have old: "unat (y0 ! j) = (?c j + unat (pads ! ((j + 16 - unat b) mod 16))) mod 256" if "j < 16" for j
    using respond_Some [OF a b pads] y0 that by auto
  have "y1 ! j = y ! j" if j: "j < 16" for j
  proof -
    let ?t = "(j + 16 - unat b) mod 16"
    have "(?t + unat b) mod 16 = (j + 16) mod 16" using b by (simp add: mod_add_left_eq)
    with j have t: "(?t + unat b) mod 16 = j" by simp
    have "?pads ! ?t = pads ! ?t + (y ! j - y0 ! j)" by (simp add: shifted_pads_def t)
    with zp_sum [OF y1(3) [OF j]] zp_sum [OF old [OF j]] show ?thesis by simp
  qed
  with y1(1,2) y show ?thesis by (simp add: nth_equalityI)
qed

text \<open>The pad at which the two responses agree stays.\<close>

lemma shifted_pads_same:
  assumes "c < 16" and "y ! ((c + unat b) mod 16) = y0 ! ((c + unat b) mod 16)"
  shows "shifted_pads pads b y y0 ! c = pads ! c"
  using assms by (simp add: shifted_pads_def)

lemma sub_p_minus: "sub_p x y = Some (x - y)"
proof -
  obtain z where z: "sub_p x y = Some z" "unat z = (unat x + 256 - unat y) mod 256"
    using unat_sub_p by blast
  have "unat y \<le> 256" using unat_u8_less [of y] by simp
  then have "unat (z + y) = unat x"
    by (simp add: unat_word_ariths z(2) mod_add_left_eq unat_u8_less)
  then have "z + y = x" by (simp add: word_unat_eq_iff)
  then have "z = x - y" by (simp add: eq_diff_eq)
  with z(1) show ?thesis by simp
qed

text \<open>An output tells the entry it was read from.\<close>

lemma finalize_row_entry:
  assumes "finalize_row fin rep = Some out" and "finalize_row fin rep0 = Some out"
    and "length (resp_y rep) = 16" and "length (resp_y rep0) = 16"
  shows "resp_y rep ! (unat (fin_r_sigma fin) mod 16) = resp_y rep0 ! (unat (fin_r_sigma fin) mod 16)"
proof -
  have "out = resp_y r ! (unat (fin_r_sigma fin) mod 16) - fin_r_prime fin
      - ucast ((fin_r_sigma fin - of_nat (unat (fin_r_sigma fin) mod 16)) div DELTA_ZQ)"
    if "finalize_row fin r = Some out" "length (resp_y r) = 16" for r
    using that by (simp add: finalize_row_def Let_def unat_reduce_delta sub_p_minus del: DELTA_ZQ)
  from this [OF assms(1,3)] this [OF assms(2,4)] show ?thesis by simp
qed

text \<open>One row: pads with which the server with the other key gives the same response, and which the client
  cannot tell from its own.\<close>

lemma excused_response_row:
  assumes m: "matched sk cs ss" and wfs: "wf_server ss" and wfc: "wf_client cs" and sk: "wf_key sk" "wf_key sk'"
    and mat: "wf_matrix mx" and k: "k < 16"
    and first: "first + 16 \<le> length (cs_r_c cs)" "first + 16 \<le> length (ss_s_s ss)"
    and rq: "request_row_ok xof cs first mx k rq fin" and rep: "response_row_ok xof ss sk first k rq rep t"
    and same: "evaluate_single_row sk' (matrix_rows mx ! k) = evaluate_single_row sk (matrix_rows mx ! k)"
  obtains pads t' where "length pads = 16"
    "pads ! unat (rc_b_prime (cs_r_c cs ! (first + k))) = ss_s_s ss ! (first + k) ! unat (rc_b_prime (cs_r_c cs ! (first + k)))"
    "r_sigma_sum sk' (map (\<lambda>i. expand xof (rs_ot_block (ss_r_s (server_for sk' cs ss) ! i)) first ! k) [0..<par_N]) = Some t'"
    "respond (a_sigma_sum sk' t' (row_e rq)) pads (row_b_bar_prime rq) = Some (resp_y rep)"
proof -
  let ?ss = "server_for sk' cs ss" and ?c = "unat (rc_b_prime (cs_r_c cs ! (first + k)))" and ?b = "row_b_bar_prime rq"
  let ?ms = "map (\<lambda>i. expand xof (rs_ot_block (ss_r_s ?ss ! i)) first ! k) [0..<par_N]"
  let ?pads = "ss_s_s ss ! (first + k)" and ?j = "unat (fin_r_sigma fin) mod 16"
  have "\<forall>r \<in> set ?ms. unat r < 4096" by (auto simp: unat_expand k mask_at_less)
  moreover have "length ?ms \<le> 482" by (simp add: par_N_le)
  ultimately obtain t' where t': "r_sigma_sum sk' ?ms = Some t'" "unat t' < 4096" using r_sigma_sum_Some by blast
  have b: "unat ?b < 16" using rq by (simp add: request_row_ok_def)
  have j: "first + k < length (cs_r_c cs)" "first + k < length (ss_s_s ss)" using first k by simp_all
  have pads: "length ?pads = 16" using wfs j(2) by (simp add: wf_server_def)
  have c: "?c < 16" using wfc j(1) by (simp add: wf_client_def)
  note respond = respond_Some [OF unat_a_sigma_less b pads]
  obtain y0 where y0: "respond (a_sigma_sum sk' t' (row_e rq)) ?pads ?b = Some y0" "length y0 = 16"
    using respond by blast
  have y: "length (resp_y rep) = 16" using rep respond [of sk t "row_e rq"] by (auto simp: response_row_ok_def)
  let ?rep0 = "\<lparr> resp_y = y0, resp_ctr = first + k \<rparr>"
  have "response_row_ok xof ?ss sk' first k rq ?rep0 t'"
    using t' y0(1) by (simp add: response_row_ok_def)
  from row_unblinds [OF matched_server_for [OF m] wf_server_for [OF wfc wfs sk(2)] wfc sk(2) mat k first(1) _ rq this]
  obtain out where "finalize_row fin ?rep0 = Some out" "evaluate_single_row sk' (matrix_rows mx ! k) = Some out"
    using first(2) by auto
  moreover obtain out' where "finalize_row fin rep = Some out'" "evaluate_single_row sk (matrix_rows mx ! k) = Some out'"
    using row_unblinds [OF m wfs wfc sk(1) mat k first rq rep] by blast
  ultimately have "finalize_row fin ?rep0 = Some out" "finalize_row fin rep = Some out" using same by simp_all
  from finalize_row_entry [OF this(2,1) y] have entry: "resp_y rep ! ?j = y0 ! ?j" using y0(2) by simp
  have "(?c + unat ?b) mod 16 = ?j"
  proof -
    have "(?j + 16 - unat ?b) mod 16 = ?c" by (rule request_row_index [OF rq c])
    moreover have "((?j + 16 - unat ?b) mod 16 + unat ?b) mod 16 = ?j" using b by (simp add: mod_add_left_eq)
    ultimately show ?thesis by simp
  qed
  with entry have "shifted_pads ?pads ?b (resp_y rep) y0 ! ?c = ?pads ! ?c"
    using c by (simp add: shifted_pads_same)
  from that [OF length_shifted_pads this t'(1) respond_shifted [OF unat_a_sigma_less b pads y0(1) y]] show ?thesis .
qed

text \<open>Without a VOPRF the prover has no part.\<close>

lemma blind_eval_loop_plain:
  "ss_voprf ss = None \<Longrightarrow> blind_eval_loop (cr\<lparr> prove_online_st := f \<rparr>) sk ss evals = blind_eval_loop cr sk ss evals"
proof (induction evals arbitrary: ss)
  case (Cons eval evals)
  obtain ss' taken where nx: "server_next_runs H_ROWS ss = (ss', taken)" by fastforce
  then have "ss_voprf ss' = None" using Cons.prems by (auto simp: server_next_runs_def Let_def split: prod.splits)
  from Cons.IH [OF this] this show ?case
    by (simp add: nx del: H_ROWS_16 split: option.splits)
qed simp

lemma blind_eval_plain:
  "ss_voprf ss = None \<Longrightarrow> blind_eval (cr\<lparr> prove_online_st := f \<rparr>) ss sk req = blind_eval cr ss sk req"
  by (simp add: blind_eval_def blind_eval_loop_plain split: res.split)

lemma blind_eval_answers:
  assumes wf: "wf_server ss" "wf_key sk" and plain: "ss_voprf ss = None"
    and acc: "acceptable ss req" and wfr: "wf_request req"
  obtains reps sums where
    "blind_eval cr ss sk req = (server_spend (length (req_rows req)) ss,
       Ok \<lparr> rep_uid = ss_uid ss, rep_rows = concat reps, rep_proofs = [] \<rparr>)"
    "length reps = length (chunks_exact 16 (req_rows req))"
    "\<And>v. v < length reps \<Longrightarrow> response_block_ok (cr_xof cr) ss sk (server_spent ss + 16 * v)
       (chunks_exact 16 (req_rows req) ! v) (reps ! v) (sums ! v)"
proof -
  let ?cr = "cr\<lparr> prove_online_st := \<lambda>st w. Err undefined \<rparr>"
  have total: "prover_total ?cr" by (simp add: prover_total_def)
  have "pads_consistent ss" by (simp add: pads_consistent_def plain)
  from blind_eval_accepts [OF wf this wfr acc total] plain
  obtain reps sums where "blind_eval ?cr ss sk req = (server_spend (length (req_rows req)) ss,
       Ok \<lparr> rep_uid = ss_uid ss, rep_rows = concat reps, rep_proofs = [] \<rparr>)"
    and ok: "responses_ok ?cr ss sk (server_spent ss) (chunks_exact 16 (req_rows req)) reps sums []"
    by (auto simp: proving_failed_def responses_ok_def)
  then show ?thesis using plain by (intro that [of reps sums]) (simp_all add: blind_eval_plain responses_ok_def)
qed

text \<open>The server with the other key and its pads.\<close>

definition excused_server ::
  "secret_key \<Rightarrow> 'c client_state \<Rightarrow> server_state \<Rightarrow> nat \<Rightarrow> (nat \<Rightarrow> nat \<Rightarrow> zp list) \<Rightarrow> server_state" where
  "excused_server sk cs ss n pads = (server_for sk cs ss)\<lparr> ss_s_s := map (\<lambda>j.
     if client_spent cs \<le> j \<and> j < client_spent cs + 16 * n
     then pads ((j - client_spent cs) div 16) ((j - client_spent cs) mod 16) else ss_s_s ss ! j) [0..<length (ss_s_s ss)] \<rparr>"

lemma excused_server_simps [simp]:
  "ss_r_s (excused_server sk cs ss n pads) = ss_r_s (server_for sk cs ss)"
  "ss_uid (excused_server sk cs ss n pads) = ss_uid ss"
  "ss_runs (excused_server sk cs ss n pads) = ss_runs ss"
  "ss_voprf (excused_server sk cs ss n pads) = ss_voprf ss"
  "length (ss_s_s (excused_server sk cs ss n pads)) = length (ss_s_s ss)"
  "server_spent (excused_server sk cs ss n pads) = server_spent ss"
  "server_remaining_runs (excused_server sk cs ss n pads) = server_remaining_runs ss"
  by (simp_all add: excused_server_def budget_defs server_remaining_runs_def)

lemma excused_server_pads:
  assumes "v < n" and "k < 16" and "client_spent cs + 16 * n \<le> length (ss_s_s ss)"
  shows "ss_s_s (excused_server sk cs ss n pads) ! (client_spent cs + 16 * v + k) = pads v k"
proof -
  let ?j = "client_spent cs + 16 * v + k"
  have "(?j - client_spent cs) div 16 = v" "(?j - client_spent cs) mod 16 = k" using assms(2) by simp_all
  moreover have "?j < client_spent cs + 16 * n" using assms(1,2) by simp
  ultimately show ?thesis using assms(3) by (simp add: excused_server_def)
qed

lemma excused_server_run:
  assumes "client_spent cs \<le> j" and "j < client_spent cs + 16 * n"
  obtains v k where "v < n" "k < 16" "j = client_spent cs + 16 * v + k"
proof
  show "(j - client_spent cs) div 16 < n" using assms by (simp add: less_mult_imp_div_less mult.commute)
  show "(j - client_spent cs) mod 16 < 16" by simp
  show "j = client_spent cs + 16 * ((j - client_spent cs) div 16) + (j - client_spent cs) mod 16"
    using assms(1) by (simp add: add.assoc)
qed

lemma wf_excused_server:
  assumes wf: "wf_client cs" "wf_server ss" "wf_key sk" and plain: "ss_voprf ss = None"
    and pads: "\<And>v k. v < n \<Longrightarrow> k < 16 \<Longrightarrow> length (pads v k) = 16"
  shows "wf_server (excused_server sk cs ss n pads)"
proof -
  have "length ps = 16" if ps: "ps \<in> set (ss_s_s (excused_server sk cs ss n pads))" for ps
  proof -
    obtain j where j: "j < length (ss_s_s ss)" and ps: "ps = ss_s_s (excused_server sk cs ss n pads) ! j"
      using ps by (auto simp: in_set_conv_nth)
    show ?thesis
    proof (cases "client_spent cs \<le> j \<and> j < client_spent cs + 16 * n")
      case True
      then have "(j - client_spent cs) div 16 < n" by (elim conjE) (simp add: less_mult_imp_div_less mult.commute)
      with True j pads show ?thesis by (simp add: ps excused_server_def)
    next
      case False
      with j wf(2) show ?thesis by (auto simp: ps excused_server_def wf_server_def)
    qed
  qed
  with wf_server_for [OF wf] plain show ?thesis by (simp add: wf_server_def)
qed

lemma matched_excused_server:
  assumes m: "matched sk' cs ss" and len: "length (ss_s_s ss) = length (cs_r_c cs)"
    and pads: "\<And>v k. v < n \<Longrightarrow> k < 16 \<Longrightarrow> let j = client_spent cs + 16 * v + k in
      pads v k ! unat (rc_b_prime (cs_r_c cs ! j)) = ss_s_s ss ! j ! unat (rc_b_prime (cs_r_c cs ! j))"
  shows "matched sk cs (excused_server sk cs ss n pads)"
proof -
  have "rc_r_prime (cs_r_c cs ! j) = ss_s_s (excused_server sk cs ss n pads) ! j ! unat (rc_b_prime (cs_r_c cs ! j))"
    if j: "j < length (cs_r_c cs)" for j
  proof -
    have own: "rc_r_prime (cs_r_c cs ! j) = ss_s_s ss ! j ! unat (rc_b_prime (cs_r_c cs ! j))"
      using m j by (simp add: matched_def)
    show ?thesis
    proof (cases "client_spent cs \<le> j \<and> j < client_spent cs + 16 * n")
      case True
      then obtain v k where "v < n" "k < 16" "j = client_spent cs + 16 * v + k"
        using excused_server_run by blast
      with pads [of v k] True own j len show ?thesis by (simp add: excused_server_def Let_def)
    next
      case False
      with own j len show ?thesis by (auto simp: excused_server_def)
    qed
  qed
  with matched_server_for [OF m, of sk] show ?thesis by (simp add: matched_def)
qed

lemma evaluate_rows_same:
  assumes "wf_key sk" and "wf_key sk'" and "evaluate xof sk' tag x = evaluate xof sk tag x" and "k < 16"
  shows "evaluate_single_row sk' (matrix_rows (hash_to_zq_matrix xof tag x) ! k)
    = evaluate_single_row sk (matrix_rows (hash_to_zq_matrix xof tag x) ! k)"
  using evaluate_row [OF assms(1), of xof tag x] evaluate_row [OF assms(2), of xof tag x] assms(3,4)
  by (fastforce simp: OUTPUT_ELEMENTS_def mrow_def)

lemma blind_eval_acceptable:
  assumes "blind_eval cr ss sk req = (ss1, Ok rep)"
  shows "acceptable ss req"
  using blind_eval_refuses [of ss req cr sk] assms by (rule_tac ccontr) auto

text \<open>Two servers that give every row the same response give the same message.\<close>

lemma responses_unique:
  assumes "length reps = n" and "length reps' = n"
    and "\<And>v k. v < n \<Longrightarrow> k < 16 \<Longrightarrow> reps ! v ! k = reps' ! v ! k"
    and "\<And>v. v < n \<Longrightarrow> length (reps ! v) = 16 \<and> length (reps' ! v) = 16"
  shows "reps = reps'"
  using assms by (intro nth_equalityI) simp_all

text \<open>The evaluations of a request that was answered, with their answers.\<close>

lemma answered_request:
  fixes cr :: "('c, 'proof, 'pe, 've) crypto"
  assumes wf: "wf_client cs" "wf_server ss" "wf_key sk" and m: "matched sk cs ss" and plain: "ss_voprf ss = None"
    and run: "request_batch (cr_xof cr) cs tag xs = (cs1, Ok (req, fin))" and answer: "blind_eval cr ss sk req = (ss1, Ok rep)"
  obtains rss fss reps sums where "chunks_exact 16 (req_rows req) = rss" "length rss = length xs" "wf_request req"
    "client_spent cs + 16 * length xs \<le> length (cs_r_c cs)"
    "\<And>v. v < length xs \<Longrightarrow> request_block_ok (cr_xof cr) cs (client_spent cs + 16 * v)
       (hash_to_zq_matrix (cr_xof cr) tag (xs ! v)) (rss ! v) (fss ! v)"
    "rep = \<lparr> rep_uid = ss_uid ss, rep_rows = concat reps, rep_proofs = [] \<rparr>" "length reps = length xs"
    "\<And>v. v < length xs \<Longrightarrow> response_block_ok (cr_xof cr) ss sk (client_spent cs + 16 * v) (rss ! v) (reps ! v) (sums ! v)"
proof -
  let ?n = "length xs" and ?xof = "cr_xof cr"
  note conds = request_batch_conditions [OF run]
  obtain rss fss where req: "req = \<lparr> req_uid = cs_uid cs, req_tag = tag, req_rows = concat rss \<rparr>" "length rss = ?n" "length fss = ?n"
    and rows: "\<And>v. v < ?n \<Longrightarrow> request_block_ok ?xof cs (client_spent cs + 16 * v)
       (hash_to_zq_matrix ?xof tag (xs ! v)) (rss ! v) (fss ! v)"
    by (rule request_batch_OkD [OF run wf(1)]) auto
  have ok: "client_spent cs + 16 * ?n \<le> client_total cs"
    using conds(2,4) wf_client_spent [OF wf(1)] by (auto simp: client_remaining)
  have "length r = 16 \<and> (\<forall>rq \<in> set r. wf_row_request rq)" if r: "r \<in> set rss" for r
  proof -
    obtain v where "v < ?n" "r = rss ! v" using r req(2) by (auto simp: in_set_conv_nth)
    with request_block_wf [OF rows] show ?thesis by blast
  qed
  then have chunks: "chunks_exact 16 (req_rows req) = rss" and wfr: "wf_request req"
    by (auto simp: req(1) chunks_exact_concat wf_request_def wf_row_request_def)
  have spent: "server_spent ss = client_spent cs" using m by (simp add: matched_def budget_defs)
  have fits: "client_spent cs + 16 * ?n \<le> length (cs_r_c cs)" using ok by (simp add: wf_client_total [OF wf(1)])
  obtain reps sums where reps: "rep = \<lparr> rep_uid = ss_uid ss, rep_rows = concat reps, rep_proofs = [] \<rparr>" "length reps = ?n"
    and blocks: "\<And>v. v < ?n \<Longrightarrow> response_block_ok ?xof ss sk (client_spent cs + 16 * v) (rss ! v) (reps ! v) (sums ! v)"
    using blind_eval_answers [OF wf(2,3) plain blind_eval_acceptable [OF answer] wfr, of cr] answer unfolding chunks spent req(2)
    by (metis prod.inject res.inject(1))
  show ?thesis by (rule that [OF chunks req(2) wfr fits rows reps blocks])
qed

text \<open>Pads under which the other key's server sends row \<open>k\<close> of the answer to evaluation \<open>v\<close>, and their entry at
  the client's choice is what the client has.\<close>

abbreviation pads_excuse ::
  "xof \<Rightarrow> secret_key \<Rightarrow> 'c client_state \<Rightarrow> server_state \<Rightarrow> row_request list list \<Rightarrow> row_response list list
     \<Rightarrow> nat \<Rightarrow> nat \<Rightarrow> zp list \<Rightarrow> zq \<Rightarrow> bool" where
  "pads_excuse xof sk' cs ss rss reps v k pads t' \<equiv> length pads = 16 \<and>
    pads ! unat (rc_b_prime (cs_r_c cs ! (client_spent cs + 16 * v + k)))
      = ss_s_s ss ! (client_spent cs + 16 * v + k) ! unat (rc_b_prime (cs_r_c cs ! (client_spent cs + 16 * v + k))) \<and>
    r_sigma_sum sk' (map (\<lambda>i. expand xof (rs_ot_block (ss_r_s (server_for sk' cs ss) ! i)) (client_spent cs + 16 * v) ! k)
      [0..<par_N]) = Some t' \<and>
    respond (a_sigma_sum sk' t' (row_e (rss ! v ! k))) pads (row_b_bar_prime (rss ! v ! k)) = Some (resp_y (reps ! v ! k))"

text \<open>With such pads the other server sends the same answer.\<close>

lemma excused_answer:
  fixes cr :: "('c, 'proof, 'pe, 've) crypto"
  assumes wf: "wf_server ss'" "wf_key sk'" and plain: "ss_voprf ss' = None" and acc: "acceptable ss' req" "wf_request req"
    and chunks: "chunks_exact 16 (req_rows req) = rss" "length rss = n" and lens: "length reps = n"
    and sixteen: "\<And>v. v < n \<Longrightarrow> length (reps ! v) = 16"
    and rows: "\<And>v k. v < n \<Longrightarrow> k < 16 \<Longrightarrow> \<exists>t'. resp_ctr (reps ! v ! k) = server_spent ss' + 16 * v + k \<and>
       r_sigma_sum sk' (map (\<lambda>i. expand (cr_xof cr) (rs_ot_block (ss_r_s ss' ! i)) (server_spent ss' + 16 * v) ! k) [0..<par_N]) = Some t' \<and>
       respond (a_sigma_sum sk' t' (row_e (rss ! v ! k))) (ss_s_s ss' ! (server_spent ss' + 16 * v + k)) (row_b_bar_prime (rss ! v ! k))
         = Some (resp_y (reps ! v ! k))"
  shows "blind_eval cr ss' sk' req = (server_spend (length (req_rows req)) ss',
    Ok \<lparr> rep_uid = ss_uid ss', rep_rows = concat reps, rep_proofs = [] \<rparr>)"
proof -
  obtain reps' sums' where reps': "blind_eval cr ss' sk' req = (server_spend (length (req_rows req)) ss',
       Ok \<lparr> rep_uid = ss_uid ss', rep_rows = concat reps', rep_proofs = [] \<rparr>)" "length reps' = n"
    and blocks': "\<And>v. v < n \<Longrightarrow> response_block_ok (cr_xof cr) ss' sk' (server_spent ss' + 16 * v) (rss ! v) (reps' ! v) (sums' ! v)"
    using blind_eval_answers [OF wf plain acc, of cr] unfolding chunks by metis
  have "reps' = reps"
  proof (rule responses_unique [OF reps'(2) lens])
    show "length (reps' ! v) = 16 \<and> length (reps ! v) = 16" if "v < n" for v
      using sixteen [OF that] blocks' [OF that] by (simp add: response_block_ok_def)
    show "reps' ! v ! k = reps ! v ! k" if v: "v < n" and k: "k < 16" for v k
    proof -
      have "response_row_ok (cr_xof cr) ss' sk' (server_spent ss' + 16 * v) k (rss ! v ! k) (reps' ! v ! k) (sums' ! v ! k)"
        using blocks' [OF v] k by (simp add: response_block_ok_def)
      with rows [OF v k] show ?thesis by (auto simp: response_row_ok_def)
    qed
  qed
  with reps'(1) show ?thesis by simp
qed

lemma response_excused:
  fixes cr :: "('c, 'proof, 'pe, 've) crypto"
  assumes wf: "wf_client cs" "wf_server ss" "wf_key sk" "wf_key sk'" and m: "matched sk cs ss" and plain: "ss_voprf ss = None"
    and run: "request_batch (cr_xof cr) cs tag xs = (cs1, Ok (req, fin))" and answer: "blind_eval cr ss sk req = (ss1, Ok rep)"
    and same: "\<And>x. x \<in> set xs \<Longrightarrow> evaluate (cr_xof cr) sk' tag x = evaluate (cr_xof cr) sk tag x"
  obtains ss' ss1' where "wf_server ss'" "matched sk' cs ss'" "ss_voprf ss' = None"
    "blind_eval cr ss' sk' req = (ss1', Ok rep)"
proof -
  let ?n = "length xs" and ?xof = "cr_xof cr"
  obtain rss fss reps sums where chunks: "chunks_exact 16 (req_rows req) = rss" "length rss = ?n" and wfr: "wf_request req"
    and fits: "client_spent cs + 16 * ?n \<le> length (cs_r_c cs)"
    and rows: "\<And>v. v < ?n \<Longrightarrow> request_block_ok ?xof cs (client_spent cs + 16 * v) (hash_to_zq_matrix ?xof tag (xs ! v)) (rss ! v) (fss ! v)"
    and reps: "rep = \<lparr> rep_uid = ss_uid ss, rep_rows = concat reps, rep_proofs = [] \<rparr>" "length reps = ?n"
    and blocks: "\<And>v. v < ?n \<Longrightarrow> response_block_ok ?xof ss sk (client_spent cs + 16 * v) (rss ! v) (reps ! v) (sums ! v)"
    by (rule answered_request [OF wf(1-3) m plain run answer]) (rule that)
  have tau: "length (ss_s_s ss) = length (cs_r_c cs)"
    using wf_client_total [OF wf(1)] wf_server_total [OF wf(2)] m by (simp add: matched_def budget_defs)
  have "\<exists>pads t'. pads_excuse ?xof sk' cs ss rss reps v k pads t'" if v: "v < ?n" and k: "k < 16" for v k
  proof -
    have inside: "client_spent cs + 16 * v + 16 \<le> length (cs_r_c cs)" using v fits by simp
    obtain pads t' where "pads_excuse ?xof sk' cs ss rss reps v k pads t'"
    proof (rule excused_response_row [OF m wf(2,1,3,4) wf_hash [of ?xof tag "xs ! v"] k inside])
      show "client_spent cs + 16 * v + 16 \<le> length (ss_s_s ss)" using inside tau by simp
      show "request_row_ok ?xof cs (client_spent cs + 16 * v) (hash_to_zq_matrix ?xof tag (xs ! v)) k (rss ! v ! k) (fss ! v ! k)"
        using rows [OF v] k by (simp add: request_block_ok_def)
      show "response_row_ok ?xof ss sk (client_spent cs + 16 * v) k (rss ! v ! k) (reps ! v ! k) (sums ! v ! k)"
        using blocks [OF v] k by (simp add: response_block_ok_def)
      show "evaluate_single_row sk' (matrix_rows (hash_to_zq_matrix ?xof tag (xs ! v)) ! k)
          = evaluate_single_row sk (matrix_rows (hash_to_zq_matrix ?xof tag (xs ! v)) ! k)"
        by (rule evaluate_rows_same [OF wf(3,4) same k]) (use v in simp)
    qed blast
    then show ?thesis by blast
  qed
  then obtain P where P: "\<And>v k. v < ?n \<Longrightarrow> k < 16 \<Longrightarrow> \<exists>t'. pads_excuse ?xof sk' cs ss rss reps v k (P v k) t'" by metis
  let ?ss = "excused_server sk' cs ss ?n P"
  have wf': "wf_server ?ss"
    by (rule wf_excused_server [OF wf(1,2,4) plain]) (use P in blast)
  have m': "matched sk' cs ?ss"
    by (rule matched_excused_server [OF m tau]) (use P in \<open>unfold Let_def, blast\<close>)
  have spent: "server_spent ?ss = client_spent cs" using m' by (simp add: matched_def budget_defs)
  have acc': "acceptable ?ss req" using blind_eval_acceptable [OF answer] by (simp add: acceptable_def)
  have "blind_eval cr ?ss sk' req = (server_spend (length (req_rows req)) ?ss,
    Ok \<lparr> rep_uid = ss_uid ?ss, rep_rows = concat reps, rep_proofs = [] \<rparr>)"
  proof (rule excused_answer [OF wf' wf(4) _ acc' wfr chunks reps(2)], unfold spent, goal_cases)
    case 1
    show ?case using plain by simp
  next
    case (2 v)
    then show ?case using blocks [of v] by (simp add: response_block_ok_def)
  next
    case (3 v k)
    have "ss_s_s ?ss ! (client_spent cs + 16 * v + k) = P v k"
      by (rule excused_server_pads [OF 3]) (use fits tau in simp)
    with P [OF 3] blocks [OF 3(1)] 3(2) show ?case by (auto simp: response_block_ok_def response_row_ok_def)
  qed
  with reps(1) show ?thesis using that [OF wf' m'] plain by simp
qed

end
