(* ===== verification/ObliviousProperties.thy ===== *)
theory ObliviousProperties
  imports Oblivious Examples
begin

text \<open>What each side of the online phase keeps from the other, with a witness for each property.\<close>

text \<open>
  C5: a request hides the inputs. Whatever inputs a client asked for, for any other inputs of the same
  number there are masks of the blocks that the server does not have, and choices of pads, with which
  the request for those is the same message, byte for byte, and the client still matches the server:
  everything the server holds and every hash that it can compute is unchanged. So nothing the server
  sees tells which inputs they were, as long as the streams of the blocks it did not receive are
  random. It rests on those blocks being different from each other and from the server's. In a VOPRF the
  server has commitments to the masks besides, whose hiding is not modelled.
\<close>

theorem request_hides_inputs:
  assumes "wf_client cs" and "wf_server ss" and "wf_key sk" and "matched sk cs ss" and "fresh_blocks ss cs"
    and "request_batch xof cs tag xs = (cs1, Ok (req, fin))" and "length xs' = length xs"
  shows "\<exists>xof' cs' cs1' fin'. same_for_server ss cs xof xof' \<and> wf_client cs' \<and> matched sk cs' ss \<and>
    cs' = cs\<lparr> cs_r_c := cs_r_c cs' \<rparr> \<and> request_batch xof' cs' tag xs' = (cs1', Ok (req, fin'))"
  using request_excused [OF assms(1,4,2,3,5-7)] by metis

definition ex_fresh_client :: "ex_commitment client_state" where
  "ex_fresh_client = (ex_client False)\<lparr> cs_ot_blocks :=
     map (\<lambda>i. (ex_block, 1 # of_nat (i mod 256) # of_nat (i div 256) # replicate 13 0)) [0..<par_N] \<rparr>"

lemma ex_fresh:
  "wf_client ex_fresh_client" "matched ex_sk ex_fresh_client (ex_server False)" "fresh_blocks (ex_server False) ex_fresh_client"
proof -
  show "wf_client ex_fresh_client"
    using ex_wf_client [of ex_crypto False] by (simp add: wf_client_def ex_fresh_client_def client_for_def)
  show "matched ex_sk ex_fresh_client (ex_server False)"
    using ex_matched [of ex_crypto False] by (simp add: matched_def ex_fresh_client_def ex_server_def Let_def)
  have unknown: "unknown_block (ex_server False) ex_fresh_client i = 1 # of_nat (i mod 256) # of_nat (i div 256) # replicate 13 0"
    if "i < par_N" for i
    using that by (simp add: unknown_block_def ex_server_def ex_fresh_client_def)
  have "i = j" if "i < par_N" "j < par_N" "unknown_block (ex_server False) ex_fresh_client i = unknown_block (ex_server False) ex_fresh_client j" for i j
  proof -
    have small: "n div 256 < 256" if "n < par_N" for n using that par_N_le by simp
    have "(of_nat (i mod 256) :: u8) = of_nat (j mod 256)" "(of_nat (i div 256) :: u8) = of_nat (j div 256)"
      using that(3) unfolding unknown [OF that(1)] unknown [OF that(2)] by simp_all
    then have "i mod 256 = j mod 256" "i div 256 = j div 256"
      using small [OF that(1)] small [OF that(2)] by (simp_all add: word_unat_eq_iff unat_of_nat)
    then show ?thesis by (metis div_mult_mod_eq)
  qed
  moreover have "ex_block \<noteq> unknown_block (ex_server False) ex_fresh_client i" if "i < par_N" for i
  proof
    assume "ex_block = unknown_block (ex_server False) ex_fresh_client i"
    from arg_cong [OF this, of hd] show False unfolding unknown [OF that] by (simp add: ex_block_def)
  qed
  ultimately show "fresh_blocks (ex_server False) ex_fresh_client"
    by (auto simp: fresh_blocks_def inj_on_def unknown_blocks_def ex_server_def)
qed

lemma ex_fresh_request:
  obtains cs1 req fin where "request_batch (\<lambda>ctx msg i. 0) ex_fresh_client [1] [[2]] = (cs1, Ok (req, fin))"
  using request_batch_Ok [OF ex_fresh(1), of "[1]" "[[2]]" "\<lambda>ctx msg i. 0"]
  by (fastforce simp: MAX_TAG_LEN_def max_batch_def MAX_BATCH_EVALUATIONS_def ex_fresh_client_def client_for_def
      client_remaining_runs_def runs_remaining_def runs_new_def)

lemma request_hides_inputs_witness:
  "\<exists>req xof' cs' cs1' fin'. same_for_server (ex_server False) ex_fresh_client (\<lambda>ctx msg i. 0) xof' \<and> wf_client cs' \<and>
     matched ex_sk cs' (ex_server False) \<and> cs' = ex_fresh_client\<lparr> cs_r_c := cs_r_c cs' \<rparr> \<and>
     request_batch xof' cs' [1] [[3, 4]] = (cs1', Ok (req, fin'))"
proof -
  obtain cs1 req fin where "request_batch (\<lambda>ctx msg i. 0) ex_fresh_client [1] [[2]] = (cs1, Ok (req, fin))"
    by (rule ex_fresh_request)
  from request_hides_inputs [OF ex_fresh(1) ex_wf_server ex_wf_sk ex_fresh(2,3) this, of "[[3, 4]]"] show ?thesis
    by (intro exI [of _ req]) simp
qed

text \<open>
  C6: without a VOPRF, a response hides the key. Whatever the server's key is, for any other key that gives
  the inputs of the client the same outputs there is a server that matches the very state the client has,
  masked key bits included, and answers the client's request with the same message, byte for byte. So a
  client that follows the protocol learns no more of the key than the outputs it asked for.
\<close>

theorem response_hides_key:
  assumes "wf_client cs" and "wf_server ss" and "wf_key sk" and "wf_key sk'" and "matched sk cs ss" and "ss_voprf ss = None"
    and "request_batch (cr_xof cr) cs tag xs = (cs1, Ok (req, fin))" and "blind_eval cr ss sk req = (ss1, Ok rep)"
    and "\<forall>x \<in> set xs. evaluate (cr_xof cr) sk' tag x = evaluate (cr_xof cr) sk tag x"
  shows "\<exists>ss' ss1'. wf_server ss' \<and> matched sk' cs ss' \<and> ss_voprf ss' = None \<and> blind_eval cr ss' sk' req = (ss1', Ok rep)"
  using response_excused [OF assms(1-8)] assms(9) by blast

text \<open>On a stream of zeros every key has the same outputs.\<close>

lemma ex_other_key: "wf_key (SecretKey (replicate par_N 0))"
  by (simp add: wf_key_def)

lemma ex_zero_matrix:
  "hash_to_zq_matrix (\<lambda>ctx msg i. 0) tag x = ZqMatrix (replicate 16 (ZqVector (replicate par_N 0)))"
proof -
  have buf: "map (\<lambda>i. 0 :: u8) [0..<H_ROWS * par_N * 2] ! k = 0" if "k < H_ROWS * par_N * 2" for k
    using that by simp
  have inside: "row * par_N * 2 + (2 * i + 1) < H_ROWS * par_N * 2" if "row < 16" "i < par_N" for row i
    using that by (simp add: par_N_def)
  then have "row * par_N * 2 + 2 * i < H_ROWS * par_N * 2" if "row < 16" "i < par_N" for row i
    using that by (metis add_lessD1 add.assoc)
  with inside have entry: "map (\<lambda>i. 0 :: u8) [0..<H_ROWS * par_N * 2] ! (row * par_N * 2 + 2 * i) = 0"
    "map (\<lambda>i. 0 :: u8) [0..<H_ROWS * par_N * 2] ! (row * par_N * 2 + 2 * i + 1) = 0" if "row < 16" "i < par_N" for row i
    using buf that by (simp_all only: add.assoc)
  have "map (\<lambda>row. ZqVector (map (\<lambda>i. reduce_q (ucast
       (ucast (map (\<lambda>i. 0 :: u8) [0..<H_ROWS * par_N * 2] ! (row * par_N * 2 + 2 * i)) OR
        push_bit 8 (ucast (map (\<lambda>i. 0 :: u8) [0..<H_ROWS * par_N * 2] ! (row * par_N * 2 + 2 * i + 1)) :: zq)))) [0..<par_N]))
      [0..<16] = map (\<lambda>row. ZqVector (map (\<lambda>i. 0) [0..<par_N])) [0..<16]"
    by (intro map_cong refl arg_cong [where f = ZqVector]) (simp only: entry set_upt atLeastLessThan_iff, simp add: word_unat_eq_iff unat_reduce_q)
  then show ?thesis
    by (simp add: hash_to_zq_matrix_def Let_def map_replicate_const del: upt_Suc)
qed

lemma ex_evaluate:
  assumes "wf_key sk" and "wf_key sk'"
  shows "evaluate (\<lambda>ctx msg i. 0) sk' tag x = evaluate (\<lambda>ctx msg i. 0) sk tag x"
proof -
  let ?v = "ZqVector (replicate par_N 0)"
  have wfv: "wf_vector ?v" by (simp add: wf_vector_def less_par_Q)
  have "dot (as_slice ?v) (as_bits k) = 0" if "wf_key k" for k
    using that by (simp add: dot_sum wf_key_def)
  with unat_evaluate_single_row [OF wfv assms(1)] unat_evaluate_single_row [OF wfv assms(2)] assms
  have "evaluate_single_row sk ?v = evaluate_single_row sk' ?v" by (auto simp: word_unat_eq_iff)
  then have "mrow (ZqMatrix (replicate 16 ?v)) r \<bind> evaluate_single_row sk
      = mrow (ZqMatrix (replicate 16 ?v)) r \<bind> evaluate_single_row sk'" for r
    by (cases "r < 16") (simp_all add: mrow_def)
  then show ?thesis unfolding evaluate_def ex_zero_matrix evaluate_with_matrix_def by simp
qed

lemma response_hides_key_witness:
  "\<exists>req rep ss' ss1'. wf_server ss' \<and> matched (SecretKey (replicate par_N 0)) ex_fresh_client ss' \<and> ss_voprf ss' = None \<and>
     blind_eval ex_crypto ss' (SecretKey (replicate par_N 0)) req = (ss1', Ok rep)"
proof -
  have "\<exists>req fin rep outs.
      request_batch (cr_xof ex_crypto) ex_fresh_client [1] [[2]] = (client_spend (16 * length [[2 :: u8]]) ex_fresh_client, Ok (req, fin))
    \<and> blind_eval ex_crypto (ex_server False) ex_sk req = (server_spend (16 * length [[2 :: u8]]) (ex_server False), Ok rep)
    \<and> finalize_batch ex_crypto fin rep = Ok outs \<and> map (evaluate (cr_xof ex_crypto) ex_sk [1]) [[2]] = map Some outs"
  proof (rule oprf_run [OF ex_fresh(1) ex_wf_server ex_wf_sk ex_pads ex_fresh(2) _ ex_complete_online])
    show "matched_voprf ex_crypto ex_sk ex_fresh_client (ex_server False)"
      by (simp add: matched_voprf_def ex_fresh_client_def client_for_def ex_server_def)
    show "16 * length [[2 :: u8]] \<le> client_remaining_runs ex_fresh_client"
      by (simp add: ex_fresh_client_def client_for_def client_remaining_runs_def runs_remaining_def runs_new_def)
  qed (simp_all add: MAX_TAG_LEN_def max_batch_def MAX_BATCH_EVALUATIONS_def MAX_VOPRF_BATCH_EVALUATIONS_def)
  then obtain cs1 req fin ss1 rep where
    run: "request_batch (cr_xof ex_crypto) ex_fresh_client [1] [[2]] = (cs1, Ok (req, fin))"
    "blind_eval ex_crypto (ex_server False) ex_sk req = (ss1, Ok rep)" by blast
  have "ss_voprf (ex_server False) = None" by (simp add: ex_server_def)
  moreover have "\<forall>x \<in> set [[2]]. evaluate (cr_xof ex_crypto) (SecretKey (replicate par_N 0)) [1] x = evaluate (cr_xof ex_crypto) ex_sk [1] x"
    by (simp add: ex_xof ex_evaluate [OF ex_wf_sk ex_other_key])
  ultimately show ?thesis
    using response_hides_key [OF ex_fresh(1) ex_wf_server ex_wf_sk ex_other_key ex_fresh(2) _ run] by blast
qed

end
