(* ===== verification/Process.thy ===== *)
theory Process
  imports Voprf
begin

text \<open>
  Interactive code as processes. An \<open>async fn\<close> over a connection is a tree of the calls it awaits:
  opening a stream, sending or receiving a message, one side of the binary random OTs. \<open>after\<close> runs a
  process on the events of one execution, whatever the peer does; \<open>net_step\<close> runs two processes
  against each other over first-in first-out streams, in any order.
\<close>

section \<open>Processes\<close>

text \<open>The streams of a connection. Of the preprocessing: the control stream, the request-response
  stream of a VOPRF (masks commitments up, pads commitments down) and the stream of its proof. Of a
  session: the request-response stream of the online phase. Of a set intersection: its own two
  messages. The OTs have a sub-connection each.\<close>

datatype chan = Control | VoprfChan | ProofChan | OnlineChan | PsiChan
datatype ot_conn = BinaryOt | DeltaOt

text \<open>What \<open>next().await\<close> yields: the end of the stream, an error of the codec, a message.\<close>

datatype 'm incoming = Closed | Broken | Msg 'm

datatype ('m, 'r) proc =
    Ret 'r
  | Open chan "bool \<Rightarrow> ('m, 'r) proc"
  | Send chan 'm "bool \<Rightarrow> ('m, 'r) proc"
  | Recv chan "'m incoming \<Rightarrow> ('m, 'r) proc"
  | OtSend ot_conn nat "(block \<times> block) list option \<Rightarrow> ('m, 'r) proc"
  | OtRecv ot_conn nat "(block list \<times> bool list) option \<Rightarrow> ('m, 'r) proc"

primrec proc_bind :: "('m, 'r) proc \<Rightarrow> ('r \<Rightarrow> ('m, 's) proc) \<Rightarrow> ('m, 's) proc" where
  "proc_bind (Ret r) f = f r"
| "proc_bind (Open ch k) f = Open ch (\<lambda>b. proc_bind (k b) f)"
| "proc_bind (Send ch m k) f = Send ch m (\<lambda>b. proc_bind (k b) f)"
| "proc_bind (Recv ch k) f = Recv ch (\<lambda>i. proc_bind (k i) f)"
| "proc_bind (OtSend c n k) f = OtSend c n (\<lambda>x. proc_bind (k x) f)"
| "proc_bind (OtRecv c n k) f = OtRecv c n (\<lambda>x. proc_bind (k x) f)"

text \<open>The operator \<open>?\<close>: an error or a panic ends the process.\<close>

definition attempt ::
  "('m, ('e, 'a) res) proc \<Rightarrow> ('a \<Rightarrow> ('m, ('e, 'b) res) proc) \<Rightarrow> ('m, ('e, 'b) res) proc" where
  "attempt p f = proc_bind p (\<lambda>r. case r of Ok a \<Rightarrow> f a | Err e \<Rightarrow> Ret (Err e) | Panic \<Rightarrow> Ret Panic)"

lemma attempt_Ret [simp]:
  "attempt (Ret (Ok a)) f = f a"
  "attempt (Ret (Err e)) f = Ret (Err e)"
  "attempt (Ret Panic) f = Ret Panic"
  by (simp_all add: attempt_def)

lemma attempt_step [simp]:
  "attempt (Open ch k1) f = Open ch (\<lambda>b. attempt (k1 b) f)"
  "attempt (Send ch m k2) f = Send ch m (\<lambda>b. attempt (k2 b) f)"
  "attempt (Recv ch k3) f = Recv ch (\<lambda>i. attempt (k3 i) f)"
  "attempt (OtSend c n k4) f = OtSend c n (\<lambda>x. attempt (k4 x) f)"
  "attempt (OtRecv c n k5) f = OtRecv c n (\<lambda>x. attempt (k5 x) f)"
  by (simp_all add: attempt_def)

text \<open>\<open>?\<close> into another error type, through \<open>From\<close>.\<close>

definition attempt_as ::
  "('e \<Rightarrow> 'd) \<Rightarrow> ('m, ('e, 'a) res) proc \<Rightarrow> ('a \<Rightarrow> ('m, ('d, 'b) res) proc) \<Rightarrow> ('m, ('d, 'b) res) proc" where
  "attempt_as g p f =
     proc_bind p (\<lambda>r. case r of Ok a \<Rightarrow> f a | Err e \<Rightarrow> Ret (Err (g e)) | Panic \<Rightarrow> Ret Panic)"

text \<open>Opening a stream, sending on it, and \<open>next().await.ok_or(closed)??\<close> on it.\<close>

definition open_stream :: "'e \<Rightarrow> chan \<Rightarrow> ('m, ('e, unit) res) proc" where
  "open_stream e ch = Open ch (\<lambda>ok. Ret (if ok then Ok () else Err e))"

definition send_msg :: "'e \<Rightarrow> chan \<Rightarrow> 'm \<Rightarrow> ('m, ('e, unit) res) proc" where
  "send_msg e ch m = Send ch m (\<lambda>ok. Ret (if ok then Ok () else Err e))"

definition recv_msg :: "'e \<Rightarrow> 'e \<Rightarrow> ('m \<Rightarrow> 'a option) \<Rightarrow> chan \<Rightarrow> ('m, ('e, 'a) res) proc" where
  "recv_msg closed broken decode ch = Recv ch (\<lambda>i. case i of
       Closed \<Rightarrow> Ret (Err closed)
     | Broken \<Rightarrow> Ret (Err broken)
     | Msg m \<Rightarrow> Ret (ok_or broken (decode m)))"

section \<open>One process against any peer\<close>

datatype 'm event =
    EOpen chan bool
  | ESend chan 'm bool
  | ERecv chan "'m incoming"
  | EOtSend ot_conn nat "(block \<times> block) list option"
  | EOtRecv ot_conn nat "(block list \<times> bool list) option"

fun react :: "('m, 'r) proc \<Rightarrow> 'm event \<Rightarrow> ('m, 'r) proc option" where
  "react (Open ch k) (EOpen ch' b) = (if ch = ch' then Some (k b) else None)"
| "react (Send ch m k) (ESend ch' m' b) = (if ch = ch' \<and> m = m' then Some (k b) else None)"
| "react (Recv ch k) (ERecv ch' i) = (if ch = ch' then Some (k i) else None)"
| "react (OtSend c n k) (EOtSend c' n' r) = (if c = c' \<and> n = n' then Some (k r) else None)"
| "react (OtRecv c n k) (EOtRecv c' n' r) = (if c = c' \<and> n = n' then Some (k r) else None)"
| "react p e = None"

fun after :: "('m, 'r) proc \<Rightarrow> 'm event list \<Rightarrow> ('m, 'r) proc option" where
  "after p [] = Some p"
| "after p (e # es) = (case react p e of None \<Rightarrow> None | Some p' \<Rightarrow> after p' es)"

lemma react_bind:
  "(\<And>r. p \<noteq> Ret r) \<Longrightarrow> react (proc_bind p f) e = map_option (\<lambda>p'. proc_bind p' f) (react p e)"
  by (cases p; cases e) auto

lemma proc_bind_eq_Ret: "proc_bind p f = Ret r \<Longrightarrow> \<exists>x. p = Ret x"
  by (cases p) simp_all

lemma after_Ret: "after (Ret x) es = Some q \<Longrightarrow> q = Ret x"
  by (cases es) simp_all

lemma after_here: "p = q \<Longrightarrow> after p [] = Some q"
  by simp

lemma after_append: "after p (es @ es') = (case after p es of None \<Rightarrow> None | Some p' \<Rightarrow> after p' es')"
  by (induction es arbitrary: p) (auto split: option.splits)

text \<open>A completed run of a sequence is a completed run of each part.\<close>

lemma after_bind_RetD:
  assumes "after (proc_bind p f) es = Some (Ret r)"
  shows "\<exists>es1 es2 a. es = es1 @ es2 \<and> after p es1 = Some (Ret a) \<and> after (f a) es2 = Some (Ret r)"
  using assms
proof (induction es arbitrary: p)
  case Nil
  from Nil have eq: "proc_bind p f = Ret r" by simp
  obtain x where x: "p = Ret x" using proc_bind_eq_Ret [OF eq] by (elim exE)
  show ?case
  proof (intro exI conjI)
    show "[] = [] @ []" by (rule append_Nil [symmetric])
    show "after p [] = Some (Ret x)" using x by simp
    show "after (f x) [] = Some (Ret r)" using Nil x by simp
  qed
next
  case (Cons e es)
  show ?case
  proof (cases "\<exists>x. p = Ret x")
    case True
    then obtain x where x: "p = Ret x" ..
    show ?thesis
    proof (intro exI conjI)
      show "e # es = [] @ e # es" by (rule append_Nil [symmetric])
      show "after p [] = Some (Ret x)" using x by (rule after_here)
      show "after (f x) (e # es) = Some (Ret r)" using Cons.prems x by (simp only: proc_bind.simps)
    qed
  next
    case False
    with Cons.prems obtain p' where p': "react p e = Some p'" "after (proc_bind p' f) es = Some (Ret r)"
      by (auto simp: react_bind split: option.splits)
    from Cons.IH [OF p'(2)] obtain es1 es2 a where
      "es = es1 @ es2" "after p' es1 = Some (Ret a)" "after (f a) es2 = Some (Ret r)" by blast
    with p'(1) have "e # es = (e # es1) @ es2" "after p (e # es1) = Some (Ret a)" by simp_all
    with \<open>after (f a) es2 = Some (Ret r)\<close> show ?thesis by blast
  qed
qed

lemma after_attempt_OkD:
  assumes "after (attempt p f) es = Some (Ret (Ok b))"
  shows "\<exists>es1 es2 a. es = es1 @ es2 \<and> after p es1 = Some (Ret (Ok a)) \<and> after (f a) es2 = Some (Ret (Ok b))"
proof -
  from after_bind_RetD [OF assms [unfolded attempt_def]] obtain es1 es2 r where
    es: "es = es1 @ es2" "after p es1 = Some (Ret r)"
    and rest: "after (case r of Ok a \<Rightarrow> f a | Err e \<Rightarrow> Ret (Err e) | Panic \<Rightarrow> Ret Panic) es2 = Some (Ret (Ok b))"
    by blast
  show ?thesis
  proof (cases r)
    case (Ok a)
    with es rest show ?thesis by auto
  qed (use rest in \<open>auto dest: after_Ret\<close>)
qed

section \<open>Two processes over first-in first-out streams\<close>

text \<open>
  A network holds the two processes and, per stream, the messages in flight in each direction. A
  peer that has returned has closed its streams, and what it sent before is still received. The
  OTs are ideal: both sides meet and get the outcome \<open>ot\<close> fixes for the connection, and they fail
  when the peer has returned.
\<close>

record ('m, 'r, 's) net =
  net_client :: "('m, 'r) proc"
  net_server :: "('m, 's) proc"
  net_up :: "chan \<Rightarrow> 'm list"
  net_down :: "chan \<Rightarrow> 'm list"

type_synonym ot_outcome = "ot_conn \<Rightarrow> (block \<times> block) list \<times> block list \<times> bool list"

definition client_move :: "('m, 'r, 's) net \<Rightarrow> ('m, 'r, 's) net option" where
  "client_move n = (case net_client n of
       Open ch k \<Rightarrow> Some (n\<lparr> net_client := k True \<rparr>)
     | Send ch m k \<Rightarrow>
         Some (n\<lparr> net_client := k True, net_up := (net_up n)(ch := net_up n ch @ [m]) \<rparr>)
     | Recv ch k \<Rightarrow> (case net_down n ch of
           m # ms \<Rightarrow> Some (n\<lparr> net_client := k (Msg m), net_down := (net_down n)(ch := ms) \<rparr>)
         | [] \<Rightarrow> (case net_server n of Ret s \<Rightarrow> Some (n\<lparr> net_client := k Closed \<rparr>) | _ \<Rightarrow> None))
     | OtSend c i k \<Rightarrow> (case net_server n of Ret s \<Rightarrow> Some (n\<lparr> net_client := k None \<rparr>) | _ \<Rightarrow> None)
     | OtRecv c i k \<Rightarrow> (case net_server n of Ret s \<Rightarrow> Some (n\<lparr> net_client := k None \<rparr>) | _ \<Rightarrow> None)
     | Ret r \<Rightarrow> None)"

definition server_move :: "('m, 'r, 's) net \<Rightarrow> ('m, 'r, 's) net option" where
  "server_move n = (case net_server n of
       Open ch k \<Rightarrow> Some (n\<lparr> net_server := k True \<rparr>)
     | Send ch m k \<Rightarrow>
         Some (n\<lparr> net_server := k True, net_down := (net_down n)(ch := net_down n ch @ [m]) \<rparr>)
     | Recv ch k \<Rightarrow> (case net_up n ch of
           m # ms \<Rightarrow> Some (n\<lparr> net_server := k (Msg m), net_up := (net_up n)(ch := ms) \<rparr>)
         | [] \<Rightarrow> (case net_client n of Ret r \<Rightarrow> Some (n\<lparr> net_server := k Closed \<rparr>) | _ \<Rightarrow> None))
     | OtSend c i k \<Rightarrow> (case net_client n of Ret r \<Rightarrow> Some (n\<lparr> net_server := k None \<rparr>) | _ \<Rightarrow> None)
     | OtRecv c i k \<Rightarrow> (case net_client n of Ret r \<Rightarrow> Some (n\<lparr> net_server := k None \<rparr>) | _ \<Rightarrow> None)
     | Ret s \<Rightarrow> None)"

definition ot_move :: "ot_outcome \<Rightarrow> ('m, 'r, 's) net \<Rightarrow> ('m, 'r, 's) net option" where
  "ot_move ot n = (case (net_client n, net_server n) of
       (OtSend c i kc, OtRecv c' i' ks) \<Rightarrow>
         (if c = c' \<and> i = i'
          then Some (n\<lparr> net_client := kc (Some (fst (ot c))), net_server := ks (Some (snd (ot c))) \<rparr>)
          else None)
     | (OtRecv c i kc, OtSend c' i' ks) \<Rightarrow>
         (if c = c' \<and> i = i'
          then Some (n\<lparr> net_client := kc (Some (snd (ot c))), net_server := ks (Some (fst (ot c))) \<rparr>)
          else None)
     | _ \<Rightarrow> None)"

inductive net_step :: "ot_outcome \<Rightarrow> ('m, 'r, 's) net \<Rightarrow> ('m, 'r, 's) net \<Rightarrow> bool" for ot where
  client: "client_move n = Some n' \<Longrightarrow> net_step ot n n'"
| server: "server_move n = Some n' \<Longrightarrow> net_step ot n n'"
| transfer: "ot_move ot n = Some n' \<Longrightarrow> net_step ot n n'"

inductive_cases net_stepE: "net_step ot n n'"

inductive net_steps :: "ot_outcome \<Rightarrow> nat \<Rightarrow> ('m, 'r, 's) net \<Rightarrow> ('m, 'r, 's) net \<Rightarrow> bool" for ot where
  none: "net_steps ot 0 n n"
| more: "net_step ot n n' \<Longrightarrow> net_steps ot i n' n'' \<Longrightarrow> net_steps ot (Suc i) n n''"

inductive_cases net_steps_SucE: "net_steps ot (Suc i) n n''"
inductive_cases net_steps_0E: "net_steps ot 0 n n''"

text \<open>Steps of the two sides commute: the order of the interleaving does not matter.\<close>

lemma moves_commute:
  assumes "client_move n = Some a" and "server_move n = Some b"
  shows "\<exists>d. server_move a = Some d \<and> client_move b = Some d"
proof -
  obtain c s u d where n: "n = \<lparr> net_client = c, net_server = s, net_up = u, net_down = d \<rparr>"
    by (cases n) simp
  show ?thesis
  proof (cases c)
    case (Open ch k)
    with assms n show ?thesis
      by (cases s; force simp: client_move_def server_move_def split: list.splits)
  next
    case (Send ch m k)
    with assms n show ?thesis
      by (cases s; force simp: client_move_def server_move_def split: list.splits)
  next
    case (Recv ch k)
    with assms n show ?thesis
      by (cases s; force simp: client_move_def server_move_def split: list.splits)
  next
    case (OtSend ch i k)
    with assms n show ?thesis by (cases s) (simp_all add: client_move_def server_move_def)
  next
    case (OtRecv ch i k)
    with assms n show ?thesis by (cases s) (simp_all add: client_move_def server_move_def)
  qed (use assms n in \<open>simp_all add: client_move_def\<close>)
qed

lemma ot_move_alone:
  assumes "ot_move ot n = Some a"
  shows "client_move n = None" and "server_move n = None"
  using assms by (auto simp: ot_move_def client_move_def server_move_def split: proc.splits)

lemma net_diamond:
  assumes "net_step ot n a" and "net_step ot n b" and "a \<noteq> b"
  shows "\<exists>d. net_step ot a d \<and> net_step ot b d"
  using assms(1)
proof (cases rule: net_step.cases)
  case client
  note a = this
  from assms(2) show ?thesis
  proof (cases rule: net_step.cases)
    case client
    with a assms(3) show ?thesis by simp
  next
    case server
    with moves_commute [OF a] show ?thesis by (blast intro: net_step.intros)
  next
    case transfer
    with a ot_move_alone show ?thesis by fastforce
  qed
next
  case server
  note a = this
  from assms(2) show ?thesis
  proof (cases rule: net_step.cases)
    case client
    with moves_commute [OF client a] show ?thesis by (blast intro: net_step.intros)
  next
    case server
    with a assms(3) show ?thesis by simp
  next
    case transfer
    with a ot_move_alone show ?thesis by fastforce
  qed
next
  case transfer
  note a = this
  from assms(2) show ?thesis
    by (cases rule: net_step.cases) (use a ot_move_alone [OF a] assms(3) in simp_all)
qed

definition net_done :: "('m, 'r, 's) net \<Rightarrow> bool" where
  "net_done n \<longleftrightarrow> (\<exists>r s. net_client n = Ret r \<and> net_server n = Ret s)"

lemma net_done_stuck: "net_done n \<Longrightarrow> \<not> net_step ot n n'"
  by (auto simp: net_done_def client_move_def server_move_def ot_move_def elim!: net_stepE)

lemma net_steps_through:
  assumes "net_steps ot i n f" and "net_done f" and "net_step ot n m"
  shows "\<exists>j. i = Suc j \<and> net_steps ot j m f"
  using assms(1,3)
proof (induction i arbitrary: n m)
  case 0
  with assms(2) net_done_stuck show ?case by (blast elim: net_steps_0E)
next
  case (Suc i)
  from Suc.prems(1) obtain a where a: "net_step ot n a" "net_steps ot i a f"
    by (blast elim: net_steps_SucE)
  show ?case
  proof (cases "a = m")
    case True
    with a show ?thesis by blast
  next
    case False
    with net_diamond [OF a(1) Suc.prems(2)] obtain d where d: "net_step ot a d" "net_step ot m d" by blast
    from Suc.IH [OF a(2) d(1)] obtain j where "i = Suc j" "net_steps ot j d f" by blast
    with d(2) show ?thesis by (blast intro: net_steps.more)
  qed
qed

text \<open>If one interleaving ends, every interleaving ends the same way after the same number of steps.\<close>

lemma net_confluent:
  assumes "net_steps ot i n f" and "net_done f" and "net_steps ot j n m"
  shows "\<exists>k. i = j + k \<and> net_steps ot k m f"
  using assms(3,1)
proof (induction j arbitrary: n i)
  case 0
  then show ?case by (auto elim: net_steps_0E)
next
  case (Suc j)
  from Suc.prems(1) obtain a where a: "net_step ot n a" "net_steps ot j a m"
    by (blast elim: net_steps_SucE)
  from net_steps_through [OF Suc.prems(2) assms(2) a(1)] obtain i' where
    "i = Suc i'" "net_steps ot i' a f" by blast
  with Suc.IH [OF a(2)] show ?case by auto
qed

lemma net_steps_trans: "net_steps ot i a b \<Longrightarrow> net_steps ot j b c \<Longrightarrow> net_steps ot (i + j) a c"
  by (induction rule: net_steps.induct) (auto intro: net_steps.more)

end
