(* ===== verification/PsiSets.thy ===== *)
theory PsiSets
  imports Prf "HOL-Library.List_Lexorder"
begin

text \<open>
  \<open>pool-psi/src/protocol.rs\<close>: masking a set, and the intersection of the client's outputs with a
  masked set. An element is the bytes of a PRF output; arrays of bytes are ordered
  lexicographically. A \<open>HashSet\<close> that is only asked for membership is a set.
\<close>

type_synonym masked_element = "zp list"

definition MAX_CLIENT_SET :: nat where "MAX_CLIENT_SET = 2 ^ 16"
definition MAX_SERVER_SET :: nat where "MAX_SERVER_SET = 2 ^ 20"

record masked_server_set =
  ms_tag :: bytes
  ms_elements :: "masked_element list"

definition requests_for :: "nat \<Rightarrow> nat \<Rightarrow> nat" where
  "requests_for set_size batch_size = div_ceil set_size batch_size"

text \<open>\<open>sort_unstable\<close> and \<open>dedup\<close>, which keeps the first of equal neighbours. Masking panics where the
  PRF does.\<close>

fun dedup :: "'a list \<Rightarrow> 'a list" where
  "dedup (x # y # ys) = (if x = y then dedup (x # ys) else x # dedup (y # ys))"
| "dedup xs = xs"

definition mask_server_set :: "xof \<Rightarrow> secret_key \<Rightarrow> bytes \<Rightarrow> bytes list \<Rightarrow> masked_element list option" where
  "mask_server_set xof sk tag ys = do {
     masked \<leftarrow> opt_map (\<lambda>y. map_option elements (evaluate xof sk tag y)) ys;
     Some (dedup (sort masked)) }"

definition intersect :: "prf_output list \<Rightarrow> masked_element list \<Rightarrow> nat list" where
  "intersect outputs server =
     (let haystack = set server
      in map fst (filter (\<lambda>(i, out). elements out \<in> haystack) (enumerate 0 outputs)))"

section \<open>What they compute\<close>

lemma set_dedup [simp]: "set (dedup xs) = set xs"
  by (induction xs rule: dedup.induct) auto

lemma dedup_hd: "xs \<noteq> [] \<Longrightarrow> \<exists>ys. dedup xs = hd xs # ys"
  by (induction xs rule: dedup.induct) auto

lemma sorted_dedup: "sorted xs \<Longrightarrow> sorted_wrt (<) (dedup (xs :: 'a :: linorder list))"
proof (induction xs rule: dedup.induct)
  case (1 x y ys)
  show ?case
  proof (cases "x = y")
    case True
    with 1 show ?thesis by simp
  next
    case False
    with "1.prems" have "x < z" if "z \<in> set (y # ys)" for z using that by force
    with False 1 show ?thesis by simp
  qed
qed simp_all

lemma intersect_filter: "intersect outs server = filter (\<lambda>i. elements (outs ! i) \<in> set server) [0..<length outs]"
proof -
  have "enumerate 0 outs = map (\<lambda>i. (i, outs ! i)) [0..<length outs]"
    by (rule nth_equalityI) (simp_all add: nth_enumerate_eq)
  then show ?thesis by (simp add: intersect_def Let_def filter_map comp_def)
qed

lemma set_intersect: "set (intersect outs server) = {i. i < length outs \<and> elements (outs ! i) \<in> set server}"
  by (auto simp: intersect_filter)

lemma mask_server_set_Some:
  assumes "wf_key sk"
  shows "\<exists>masked. mask_server_set xof sk tag ys = Some masked \<and> sorted_wrt (<) masked
    \<and> set masked = {elements out |out y. y \<in> set ys \<and> evaluate xof sk tag y = Some out}"
proof -
  have "\<exists>out. evaluate xof sk tag y = Some out" for y using evaluate_row [OF assms, of xof tag y] by blast
  then have total: "evaluate xof sk tag y = Some (the (evaluate xof sk tag y))" for y by (metis option.sel)
  have "opt_map (\<lambda>y. map_option elements (evaluate xof sk tag y)) ys
      = Some (map (\<lambda>y. elements (the (evaluate xof sk tag y))) ys)"
    by (rule opt_map_total) (subst total, simp)
  moreover have "{elements out |out y. y \<in> set ys \<and> evaluate xof sk tag y = Some out}
      = (\<lambda>y. elements (the (evaluate xof sk tag y))) ` set ys"
    using total by (force simp: image_iff)
  ultimately show ?thesis by (simp add: mask_server_set_def sorted_dedup)
qed

lemma length_dedup: "length (dedup xs) \<le> length xs"
  by (induction xs rule: dedup.induct) auto

lemma mask_length:
  assumes "mask_server_set xof sk tag ys = Some masked"
  shows "length masked \<le> length ys"
proof -
  obtain zs where "opt_map (\<lambda>y. map_option elements (evaluate xof sk tag y)) ys = Some zs" "masked = dedup (sort zs)"
    using assms by (auto simp: mask_server_set_def split: Option.bind_splits)
  with length_dedup [of "sort zs"] opt_map_length show ?thesis by fastforce
qed

end
