(* ===== verification/Protocol.thy ===== *)
theory Protocol
  imports Process Online PsiSets
begin

text \<open>
  The preprocessing of Figure 3 as two processes: \<open>preproc_client_with\<close> and \<open>preproc_server\<close> of
  \<open>pool-oprf/src/preprocessing.rs\<close>, with \<open>ClientPreprocessing\<close> and \<open>ServerPreprocessing\<close> of
  \<open>pool-oprf/src/voprf.rs\<close>, whose methods are steps of them.

  The \<open>uid\<close> the client draws is an argument. \<open>frame n\<close> is the size the codec of the connection gives
  a message of \<open>n\<close> bytes; a frame over the limit of the control stream is an error of the stream.
  A blocking task is its body: its \<open>expect\<close> passes a panic on.
\<close>

section \<open>Messages and sizes\<close>

text \<open>The messages of every stream of the repository: the preprocessing's, the online phase's and those
  of a set intersection.\<close>

datatype ('c, 'proof) pmsg =
    MBytes bytes
  | MMasks "('c \<times> 'c) list"
  | MPads "'c list list"
  | MProof "('c, 'proof) preprocessing_proof"
  | MRequest request_message
  | MResponse "'proof response_message"
  | MSize nat
  | MSet masked_server_set

definition HELLO_BYTES :: nat where
  "HELLO_BYTES = LAMBDA_BYTES + 8 + 1"

definition MAX_CONTROL_FRAME_BYTES :: nat where
  "MAX_CONTROL_FRAME_BYTES = par_N + 9"

definition BINARY_OT_COUNT :: "nat \<Rightarrow> nat" where
  "BINARY_OT_COUNT base_ot_count = next_multiple_of par_N base_ot_count"

type_synonym ('c, 'proof, 'pe, 've, 'a) pproc =
  "(('c, 'proof) pmsg, (('pe, 've) preproc_error, 'a) res) proc"

section \<open>Calls on the connection\<close>

definition open_on :: "chan \<Rightarrow> ('c, 'proof, 'pe, 've, unit) pproc" where
  "open_on ch = open_stream ConnectionFailed ch"

definition send_on :: "chan \<Rightarrow> ('c, 'proof) pmsg \<Rightarrow> ('c, 'proof, 'pe, 've, unit) pproc" where
  "send_on ch m = send_msg IoFailed ch m"

definition recv_with ::
  "(('c, 'proof) pmsg \<Rightarrow> 'a option) \<Rightarrow> chan \<Rightarrow> ('c, 'proof, 'pe, 've, 'a) pproc" where
  "recv_with decode ch = recv_msg UnexpectedClose IoFailed decode ch"

fun control_message :: "(nat \<Rightarrow> nat) \<Rightarrow> ('c, 'proof) pmsg \<Rightarrow> bytes option" where
  "control_message frame (MBytes bs) =
     (if frame (length bs) \<le> MAX_CONTROL_FRAME_BYTES then Some bs else None)"
| "control_message frame _ = None"

fun masks_message :: "('c, 'proof) pmsg \<Rightarrow> ('c \<times> 'c) list option" where
  "masks_message (MMasks c) = Some c"
| "masks_message _ = None"

fun pads_message :: "('c, 'proof) pmsg \<Rightarrow> 'c list list option" where
  "pads_message (MPads d) = Some d"
| "pads_message _ = None"

fun proof_message :: "('c, 'proof) pmsg \<Rightarrow> ('c, 'proof) preprocessing_proof option" where
  "proof_message (MProof p) = Some p"
| "proof_message _ = None"

definition ot_send_on :: "ot_conn \<Rightarrow> nat \<Rightarrow> ('c, 'proof, 'pe, 've, (block \<times> block) list) pproc" where
  "ot_send_on conn n = OtSend conn n (\<lambda>out. Ret (ok_or OtFailed out))"

definition ot_receive_on :: "ot_conn \<Rightarrow> nat \<Rightarrow> ('c, 'proof, 'pe, 've, block list \<times> bool list) pproc" where
  "ot_receive_on conn n = OtRecv conn n (\<lambda>out. Ret (ok_or OtFailed out))"

text \<open>\<open>delta_ot_send\<close> and \<open>delta_ot_receive\<close> on the second sub-connection: one call of the binary OT.\<close>

definition delta_ot_send_on ::
  "('c, 'proof, 'pe, 've) crypto \<Rightarrow> nat \<Rightarrow> ('c, 'proof, 'pe, 've, block list list) pproc" where
  "delta_ot_send_on cr tau =
     attempt (Ret (expect (required_binary_ot_count (cr_base_ot_count cr) tau))) (\<lambda>n.
     attempt (ot_send_on DeltaOt n) (\<lambda>pairs.
     Ret (delta_ot_send (cr_hash cr) (cr_base_ot_count cr) (\<lambda>_. Ok pairs) tau)))"

definition delta_ot_receive_on ::
  "('c, 'proof, 'pe, 've) crypto \<Rightarrow> nat \<Rightarrow> ('c, 'proof, 'pe, 've, block list \<times> zdelta list) pproc"
where
  "delta_ot_receive_on cr tau =
     attempt (Ret (expect (required_binary_ot_count (cr_base_ot_count cr) tau))) (\<lambda>n.
     attempt (ot_receive_on DeltaOt n) (\<lambda>out.
     Ret (delta_ot_receive (cr_hash cr) (cr_base_ot_count cr) (\<lambda>_. Ok out) tau)))"

section \<open>The steps of a VOPRF (voprf.rs)\<close>

text \<open>\<open>ClientPreprocessing::open\<close> and \<open>ServerPreprocessing::open\<close>.\<close>

definition voprf_open :: "('c, 'proof, 'pe, 've, unit) pproc" where
  "voprf_open = attempt (open_on VoprfChan) (\<lambda>_. open_on ProofChan)"

primrec send_all ::
  "chan \<Rightarrow> ('c, 'proof) pmsg list \<Rightarrow> ('c, 'proof, 'pe, 've, unit) pproc" where
  "send_all ch [] = Ret (Ok ())"
| "send_all ch (m # ms) = attempt (send_on ch m) (\<lambda>_. send_all ch ms)"

definition send_masks_commitments ::
  "('c, 'proof, 'pe, 've) crypto \<Rightarrow> (block \<times> block) list \<Rightarrow> nat
     \<Rightarrow> ('c, 'proof, 'pe, 've, ('c \<times> 'c) list list) pproc" where
  "send_masks_commitments cr ot_blocks evaluations =
     attempt (Ret (expect (masks_commitments cr ot_blocks evaluations))) (\<lambda>c.
     attempt (send_all VoprfChan (map MMasks c)) (\<lambda>_. Ret (Ok c)))"

primrec receive_masks :: "nat \<Rightarrow> ('c, 'proof, 'pe, 've, ('c \<times> 'c) list list) pproc" where
  "receive_masks 0 = Ret (Ok [])"
| "receive_masks (Suc n) =
     attempt (recv_with masks_message VoprfChan) (\<lambda>c_v.
     if length c_v \<noteq> par_N then Ret (Err (Malformed ''c has wrong length'')) else
     attempt (receive_masks n) (\<lambda>c. Ret (Ok (c_v # c))))"

definition receive_masks_commitments ::
  "('c, 'proof, 'pe, 've) crypto \<Rightarrow> rs_entry list \<Rightarrow> nat
     \<Rightarrow> ('c, 'proof, 'pe, 've, ('c \<times> 'c) list list) pproc" where
  "receive_masks_commitments cr r_s evaluations =
     attempt (receive_masks evaluations) (\<lambda>c.
     Ret (if masks_match cr r_s c then Ok c else Err MasksMismatch))"

definition send_pads_commitments ::
  "('c, 'proof, 'pe, 've) crypto \<Rightarrow> block list list \<Rightarrow> nat \<Rightarrow> ('c, 'proof, 'pe, 've, unit) pproc" where
  "send_pads_commitments cr delta_ot_blocks evaluations =
     attempt (Ret (expect (pads_commitments cr delta_ot_blocks evaluations))) (\<lambda>d.
     send_all VoprfChan (map MPads d))"

text \<open>The loop of \<open>receive_pads_commitments\<close> from evaluation \<open>v\<close> on: \<open>n\<close> messages.\<close>

primrec receive_pads ::
  "('c, 'proof, 'pe, 've) crypto \<Rightarrow> block list \<Rightarrow> zdelta list \<Rightarrow> nat \<Rightarrow> nat
     \<Rightarrow> ('c, 'proof, 'pe, 've, 'c list list) pproc" where
  "receive_pads cr ot_blocks choices 0 v = Ret (Ok [])"
| "receive_pads cr ot_blocks choices (Suc n) v =
     attempt (recv_with pads_message VoprfChan) (\<lambda>message.
     if length message \<noteq> RUNS_PER_EVALUATION then Ret (Err (Malformed ''d has wrong length'')) else
     attempt (Ret (check_pads_all cr ot_blocks choices (v * RUNS_PER_EVALUATION) message)) (\<lambda>_.
     attempt (receive_pads cr ot_blocks choices n (Suc v)) (\<lambda>d. Ret (Ok (message @ d)))))"

definition receive_pads_commitments ::
  "('c, 'proof, 'pe, 've) crypto \<Rightarrow> block list \<Rightarrow> zdelta list \<Rightarrow> nat
     \<Rightarrow> ('c, 'proof, 'pe, 've, 'c list list) pproc" where
  "receive_pads_commitments cr ot_blocks choices evaluations =
     receive_pads cr ot_blocks choices evaluations 0"

definition finish_on ::
  "('c, 'proof, 'pe, 've) crypto \<Rightarrow> 'c verified_key \<Rightarrow> u8 list \<Rightarrow> ('c \<times> 'c) list list \<Rightarrow> 'c list list
     \<Rightarrow> ('c, 'proof, 'pe, 've, 'c client_voprf) pproc" where
  "finish_on cr pk b_bar c d =
     attempt (recv_with proof_message ProofChan) (\<lambda>message. Ret (client_finish cr pk b_bar c d message))"

definition prove_on ::
  "('c, 'proof, 'pe, 've) crypto \<Rightarrow> secret_key \<Rightarrow> rs_entry list \<Rightarrow> u8 list \<Rightarrow> ('c \<times> 'c) list list
     \<Rightarrow> block list list \<Rightarrow> ('c, 'proof, 'pe, 've, server_voprf) pproc" where
  "prove_on cr sk r_s b_bar c delta_ot_blocks =
     attempt (Ret (server_prove cr sk r_s b_bar c delta_ot_blocks)) (\<lambda>(message, voprf).
     attempt (send_on ProofChan (MProof message)) (\<lambda>_. Ret (Ok voprf)))"

section \<open>The client (preproc_client_with)\<close>

definition hello_bytes :: "uid \<Rightarrow> nat \<Rightarrow> bool \<Rightarrow> bytes" where
  "hello_bytes uid tau wants_voprf = uid @ encode_tau tau @ [if wants_voprf then 1 else 0]"

definition read_tau :: "bytes \<Rightarrow> (('pe, 've) preproc_error, nat) res" where
  "read_tau bs = map_err (\<lambda>_. Malformed ''tau has wrong length'') (decode_tau bs)"

definition rc_entries :: "block list \<Rightarrow> zdelta list \<Rightarrow> rc_entry list option" where
  "rc_entries blocks choices =
     opt_map (\<lambda>(block, b_prime).
         map_option (\<lambda>r. \<lparr> rc_b_prime = b_prime, rc_r_prime = r \<rparr>) (r_prime_from_block block))
       (zip blocks choices)"

definition preproc_client_with ::
  "('c, 'proof, 'pe, 've) crypto \<Rightarrow> (nat \<Rightarrow> nat) \<Rightarrow> 'c verified_key option \<Rightarrow> nat \<Rightarrow> uid
     \<Rightarrow> ('c, 'proof, 'pe, 've, 'c client_state) pproc" where
  "preproc_client_with cr frame pk tau uid =
     (if tau = 0 then Ret (Err ZeroTau)
      else if pk \<noteq> None \<and> evaluations_for tau = 0 then Ret (Err (VoprfTauTooSmall tau))
      else
     attempt (open_on Control) (\<lambda>_.
     attempt (send_on Control (MBytes (hello_bytes uid tau (pk \<noteq> None)))) (\<lambda>_.
     attempt (recv_with (control_message frame) Control) (\<lambda>echoed.
     attempt (Ret (read_tau echoed)) (\<lambda>theirs.
     if theirs \<noteq> tau then Ret (Err (TauMismatch tau theirs)) else
     attempt (if pk = None then Ret (Ok ()) else voprf_open) (\<lambda>_.
     attempt (ot_send_on BinaryOt (BINARY_OT_COUNT (cr_base_ot_count cr))) (\<lambda>pairs.
     let ot_blocks = take par_N pairs in
     attempt (if pk = None then Ret (Ok [])
              else send_masks_commitments cr ot_blocks (evaluations_for tau)) (\<lambda>c.
     attempt (delta_ot_receive_on cr tau) (\<lambda>(blocks, choices).
     attempt (Ret (expect (rc_entries blocks choices))) (\<lambda>r_c.
     attempt (if pk = None then Ret (Ok [])
              else receive_pads_commitments cr blocks choices (evaluations_for tau)) (\<lambda>d.
     attempt (recv_with (control_message frame) Control) (\<lambda>bhat.
     if length bhat \<noteq> par_N then Ret (Err (Malformed ''b_hat has wrong length''))
     else if \<not> list_all (\<lambda>b. b \<le> 1) bhat then Ret (Err (Malformed ''b_hat entries must be bits''))
     else
     attempt (case pk of None \<Rightarrow> Ret (Ok None)
              | Some key \<Rightarrow> attempt (finish_on cr key bhat c d) (\<lambda>voprf. Ret (Ok (Some voprf)))) (\<lambda>voprf.
     Ret (expect (client_state_new ot_blocks bhat r_c uid voprf)))))))))))))))"

definition preproc_client ::
  "('c, 'proof, 'pe, 've) crypto \<Rightarrow> (nat \<Rightarrow> nat) \<Rightarrow> nat \<Rightarrow> uid
     \<Rightarrow> ('c, 'proof, 'pe, 've, 'c client_state) pproc" where
  "preproc_client cr frame tau uid = preproc_client_with cr frame None tau uid"

definition preproc_client_voprf ::
  "('c, 'proof, 'pe, 've) crypto \<Rightarrow> (nat \<Rightarrow> nat) \<Rightarrow> 'c verified_key \<Rightarrow> nat \<Rightarrow> uid
     \<Rightarrow> ('c, 'proof, 'pe, 've, 'c client_state) pproc" where
  "preproc_client_voprf cr frame pk tau uid = preproc_client_with cr frame (Some pk) tau uid"

section \<open>The server (preproc_server)\<close>

text \<open>What the server reads in the hello.\<close>

definition read_hello :: "bytes \<Rightarrow> (('pe, 've) preproc_error, uid \<times> nat \<times> bool) res" where
  "read_hello hello =
     (if length hello \<noteq> HELLO_BYTES then Err (Malformed ''hello has wrong length'')
      else res_bind (read_tau (take (HELLO_BYTES - 1 - LAMBDA_BYTES) (drop LAMBDA_BYTES hello))) (\<lambda>theirs.
        let flag = hello ! (HELLO_BYTES - 1) in
        if flag = 0 then Ok (take LAMBDA_BYTES hello, theirs, False)
        else if flag = 1 then Ok (take LAMBDA_BYTES hello, theirs, True)
        else Err (Malformed ''the VOPRF flag must be 0 or 1'')))"

definition rs_entries :: "bool list \<Rightarrow> block list \<Rightarrow> rs_entry list" where
  "rs_entries choices ot_blocks =
     map (\<lambda>(c, ot_block). \<lparr> rs_b = unwrap_u8 c, rs_ot_block = ot_block \<rparr>)
       (take par_N (zip choices ot_blocks))"

definition pads_of :: "block list list \<Rightarrow> zp list list option" where
  "pads_of delta_blocks =
     opt_map (\<lambda>blocks. opt_map (\<lambda>k. do { b \<leftarrow> idx blocks k; r_prime_from_block b }) [0..<DELTA]) delta_blocks"

definition masked_bits :: "secret_key \<Rightarrow> rs_entry list \<Rightarrow> u8 list option" where
  "masked_bits sk r_s =
     opt_map (\<lambda>i. do { entry \<leftarrow> idx r_s i; s \<leftarrow> idx (as_bits sk) i; Some (rs_b entry XOR s) }) [0..<par_N]"

definition preproc_server ::
  "('c, 'proof, 'pe, 've) crypto \<Rightarrow> (nat \<Rightarrow> nat) \<Rightarrow> secret_key \<Rightarrow> nat
     \<Rightarrow> ('c, 'proof, 'pe, 've, server_state) pproc" where
  "preproc_server cr frame sk tau =
     (if tau = 0 then Ret (Err ZeroTau)
      else
     attempt (open_on Control) (\<lambda>_.
     attempt (recv_with (control_message frame) Control) (\<lambda>hello.
     attempt (Ret (read_hello hello)) (\<lambda>(uid, theirs, wants_voprf).
     attempt (send_on Control (MBytes (encode_tau tau))) (\<lambda>_.
     if theirs \<noteq> tau then Ret (Err (TauMismatch tau theirs))
     else if wants_voprf \<and> evaluations_for tau = 0 then Ret (Err (VoprfTauTooSmall tau))
     else
     attempt (if wants_voprf then voprf_open else Ret (Ok ())) (\<lambda>_.
     attempt (ot_receive_on BinaryOt (BINARY_OT_COUNT (cr_base_ot_count cr))) (\<lambda>(ot_blocks, choices).
     let r_s = rs_entries choices ot_blocks in
     attempt (if wants_voprf then receive_masks_commitments cr r_s (evaluations_for tau)
              else Ret (Ok [])) (\<lambda>c.
     attempt (delta_ot_send_on cr tau) (\<lambda>delta_blocks.
     attempt (Ret (expect (pads_of delta_blocks))) (\<lambda>s_s.
     attempt (if wants_voprf then send_pads_commitments cr delta_blocks (evaluations_for tau)
              else Ret (Ok ())) (\<lambda>_.
     attempt (Ret (expect (masked_bits sk r_s))) (\<lambda>bhat.
     attempt (send_on Control (MBytes bhat)) (\<lambda>_.
     attempt (if wants_voprf
              then attempt (prove_on cr sk r_s bhat c delta_blocks) (\<lambda>voprf. Ret (Ok (Some voprf)))
              else Ret (Ok None)) (\<lambda>voprf.
     Ret (expect (server_state_new r_s s_s uid voprf))))))))))))))))"

end
