(* ===== verification/ProtocolNet.thy ===== *)
theory ProtocolNet
  imports Protocol
begin

text \<open>
  Runs of the two processes of \<open>Protocol\<close> against each other. When one side is about to send and the
  other to receive, both pass the message and no stream holds anything: one lemma per kind of call,
  so that a whole preprocessing is a chain of them.
\<close>

section \<open>Reachable networks\<close>

definition reach :: "ot_outcome \<Rightarrow> ('m, 'r, 's) net \<Rightarrow> ('m, 'r, 's) net \<Rightarrow> bool" where
  "reach ot a b \<longleftrightarrow> (\<exists>i. net_steps ot i a b)"

abbreviation Net :: "('m, 'r) proc \<Rightarrow> ('m, 's) proc \<Rightarrow> (chan \<Rightarrow> 'm list) \<Rightarrow> (chan \<Rightarrow> 'm list)
    \<Rightarrow> ('m, 'r, 's) net" where
  "Net c s up down \<equiv> \<lparr> net_client = c, net_server = s, net_up = up, net_down = down \<rparr>"

definition quiet :: "chan \<Rightarrow> 'm list" where
  "quiet = (\<lambda>_. [])"

lemma quiet_at: "quiet ch = []"
  by (simp add: quiet_def)

lemma quiet_again [simp]: "quiet(ch := []) = quiet"
  by (auto simp: quiet_def)

section \<open>Runs in which no side waits for one that has returned\<close>

text \<open>A move that does not depend on the peer having returned is a move of the same process with more
  code after it: such runs compose.\<close>

fun awaits :: "('m, 'r) proc \<Rightarrow> (chan \<Rightarrow> 'm list) \<Rightarrow> bool" where
  "awaits (Recv ch k) ms \<longleftrightarrow> ms ch = []"
| "awaits (OtSend c n k) ms \<longleftrightarrow> True"
| "awaits (OtRecv c n k) ms \<longleftrightarrow> True"
| "awaits p ms \<longleftrightarrow> False"

inductive live_step :: "ot_outcome \<Rightarrow> ('m, 'r, 's) net \<Rightarrow> ('m, 'r, 's) net \<Rightarrow> bool" for ot where
  client: "client_move n = Some n' \<Longrightarrow> \<not> awaits (net_client n) (net_down n) \<Longrightarrow> live_step ot n n'"
| server: "server_move n = Some n' \<Longrightarrow> \<not> awaits (net_server n) (net_up n) \<Longrightarrow> live_step ot n n'"
| transfer: "ot_move ot n = Some n' \<Longrightarrow> live_step ot n n'"

inductive_cases live_stepE: "live_step ot n n'"

definition live :: "ot_outcome \<Rightarrow> ('m, 'r, 's) net \<Rightarrow> ('m, 'r, 's) net \<Rightarrow> bool" where
  "live ot = (live_step ot)\<^sup>*\<^sup>*"

lemma live_refl [intro]: "live ot n n"
  by (simp add: live_def)

lemma live_trans [trans]: "live ot a b \<Longrightarrow> live ot b c \<Longrightarrow> live ot a c"
  unfolding live_def by (rule rtranclp_trans)

lemma live_client: "client_move a = Some b \<Longrightarrow> \<not> awaits (net_client a) (net_down a) \<Longrightarrow> live ot a b"
  unfolding live_def by (blast intro: live_step.client)

lemma live_server: "server_move a = Some b \<Longrightarrow> \<not> awaits (net_server a) (net_up a) \<Longrightarrow> live ot a b"
  unfolding live_def by (blast intro: live_step.server)

lemma live_ot: "ot_move ot a = Some b \<Longrightarrow> live ot a b"
  unfolding live_def by (blast intro: live_step.transfer)

lemma live_reach: "live ot a b \<Longrightarrow> reach ot a b"
  unfolding live_def
proof (induction rule: converse_rtranclp_induct)
  case base
  then show ?case by (auto simp: reach_def intro: net_steps.none)
next
  case (step a b)
  then have "net_step ot a b" by (auto elim!: live_stepE intro: net_step.intros)
  with step show ?case by (auto simp: reach_def intro: net_steps.more)
qed

section \<open>Runs without an OT\<close>

text \<open>Runs in which each side only opens streams, sends, and receives what is there. When one such run
  ends both processes, every step of any interleaving is one of these, and no side is ever at an OT.\<close>

inductive plain_step :: "('m, 'r, 's) net \<Rightarrow> ('m, 'r, 's) net \<Rightarrow> bool" where
  client: "client_move n = Some n' \<Longrightarrow> \<not> awaits (net_client n) (net_down n) \<Longrightarrow> plain_step n n'"
| server: "server_move n = Some n' \<Longrightarrow> \<not> awaits (net_server n) (net_up n) \<Longrightarrow> plain_step n n'"

inductive_cases plain_stepE: "plain_step n n'"

definition plain :: "('m, 'r, 's) net \<Rightarrow> ('m, 'r, 's) net \<Rightarrow> bool" where
  "plain = plain_step\<^sup>*\<^sup>*"

lemma plain_refl [intro]: "plain n n"
  by (simp add: plain_def)

lemma plain_trans [trans]: "plain a b \<Longrightarrow> plain b c \<Longrightarrow> plain a c"
  unfolding plain_def by (rule rtranclp_trans)

lemma plain_client: "client_move a = Some b \<Longrightarrow> \<not> awaits (net_client a) (net_down a) \<Longrightarrow> plain a b"
  unfolding plain_def by (blast intro: plain_step.client)

lemma plain_server: "server_move a = Some b \<Longrightarrow> \<not> awaits (net_server a) (net_up a) \<Longrightarrow> plain a b"
  unfolding plain_def by (blast intro: plain_step.server)

lemma plain_live: "plain a b \<Longrightarrow> live ot a b"
  unfolding plain_def live_def
  by (erule rtranclp_mono [THEN predicate2D, rotated])
    (auto elim!: plain_stepE intro: live_step.client live_step.server)

lemma both_move_not_awaits:
  assumes "client_move n = Some a" and "server_move n = Some b"
  shows "\<not> awaits (net_client n) (net_down n)" and "\<not> awaits (net_server n) (net_up n)"
  using assms by (auto simp: client_move_def server_move_def split: proc.splits list.splits)

lemma awaits_after_peer:
  "server_move n = Some m \<Longrightarrow> \<not> awaits (net_client n) (net_down n) \<Longrightarrow>
     net_client m = net_client n \<and> \<not> awaits (net_client m) (net_down m)"
  "client_move n = Some m \<Longrightarrow> \<not> awaits (net_server n) (net_up n) \<Longrightarrow>
     net_server m = net_server n \<and> \<not> awaits (net_server m) (net_up m)"
  by (cases "net_client n"; auto simp: server_move_def split: proc.splits list.splits if_splits)
    (cases "net_server n"; auto simp: client_move_def split: proc.splits list.splits if_splits)

lemma plain_through:
  assumes "plain n f" and "net_done f" and "net_step ot n m"
  shows "plain_step n m \<and> plain m f"
  using assms(1,3) unfolding plain_def
proof (induction arbitrary: m rule: converse_rtranclp_induct)
  case base
  with net_done_stuck [OF assms(2)] show ?case by blast
next
  case (step n a)
  show ?case
  proof (cases "m = a")
    case True
    with step.hyps show ?thesis by blast
  next
    case False
    from step.hyps(1) show ?thesis
    proof (cases rule: plain_step.cases)
      case client
      with step.prems False have other: "server_move n = Some m"
        using ot_move_alone by (fastforce elim!: net_stepE)
      from moves_commute [OF client(1) other] obtain d where d: "server_move a = Some d" "client_move m = Some d"
        by blast
      have "plain_step n m" by (rule plain_step.server [OF other both_move_not_awaits(2) [OF client(1) other]])
      moreover have "plain_step m d"
        using awaits_after_peer(1) [OF other client(2)] d(2) by (blast intro: plain_step.client)
      moreover have "plain_step\<^sup>*\<^sup>* d f" using step.IH net_step.server [OF d(1)] by blast
      ultimately show ?thesis by (blast intro: converse_rtranclp_into_rtranclp)
    next
      case server
      with step.prems False have other: "client_move n = Some m"
        using ot_move_alone by (fastforce elim!: net_stepE)
      from moves_commute [OF other server(1)] obtain d where d: "client_move a = Some d" "server_move m = Some d"
        by blast
      have "plain_step n m" by (rule plain_step.client [OF other both_move_not_awaits(1) [OF other server(1)]])
      moreover have "plain_step m d"
        using awaits_after_peer(2) [OF other server(2)] d(2) by (blast intro: plain_step.server)
      moreover have "plain_step\<^sup>*\<^sup>* d f" using step.IH net_step.client [OF d(1)] by blast
      ultimately show ?thesis by (blast intro: converse_rtranclp_into_rtranclp)
    qed
  qed
qed

lemma plain_every_schedule:
  assumes "net_steps ot j n m" and "plain n f" and "net_done f"
  shows "plain m f"
  using assms(1,2)
proof (induction rule: net_steps.induct)
  case (more n n' i n'')
  with plain_through [OF _ assms(3)] show ?case by blast
qed

text \<open>A process whose next call is one side of an OT.\<close>

fun at_ot :: "('m, 'r) proc \<Rightarrow> bool" where
  "at_ot (OtSend c n k) \<longleftrightarrow> True"
| "at_ot (OtRecv c n k) \<longleftrightarrow> True"
| "at_ot p \<longleftrightarrow> False"

lemma at_ot_awaits: "at_ot p \<Longrightarrow> awaits p ms"
  by (cases p) simp_all

lemma plain_not_at_ot:
  assumes "plain n f" and "net_done f"
  shows "\<not> at_ot (net_client n) \<and> \<not> at_ot (net_server n)"
  using assms(1) unfolding plain_def
proof (induction rule: converse_rtranclp_induct)
  case base
  with assms(2) show ?case by (auto simp: net_done_def)
next
  case (step n a)
  from step.hyps(1) step.IH show ?case
    by (cases rule: plain_step.cases)
      (auto simp: client_move_def server_move_def dest: at_ot_awaits split: proc.splits list.splits)
qed

section \<open>More code after a run\<close>

definition framed ::
  "('r \<Rightarrow> ('m, 'r') proc) \<Rightarrow> ('s \<Rightarrow> ('m, 's') proc) \<Rightarrow> ('m, 'r, 's) net \<Rightarrow> ('m, 'r', 's') net" where
  "framed f g n = Net (proc_bind (net_client n) f) (proc_bind (net_server n) g) (net_up n) (net_down n)"

lemma framed_client:
  assumes "client_move n = Some n'" and "\<not> awaits (net_client n) (net_down n)"
  shows "client_move (framed f g n) = Some (framed f g n') \<and>
    \<not> awaits (net_client (framed f g n)) (net_down (framed f g n))"
  using assms by (cases "net_client n") (auto simp: client_move_def framed_def neq_Nil_conv)

lemma framed_server:
  assumes "server_move n = Some n'" and "\<not> awaits (net_server n) (net_up n)"
  shows "server_move (framed f g n) = Some (framed f g n') \<and>
    \<not> awaits (net_server (framed f g n)) (net_up (framed f g n))"
  using assms by (cases "net_server n") (auto simp: server_move_def framed_def neq_Nil_conv)

lemma framed_ot:
  assumes "ot_move ot n = Some n'"
  shows "ot_move ot (framed f g n) = Some (framed f g n')"
  using assms
  by (cases "net_client n"; cases "net_server n") (auto simp: ot_move_def framed_def split: if_splits)

lemma live_framed: "live ot n n' \<Longrightarrow> live ot (framed f g n) (framed f g n')"
  unfolding live_def
proof (induction rule: rtranclp_induct)
  case (step b c)
  from step.hyps(2) have "live_step ot (framed f g b) (framed f g c)"
    by (auto elim!: live_stepE dest: framed_client [where f = f and g = g] framed_server [where f = f and g = g]
        framed_ot [where f = f and g = g] intro: live_step.intros)
  with step.IH show ?case by (rule rtranclp.rtrancl_into_rtrancl)
qed simp

text \<open>A run to the end of both processes is a run up to what follows them.\<close>

lemma live_then:
  assumes "live ot (Net p q u d) (Net (Ret a) (Ret b) u' d')"
  shows "live ot (Net (proc_bind p f) (proc_bind q g) u d) (Net (f a) (g b) u' d')"
  using live_framed [OF assms, of f g] by (simp add: framed_def)

lemma live_then_attempt:
  assumes "live ot (Net p q u d) (Net (Ret (Ok a)) (Ret (Ok b)) u' d')"
  shows "live ot (Net (attempt_as g p f) (attempt_as h q k) u d) (Net (f a) (k b) u' d')"
  using live_then [OF assms,
      of "\<lambda>r. case r of Ok a \<Rightarrow> f a | Err e \<Rightarrow> Ret (Err (g e)) | Panic \<Rightarrow> Ret Panic"
         "\<lambda>r. case r of Ok b \<Rightarrow> k b | Err e \<Rightarrow> Ret (Err (h e)) | Panic \<Rightarrow> Ret Panic"]
  by (simp add: attempt_as_def)

lemma attempt_assoc: "attempt (attempt p f) g = attempt p (\<lambda>x. attempt (f x) g)"
proof (induction p)
  case (Ret r)
  then show ?case by (cases r) simp_all
qed simp_all

lemma attempt_Ok: "attempt p (\<lambda>x. Ret (Ok x)) = p"
proof (induction p)
  case (Ret r)
  then show ?case by (cases r) simp_all
qed simp_all

section \<open>One call on each side\<close>

lemma plain_both_open_streams:
  "plain (Net (attempt (open_stream e ch) f) (attempt (open_stream e' ch') g) u d) (Net (f ()) (g ()) u d)"
proof -
  have "plain (Net (attempt (open_stream e ch) f) (attempt (open_stream e' ch') g) u d)
     (Net (f ()) (attempt (open_stream e' ch') g) u d)"
    by (rule plain_client) (simp_all add: client_move_def open_stream_def)
  also have "plain \<dots> (Net (f ()) (g ()) u d)"
    by (rule plain_server) (simp_all add: server_move_def open_stream_def)
  finally show ?thesis .
qed

lemma plain_up_msg:
  assumes "decode m = Some a"
  shows "plain (Net (attempt (send_msg e ch m) f) (attempt (recv_msg e1 e2 decode ch) g) quiet d)
           (Net (f ()) (g a) quiet d)"
proof -
  have "plain (Net (attempt (send_msg e ch m) f) (attempt (recv_msg e1 e2 decode ch) g) quiet d)
     (Net (f ()) (attempt (recv_msg e1 e2 decode ch) g) (quiet(ch := [m])) d)"
    by (rule plain_client) (simp_all add: client_move_def send_msg_def quiet_at)
  also have "plain \<dots> (Net (f ()) (g a) quiet d)"
    by (rule plain_server) (simp_all add: server_move_def recv_msg_def assms)
  finally show ?thesis .
qed

lemma plain_down_msg:
  assumes "decode m = Some a"
  shows "plain (Net (attempt (recv_msg e1 e2 decode ch) f) (attempt (send_msg e ch m) g) u quiet)
           (Net (f a) (g ()) u quiet)"
proof -
  have "plain (Net (attempt (recv_msg e1 e2 decode ch) f) (attempt (send_msg e ch m) g) u quiet)
     (Net (attempt (recv_msg e1 e2 decode ch) f) (g ()) u (quiet(ch := [m])))"
    by (rule plain_server) (simp_all add: server_move_def send_msg_def quiet_at)
  also have "plain \<dots> (Net (f a) (g ()) u quiet)"
    by (rule plain_client) (simp_all add: client_move_def recv_msg_def assms)
  finally show ?thesis .
qed

lemma plain_both_open:
  "plain (Net (attempt (open_on ch) f) (attempt (open_on ch') g) u d) (Net (f ()) (g ()) u d)"
  unfolding open_on_def by (rule plain_both_open_streams)

lemma plain_up_message:
  "decode m = Some a \<Longrightarrow>
   plain (Net (attempt (send_on ch m) f) (attempt (recv_with decode ch) g) quiet d) (Net (f ()) (g a) quiet d)"
  unfolding send_on_def recv_with_def by (rule plain_up_msg)

lemma plain_down_message:
  "decode m = Some a \<Longrightarrow>
   plain (Net (attempt (recv_with decode ch) f) (attempt (send_on ch m) g) u quiet) (Net (f a) (g ()) u quiet)"
  unfolding send_on_def recv_with_def by (rule plain_down_msg)

lemma both_open_streams:
  "live ot (Net (attempt (open_stream e ch) f) (attempt (open_stream e' ch') g) u d) (Net (f ()) (g ()) u d)"
  by (rule plain_live [OF plain_both_open_streams])

lemma up_msg:
  assumes "decode m = Some a"
  shows "live ot (Net (attempt (send_msg e ch m) f) (attempt (recv_msg e1 e2 decode ch) g) quiet d)
           (Net (f ()) (g a) quiet d)"
  using assms by (rule plain_live [OF plain_up_msg])

lemma down_msg:
  assumes "decode m = Some a"
  shows "live ot (Net (attempt (recv_msg e1 e2 decode ch) f) (attempt (send_msg e ch m) g) u quiet)
           (Net (f a) (g ()) u quiet)"
  using assms by (rule plain_live [OF plain_down_msg])

lemma both_open:
  "live ot (Net (attempt (open_on ch) f) (attempt (open_on ch') g) u d) (Net (f ()) (g ()) u d)"
  by (rule plain_live [OF plain_both_open])

lemma up_message:
  "decode m = Some a \<Longrightarrow>
   live ot (Net (attempt (send_on ch m) f) (attempt (recv_with decode ch) g) quiet d) (Net (f ()) (g a) quiet d)"
  by (rule plain_live [OF plain_up_message])

lemma down_message:
  "decode m = Some a \<Longrightarrow>
   live ot (Net (attempt (recv_with decode ch) f) (attempt (send_on ch m) g) u quiet) (Net (f a) (g ()) u quiet)"
  by (rule plain_live [OF plain_down_message])

lemma client_sends_ots:
  "live ot (Net (attempt (ot_send_on c n) f) (attempt (ot_receive_on c n) g) u d)
     (Net (f (fst (ot c))) (g (snd (ot c))) u d)"
  by (rule live_ot) (simp add: ot_move_def ot_send_on_def ot_receive_on_def)

lemma server_sends_ots:
  "live ot (Net (attempt (ot_receive_on c n) f) (attempt (ot_send_on c n) g) u d)
     (Net (f (snd (ot c))) (g (fst (ot c))) u d)"
  by (rule live_ot) (simp add: ot_move_def ot_send_on_def ot_receive_on_def)

section \<open>The steps of a VOPRF\<close>

lemma both_voprf_open:
  "live ot (Net (attempt voprf_open f) (attempt voprf_open g) u d) (Net (f ()) (g ()) u d)"
  unfolding voprf_open_def attempt_assoc by (rule live_trans [OF both_open both_open])

lemma masks_go_up:
  assumes "\<forall>c_v \<in> set c. length c_v = par_N"
  shows "live ot (Net (attempt (send_all VoprfChan (map MMasks c)) f) (attempt (receive_masks (length c)) g) quiet d)
           (Net (f ()) (g c) quiet d)"
  using assms
proof (induction c arbitrary: f g)
  case Nil
  then show ?case by (auto simp: attempt_def)
next
  case (Cons c_v c)
  let ?rest = "attempt (send_all VoprfChan (map MMasks c)) f"
  have "live ot (Net (attempt (send_on VoprfChan (MMasks c_v)) (\<lambda>_. ?rest))
     (attempt (recv_with masks_message VoprfChan) (\<lambda>c_v.
        attempt (if length c_v \<noteq> par_N then Ret (Err (Malformed ''c has wrong length'')) else
          attempt (receive_masks (length c)) (\<lambda>c. Ret (Ok (c_v # c)))) g)) quiet d)
     (Net ?rest (attempt (if length c_v \<noteq> par_N then Ret (Err (Malformed ''c has wrong length'')) else
          attempt (receive_masks (length c)) (\<lambda>c. Ret (Ok (c_v # c)))) g) quiet d)"
    by (rule up_message) simp
  also have "live ot \<dots> (Net (f ()) (g (c_v # c)) quiet d)"
    using Cons by (simp add: attempt_assoc)
  finally show ?case by (simp add: attempt_assoc)
qed

lemma pads_go_down:
  assumes "\<forall>message \<in> set d. length message = 16"
    and "\<forall>i < length d. check_pads_all cr blocks choices ((v + i) * 16) (d ! i) = Ok ()"
  shows "live ot (Net (attempt (receive_pads cr blocks choices (length d) v) f)
             (attempt (send_all VoprfChan (map MPads d)) g) u quiet)
           (Net (f (concat d)) (g ()) u quiet)"
  using assms
proof (induction d arbitrary: f g v)
  case Nil
  then show ?case by (auto simp: attempt_def)
next
  case (Cons message d)
  let ?rest = "attempt (send_all VoprfChan (map MPads d)) g"
  let ?body = "\<lambda>message. attempt (if length message \<noteq> RUNS_PER_EVALUATION
      then Ret (Err (Malformed ''d has wrong length'')) else
     attempt (Ret (check_pads_all cr blocks choices (v * RUNS_PER_EVALUATION) message)) (\<lambda>_.
     attempt (receive_pads cr blocks choices (length d) (Suc v)) (\<lambda>d. Ret (Ok (message @ d))))) f"
  have step: "live ot (Net (attempt (recv_with pads_message VoprfChan) ?body)
       (attempt (send_on VoprfChan (MPads message)) (\<lambda>_. ?rest)) u quiet)
     (Net (?body message) ?rest u quiet)"
    by (rule down_message) simp
  have "check_pads_all cr blocks choices (v * 16) message = Ok ()" using Cons.prems(2) by fastforce
  moreover have "\<forall>i < length d. check_pads_all cr blocks choices ((Suc v + i) * 16) (d ! i) = Ok ()"
    using Cons.prems(2) by fastforce
  ultimately have "live ot (Net (?body message) ?rest u quiet) (Net (f (concat (message # d))) (g ()) u quiet)"
    using Cons.IH [of "Suc v" "\<lambda>ds. f (message @ ds)" g] Cons.prems(1) by (simp add: attempt_assoc)
  from live_trans [OF step this] show ?case by (simp add: attempt_assoc)
qed

section \<open>Every schedule ends the same way\<close>

lemma reach_every_schedule:
  assumes "reach ot n f" and "net_done f" and "net_steps ot j n m"
  shows "reach ot m f"
proof -
  from assms(1) obtain i where "net_steps ot i n f" by (auto simp: reach_def)
  from net_confluent [OF this assms(2,3)] show ?thesis by (auto simp: reach_def)
qed

end
