(* ===== verification/ProtocolChecks.thy ===== *)
theory ProtocolChecks
  imports ProtocolNet
begin

text \<open>
  The computations between the messages of an honest preprocessing: the commitments each side sends
  pass the checks of the other, and the server's proof is of the statement the client verifies.
\<close>

section \<open>Commitments to the masks\<close>

definition masks_pair :: "('c, 'proof, 'pe, 've) crypto \<Rightarrow> nat \<Rightarrow> block \<times> block \<Rightarrow> 'c \<times> 'c" where
  "masks_pair cr v p = (masks_commitment cr v (fst p), masks_commitment cr v (snd p))"

definition all_masks :: "('c, 'proof, 'pe, 've) crypto \<Rightarrow> (block \<times> block) list \<Rightarrow> nat \<Rightarrow> ('c \<times> 'c) list list"
where
  "all_masks cr pairs evaluations = map (\<lambda>v. map (masks_pair cr v) pairs) [0..<evaluations]"

lemma masks_commitments_Some:
  assumes "length pairs = par_N"
  shows "masks_commitments cr pairs ev = Some (all_masks cr pairs ev)"
proof -
  have "opt_map (\<lambda>i. map_option (\<lambda>(b0, b1). (masks_commitment cr v b0, masks_commitment cr v b1))
            (idx pairs i)) [0..<par_N] = Some (map (masks_pair cr v) pairs)" for v
  proof -
    have "opt_map (\<lambda>i. map_option (\<lambda>(b0, b1). (masks_commitment cr v b0, masks_commitment cr v b1))
            (idx pairs i)) [0..<par_N] = Some (map (\<lambda>i. masks_pair cr v (pairs ! i)) [0..<par_N])"
      by (rule opt_map_total) (simp add: assms masks_pair_def case_prod_unfold)
    then show ?thesis by (simp only: map_upt_nth [OF assms])
  qed
  then show ?thesis unfolding masks_commitments_def all_masks_def by (intro opt_map_total) simp
qed

lemma all_masks_simps [simp]:
  "length (all_masks cr pairs ev) = ev"
  "c_v \<in> set (all_masks cr pairs ev) \<Longrightarrow> length c_v = length pairs"
  by (auto simp: all_masks_def)

text \<open>The two sides of the binary OTs.\<close>

definition binary_agree :: "(block \<times> block) list \<Rightarrow> rs_entry list \<Rightarrow> bool" where
  "binary_agree pairs r_s \<longleftrightarrow> length pairs = par_N \<and> length r_s = par_N \<and>
     (\<forall>i < par_N. (rs_b (r_s ! i) = 0 \<or> rs_b (r_s ! i) = 1) \<and>
        rs_ot_block (r_s ! i) = (if rs_b (r_s ! i) = 0 then fst (pairs ! i) else snd (pairs ! i)))"

lemma masks_match_iff:
  assumes "length r_s = par_N" and "\<forall>c_v \<in> set c. length c_v = par_N"
  shows "masks_match cr r_s c \<longleftrightarrow> (\<forall>v < length c. \<forall>i < par_N.
           (if rs_b (r_s ! i) = 0 then fst (c ! v ! i) else snd (c ! v ! i))
             = masks_commitment cr v (rs_ot_block (r_s ! i)))"
  using assms by (auto simp: masks_match_def list_all_length nth_enumerate_eq)

lemma masks_match_honest:
  assumes "binary_agree pairs r_s"
  shows "masks_match cr r_s (all_masks cr pairs ev)"
proof -
  have "length r_s = par_N" "\<forall>c_v \<in> set (all_masks cr pairs ev). length c_v = par_N"
    using assms by (auto simp: binary_agree_def)
  moreover have "(if rs_b (r_s ! i) = 0 then fst (all_masks cr pairs ev ! v ! i)
        else snd (all_masks cr pairs ev ! v ! i)) = masks_commitment cr v (rs_ot_block (r_s ! i))"
    if "v < ev" "i < par_N" for v i
    using assms that by (simp add: binary_agree_def all_masks_def masks_pair_def)
  ultimately show ?thesis by (simp add: masks_match_iff)
qed

section \<open>Commitments to the pads\<close>

definition all_pads :: "('c, 'proof, 'pe, 've) crypto \<Rightarrow> block list list \<Rightarrow> nat \<Rightarrow> 'c list list list" where
  "all_pads cr dblocks evaluations =
     map (\<lambda>v. map (block_pad_commitments cr) (take 16 (drop (v * 16) dblocks))) [0..<evaluations]"

lemma pads_commitments_Some:
  assumes "\<forall>bs \<in> set dblocks. wf_blocks bs" and "ev * 16 \<le> length dblocks"
  shows "pads_commitments cr dblocks ev = Some (all_pads cr dblocks ev)"
proof -
  have one: "opt_map (\<lambda>j. do { b \<leftarrow> idx bs j; pad_commitment cr b }) [0..<16]
      = Some (block_pad_commitments cr bs)" if "wf_blocks bs" for bs
  proof -
    have len: "length bs = 16" and b: "\<And>j. j < 16 \<Longrightarrow> length (bs ! j) = 16"
      using that by (simp_all add: wf_blocks_def)
    have "opt_map (\<lambda>j. do { b \<leftarrow> idx bs j; pad_commitment cr b }) [0..<16]
      = Some (map (\<lambda>j. commit_pad cr \<lparr> pi_pad = bs ! j ! 0, pi_randomness = randomness (bs ! j) \<rparr>) [0..<16])"
      by (rule opt_map_total) (simp add: len pad_commitment_Some b)
    then show ?thesis
      by (simp only: block_pad_commitments_def
          map_upt_nth [OF len, where f = "\<lambda>b. commit_pad cr \<lparr> pi_pad = b ! 0, pi_randomness = randomness b \<rparr>"])
  qed
  have "opt_map (\<lambda>ot_blocks. opt_map (\<lambda>j. do { b \<leftarrow> idx ot_blocks j; pad_commitment cr b }) [0..<16])
          (take 16 (drop (v * 16) dblocks)) = Some (map (block_pad_commitments cr) (take 16 (drop (v * 16) dblocks)))"
    for v
    using assms(1) one by (intro opt_map_total) (meson in_set_dropD in_set_takeD)
  moreover have "(v + 1) * 16 \<le> length dblocks" if "v < ev" for v
    using that assms(2) by simp
  ultimately show ?thesis
    unfolding pads_commitments_def all_pads_def by (intro opt_map_total) simp
qed

lemma take_chunks: "concat (map (\<lambda>v. f (take n (drop (v * n) xs))) [0..<k])
    = concat (map f (map (\<lambda>v. take n (drop (v * n) xs)) [0..<k]))"
  by (simp add: comp_def)

lemma concat_take_drop: "concat (map (\<lambda>v. take n (drop (v * n) xs)) [0..<k]) = take (k * n) xs"
  by (induction k) (simp_all add: take_add add.commute [of n])

lemma concat_all_pads: "concat (all_pads cr dblocks ev) = map (block_pad_commitments cr) (take (ev * 16) dblocks)"
proof -
  have "concat (all_pads cr dblocks ev)
      = map (block_pad_commitments cr) (concat (map (\<lambda>v. take 16 (drop (v * 16) dblocks)) [0..<ev]))"
    by (simp add: all_pads_def map_concat comp_def)
  then show ?thesis by (simp only: concat_take_drop)
qed

text \<open>The two sides of the 1-out-of-\<open>Delta\<close> OTs, as \<open>delta_ot_agree\<close> gives them.\<close>

definition delta_agree :: "nat \<Rightarrow> block list list \<Rightarrow> block list \<Rightarrow> zdelta list \<Rightarrow> bool" where
  "delta_agree tau sent blocks choices \<longleftrightarrow>
     length sent = tau \<and> length blocks = tau \<and> length choices = tau \<and> (\<forall>bs \<in> set sent. wf_blocks bs) \<and>
     (\<forall>j < tau. unat (choices ! j) < 16 \<and> length (blocks ! j) = 16 \<and> sent ! j ! unat (choices ! j) = blocks ! j)"

lemma check_pads_all_Ok_iff:
  assumes "run + length ds \<le> length choices" and "length blocks = length choices"
    and "\<forall>j < length blocks. length (blocks ! j) = 16 \<and> unat (choices ! j) < 16"
    and "\<forall>d \<in> set ds. length d = 16"
  shows "check_pads_all cr blocks choices run ds = Ok () \<longleftrightarrow>
    (\<forall>k < length ds. ds ! k ! unat (choices ! (run + k))
       = commit_pad cr \<lparr> pi_pad = blocks ! (run + k) ! 0, pi_randomness = randomness (blocks ! (run + k)) \<rparr>)"
  using assms
proof (induction ds arbitrary: run)
  case Nil
  then show ?case by simp
next
  case (Cons d ds)
  have run: "run < length choices" using Cons.prems(1) by simp
  let ?one = "d ! unat (choices ! run)
       = commit_pad cr \<lparr> pi_pad = blocks ! run ! 0, pi_randomness = randomness (blocks ! run) \<rparr>"
  have "check_pads cr blocks choices run d = (if ?one then Ok () else Err PadsMismatch)"
    using Cons.prems run by (simp add: check_pads_def pad_commitment_Some)
  moreover have "check_pads_all cr blocks choices (Suc run) ds = Ok () \<longleftrightarrow>
      (\<forall>k < length ds. ds ! k ! unat (choices ! (Suc run + k))
         = commit_pad cr \<lparr> pi_pad = blocks ! (Suc run + k) ! 0, pi_randomness = randomness (blocks ! (Suc run + k)) \<rparr>)"
    using Cons.prems by (intro Cons.IH) simp_all
  ultimately show ?case by (auto simp: less_Suc_eq_0_disj)
qed

lemma all_pads_pass:
  assumes agree: "delta_agree tau dblocks blocks choices" and ev: "ev * 16 \<le> tau"
  shows "length (all_pads cr dblocks ev) = ev" and "\<forall>m \<in> set (all_pads cr dblocks ev). length m = 16"
    and "\<forall>v < ev. check_pads_all cr blocks choices (v * 16) (all_pads cr dblocks ev ! v) = Ok ()"
proof -
  show "length (all_pads cr dblocks ev) = ev" by (simp add: all_pads_def)
  have len: "v * 16 + 16 \<le> tau" if "v < ev" for v using that ev by linarith
  with agree show "\<forall>m \<in> set (all_pads cr dblocks ev). length m = 16"
    by (auto simp: all_pads_def delta_agree_def) (metis add_le_imp_le_diff add.commute min_absorb2)
  show "\<forall>v < ev. check_pads_all cr blocks choices (v * 16) (all_pads cr dblocks ev ! v) = Ok ()"
  proof (intro allI impI)
    fix v assume v: "v < ev"
    let ?ds = "map (block_pad_commitments cr) (take 16 (drop (v * 16) dblocks))"
    have ds: "length ?ds = 16" "\<forall>d \<in> set ?ds. length d = 16"
      using agree len [OF v]
      by (auto simp: delta_agree_def block_pad_commitments_def wf_blocks_def dest!: in_set_takeD in_set_dropD)
    have "check_pads_all cr blocks choices (v * 16) ?ds = Ok ()"
    proof (subst check_pads_all_Ok_iff)
      show "\<forall>k < length ?ds. ?ds ! k ! unat (choices ! (v * 16 + k)) = commit_pad cr
         \<lparr> pi_pad = blocks ! (v * 16 + k) ! 0, pi_randomness = randomness (blocks ! (v * 16 + k)) \<rparr>"
      proof (intro allI impI)
        fix k assume "k < length ?ds"
        then have k: "k < 16" "v * 16 + k < tau" using ds(1) len [OF v] by simp_all
        have "wf_blocks (dblocks ! (v * 16 + k))" using agree k(2) by (simp add: delta_agree_def)
        with agree k show "?ds ! k ! unat (choices ! (v * 16 + k)) = commit_pad cr
         \<lparr> pi_pad = blocks ! (v * 16 + k) ! 0, pi_randomness = randomness (blocks ! (v * 16 + k)) \<rparr>"
          by (simp add: delta_agree_def block_pad_commitments_def wf_blocks_def)
      qed
    qed (use agree len [OF v] ds in \<open>auto simp: delta_agree_def\<close>)
    with v show "check_pads_all cr blocks choices (v * 16) (all_pads cr dblocks ev ! v) = Ok ()"
      by (simp add: all_pads_def)
  qed
qed

end
