(* ===== verification/ProtocolProof.thy ===== *)
theory ProtocolProof
  imports ProtocolChecks
begin

text \<open>
  The proof of an honest VOPRF preprocessing: the server's witness exists, the statement it proves
  holds for it, and it is the statement the client verifies.
\<close>

section \<open>The server's witness\<close>

definition server_masks :: "xof \<Rightarrow> rs_entry list \<Rightarrow> nat \<Rightarrow> zq list list" where
  "server_masks xof r_s v = map (\<lambda>entry. expand xof (rs_ot_block entry) (16 * v)) r_s"

text \<open>The sums of the masks of evaluation \<open>v\<close>, as in \<open>matched_voprf\<close>.\<close>

definition mask_sums_are :: "xof \<Rightarrow> secret_key \<Rightarrow> rs_entry list \<Rightarrow> nat \<Rightarrow> zq list \<Rightarrow> bool" where
  "mask_sums_are xof sk r_s v sums \<longleftrightarrow> length sums = 16 \<and>
     (\<forall>k < 16. r_sigma_sum sk (map (\<lambda>i. expand xof (rs_ot_block (r_s ! i)) (16 * v) ! k) [0..<par_N])
        = Some (sums ! k))"

lemma column_server_masks:
  assumes "length r_s = par_N"
  shows "column k (server_masks xof r_s v) = map (\<lambda>i. expand xof (rs_ot_block (r_s ! i)) (16 * v) ! k) [0..<par_N]"
  using assms by (intro nth_equalityI) (simp_all add: column_def server_masks_def)

lemma evaluation_witness_Some:
  assumes len: "length r_s = par_N"
  shows "\<exists>sums. evaluation_witness_of xof sk r_s v mr
            = Some \<lparr> ew_masks = server_masks xof r_s v, ew_r_sigma_sums = sums, ew_m_randomness = mr \<rparr>
          \<and> mask_sums_are xof sk r_s v sums"
proof -
  have "opt_map (\<lambda>i. map_option (\<lambda>entry. expand xof (rs_ot_block entry) (first_run v)) (idx r_s i)) [0..<par_N]
      = Some (map (\<lambda>i. expand xof (rs_ot_block (r_s ! i)) (16 * v)) [0..<par_N])"
    by (rule opt_map_total) (simp add: len first_run_def mult.commute)
  also have "map (\<lambda>i. expand xof (rs_ot_block (r_s ! i)) (16 * v)) [0..<par_N] = server_masks xof r_s v"
    unfolding server_masks_def
    by (rule map_upt_nth [OF len, where f = "\<lambda>entry. expand xof (rs_ot_block entry) (16 * v)"])
  finally have masks: "opt_map (\<lambda>i. map_option (\<lambda>entry. expand xof (rs_ot_block entry) (first_run v)) (idx r_s i))
      [0..<par_N] = Some (server_masks xof r_s v)" .
  let ?f = "\<lambda>k. r_sigma_sum sk (column k (server_masks xof r_s v))"
  have "\<exists>z. ?f k = Some z \<and> ?f k = Some z" if "k < 16" for k
  proof -
    have "\<forall>r \<in> set (column k (server_masks xof r_s v)). unat r < 4096"
      using that by (auto simp: column_def server_masks_def unat_expand mask_at_def Let_def)
    from r_sigma_sum_Some [OF this] len show ?thesis
      by (auto simp: column_def server_masks_def par_N_def)
  qed
  from opt_map_upt [of 16 ?f "\<lambda>k z. ?f k = Some z", OF this] obtain sums where
    "opt_map ?f [0..<16] = Some sums" "length sums = 16" "\<forall>k < 16. ?f k = Some (sums ! k)" by blast
  with masks show ?thesis
    by (intro exI [of _ sums])
      (simp add: evaluation_witness_of_def mask_sums_are_def column_server_masks [OF len] del: upt_Suc)
qed

text \<open>
  A preprocessing statement of the source's types that holds for a witness of the source's types. Of
  each pair of commitments to masks the statement only constrains one; both are the commitments of
  an honest client.
\<close>

definition masks_committed :: "('c, 'proof, 'pe, 've) crypto \<Rightarrow> 'c \<Rightarrow> bool" where
  "masks_committed cr c \<longleftrightarrow> (\<exists>input. length (mi_masks input) = RUNS_PER_EVALUATION \<and> c = commit_masks cr input)"

definition cr_preprocessing_holds ::
  "('c, 'proof, 'pe, 've) crypto \<Rightarrow> ('c, 'c, 'c) preprocessing_statement \<Rightarrow> preprocessing_witness \<Rightarrow> bool" where
  "cr_preprocessing_holds cr st w \<longleftrightarrow> wf_preprocessing_witness w \<and> length (ps_b_bar st) = par_N \<and>
     (\<forall>ev \<in> set (ps_evaluations st). length (es_c ev) = par_N \<and>
        (\<forall>(c_0, c_1) \<in> set (es_c ev). masks_committed cr c_0 \<and> masks_committed cr c_1)) \<and>
     preprocessing_holds_for (commit_key cr) (commit_masks cr) (commit_mask_sum cr) st w"

definition complete_preprocessing :: "('c, 'proof, 'pe, 've) crypto \<Rightarrow> bool" where
  "complete_preprocessing cr \<longleftrightarrow>
     (\<forall>st w. cr_preprocessing_holds cr st w \<longrightarrow>
       (\<exists>p. prove_preprocessing cr st w = Ok p \<and> verify_preprocessing cr st p = Ok ()))"

definition complete_setup :: "('c, 'proof, 'pe, 've) crypto \<Rightarrow> bool" where
  "complete_setup cr \<longleftrightarrow> (\<forall>sk. wf_key sk \<longrightarrow> (\<exists>p. prove_setup cr (setup_for_key (commit_key cr) sk) sk = Ok p \<and>
     verify_setup cr (setup_for_key (commit_key cr) sk) p = Ok ()))"

definition bits_masked :: "secret_key \<Rightarrow> rs_entry list \<Rightarrow> u8 list" where
  "bits_masked sk r_s = map (\<lambda>i. rs_b (r_s ! i) XOR as_bits sk ! i) [0..<par_N]"

lemma masked_bits_Some:
  "length r_s = par_N \<Longrightarrow> wf_key sk \<Longrightarrow> masked_bits sk r_s = Some (bits_masked sk r_s)"
  unfolding masked_bits_def bits_masked_def by (rule opt_map_total) (simp add: wf_key_def)

lemma xor_bits: "(a :: u8) = 0 \<or> a = 1 \<Longrightarrow> b = 0 \<or> b = 1 \<Longrightarrow> a XOR b \<le> 1 \<and> (a XOR b) XOR b = a"
  by (auto simp: xor.assoc)

section \<open>The server's masks are those the client committed to\<close>

lemma server_masks_holds_honest:
  assumes agree: "binary_agree pairs r_s" and sk: "wf_key sk" and v: "v < ev"
  shows "server_masks_holds (commit_masks cr) (all_masks cr pairs ev ! v) (bits_masked sk r_s) sk
           (server_masks (cr_xof cr) r_s v) (map (\<lambda>entry. randomness (rs_ot_block entry)) r_s)"
proof -
  have "bits_masked sk r_s ! i \<le> 1 \<and>
      (if bits_masked sk r_s ! i XOR as_bits sk ! i = 0 then fst (all_masks cr pairs ev ! v ! i) = c
       else bits_masked sk r_s ! i XOR as_bits sk ! i = 1 \<and> snd (all_masks cr pairs ev ! v ! i) = c)"
    if i: "i < par_N" and c: "c = commit_masks cr \<lparr> mi_masks = server_masks (cr_xof cr) r_s v ! i,
              mi_randomness = map (\<lambda>entry. randomness (rs_ot_block entry)) r_s ! i \<rparr>" for i c
  proof -
    have b: "rs_b (r_s ! i) = 0 \<or> rs_b (r_s ! i) = 1" and len: "length r_s = par_N" "length pairs = par_N"
      and blk: "rs_ot_block (r_s ! i) = (if rs_b (r_s ! i) = 0 then fst (pairs ! i) else snd (pairs ! i))"
      using agree i by (simp_all add: binary_agree_def)
    have x: "bits_masked sk r_s ! i \<le> 1" "bits_masked sk r_s ! i XOR as_bits sk ! i = rs_b (r_s ! i)"
      using xor_bits [OF b wf_key_bit [OF sk i]] i by (simp_all only: bits_masked_def length_upt nth_map nth_upt
          diff_zero add_0 conj_absorb simp_thms)
    have "c = masks_commitment cr v (rs_ot_block (r_s ! i))"
      using c i len by (simp add: masks_commitment_def server_masks_def first_run_def mult.commute)
    with x b blk i len v show ?thesis
      by (auto simp: all_masks_def masks_pair_def)
  qed
  then show ?thesis by (auto simp: server_masks_holds_def list_all_iff Let_def)
qed

lemma sum_of_masks_honest:
  assumes len: "length r_s = par_N" and sums: "mask_sums_are xof sk r_s v sums"
  shows "sum_of_masks_holds sk (server_masks xof r_s v) sums"
proof -
  have "\<forall>row \<in> set (server_masks xof r_s v). \<forall>r \<in> set row. unat r < 4096"
    by (auto simp: server_masks_def in_set_conv_nth unat_expand mask_at_def Let_def)
  then have "list_all (\<lambda>r. r < par_Q) (concat (server_masks xof r_s v))"
    by (auto simp: list_all_iff less_par_Q)
  with sums show ?thesis
    by (simp add: sum_of_masks_holds_def list_all_iff mask_sums_are_def column_server_masks [OF len] del: upt_Suc)
qed

section \<open>Proving and verifying\<close>

lemma zip_map_es:
  "length c = length m \<Longrightarrow>
     map (\<lambda>(c_v, m_v). \<lparr> es_c = c_v, es_m = m_v \<rparr>) (zip c m) = map2 (\<lambda>c_v m_v. \<lparr> es_c = c_v, es_m = m_v \<rparr>) c m"
  by simp

text \<open>The witness of an honest server, and the statement it proves.\<close>

definition honest_witness ::
  "('c, 'proof, 'pe, 've) crypto \<Rightarrow> secret_key \<Rightarrow> rs_entry list \<Rightarrow> block list list \<Rightarrow> nat \<Rightarrow> preprocessing_witness \<Rightarrow> bool" where
  "honest_witness cr sk r_s dblocks ev w \<longleftrightarrow> pw_sk w = sk \<and>
     pw_ot_blocks w = map (\<lambda>entry. randomness (rs_ot_block entry)) r_s \<and> length (pw_evaluations w) = ev \<and>
     (\<forall>v < ev. let ew = pw_evaluations w ! v in ew_masks ew = server_masks (cr_xof cr) r_s v \<and>
        ew_m_randomness ew = mask_sum_randomness (cr_hash cr) (dblocks ! (16 * v)) \<and>
        mask_sums_are (cr_xof cr) sk r_s v (ew_r_sigma_sums ew))"

abbreviation honest_statement ::
  "('c, 'proof, 'pe, 've) crypto \<Rightarrow> secret_key \<Rightarrow> rs_entry list \<Rightarrow> (block \<times> block) list \<Rightarrow> nat \<Rightarrow> preprocessing_witness
     \<Rightarrow> ('c, 'c, 'c) preprocessing_statement" where
  "honest_statement cr sk r_s pairs ev w \<equiv>
     preprocessing_honest (commit_key cr) (commit_mask_sum cr) w (bits_masked sk r_s) (all_masks cr pairs ev)"

lemma honest_witness_Some:
  assumes len: "length r_s = par_N" and ev: "ev * 16 \<le> length dblocks"
  shows "\<exists>w. preprocessing_witness_of cr sk r_s dblocks ev = Some w \<and> honest_witness cr sk r_s dblocks ev w"
proof -
  let ?mr = "\<lambda>v. mask_sum_randomness (cr_hash cr) (dblocks ! (16 * v))"
  let ?f = "\<lambda>v. do { blocks0 \<leftarrow> idx dblocks (v * RUNS_PER_EVALUATION);
         evaluation_witness_of (cr_xof cr) sk r_s v (mask_sum_randomness (cr_hash cr) blocks0) }"
  let ?P = "\<lambda>v ew. ew_masks ew = server_masks (cr_xof cr) r_s v \<and> ew_m_randomness ew = ?mr v \<and>
              mask_sums_are (cr_xof cr) sk r_s v (ew_r_sigma_sums ew)"
  have "\<exists>ew. ?f v = Some ew \<and> ?P v ew" if v: "v < ev" for v
  proof -
    have "v * 16 < length dblocks" using v ev by linarith
    then show ?thesis
      using evaluation_witness_Some [OF len, of "cr_xof cr" sk v "?mr v"] by (auto simp: mult.commute)
  qed
  from opt_map_upt [of ev ?f ?P, OF this] obtain evs where
    evs: "opt_map ?f [0..<ev] = Some evs" "length evs = ev" "\<forall>v < ev. ?P v (evs ! v)" by blast
  have "opt_map (\<lambda>i. map_option (\<lambda>entry. randomness (rs_ot_block entry)) (idx r_s i)) [0..<par_N]
      = Some (map (\<lambda>i. randomness (rs_ot_block (r_s ! i))) [0..<par_N])"
    by (rule opt_map_total) (simp add: len)
  also have "map (\<lambda>i. randomness (rs_ot_block (r_s ! i))) [0..<par_N] = map (\<lambda>entry. randomness (rs_ot_block entry)) r_s"
    by (rule map_upt_nth [OF len, where f = "\<lambda>entry. randomness (rs_ot_block entry)"])
  finally show ?thesis
    using evs by (simp add: preprocessing_witness_of_def honest_witness_def Let_def del: RUNS_16)
qed

lemma honest_witness_wf:
  assumes w: "honest_witness cr sk r_s dblocks ev w" and sk: "wf_key sk" and len: "length r_s = par_N"
  shows "wf_preprocessing_witness w"
proof -
  have "wf_evaluation_witness (pw_evaluations w ! v)" if "v < ev" for v
    using w that len by (auto simp: honest_witness_def Let_def wf_evaluation_witness_def wf_masks_def server_masks_def mask_sums_are_def)
  then show ?thesis
    using w sk len by (auto simp: wf_preprocessing_witness_def honest_witness_def Let_def in_set_conv_nth)
qed

lemma all_masks_committed:
  assumes "length pairs = par_N" and "v < ev"
  shows "length (all_masks cr pairs ev ! v) = par_N \<and>
    (\<forall>(c_0, c_1) \<in> set (all_masks cr pairs ev ! v). masks_committed cr c_0 \<and> masks_committed cr c_1)"
proof -
  have "masks_committed cr (masks_commitment cr v block)" for block
    unfolding masks_committed_def masks_commitment_def by (rule exI, rule conjI [rotated], rule refl) simp
  with assms show ?thesis by (auto simp: all_masks_def masks_pair_def in_set_conv_nth case_prod_unfold)
qed

lemma honest_statement_holds:
  assumes w: "honest_witness cr sk r_s dblocks ev w" and agree: "binary_agree pairs r_s" and sk: "wf_key sk" and ev: "0 < ev"
  shows "cr_preprocessing_holds cr (honest_statement cr sk r_s pairs ev w) w"
proof -
  let ?b = "bits_masked sk r_s" and ?c = "all_masks cr pairs ev"
  have len: "length r_s = par_N" "length pairs = par_N" using agree by (simp_all add: binary_agree_def)
  have evs: "length (pw_evaluations w) = ev" using w by (simp add: honest_witness_def)
  have "evaluation_consistent (commit_masks cr) ?b w (?c ! v) (pw_evaluations w ! v)" if "v < ev" for v
    using w that server_masks_holds_honest [OF agree sk that, of cr] sum_of_masks_honest [OF len(1)]
    by (simp add: evaluation_consistent_def honest_witness_def Let_def)
  then have "preprocessing_holds_for (commit_key cr) (commit_masks cr) (commit_mask_sum cr) (honest_statement cr sk r_s pairs ev w) w"
    using ev evs by (intro preprocessing_honest_holds) (auto simp: all_masks_def)
  moreover have "length (es_c e) = par_N \<and> (\<forall>(c_0, c_1) \<in> set (es_c e). masks_committed cr c_0 \<and> masks_committed cr c_1)"
    if e: "e \<in> set (ps_evaluations (honest_statement cr sk r_s pairs ev w))" for e
  proof -
    obtain v where "v < ev" "es_c e = ?c ! v" using e evs by (auto simp: preprocessing_honest_def all_masks_def in_set_conv_nth)
    with all_masks_committed [OF len(2)] show ?thesis by metis
  qed
  ultimately show ?thesis
    using honest_witness_wf [OF w sk len(1)] by (auto simp: cr_preprocessing_holds_def preprocessing_honest_def bits_masked_def)
qed

lemma prove_and_finish:
  fixes cr :: "('c, 'proof, 'pe, 've) crypto"
  assumes agree: "binary_agree pairs r_s" and sk: "wf_key sk" and complete: "complete_preprocessing cr"
    and ev: "0 < ev" "ev * 16 \<le> length dblocks"
  shows "\<exists>message. (server_prove cr sk r_s (bits_masked sk r_s) (all_masks cr pairs ev) dblocks
             :: (('pe, 've) preproc_error, _) res) = Ok (message, \<lparr> sv_delta_ot_blocks = dblocks \<rparr>)
     \<and> (client_finish cr (VerifiedKey (commit_key cr sk)) (bits_masked sk r_s) (all_masks cr pairs ev) d message
             :: (('pe, 've) preproc_error, _) res)
         = Ok \<lparr> cv_pk = VerifiedKey (commit_key cr sk), cv_m = pp_m message, cv_d = d \<rparr>
     \<and> length (pp_m message) = ev
     \<and> (\<forall>v < ev. \<exists>sums. mask_sums_are (cr_xof cr) sk r_s v sums \<and>
           pp_m message ! v = commit_mask_sum cr \<lparr> msi_r_sigma_sums = sums,
             msi_randomness = mask_sum_randomness (cr_hash cr) (dblocks ! (16 * v)) \<rparr>)"
proof -
  have len: "length r_s = par_N" using agree by (simp add: binary_agree_def)
  let ?b = "bits_masked sk r_s" and ?c = "all_masks cr pairs ev" and ?pk = "VerifiedKey (commit_key cr sk)"
  obtain w where w: "preprocessing_witness_of cr sk r_s dblocks ev = Some w" and honest: "honest_witness cr sk r_s dblocks ev w"
    using honest_witness_Some [OF len ev(2)] by blast
  let ?st = "honest_statement cr sk r_s pairs ev w"
  from complete honest_statement_holds [OF honest agree sk ev(1)]
  obtain p where p: "prove_preprocessing cr ?st w = Ok p" "verify_preprocessing cr ?st p = Ok ()"
    by (auto simp: complete_preprocessing_def)
  define message where "message = \<lparr> pp_m = map es_m (ps_evaluations ?st), pp_proof = p \<rparr>"
  have evs: "length (pw_evaluations w) = ev" and c: "length ?c = ev" using honest by (simp_all add: honest_witness_def all_masks_def)
  have m: "length (pp_m message) = ev"
    "\<And>v. v < ev \<Longrightarrow> pp_m message ! v = commit_mask_sum cr \<lparr> msi_r_sigma_sums = ew_r_sigma_sums (pw_evaluations w ! v),
       msi_randomness = mask_sum_randomness (cr_hash cr) (dblocks ! (16 * v)) \<rparr>"
    using honest evs c by (simp_all add: message_def preprocessing_honest_def honest_witness_def Let_def)
  have "map (\<lambda>(c_v, m_v). \<lparr> es_c = c_v, es_m = m_v \<rparr>) (zip ?c (pp_m message)) = ps_evaluations ?st"
    using evs c m(1) by (intro nth_equalityI) (simp_all add: message_def preprocessing_honest_def)
  then have "client_statement ?pk ?b ?c (pp_m message) = ?st"
    using honest by (simp add: client_statement_def preprocessing_honest_def honest_witness_def)
  with p m(1) c have "client_finish cr ?pk ?b ?c d message
      = (Ok \<lparr> cv_pk = ?pk, cv_m = pp_m message, cv_d = d \<rparr> :: (('pe, 've) preproc_error, _) res)"
    by (simp add: client_finish_def message_def)
  moreover have "server_prove cr sk r_s ?b ?c dblocks
      = (Ok (message, \<lparr> sv_delta_ot_blocks = dblocks \<rparr>) :: (('pe, 've) preproc_error, _) res)"
    using w p c by (simp add: server_prove_def message_def Let_def)
  ultimately show ?thesis using m honest unfolding honest_witness_def Let_def by blast
qed

end
