(* ===== verification/ProtocolRun.thy ===== *)
theory ProtocolRun
  imports ProtocolProof
begin

text \<open>
  An honest preprocessing: the client and the server of \<open>Protocol\<close>, run against each other with
  random OTs that agree, end with states that \<open>match\<close>.
\<close>

section \<open>What is on the control stream\<close>

lemma read_tau_encode: "tau < 2 ^ 64 \<Longrightarrow> read_tau (encode_tau tau) = Ok tau"
  by (simp add: read_tau_def tau_bytes.decode_encode)

lemma length_encode_tau: "length (encode_tau tau) = 8"
  by (simp add: encode_tau_def)

lemma read_hello_bytes:
  assumes "length uid = 16" and "tau < 2 ^ 64"
  shows "read_hello (hello_bytes uid tau w) = Ok (uid, tau, w)"
  using assms
  by (simp add: read_hello_def hello_bytes_def HELLO_BYTES_def LAMBDA_BYTES_def Let_def length_encode_tau
      nth_append read_tau_encode)

lemma length_hello_bytes: "length uid = 16 \<Longrightarrow> length (hello_bytes uid tau w) = 25"
  by (simp add: hello_bytes_def encode_tau_def)

lemma control_fits:
  assumes "\<forall>n. frame n \<le> n + 9" and "length bs \<le> par_N"
  shows "control_message frame (MBytes bs) = Some bs"
proof -
  have "frame (length bs) \<le> length bs + 9" using assms(1) by blast
  with assms(2) have "frame (length bs) \<le> MAX_CONTROL_FRAME_BYTES"
    unfolding MAX_CONTROL_FRAME_BYTES_def by linarith
  then show ?thesis by simp
qed

section \<open>The OTs\<close>

definition ots_agree :: "ot_outcome \<Rightarrow> nat \<Rightarrow> nat \<Rightarrow> bool" where
  "ots_agree ot base tau \<longleftrightarrow>
     rot_agree (BINARY_OT_COUNT base) (fst (ot BinaryOt)) (fst (snd (ot BinaryOt))) (snd (snd (ot BinaryOt))) \<and>
     (case required_binary_ot_count base tau of None \<Rightarrow> False
      | Some n \<Rightarrow> rot_agree n (fst (ot DeltaOt)) (fst (snd (ot DeltaOt))) (snd (snd (ot DeltaOt))))"

definition kept_pairs :: "ot_outcome \<Rightarrow> (block \<times> block) list" where
  "kept_pairs ot = take par_N (fst (ot BinaryOt))"

definition kept_entries :: "ot_outcome \<Rightarrow> rs_entry list" where
  "kept_entries ot = rs_entries (snd (snd (ot BinaryOt))) (fst (snd (ot BinaryOt)))"

lemma binary_agree_kept:
  assumes "ots_agree ot base tau"
  shows "binary_agree (kept_pairs ot) (kept_entries ot)"
proof -
  obtain pairs blocks choices where ot: "ot BinaryOt = (pairs, blocks, choices)"
    by (cases "ot BinaryOt") auto
  have "par_N \<le> BINARY_OT_COUNT base" by (simp add: BINARY_OT_COUNT_def next_multiple_of_ge)
  with assms ot show ?thesis
    by (auto simp: ots_agree_def rot_agree_def binary_agree_def kept_pairs_def kept_entries_def
        rs_entries_def unwrap_u8_def)
qed

lemma delta_outcomes:
  fixes cr :: "('c, 'proof, 'pe, 've) crypto"
  assumes "ots_agree ot (cr_base_ot_count cr) tau" and "0 < tau"
  obtains n sent blocks choices where "required_binary_ot_count (cr_base_ot_count cr) tau = Some n"
    "rot_agree n (fst (ot DeltaOt)) (fst (snd (ot DeltaOt))) (snd (snd (ot DeltaOt)))"
    "delta_agree tau sent blocks choices"
    "delta_ot_send (cr_hash cr) (cr_base_ot_count cr) (\<lambda>_. Ok (fst (ot DeltaOt))) tau
      = (Ok sent :: (('pe, 've) preproc_error, _) res)"
    "delta_ot_receive (cr_hash cr) (cr_base_ot_count cr) (\<lambda>_. Ok (snd (ot DeltaOt))) tau
      = (Ok (blocks, choices) :: (('pe, 've) preproc_error, _) res)"
proof -
  let ?base = "cr_base_ot_count cr"
  obtain n where n: "required_binary_ot_count ?base tau = Some n"
    using assms(2) by (auto simp: required_binary_ot_count_def)
  have agree: "rot_agree n (fst (ot DeltaOt)) (fst (snd (ot DeltaOt))) (snd (snd (ot DeltaOt)))"
    using assms(1) n by (simp add: ots_agree_def)
  let ?send = "\<lambda>_. Ok (fst (ot DeltaOt))" and ?receive = "\<lambda>_. Ok (snd (ot DeltaOt))"
  obtain sent blocks choices where out:
    "delta_ot_send (cr_hash cr) ?base ?send tau = (Ok sent :: (('pe, 've) preproc_error, _) res)"
    "delta_ot_receive (cr_hash cr) ?base ?receive tau = (Ok (blocks, choices) :: (('pe, 've) preproc_error, _) res)"
    and ok: "length sent = tau" "length blocks = tau" "length choices = tau"
    "\<forall>j < tau. unat (choices ! j) < 16 \<and> length (sent ! j) = 16 \<and> length (blocks ! j) = 16
                \<and> (\<forall>c < 16. length (sent ! j ! c) = 16) \<and> sent ! j ! unat (choices ! j) = blocks ! j"
    using delta_ot_agree [OF n, of ?send "fst (ot DeltaOt)" ?receive "fst (snd (ot DeltaOt))"
        "snd (snd (ot DeltaOt))" "cr_hash cr"] agree by auto
  have "delta_agree tau sent blocks choices"
    using ok by (auto simp: delta_agree_def wf_blocks_def in_set_conv_nth)
  from n agree this out show ?thesis by (rule that)
qed

lemma delta_ots:
  fixes cr :: "('c, 'proof, 'pe, 've) crypto"
  assumes "ots_agree ot (cr_base_ot_count cr) tau" and "0 < tau"
  obtains sent blocks choices where
    "delta_agree tau sent blocks choices"
    "\<And>(f :: _ \<Rightarrow> ('c, 'proof, 'pe, 've, 'x) pproc) (g :: _ \<Rightarrow> ('c, 'proof, 'pe, 've, 'y) pproc) u d.
      live ot (Net (attempt (delta_ot_receive_on cr tau) f) (attempt (delta_ot_send_on cr tau) g) u d)
        (Net (f (blocks, choices)) (g sent) u d)"
proof -
  let ?base = "cr_base_ot_count cr"
  obtain n sent blocks choices where n: "required_binary_ot_count ?base tau = Some n"
    and agree: "rot_agree n (fst (ot DeltaOt)) (fst (snd (ot DeltaOt))) (snd (snd (ot DeltaOt)))"
    and delta: "delta_agree tau sent blocks choices"
    and out: "delta_ot_send (cr_hash cr) ?base (\<lambda>_. Ok (fst (ot DeltaOt))) tau = (Ok sent :: (('pe, 've) preproc_error, _) res)"
      "delta_ot_receive (cr_hash cr) ?base (\<lambda>_. Ok (snd (ot DeltaOt))) tau = (Ok (blocks, choices) :: (('pe, 've) preproc_error, _) res)"
    by (rule delta_outcomes [OF assms]) (rule that)
  have "live ot (Net (attempt (delta_ot_receive_on cr tau) f) (attempt (delta_ot_send_on cr tau) g) u d)
        (Net (f (blocks, choices)) (g sent) u d)"
    for f :: "_ \<Rightarrow> ('c, 'proof, 'pe, 've, 'x) pproc" and g :: "_ \<Rightarrow> ('c, 'proof, 'pe, 've, 'y) pproc" and u d
  proof -
    have "live ot (Net (attempt (ot_receive_on DeltaOt n) (\<lambda>out. attempt (Ret (delta_ot_receive (cr_hash cr) ?base
             (\<lambda>_. Ok out) tau)) f))
         (attempt (ot_send_on DeltaOt n) (\<lambda>out. attempt (Ret (delta_ot_send (cr_hash cr) ?base (\<lambda>_. Ok out) tau)) g)) u d)
       (Net (f (blocks, choices)) (g sent) u d)"
      by (rule live_trans [OF server_sends_ots]) (simp add: out live_refl)
    then show ?thesis
      by (simp add: delta_ot_receive_on_def delta_ot_send_on_def attempt_assoc n)
  qed
  with delta show ?thesis by (rule that)
qed

section \<open>The steps only a VOPRF has\<close>

lemma voprf_opens:
  "w = (pk \<noteq> None) \<Longrightarrow>
   live ot (Net (attempt (if pk = None then Ret (Ok ()) else voprf_open) f)
       (attempt (if w then voprf_open else Ret (Ok ())) g) u d) (Net (f ()) (g ()) u d)"
  by (simp add: both_voprf_open live_refl)

lemma masks_step:
  assumes agree: "binary_agree pairs r_s" and w: "w = (pk \<noteq> None)"
    and c: "c = (if w then all_masks cr pairs ev else [])"
  shows "live ot (Net (attempt (if pk = None then Ret (Ok []) else send_masks_commitments cr pairs ev) f)
       (attempt (if w then receive_masks_commitments cr r_s ev else Ret (Ok [])) g) quiet d)
     (Net (f c) (g c) quiet d)"
proof (cases w)
  case True
  with w obtain key where key: "pk = Some key" by auto
  have len: "length pairs = par_N" using agree by (simp add: binary_agree_def)
  then have "\<forall>c_v \<in> set (all_masks cr pairs ev). length c_v = par_N" by simp
  from masks_go_up [OF this, of ot "\<lambda>_. f c" "\<lambda>c'. attempt (Ret (if masks_match cr r_s c' then Ok c' else Err MasksMismatch)) g" d]
  show ?thesis
    using True key c masks_match_honest [OF agree, of cr ev]
    by (simp add: send_masks_commitments_def receive_masks_commitments_def attempt_assoc
        masks_commitments_Some [OF len])
qed (use w c in \<open>simp add: live_refl\<close>)

lemma pads_step:
  assumes agree: "delta_agree tau dblocks blocks choices" and ev: "ev * 16 \<le> tau" and w: "w = (pk \<noteq> None)"
    and c: "c = (if w then map (block_pad_commitments cr) (take (ev * 16) dblocks) else [])"
  shows "live ot (Net (attempt (if pk = None then Ret (Ok []) else receive_pads_commitments cr blocks choices ev) f)
       (attempt (if w then send_pads_commitments cr dblocks ev else Ret (Ok ())) g) u quiet)
     (Net (f c) (g ()) u quiet)"
proof (cases w)
  case True
  with w obtain key where key: "pk = Some key" by auto
  note pass = all_pads_pass [OF agree ev, of cr]
  have "\<forall>i < length (all_pads cr dblocks ev).
      check_pads_all cr blocks choices ((0 + i) * 16) (all_pads cr dblocks ev ! i) = Ok ()"
    using pass by simp
  from pads_go_down [OF pass(2) this, of ot f g u]
  have "live ot (Net (attempt (receive_pads cr blocks choices ev 0) f)
      (attempt (send_all VoprfChan (map MPads (all_pads cr dblocks ev))) g) u quiet) (Net (f c) (g ()) u quiet)"
    using True c pass(1) by (simp add: concat_all_pads)
  moreover have "pads_commitments cr dblocks ev = Some (all_pads cr dblocks ev)"
    using agree ev by (intro pads_commitments_Some) (auto simp: delta_agree_def)
  ultimately show ?thesis
    using True key by (simp add: receive_pads_commitments_def send_pads_commitments_def attempt_assoc)
qed (use w c in \<open>simp add: live_refl\<close>)

text \<open>What the client keeps of the proof, in terms of the server's masks and blocks.\<close>

definition sums_committed ::
  "('c, 'proof, 'pe, 've) crypto \<Rightarrow> secret_key \<Rightarrow> rs_entry list \<Rightarrow> block list list \<Rightarrow> nat \<Rightarrow> 'c list \<Rightarrow> bool"
where
  "sums_committed cr sk r_s dblocks ev m \<longleftrightarrow> length m = ev \<and>
     (\<forall>v < ev. \<exists>sums. mask_sums_are (cr_xof cr) sk r_s v sums \<and>
        m ! v = commit_mask_sum cr \<lparr> msi_r_sigma_sums = sums,
          msi_randomness = mask_sum_randomness (cr_hash cr) (dblocks ! (16 * v)) \<rparr>)"

definition voprf_kept ::
  "('c, 'proof, 'pe, 've) crypto \<Rightarrow> secret_key \<Rightarrow> rs_entry list \<Rightarrow> block list list \<Rightarrow> nat \<Rightarrow> bool
     \<Rightarrow> 'c client_voprf option \<Rightarrow> server_voprf option \<Rightarrow> bool" where
  "voprf_kept cr sk r_s dblocks ev w cv sv \<longleftrightarrow>
     (if w then \<exists>m. sums_committed cr sk r_s dblocks ev m \<and>
         cv = Some \<lparr> cv_pk = VerifiedKey (commit_key cr sk), cv_m = m,
                     cv_d = map (block_pad_commitments cr) (take (ev * 16) dblocks) \<rparr> \<and>
         sv = Some \<lparr> sv_delta_ot_blocks = dblocks \<rparr>
      else cv = None \<and> sv = None)"

lemma proof_step:
  fixes cr :: "('c, 'proof, 'pe, 've) crypto"
  assumes agree: "binary_agree pairs r_s" and sk: "wf_key sk"
    and pk: "pk = None \<or> pk = Some (VerifiedKey (commit_key cr sk)) \<and> complete_preprocessing cr \<and> 0 < ev"
    and w: "w = (pk \<noteq> None)" and ev: "ev * 16 \<le> length dblocks"
    and c: "c = (if w then all_masks cr pairs ev else [])"
    and d: "d = (if w then map (block_pad_commitments cr) (take (ev * 16) dblocks) else [])"
  obtains cv sv where "voprf_kept cr sk r_s dblocks ev w cv sv"
    "\<And>(f :: _ \<Rightarrow> ('c, 'proof, 'pe, 've, 'x) pproc) (g :: _ \<Rightarrow> ('c, 'proof, 'pe, 've, 'y) pproc) u.
      live ot (Net (attempt (case pk of None \<Rightarrow> Ret (Ok None)
              | Some key \<Rightarrow> attempt (finish_on cr key (bits_masked sk r_s) c d) (\<lambda>voprf. Ret (Ok (Some voprf)))) f)
        (attempt (if w then attempt (prove_on cr sk r_s (bits_masked sk r_s) c dblocks) (\<lambda>voprf. Ret (Ok (Some voprf)))
              else Ret (Ok None)) g) u quiet)
      (Net (f cv) (g sv) u quiet)"
proof (cases w)
  case False
  with w have "pk = None" by simp
  with False show ?thesis by (intro that [of None None]) (simp_all add: voprf_kept_def live_refl)
next
  case True
  let ?key = "VerifiedKey (commit_key cr sk)" and ?b = "bits_masked sk r_s"
  have key: "pk = Some ?key" and complete: "complete_preprocessing cr" and pos: "0 < ev"
    using True w pk by auto
  obtain message where message:
    "server_prove cr sk r_s ?b c dblocks = (Ok (message, \<lparr> sv_delta_ot_blocks = dblocks \<rparr>) :: (('pe, 've) preproc_error, _) res)"
    "client_finish cr ?key ?b c d message = (Ok \<lparr> cv_pk = ?key, cv_m = pp_m message, cv_d = d \<rparr> :: (('pe, 've) preproc_error, _) res)"
    "sums_committed cr sk r_s dblocks ev (pp_m message)"
    using prove_and_finish [OF agree sk complete pos ev, of d] True c by (auto simp: sums_committed_def)
  show ?thesis
  proof (rule that)
    show "voprf_kept cr sk r_s dblocks ev w (Some \<lparr> cv_pk = ?key, cv_m = pp_m message, cv_d = d \<rparr>)
        (Some \<lparr> sv_delta_ot_blocks = dblocks \<rparr>)"
      using True message(3) d by (auto simp: voprf_kept_def)
    fix f :: "_ \<Rightarrow> ('c, 'proof, 'pe, 've, 'x) pproc" and g :: "_ \<Rightarrow> ('c, 'proof, 'pe, 've, 'y) pproc" and u
    have "live ot (Net (attempt (recv_with proof_message ProofChan)
         (\<lambda>message. attempt (Ret (client_finish cr ?key ?b c d message)) (\<lambda>voprf. f (Some voprf))))
       (attempt (send_on ProofChan (MProof message)) (\<lambda>_. g (Some \<lparr> sv_delta_ot_blocks = dblocks \<rparr>))) u quiet)
      (Net (f (Some \<lparr> cv_pk = ?key, cv_m = pp_m message, cv_d = d \<rparr>)) (g (Some \<lparr> sv_delta_ot_blocks = dblocks \<rparr>)) u quiet)"
      by (rule live_trans [OF down_message [where a = message]]) (simp_all add: message(2) live_refl)
    then show "live ot (Net (attempt (case pk of None \<Rightarrow> Ret (Ok None)
              | Some key \<Rightarrow> attempt (finish_on cr key ?b c d) (\<lambda>voprf. Ret (Ok (Some voprf)))) f)
        (attempt (if w then attempt (prove_on cr sk r_s ?b c dblocks) (\<lambda>voprf. Ret (Ok (Some voprf)))
              else Ret (Ok None)) g) u quiet)
      (Net (f (Some \<lparr> cv_pk = ?key, cv_m = pp_m message, cv_d = d \<rparr>)) (g (Some \<lparr> sv_delta_ot_blocks = dblocks \<rparr>)) u quiet)"
      using True by (simp add: key finish_on_def prove_on_def attempt_assoc message(1))
  qed
qed

section \<open>The whole preprocessing\<close>

definition entries_of :: "block list \<Rightarrow> zdelta list \<Rightarrow> rc_entry list" where
  "entries_of blocks choices =
     map2 (\<lambda>block b_prime. \<lparr> rc_b_prime = b_prime, rc_r_prime = block ! 0 \<rparr>) blocks choices"

lemma rc_entries_Some:
  "\<forall>b \<in> set blocks. length b = 16 \<Longrightarrow> rc_entries blocks choices = Some (entries_of blocks choices)"
  unfolding rc_entries_def entries_of_def
  by (rule opt_map_total) (auto simp: r_prime_Some dest: set_zip_leftD)

lemma pads_of_Some:
  assumes "\<forall>bs \<in> set dblocks. wf_blocks bs"
  shows "pads_of dblocks = Some (map block_pads dblocks)"
proof -
  have "opt_map (\<lambda>k. do { b \<leftarrow> idx bs k; r_prime_from_block b }) [0..<16] = Some (block_pads bs)"
    if "wf_blocks bs" for bs
  proof -
    have len: "length bs = 16" and b: "\<And>j. j < 16 \<Longrightarrow> length (bs ! j) = 16"
      using that by (simp_all add: wf_blocks_def)
    have "opt_map (\<lambda>k. do { b \<leftarrow> idx bs k; r_prime_from_block b }) [0..<16]
        = Some (map (\<lambda>j. bs ! j ! 0) [0..<16])"
      by (rule opt_map_total) (simp add: len r_prime_Some b)
    then show ?thesis by (simp only: block_pads_def map_upt_nth [OF len, where f = "\<lambda>b. b ! 0"])
  qed
  with assms show ?thesis unfolding pads_of_def by (intro opt_map_total) simp
qed

text \<open>The states both sides end with.\<close>

definition honest_client ::
  "ot_outcome \<Rightarrow> secret_key \<Rightarrow> block list \<Rightarrow> zdelta list \<Rightarrow> uid \<Rightarrow> 'c client_voprf option \<Rightarrow> 'c client_state" where
  "honest_client ot sk blocks choices uid cv =
     \<lparr> cs_ot_blocks = kept_pairs ot, cs_bhat = bits_masked sk (kept_entries ot),
       cs_r_c = entries_of blocks choices, cs_uid = uid,
       cs_runs = runs_new (length (entries_of blocks choices)), cs_voprf = cv \<rparr>"

definition honest_server :: "ot_outcome \<Rightarrow> block list list \<Rightarrow> uid \<Rightarrow> server_voprf option \<Rightarrow> server_state" where
  "honest_server ot dblocks uid sv =
     \<lparr> ss_r_s = kept_entries ot, ss_s_s = map block_pads dblocks, ss_uid = uid,
       ss_runs = runs_new (length dblocks), ss_voprf = sv \<rparr>"

lemma bits_masked_ok:
  assumes "binary_agree pairs r_s" and "wf_key sk"
  shows "length (bits_masked sk r_s) = par_N" and "\<forall>b \<in> set (bits_masked sk r_s). b \<le> 1"
proof -
  show "length (bits_masked sk r_s) = par_N" by (simp add: bits_masked_def)
  have "rs_b (r_s ! i) XOR as_bits sk ! i \<le> 1" if "i < par_N" for i
    using xor_bits [of "rs_b (r_s ! i)" "as_bits sk ! i"] wf_key_bit [OF assms(2) that] assms(1) that
    by (auto simp: binary_agree_def)
  then show "\<forall>b \<in> set (bits_masked sk r_s). b \<le> 1" by (auto simp: bits_masked_def)
qed

lemma preprocessing_run:
  fixes cr :: "('c, 'proof, 'pe, 've) crypto"
  assumes tau: "0 < tau" "tau < 2 ^ 64" and uid: "length uid = 16" and sk: "wf_key sk"
    and frame: "\<forall>n. frame n \<le> n + 9" and ots: "ots_agree ot (cr_base_ot_count cr) tau"
    and pk: "pk = None \<or> pk = Some (VerifiedKey (commit_key cr sk)) \<and> complete_preprocessing cr \<and> 16 \<le> tau"
  obtains cv sv sent blocks choices where
    "live ot (Net (preproc_client_with cr frame pk tau uid) (preproc_server cr frame sk tau) quiet quiet)
       (Net (Ret (Ok (honest_client ot sk blocks choices uid cv))) (Ret (Ok (honest_server ot sent uid sv))) quiet quiet)"
    "binary_agree (kept_pairs ot) (kept_entries ot)" "delta_agree tau sent blocks choices"
    "voprf_kept cr sk (kept_entries ot) sent (evaluations_for tau) (pk \<noteq> None) cv sv"
proof -
  let ?ev = "evaluations_for tau" and ?w = "pk \<noteq> None"
  let ?pairs = "kept_pairs ot" and ?r_s = "kept_entries ot"
  let ?bhat = "bits_masked sk ?r_s"
  have ev: "?ev * 16 \<le> tau" by (simp add: evaluations_for_def H_ROWS_def)
  have pos: "?w \<Longrightarrow> 0 < ?ev" using pk by (auto simp: evaluations_for_def H_ROWS_def)
  have bin: "binary_agree ?pairs ?r_s" by (rule binary_agree_kept [OF ots])
  then have r_s: "length ?r_s = par_N" "length ?pairs = par_N" by (simp_all add: binary_agree_def)
  obtain sent blocks choices where delta: "delta_agree tau sent blocks choices"
    and delta_run: "\<And>(f :: _ \<Rightarrow> ('c, 'proof, 'pe, 've, 'c client_state) pproc)
        (g :: _ \<Rightarrow> ('c, 'proof, 'pe, 've, server_state) pproc) u d. live ot (Net (attempt (delta_ot_receive_on cr tau) f) (attempt (delta_ot_send_on cr tau) g) u d)
        (Net (f (blocks, choices)) (g sent) u d)"
    using delta_ots [OF ots tau(1)] by blast
  have sent: "length sent = tau" "\<forall>bs \<in> set sent. wf_blocks bs" and blocks: "\<forall>b \<in> set blocks. length b = 16"
    using delta by (auto simp: delta_agree_def in_set_conv_nth)
  let ?c = "if ?w then all_masks cr ?pairs ?ev else []"
  let ?d = "if ?w then map (block_pad_commitments cr) (take (?ev * 16) sent) else []"
  have pk': "pk = None \<or> pk = Some (VerifiedKey (commit_key cr sk)) \<and> complete_preprocessing cr \<and> 0 < ?ev"
    using pk pos by auto
  have fits: "?ev * 16 \<le> length sent" using ev sent(1) by simp
  obtain cv sv where kept: "voprf_kept cr sk ?r_s sent ?ev ?w cv sv"
    and end_run: "\<And>(f :: _ \<Rightarrow> ('c, 'proof, 'pe, 've, 'c client_state) pproc)
        (g :: _ \<Rightarrow> ('c, 'proof, 'pe, 've, server_state) pproc) u. live ot (Net (attempt (case pk of None \<Rightarrow> Ret (Ok None)
              | Some key \<Rightarrow> attempt (finish_on cr key ?bhat ?c ?d) (\<lambda>voprf. Ret (Ok (Some voprf)))) f)
        (attempt (if ?w then attempt (prove_on cr sk ?r_s ?bhat ?c sent) (\<lambda>voprf. Ret (Ok (Some voprf)))
              else Ret (Ok None)) g) u quiet)
      (Net (f cv) (g sv) u quiet)"
    by (rule proof_step [OF bin sk pk' refl fits refl refl, where ot = ot and 'x = "'c client_state" and 'y = server_state]) (rule that)
  have conds: "(tau = 0) = False" "(pk \<noteq> None \<and> ?ev = 0) = False" using tau(1) pos by (cases pk; simp)+
  have bhat: "length ?bhat = par_N" "list_all (\<lambda>b. b \<le> 1) ?bhat = True"
    using bits_masked_ok [OF bin sk] by (simp_all add: list_all_iff)
  note hello = up_message [where decode = "control_message frame", OF control_fits [OF frame, of "hello_bytes uid tau ?w"]]
  note echo = down_message [where decode = "control_message frame", OF control_fits [OF frame, of "encode_tau tau"]]
  note bits = down_message [where decode = "control_message frame", OF control_fits [OF frame, of ?bhat]]
  have "live ot (Net (preproc_client_with cr frame pk tau uid) (preproc_server cr frame sk tau) quiet quiet)
       (Net (Ret (Ok (honest_client ot sk blocks choices uid cv))) (Ret (Ok (honest_server ot sent uid sv))) quiet quiet)"
    unfolding preproc_client_with_def preproc_server_def
    apply (simp only: conds if_False)
    apply (rule live_trans [OF both_open])
    apply (rule live_trans [OF hello])
    apply (simp add: length_hello_bytes uid par_N_def)
    apply (simp only: read_hello_bytes [OF uid tau(2)] attempt_Ret case_prod_conv)
    apply (rule live_trans [OF echo])
    apply (simp add: length_encode_tau par_N_def)
    apply (simp only: read_tau_encode [OF tau(2)] attempt_Ret simp_thms if_False conds)
    apply (rule live_trans [OF voprf_opens [OF refl]])
    apply (rule live_trans [OF client_sends_ots])
    apply (simp only: Let_def case_prod_unfold kept_pairs_def [symmetric] kept_entries_def [symmetric])
    apply (rule live_trans [OF masks_step [OF bin refl refl]])
    apply (rule live_trans [OF delta_run])
    apply (simp only: fst_conv snd_conv rc_entries_Some [OF blocks] pads_of_Some [OF sent(2)] expect.simps attempt_Ret)
    apply (rule live_trans [OF pads_step [OF delta ev refl refl]])
    apply (simp only: masked_bits_Some [OF r_s(1) sk] expect.simps attempt_Ret)
    apply (rule live_trans [OF bits])
    apply (simp add: bhat)
    apply (simp only: bhat simp_thms if_False)
    apply (rule live_trans [OF end_run])
    apply (simp add: client_state_new_def server_state_new_def into_array_def r_s bhat honest_client_def honest_server_def live_refl)
    done
  then show ?thesis using bin delta kept by (rule that)
qed

end
