(* ===== verification/ProtocolEnd.thy ===== *)
theory ProtocolEnd
  imports ProtocolRun
begin

text \<open>
  What the two sides of a preprocessing end with: states that match after an honest run, and the same
  error on both sides when they disagree on \<open>tau\<close>.
\<close>

section \<open>The states of an honest run match\<close>

lemma bits_le_one: "unat (b :: u8) \<le> Suc 0 \<longleftrightarrow> b \<le> 1"
  by (simp add: word_le_nat_alt)

lemma honest_client_wf:
  assumes bin: "binary_agree (kept_pairs ot) (kept_entries ot)" and delta: "delta_agree tau sent blocks choices"
    and kept: "voprf_kept cr sk (kept_entries ot) sent (evaluations_for tau) w cv sv" and sk: "wf_key sk"
  shows "wf_client (honest_client ot sk blocks choices uid cv)"
proof -
  have len: "length (entries_of blocks choices) = tau" "evaluations_for tau * 16 \<le> tau"
    using delta by (simp_all add: entries_of_def delta_agree_def evaluations_for_def H_ROWS_def)
  have small: "\<forall>rc \<in> set (entries_of blocks choices). unat (rc_b_prime rc) < 16"
    using delta by (auto simp: entries_of_def delta_agree_def in_set_conv_nth)
  have "length (kept_pairs ot) = par_N" using bin by (simp add: binary_agree_def)
  moreover have "case cv of None \<Rightarrow> True | Some cv \<Rightarrow> length (cv_m cv) = evaluations_for tau \<and>
       length (cv_d cv) = evaluations_for tau * 16 \<and> (\<forall>d \<in> set (cv_d cv). length d = 16)"
    using kept delta len(2)
    by (auto simp: voprf_kept_def sums_committed_def delta_agree_def block_pad_commitments_def wf_blocks_def
        dest!: in_set_takeD split: if_splits)
  ultimately show ?thesis
    using bits_masked_ok [OF bin sk] len small
    by (cases cv) (simp_all add: wf_client_def honest_client_def runs_new_def wf_runs_def bits_le_one)
qed

lemma honest_server_wf:
  assumes bin: "binary_agree (kept_pairs ot) (kept_entries ot)" and delta: "delta_agree tau sent blocks choices"
    and kept: "voprf_kept cr sk (kept_entries ot) sent (evaluations_for tau) w cv sv"
  shows "wf_server (honest_server ot sent uid sv)" and "pads_consistent (honest_server ot sent uid sv)"
proof -
  have "\<forall>entry \<in> set (kept_entries ot). unat (rs_b entry) \<le> 1"
    using bin by (force simp: binary_agree_def in_set_conv_nth)
  moreover have "\<forall>bs \<in> set sent. length bs = 16 \<and> (\<forall>b \<in> set bs. length b = 16)"
    using delta by (simp add: delta_agree_def wf_blocks_def)
  ultimately show "wf_server (honest_server ot sent uid sv)"
    using bin kept
    by (auto simp: wf_server_def honest_server_def runs_new_def wf_runs_def binary_agree_def voprf_kept_def
        block_pads_def split: if_splits option.splits)
  show "pads_consistent (honest_server ot sent uid sv)"
    using kept by (auto simp: pads_consistent_def honest_server_def voprf_kept_def split: if_splits)
qed

lemma honest_matched:
  assumes bin: "binary_agree (kept_pairs ot) (kept_entries ot)" and delta: "delta_agree tau sent blocks choices"
  shows "matched sk (honest_client ot sk blocks choices uid cv) (honest_server ot sent uid sv)"
proof -
  have "rc_r_prime (entries_of blocks choices ! j)
      = map block_pads sent ! j ! unat (rc_b_prime (entries_of blocks choices ! j))"
    if "j < length (entries_of blocks choices)" for j
  proof -
    have j: "j < tau" "length sent = tau" "length blocks = tau" "length choices = tau"
      using that delta by (simp_all add: delta_agree_def entries_of_def)
    then have "wf_blocks (sent ! j)" and "unat (choices ! j) < 16" and "sent ! j ! unat (choices ! j) = blocks ! j"
      using delta by (simp_all add: delta_agree_def)
    with j show ?thesis by (simp add: entries_of_def block_pads_def wf_blocks_def)
  qed
  moreover have "length (entries_of blocks choices) = length sent"
    using delta by (simp add: delta_agree_def entries_of_def)
  ultimately show ?thesis
    using bin by (auto simp: matched_def honest_client_def honest_server_def binary_agree_def bits_masked_def Let_def)
qed

lemma honest_matched_voprf:
  assumes delta: "delta_agree tau sent blocks choices"
    and kept: "voprf_kept cr sk (kept_entries ot) sent (evaluations_for tau) w cv sv"
  shows "matched_voprf cr sk (honest_client ot sk blocks choices uid cv) (honest_server ot sent uid sv)"
proof (cases w)
  case True
  then obtain m where "sums_committed cr sk (kept_entries ot) sent (evaluations_for tau) m"
    and "cv = Some \<lparr> cv_pk = VerifiedKey (commit_key cr sk), cv_m = m,
                     cv_d = map (block_pad_commitments cr) (take (evaluations_for tau * 16) sent) \<rparr>"
    and "sv = Some \<lparr> sv_delta_ot_blocks = sent \<rparr>"
    using kept by (auto simp: voprf_kept_def)
  moreover have "evaluations_for tau * 16 \<le> length sent"
    using delta by (simp add: delta_agree_def evaluations_for_def H_ROWS_def)
  ultimately show ?thesis
    by (auto simp: matched_voprf_def honest_client_def honest_server_def sums_committed_def mask_sums_are_def)
qed (use kept in \<open>simp add: voprf_kept_def matched_voprf_def honest_client_def honest_server_def\<close>)

section \<open>A disagreement on \<open>tau\<close>\<close>

lemma mismatch_run:
  fixes cr :: "('c, 'proof, 'pe, 've) crypto"
  assumes tau: "0 < tau_c" "tau_c < 2 ^ 64" "0 < tau_s" "tau_s < 2 ^ 64" "tau_c \<noteq> tau_s"
    and uid: "length uid = 16" and frame: "\<forall>n. frame n \<le> n + 9"
    and pk: "pk = None \<or> 16 \<le> tau_c"
  shows "plain (Net (preproc_client_with cr frame pk tau_c uid) (preproc_server cr frame sk tau_s) quiet quiet)
     (Net (Ret (Err (TauMismatch tau_c tau_s))) (Ret (Err (TauMismatch tau_s tau_c))) quiet quiet)"
proof -
  have "pk \<noteq> None \<Longrightarrow> evaluations_for tau_c \<noteq> 0" using pk by (auto simp: evaluations_for_def H_ROWS_def)
  then have conds: "(tau_c = 0) = False" "(tau_s = 0) = False" "(pk \<noteq> None \<and> evaluations_for tau_c = 0) = False"
    "(tau_s \<noteq> tau_c) = True" "(tau_c \<noteq> tau_s) = True"
    using tau by (cases pk; simp)+
  note hello = plain_up_message [where decode = "control_message frame",
      OF control_fits [OF frame, of "hello_bytes uid tau_c (pk \<noteq> None)"]]
  note echo = plain_down_message [where decode = "control_message frame",
      OF control_fits [OF frame, of "encode_tau tau_s"]]
  show ?thesis
    unfolding preproc_client_with_def preproc_server_def
    apply (simp only: conds if_False)
    apply (rule plain_trans [OF plain_both_open])
    apply (rule plain_trans [OF hello])
     apply (simp add: length_hello_bytes uid par_N_def)
    apply (simp only: read_hello_bytes [OF uid tau(2)] attempt_Ret case_prod_conv)
    apply (rule plain_trans [OF echo])
     apply (simp add: length_encode_tau par_N_def)
    apply (simp only: read_tau_encode [OF tau(4)] attempt_Ret simp_thms if_True conds)
    apply (rule plain_refl)
    done
qed

end
