(* ===== verification/ClientChecks.thy ===== *)
theory ClientChecks
  imports ProtocolChecks ProtocolRun
begin

text \<open>
  What a client knows when \<open>preproc_client_with\<close> has returned a state, whatever the server sent: every
  check that the code makes on the way, read off any execution that ends in \<open>Ok\<close>. The proofs are in a
  logic of postconditions on processes: \<open>returns ok p Q\<close> has one rule per call.
\<close>

section \<open>Postconditions of a process\<close>

text \<open>Whatever the events, as long as each is \<open>ok\<close>, a result of \<open>p\<close> satisfies \<open>Q\<close>.\<close>

definition returns ::
  "('m event \<Rightarrow> bool) \<Rightarrow> ('m, ('e, 'a) res) proc \<Rightarrow> ('a \<Rightarrow> bool) \<Rightarrow> bool" where
  "returns ok p Q \<longleftrightarrow> (\<forall>es a. list_all ok es \<longrightarrow> after p es = Some (Ret (Ok a)) \<longrightarrow> Q a)"

lemma returnsD: "returns ok p Q \<Longrightarrow> list_all ok es \<Longrightarrow> after p es = Some (Ret (Ok a)) \<Longrightarrow> Q a"
  by (simp add: returns_def)

lemma returns_weaken: "returns ok p R \<Longrightarrow> (\<And>a. R a \<Longrightarrow> Q a) \<Longrightarrow> returns ok p Q"
  unfolding returns_def by blast

lemma returns_Ret: "(\<And>a. r = Ok a \<Longrightarrow> Q a) \<Longrightarrow> returns ok (Ret r) Q"
  by (auto simp: returns_def dest: after_Ret)

lemma returns_Err: "returns ok (Ret (Err e)) Q"
  by (rule returns_Ret) simp

lemma returns_attempt:
  assumes p: "returns ok p R" and f: "\<And>a. R a \<Longrightarrow> returns ok (f a) Q"
  shows "returns ok (attempt p f) Q"
  unfolding returns_def
proof (intro allI impI)
  fix es b assume ok: "list_all ok es" and run: "after (attempt p f) es = Some (Ret (Ok b))"
  from after_attempt_OkD [OF run] obtain es1 es2 a where parts: "es = es1 @ es2"
    "after p es1 = Some (Ret (Ok a))" "after (f a) es2 = Some (Ret (Ok b))" by blast
  then have "list_all ok es1" "list_all ok es2" using ok by simp_all
  then show "Q b" using returnsD [OF f [OF returnsD [OF p _ parts(2)]] _ parts(3)] by simp
qed

lemma returns_fewer: "returns ok p Q \<Longrightarrow> (\<And>e. seen e \<Longrightarrow> ok e) \<Longrightarrow> returns seen p Q"
  unfolding returns_def by (metis list.pred_mono_strong)

lemma returns_any: "returns ok p (\<lambda>_. True)"
  by (simp add: returns_def)

text \<open>A call: what its event may hold is what the rest of the process starts from.\<close>

lemma returns_event:
  assumes "\<And>x. p \<noteq> Ret x" and "\<And>e p'. ok e \<Longrightarrow> react p e = Some p' \<Longrightarrow> returns ok p' Q"
  shows "returns ok p Q"
  unfolding returns_def
proof (intro allI impI)
  fix es a assume ok: "list_all ok es" and run: "after p es = Some (Ret (Ok a))"
  show "Q a"
  proof (cases es)
    case Nil
    then show ?thesis using run assms(1) by simp
  next
    case (Cons e es')
    with run obtain p' where "react p e = Some p'" "after p' es' = Some (Ret (Ok a))"
      by (auto split: option.splits)
    with Cons ok returnsD [OF assms(2)] show ?thesis by auto
  qed
qed

lemma returns_call:
  "(\<And>i. ok (ERecv ch i) \<Longrightarrow> returns ok (k1 i) Q) \<Longrightarrow> returns ok (Recv ch k1) Q"
  "(\<And>out. ok (EOtSend conn n out) \<Longrightarrow> returns ok (k2 out) Q) \<Longrightarrow> returns ok (OtSend conn n k2) Q"
  "(\<And>got. ok (EOtRecv conn n got) \<Longrightarrow> returns ok (k3 got) Q) \<Longrightarrow> returns ok (OtRecv conn n k3) Q"
  by (rule returns_event; auto elim!: react.elims split: if_splits)+

lemma returns_recv_with:
  assumes "\<And>m a. ok (ERecv ch (Msg m)) \<Longrightarrow> decode m = Some a \<Longrightarrow> Q a"
  shows "returns ok (recv_with decode ch) Q"
  unfolding recv_with_def recv_msg_def
  by (rule returns_call) (auto intro!: returns_Ret split: incoming.splits dest: assms elim!: ok_or.elims)

section \<open>Events\<close>

text \<open>
  What holds of an event whoever the peer is. The OT library hands out as many blocks as it was
  asked for, and a message has the shape of its type: an array of \<open>DELTA\<close> commitments for each run,
  each a \<open>digest\<close>, and an array of \<open>DELTA\<close> ring elements for each row of a response.
\<close>

fun event_ok :: "('c \<Rightarrow> bool) \<Rightarrow> ('c, 'proof) pmsg event \<Rightarrow> bool" where
  "event_ok digest (EOtSend conn n (Some pairs)) = (length pairs = n)"
| "event_ok digest (EOtRecv conn n (Some (blocks, choices))) = (length blocks = n \<and> length choices = n)"
| "event_ok digest (ERecv ch (Msg (MPads ds))) = (\<forall>d \<in> set ds. length d = DELTA \<and> (\<forall>x \<in> set d. digest x))"
| "event_ok digest (ERecv ch (Msg (MProof message))) = (\<forall>x \<in> set (pp_m message). digest x)"
| "event_ok digest (ERecv ch (Msg (MResponse resp))) = (\<forall>row \<in> set (rep_rows resp). length (resp_y row) = DELTA)"
| "event_ok digest _ = True"

text \<open>What a call returns was in one of the events that were \<open>seen\<close>.\<close>

lemma returns_ot_send_on: "returns seen (ot_send_on conn n) (\<lambda>pairs. seen (EOtSend conn n (Some pairs)))"
  unfolding ot_send_on_def by (rule returns_call, rule returns_Ret, auto elim!: ok_or.elims)

lemma returns_ot_receive_on: "returns seen (ot_receive_on conn n) (\<lambda>out. seen (EOtRecv conn n (Some out)))"
  unfolding ot_receive_on_def by (rule returns_call, rule returns_Ret, auto elim!: ok_or.elims)

section \<open>The OTs and the pads\<close>

definition wf_received :: "nat \<Rightarrow> block list \<Rightarrow> zdelta list \<Rightarrow> bool" where
  "wf_received tau blocks choices \<longleftrightarrow> length blocks = tau \<and> length choices = tau \<and>
     (\<forall>j < tau. length (blocks ! j) = 16 \<and> unat (choices ! j) < 16)"

lemma delta_ot_receive_lengths:
  assumes "delta_ot_receive h base (\<lambda>n. Ok out) count = Ok (bs, cs)"
    and "required_binary_ot_count base count = Some n" and "length (fst out) = n" and "length (snd out) = n"
  shows "wf_received count bs cs"
proof -
  let ?pairs = "zip (fst out) (fst out)"
  have "rot_agree n ?pairs (fst out) (snd out)" using assms(3,4) by (simp add: rot_agree_def)
  from delta_ot_agree [OF assms(2), of "\<lambda>n. Ok ?pairs" ?pairs "\<lambda>n. Ok out" "fst out" "snd out" h, OF _ _ this]
  obtain bs' cs' where "delta_ot_receive h base (\<lambda>n. Ok out :: ('a, _) res) count = Ok (bs', cs')"
    "length bs' = count" "length cs' = count" "\<forall>j < count. unat (cs' ! j) < 16 \<and> length (bs' ! j) = 16"
    by auto
  with assms(1) show ?thesis by (auto simp: wf_received_def)
qed

text \<open>The blocks that a receiver derives from what the binary random OTs gave it.\<close>

definition received_blocks ::
  "('c, 'proof, 'pe, 've) crypto \<Rightarrow> (('c, 'proof) pmsg event \<Rightarrow> bool) \<Rightarrow> nat \<Rightarrow> block list \<Rightarrow> zdelta list \<Rightarrow> bool" where
  "received_blocks cr seen tau blocks choices \<longleftrightarrow> (\<exists>n out. seen (EOtRecv DeltaOt n (Some out)) \<and>
     required_binary_ot_count (cr_base_ot_count cr) tau = Some n \<and>
     delta_ot_receive (cr_hash cr) (cr_base_ot_count cr) (\<lambda>_. Ok out) tau
       = (Ok (blocks, choices) :: (('pe, 've) preproc_error, _) res))"

lemma wf_received_blocks:
  fixes cr :: "('c, 'proof, 'pe, 've) crypto"
  assumes "received_blocks cr seen tau blocks choices" and "\<And>e. seen e \<Longrightarrow> event_ok digest e"
  shows "wf_received tau blocks choices"
proof -
  obtain n out where out: "seen (EOtRecv DeltaOt n (Some out))" "required_binary_ot_count (cr_base_ot_count cr) tau = Some n"
    "delta_ot_receive (cr_hash cr) (cr_base_ot_count cr) (\<lambda>_. Ok out) tau
       = (Ok (blocks, choices) :: (('pe, 've) preproc_error, _) res)"
    using assms(1) unfolding received_blocks_def by (elim exE conjE) (rule that)
  have "length (fst out) = n" "length (snd out) = n" using assms(2) [OF out(1)] by (cases out; simp)+
  with out show ?thesis by (auto dest: delta_ot_receive_lengths)
qed

lemma returns_delta_ot_receive_on:
  "returns seen (delta_ot_receive_on cr tau) (\<lambda>(blocks, choices). received_blocks cr seen tau blocks choices)"
  unfolding delta_ot_receive_on_def
  apply (rule returns_attempt [where R = "\<lambda>n. required_binary_ot_count (cr_base_ot_count cr) tau = Some n"])
  subgoal by (rule returns_Ret) (auto elim!: expect.elims)
  apply (rule returns_attempt [OF returns_ot_receive_on], rule returns_Ret)
  unfolding received_blocks_def case_prod_unfold prod.collapse
  apply blast
  done

text \<open>The pads commitments the client kept: of every run, the one it can open is to its own pad.\<close>

definition own_pad ::
  "('c, 'proof, 'pe, 've) crypto \<Rightarrow> block list \<Rightarrow> zdelta list \<Rightarrow> nat \<Rightarrow> 'c list \<Rightarrow> bool" where
  "own_pad cr blocks choices j d \<longleftrightarrow> d ! unat (choices ! j)
     = commit_pad cr \<lparr> pi_pad = blocks ! j ! 0, pi_randomness = randomness (blocks ! j) \<rparr>"

definition own_pads ::
  "('c, 'proof, 'pe, 've) crypto \<Rightarrow> block list \<Rightarrow> zdelta list \<Rightarrow> nat \<Rightarrow> 'c list list \<Rightarrow> bool" where
  "own_pads cr blocks choices run ds \<longleftrightarrow> (\<forall>k < length ds. own_pad cr blocks choices (run + k) (ds ! k))"

definition wf_pads :: "('c \<Rightarrow> bool) \<Rightarrow> nat \<Rightarrow> 'c list list \<Rightarrow> bool" where
  "wf_pads digest n ds \<longleftrightarrow> length ds = n \<and> (\<forall>d \<in> set ds. length d = DELTA \<and> (\<forall>x \<in> set d. digest x))"

lemma own_pads_append:
  assumes "own_pads cr blocks choices run ds" and "own_pads cr blocks choices (run + length ds) es"
  shows "own_pads cr blocks choices run (ds @ es)"
  unfolding own_pads_def
proof (intro allI impI)
  fix k assume k: "k < length (ds @ es)"
  show "own_pad cr blocks choices (run + k) ((ds @ es) ! k)"
  proof (cases "k < length ds")
    case True
    with assms(1) show ?thesis by (simp add: own_pads_def nth_append)
  next
    case False
    then have "run + length ds + (k - length ds) = run + k" by simp
    then have "own_pad cr blocks choices (run + k) (es ! (k - length ds))"
      using assms(2) k False unfolding own_pads_def by (metis add_diff_inverse_nat length_append nat_add_left_cancel_less)
    with False show ?thesis by (simp add: nth_append)
  qed
qed

lemma returns_check_pads_all:
  assumes "wf_received tau blocks choices" and "run + 16 \<le> tau" and "wf_pads digest 16 d"
  shows "returns ok (Ret (check_pads_all cr blocks choices run d)) (\<lambda>_. own_pads cr blocks choices run d)"
proof (rule returns_Ret)
  fix u assume run: "check_pads_all cr blocks choices run d = Ok u"
  have "\<forall>k < length d. own_pad cr blocks choices (run + k) (d ! k)"
    unfolding own_pad_def
    by (rule iffD1 [OF check_pads_all_Ok_iff]) (use assms run in \<open>auto simp: wf_received_def wf_pads_def\<close>)
  then show "own_pads cr blocks choices run d" by (simp add: own_pads_def)
qed

lemma returns_receive_pads:
  assumes "wf_received tau blocks choices" and "(v + n) * 16 \<le> tau"
  shows "returns (event_ok digest) (receive_pads cr blocks choices n v)
    (\<lambda>d. wf_pads digest (n * 16) d \<and> own_pads cr blocks choices (v * 16) d)"
  using assms
proof (induction n arbitrary: v)
  case 0
  show ?case by (simp, rule returns_Ret) (simp add: wf_pads_def own_pads_def)
next
  case (Suc n)
  have message: "returns (event_ok digest) (recv_with pads_message VoprfChan) (\<lambda>d. wf_pads digest (length d) d)"
    by (rule returns_recv_with) (auto simp: wf_pads_def elim!: pads_message.elims)
  have rest: "returns (event_ok digest) (receive_pads cr blocks choices n (Suc v))
      (\<lambda>d. wf_pads digest (n * 16) d \<and> own_pads cr blocks choices (Suc v * 16) d)"
    by (rule Suc.IH [OF Suc.prems(1)]) (use Suc.prems(2) in simp)
  have room: "v * 16 + 16 \<le> tau" using Suc.prems(2) by simp
  show ?case
  proof (subst receive_pads.simps, rule returns_attempt [OF message])
    fix d assume d: "wf_pads digest (length d) d"
    show "returns (event_ok digest) (if length d \<noteq> RUNS_PER_EVALUATION then Ret (Err (Malformed ''d has wrong length''))
       else attempt (Ret (check_pads_all cr blocks choices (v * RUNS_PER_EVALUATION) d))
         (\<lambda>_. attempt (receive_pads cr blocks choices n (Suc v)) (\<lambda>e. Ret (Ok (d @ e)))))
      (\<lambda>d. wf_pads digest (Suc n * 16) d \<and> own_pads cr blocks choices (v * 16) d)"
    proof (cases "length d = 16")
      case True
      with d have wf: "wf_pads digest 16 d" by simp
      have "returns (event_ok digest) (attempt (Ret (check_pads_all cr blocks choices (v * 16) d))
         (\<lambda>_. attempt (receive_pads cr blocks choices n (Suc v)) (\<lambda>e. Ret (Ok (d @ e)))))
        (\<lambda>d. wf_pads digest (Suc n * 16) d \<and> own_pads cr blocks choices (v * 16) d)"
        by (rule returns_attempt [OF returns_check_pads_all [OF Suc.prems(1) room wf]],
            rule returns_attempt [OF rest], rule returns_Ret)
          (use wf in \<open>auto simp: wf_pads_def add.commute intro!: own_pads_append\<close>)
      with True show ?thesis by (simp add: RUNS_PER_EVALUATION_def H_ROWS_def)
    qed (simp add: returns_Err RUNS_PER_EVALUATION_def H_ROWS_def)
  qed
qed

section \<open>The whole preprocessing\<close>

text \<open>The statement whose proof the client checked when the preprocessing ended.\<close>

definition checked_statement ::
  "('c, 'proof, 'pe, 've) crypto \<Rightarrow> 'c client_state \<Rightarrow> 'c client_voprf
     \<Rightarrow> ('c, 'c, 'c) preprocessing_statement" where
  "checked_statement cr cs cv =
     client_statement (cv_pk cv) (cs_bhat cs) (all_masks cr (cs_ot_blocks cs) (length (cv_m cv))) (cv_m cv)"

text \<open>What the client keeps of its checks: the proof verified, and every commitment to a pad that it can
  open is to its own pad, from the OT block it received.\<close>

definition checked_preprocessing ::
  "('c, 'proof, 'pe, 've) crypto \<Rightarrow> 'c client_state \<Rightarrow> 'c client_voprf \<Rightarrow> block list \<Rightarrow> 'proof \<Rightarrow> bool"
where
  "checked_preprocessing cr cs cv blocks p \<longleftrightarrow> wf_client cs \<and> cs_voprf cs = Some cv \<and>
     verify_preprocessing cr (checked_statement cr cs cv) p = Ok () \<and>
     (\<forall>j < length (cv_d cv). r_prime_from_block (blocks ! j) = Some (rc_r_prime (cs_r_c cs ! j)) \<and>
        cv_d cv ! j ! unat (rc_b_prime (cs_r_c cs ! j)) = commit_pad cr
          \<lparr> pi_pad = rc_r_prime (cs_r_c cs ! j), pi_randomness = randomness (blocks ! j) \<rparr>)"

definition client_checked ::
  "('c, 'proof, 'pe, 've) crypto \<Rightarrow> ('c \<Rightarrow> bool) \<Rightarrow> (('c, 'proof) pmsg event \<Rightarrow> bool)
     \<Rightarrow> 'c verified_key \<Rightarrow> nat \<Rightarrow> uid \<Rightarrow> 'c client_state \<Rightarrow> bool"
where
  "client_checked cr digest seen pk tau uid cs \<longleftrightarrow>
     (\<exists>cv blocks choices message n pairs.
        checked_preprocessing cr cs cv blocks (pp_proof message) \<and> cv_pk cv = pk \<and>
        (\<forall>m \<in> set (cv_m cv). digest m) \<and> (\<forall>d \<in> set (cv_d cv). \<forall>x \<in> set d. digest x) \<and>
        seen (ERecv ProofChan (Msg (MProof message))) \<and> received_blocks cr seen tau blocks choices \<and>
        seen (EOtSend BinaryOt n (Some pairs)) \<and> cs_ot_blocks cs = take par_N pairs) \<and>
     cs_runs cs = runs_new tau \<and> cs_uid cs = uid"

lemma client_checkedI:
  assumes tau: "evaluations_for tau = ev" and blocks: "received_blocks cr seen tau blocks choices"
    and events: "\<And>e. seen e \<Longrightarrow> event_ok digest e"
    and message: "seen (ERecv ProofChan (Msg (MProof message)))"
    and ots: "seen (EOtSend BinaryOt n (Some all_pairs))" "pairs = take par_N all_pairs"
    and pads: "wf_pads digest (ev * 16) d" "own_pads cr blocks choices 0 d"
    and pairs: "length pairs = par_N" and bhat: "length bhat = par_N" "list_all (\<lambda>b. b \<le> 1) bhat"
    and finish: "client_finish cr pk bhat (all_masks cr pairs ev) d message = Ok cv"
    and r_c: "rc_entries blocks choices = Some r_c"
    and state: "client_state_new pairs bhat r_c uid (Some cv) = Some cs"
  shows "client_checked cr digest seen pk tau uid cs"
proof -
  note received = wf_received_blocks [OF blocks events]
  have m: "\<forall>x \<in> set (pp_m message). digest x" using events [OF message] by simp
  have entries: "r_c = entries_of blocks choices"
  proof -
    have "\<forall>b \<in> set blocks. length b = 16" using received by (auto simp: wf_received_def in_set_conv_nth)
    from rc_entries_Some [OF this, of choices] r_c show ?thesis by simp
  qed
  have cv: "cv = \<lparr> cv_pk = pk, cv_m = pp_m message, cv_d = d \<rparr>" and len: "length (pp_m message) = ev"
    and verified: "verify_preprocessing cr (client_statement pk bhat (all_masks cr pairs ev) (pp_m message))
      (pp_proof message) = Ok ()"
    using finish by (auto simp: client_finish_def res_bind_Ok_iff map_err_Ok_iff split: if_splits)
  have cs: "cs = \<lparr> cs_ot_blocks = pairs, cs_bhat = bhat, cs_r_c = r_c, cs_uid = uid,
      cs_runs = runs_new tau, cs_voprf = Some cv \<rparr>"
    using state received
    by (auto simp: client_state_new_def into_array_def entries entries_of_def wf_received_def split: if_splits)
  have r: "length r_c = tau" "\<And>j. j < tau \<Longrightarrow> r_c ! j = \<lparr> rc_b_prime = choices ! j, rc_r_prime = blocks ! j ! 0 \<rparr>"
    using received by (simp_all add: entries entries_of_def wf_received_def)
  have fits: "ev * 16 \<le> tau" using tau by (simp add: evaluations_for_def H_ROWS_def)
  have "wf_client cs"
    using pairs bhat received pads r len
    by (auto simp: wf_client_def cs cv tau wf_pads_def wf_received_def runs_new_def wf_runs_def list_all_iff
        word_le_nat_alt in_set_conv_nth)
  moreover have "verify_preprocessing cr (checked_statement cr cs cv) (pp_proof message) = Ok ()"
    using verified by (simp add: checked_statement_def cs cv len)
  moreover have "r_prime_from_block (blocks ! j) = Some (rc_r_prime (cs_r_c cs ! j)) \<and>
        cv_d cv ! j ! unat (rc_b_prime (cs_r_c cs ! j)) = commit_pad cr
          \<lparr> pi_pad = rc_r_prime (cs_r_c cs ! j), pi_randomness = randomness (blocks ! j) \<rparr>"
    if "j < length (cv_d cv)" for j
    using that pads fits received
    by (auto simp: cs cv r wf_pads_def own_pads_def own_pad_def r_prime_Some wf_received_def)
  ultimately have "checked_preprocessing cr cs cv blocks (pp_proof message)"
    by (simp add: checked_preprocessing_def cs)
  moreover have "\<forall>d \<in> set (cv_d cv). \<forall>x \<in> set d. digest x" using pads by (simp add: cv wf_pads_def)
  ultimately show ?thesis
    unfolding client_checked_def
    by (intro conjI exI [of _ cv] exI [of _ blocks] exI [of _ choices] exI [of _ message] exI [of _ n] exI [of _ all_pairs])
      (use m blocks message ots in \<open>simp_all add: cs cv\<close>)
qed

text \<open>A check that ends the process otherwise, and a call of which there is nothing to know.\<close>

lemma returns_if_Err: "(\<not> b \<Longrightarrow> returns ok p Q) \<Longrightarrow> returns ok (if b then Ret (Err e) else p) Q"
  by (simp add: returns_Err)

lemma returns_then: "(\<And>a. returns ok (f a) Q) \<Longrightarrow> returns ok (attempt p f) Q"
  by (rule returns_attempt [OF returns_any])

lemma returns_expect: "returns ok (Ret (expect x)) (\<lambda>a. x = Some a)"
  by (rule returns_Ret) (auto elim!: expect.elims)

lemma returns_send_masks:
  assumes "length pairs = par_N"
  shows "returns ok (send_masks_commitments cr pairs ev) (\<lambda>c. c = all_masks cr pairs ev)"
  unfolding send_masks_commitments_def masks_commitments_Some [OF assms]
  by (rule returns_attempt [OF returns_expect], rule returns_then, rule returns_Ret) simp

lemma returns_finish_on:
  "returns seen (finish_on cr pk bhat c d)
     (\<lambda>cv. \<exists>message. client_finish cr pk bhat c d message = Ok cv \<and> seen (ERecv ProofChan (Msg (MProof message))))"
  unfolding finish_on_def
proof (rule returns_attempt)
  show "returns seen (recv_with proof_message ProofChan) (\<lambda>message. seen (ERecv ProofChan (Msg (MProof message))))"
    by (rule returns_recv_with) (auto elim!: proof_message.elims)
qed (rule returns_Ret, blast)

lemma returns_preproc_client:
  assumes events: "\<And>e. seen e \<Longrightarrow> event_ok digest e"
  shows "returns seen (preproc_client_with cr frame (Some pk) tau uid) (client_checked cr digest seen pk tau uid)"
proof -
  let ?ev = "evaluations_for tau" and ?Q = "client_checked cr digest seen pk tau uid"
  have end_run: "returns seen (attempt (attempt (finish_on cr pk bhat c d) (\<lambda>voprf. Ret (Ok (Some voprf))))
       (\<lambda>voprf. Ret (expect (client_state_new pairs bhat r_c uid voprf)))) ?Q"
    if "received_blocks cr seen tau blocks choices" "seen (EOtSend BinaryOt n (Some all_pairs))"
      "pairs = take par_N all_pairs" "wf_pads digest (?ev * 16) d" "own_pads cr blocks choices 0 d"
      "length pairs = par_N" "length bhat = par_N" "list_all (\<lambda>b. b \<le> 1) bhat" "c = all_masks cr pairs ?ev"
      "rc_entries blocks choices = Some r_c"
    for blocks choices d pairs all_pairs bhat r_c c n
  proof -
    have "returns seen (attempt (finish_on cr pk bhat c d) (\<lambda>voprf. Ret (Ok (Some voprf))))
       (\<lambda>voprf. \<exists>cv message. voprf = Some cv \<and> client_finish cr pk bhat c d message = Ok cv
          \<and> seen (ERecv ProofChan (Msg (MProof message))))"
      by (rule returns_attempt [OF returns_finish_on], rule returns_Ret) auto
    then show ?thesis
      by (rule returns_attempt, intro returns_Ret)
        (use that in \<open>auto elim!: expect.elims intro: client_checkedI [OF refl that(1) events _ that(2-8) _ that(10)]\<close>)
  qed
  show ?thesis
    unfolding preproc_client_with_def Let_def
    apply (rule returns_if_Err, rule returns_if_Err)
    apply (rule returns_then, rule returns_then, rule returns_then, rule returns_then)
    apply (rule returns_if_Err, rule returns_then)
    apply (simp only: if_False option.case option.distinct)
    apply (rule returns_attempt [OF returns_ot_send_on])
    subgoal premises prems for _ _ _ _ _ pairs
    proof -
      note ots = prems(4)
      have pairs: "length (take par_N pairs) = par_N"
        using events [OF ots] by (simp add: BINARY_OT_COUNT_def next_multiple_of_ge)
      show ?thesis
        apply (rule returns_attempt [OF returns_send_masks [OF pairs]])
        apply (rule returns_attempt [OF returns_delta_ot_receive_on])
        apply (simp only: case_prod_unfold)
        apply (rule returns_attempt [OF returns_expect])
        subgoal premises received for c blocks r_c
          unfolding receive_pads_commitments_def
          apply (rule returns_attempt [OF returns_fewer [OF returns_receive_pads [where v = 0 and tau = tau and digest = digest] events]])
          subgoal by (rule wf_received_blocks [OF received(2) events])
          subgoal by (simp add: evaluations_for_def H_ROWS_def)
          subgoal by assumption
          apply (rule returns_then, rule returns_if_Err, rule returns_if_Err)
          apply (rule end_run [OF received(2) ots refl])
          using received pairs apply simp_all
          done
        done
    qed
    done
qed

end
