(* ===== verification/Executions.thy ===== *)
theory Executions
  imports ClientChecks
begin

text \<open>
  Executions that end: what a process returns in some execution whose events all satisfy a predicate,
  put together call by call, and the execution of \<open>preproc_client_voprf\<close> that gives it the answers
  that pass its checks.
\<close>

section \<open>Processes that may return\<close>

text \<open>One of a sequence is one of each part.\<close>

definition may_return :: "('m event \<Rightarrow> bool) \<Rightarrow> ('m, 'r) proc \<Rightarrow> 'r \<Rightarrow> bool" where
  "may_return ok p r \<longleftrightarrow> (\<exists>es. list_all ok es \<and> after p es = Some (Ret r))"

lemma after_bind_Ret: "after p es1 = Some (Ret r) \<Longrightarrow> after (proc_bind p f) (es1 @ es2) = after (f r) es2"
proof (induction es1 arbitrary: p)
  case (Cons e es1)
  have "p \<noteq> Ret x" for x using Cons.prems by auto
  with Cons show ?case by (auto simp: react_bind split: option.splits)
qed simp

lemma may_return_Ret: "may_return ok (Ret r) r"
  unfolding may_return_def by (rule exI [of _ "[]"]) simp

lemma may_return_bind:
  assumes "may_return ok p a" and "may_return ok (f a) r"
  shows "may_return ok (proc_bind p f) r"
proof -
  obtain es1 es2 where "list_all ok es1" "after p es1 = Some (Ret a)"
    "list_all ok es2" "after (f a) es2 = Some (Ret r)"
    using assms by (auto simp: may_return_def)
  then show ?thesis
    unfolding may_return_def by (intro exI [of _ "es1 @ es2"]) (simp add: after_bind_Ret)
qed

lemma may_return_attempt:
  assumes "may_return ok p (Ok a)" and "may_return ok (f a) r"
  shows "may_return ok (attempt p f) r"
  unfolding attempt_def by (rule may_return_bind [OF assms(1)]) (simp add: assms(2))

lemma may_return_attempt_as:
  assumes "may_return ok p (Ok a)" and "may_return ok (f a) r"
  shows "may_return ok (attempt_as g p f) r"
  unfolding attempt_as_def by (rule may_return_bind [OF assms(1)]) (simp add: assms(2))

lemma may_return_react: "ok e \<Longrightarrow> react p e = Some p' \<Longrightarrow> may_return ok p' r \<Longrightarrow> may_return ok p r"
  unfolding may_return_def
proof (elim exE conjE)
  fix es assume "ok e" "react p e = Some p'" "list_all ok es" "after p' es = Some (Ret r)"
  then show "\<exists>es. list_all ok es \<and> after p es = Some (Ret r)" by (intro exI [of _ "e # es"]) simp
qed

lemma may_return_stream:
  "ok (EOpen ch True) \<Longrightarrow> may_return ok (open_stream e ch) (Ok ())"
  "ok (ESend ch m True) \<Longrightarrow> may_return ok (send_msg e ch m) (Ok ())"
  "ok (ERecv ch (Msg m)) \<Longrightarrow> decode m = Some a \<Longrightarrow> may_return ok (recv_msg closed broken decode ch) (Ok a)"
proof -
  show "may_return ok (open_stream e ch) (Ok ())" if "ok (EOpen ch True)"
    by (rule may_return_react [where ok = ok, OF that], simp add: open_stream_def) (rule may_return_Ret)
  show "may_return ok (send_msg e ch m) (Ok ())" if "ok (ESend ch m True)"
    by (rule may_return_react [where ok = ok, OF that], simp add: send_msg_def) (rule may_return_Ret)
  show "may_return ok (recv_msg closed broken decode ch) (Ok a)" if "ok (ERecv ch (Msg m))" "decode m = Some a"
    by (rule may_return_react [where ok = ok, OF that(1)], simp add: recv_msg_def that(2)) (rule may_return_Ret)
qed

lemma may_return_calls:
  "ok (EOpen ch True) \<Longrightarrow> may_return ok (open_on ch) (Ok ())"
  "ok (ESend ch m True) \<Longrightarrow> may_return ok (send_on ch m) (Ok ())"
  "ok (ERecv ch (Msg m)) \<Longrightarrow> decode m = Some a \<Longrightarrow> may_return ok (recv_with decode ch) (Ok a)"
  "ok (EOtSend conn n (Some pairs)) \<Longrightarrow> may_return ok (ot_send_on conn n) (Ok pairs)"
  "ok (EOtRecv conn n (Some out)) \<Longrightarrow> may_return ok (ot_receive_on conn n) (Ok out)"
proof -
  show "may_return ok (open_on ch) (Ok ())" if "ok (EOpen ch True)"
    unfolding open_on_def by (rule may_return_stream(1) [where ok = ok, OF that])
  show "may_return ok (send_on ch m) (Ok ())" if "ok (ESend ch m True)"
    unfolding send_on_def by (rule may_return_stream(2) [where ok = ok, OF that])
  show "may_return ok (recv_with decode ch) (Ok a)" if "ok (ERecv ch (Msg m))" "decode m = Some a"
    unfolding recv_with_def by (rule may_return_stream(3) [where ok = ok, OF that(1)]) (rule that(2))
  show "may_return ok (ot_send_on conn n) (Ok pairs)" if "ok (EOtSend conn n (Some pairs))"
    by (rule may_return_react [where ok = ok, OF that], simp add: ot_send_on_def) (rule may_return_Ret)
  show "may_return ok (ot_receive_on conn n) (Ok out)" if "ok (EOtRecv conn n (Some out))"
    by (rule may_return_react [where ok = ok, OF that], simp add: ot_receive_on_def) (rule may_return_Ret)
qed

lemma may_return_send_all:
  assumes "\<And>m. ok (ESend ch m True)"
  shows "may_return ok (send_all ch ms) (Ok ())"
  by (induction ms) (auto intro: may_return_Ret may_return_attempt may_return_calls assms)

lemma may_return_receive_pads:
  assumes "\<forall>d \<in> set ds. length d = 16 \<and> ok (ERecv VoprfChan (Msg (MPads d)))"
    and "\<forall>i < length ds. check_pads_all cr blocks choices ((v + i) * 16) (ds ! i) = Ok ()"
  shows "may_return ok (receive_pads cr blocks choices (length ds) v) (Ok (concat ds))"
  using assms
proof (induction ds arbitrary: v)
  case (Cons d ds)
  have one: "check_pads_all cr blocks choices (v * 16) d = Ok ()" using spec [OF Cons.prems(2), of 0] by simp
  have "check_pads_all cr blocks choices ((Suc v + i) * 16) (ds ! i) = Ok ()" if "i < length ds" for i
    using spec [OF Cons.prems(2), of "Suc i"] that by simp
  then have rest: "may_return ok (receive_pads cr blocks choices (length ds) (Suc v)) (Ok (concat ds))"
    using Cons.prems by (intro Cons.IH) simp_all
  have message: "may_return ok (recv_with pads_message VoprfChan) (Ok d)"
    by (rule may_return_calls(3) [of _ _ "MPads d"]) (use Cons.prems(1) in simp_all)
  have "may_return ok (attempt (receive_pads cr blocks choices (length ds) (Suc v))
      (\<lambda>e. Ret (Ok (d @ e)))) (Ok (d @ concat ds))"
    by (rule may_return_attempt [OF rest]) (rule may_return_Ret)
  with Cons.prems(1) one show ?case
    by (simp, intro may_return_attempt [OF message]) simp
qed (simp add: may_return_Ret)

section \<open>A preprocessing of the client\<close>

text \<open>What the client is told on the way, with which it ends in the state \<open>cs\<close>.\<close>

lemma client_execution:
  fixes cr :: "('c, 'proof, 'pe, 've) crypto"
  assumes calls: "\<And>ch. ok (EOpen ch True)" "\<And>ch m. ok (ESend ch m True)" "\<And>bs. ok (ERecv Control (Msg (MBytes bs)))"
    and tau: "0 < tau" "tau < 2 ^ 64" "evaluations_for tau = ev" "ev \<noteq> 0" and frame: "\<forall>n. frame n \<le> n + 9"
    and binary: "ok (EOtSend BinaryOt (BINARY_OT_COUNT (cr_base_ot_count cr)) (Some all_pairs))"
      "pairs = take par_N all_pairs" "length pairs = par_N"
    and received: "required_binary_ot_count (cr_base_ot_count cr) tau = Some n" "ok (EOtRecv DeltaOt n (Some out))"
      "delta_ot_receive (cr_hash cr) (cr_base_ot_count cr) (\<lambda>_. Ok out) tau
        = (Ok (blocks, choices) :: (('pe, 've) preproc_error, _) res)"
    and pads: "length ds = ev" "\<forall>d \<in> set ds. length d = 16 \<and> ok (ERecv VoprfChan (Msg (MPads d)))"
      "\<forall>i < ev. check_pads_all cr blocks choices (i * 16) (ds ! i) = Ok ()"
    and bhat: "length bhat = par_N" "list_all (\<lambda>b. b \<le> 1) bhat"
    and message: "ok (ERecv ProofChan (Msg (MProof message)))"
      "client_finish cr pk bhat (all_masks cr pairs ev) (concat ds) message = Ok cv"
    and state: "rc_entries blocks choices = Some r_c" "client_state_new pairs bhat r_c uid (Some cv) = Some cs"
  shows "may_return ok (preproc_client_voprf cr frame pk tau uid) (Ok cs)"
proof -
  note kept = binary(2) [symmetric]
  have control: "may_return ok (recv_with (control_message frame) Control) (Ok bs)" if "length bs \<le> par_N" for bs
  proof (rule may_return_calls(3) [where ok = ok, OF calls(3) [of bs]])
    have "frame (length bs) \<le> MAX_CONTROL_FRAME_BYTES"
      using spec [OF frame, of "length bs"] that by (simp add: MAX_CONTROL_FRAME_BYTES_def)
    then show "control_message frame (MBytes bs) = Some bs" by simp
  qed
  have opens: "may_return ok voprf_open (Ok ())"
    unfolding voprf_open_def by (rule may_return_attempt [OF may_return_calls(1)]) (rule calls(1), rule may_return_calls(1), rule calls(1))
  have masks: "may_return ok (send_masks_commitments cr pairs ev) (Ok (all_masks cr pairs ev))"
    unfolding send_masks_commitments_def masks_commitments_Some [OF binary(3)] expect.simps attempt_Ret
    by (rule may_return_attempt [OF may_return_send_all [where ok = ok, OF calls(2)]]) (rule may_return_Ret)
  have delta_run: "may_return ok (delta_ot_receive_on cr tau) (Ok (blocks, choices))"
    unfolding delta_ot_receive_on_def received(1) expect.simps attempt_Ret
    by (rule may_return_attempt [OF may_return_calls(5) [where ok = ok, OF received(2)]]) (simp only: received(3) may_return_Ret)
  have pads_run: "may_return ok (receive_pads cr blocks choices ev 0) (Ok (concat ds))"
    using may_return_receive_pads [of ds ok cr blocks choices 0] pads by simp
  have finished: "may_return ok (finish_on cr pk bhat (all_masks cr pairs ev) (concat ds)) (Ok cv)"
    unfolding finish_on_def
    by (rule may_return_attempt [OF may_return_calls(3) [of _ _ "MProof message"]], rule message(1), simp)
      (simp only: message(2) may_return_Ret)
  show ?thesis
    unfolding preproc_client_voprf_def preproc_client_with_def tau(3) Let_def
    apply (simp only: option.distinct option.case if_False simp_thms tau(4) tau(1) [THEN less_imp_neq, symmetric])
    apply (rule may_return_attempt [OF may_return_calls(1) [where ok = ok, OF calls(1)]])
    apply (rule may_return_attempt [OF may_return_calls(2) [where ok = ok, OF calls(2)]])
    apply (rule may_return_attempt [OF control [of "encode_tau tau"]])
    subgoal using length_encode_tau [of tau] by (simp add: par_N_def)
    apply (simp only: read_tau_encode [OF tau(2)] attempt_Ret simp_thms if_False)
    apply (rule may_return_attempt [OF opens])
    apply (rule may_return_attempt [OF may_return_calls(4) [where ok = ok, OF binary(1)]])
    apply (simp only: kept)
    apply (rule may_return_attempt [OF masks])
    apply (rule may_return_attempt [OF delta_run])
    apply (simp only: case_prod_conv state(1) expect.simps attempt_Ret receive_pads_commitments_def)
    apply (rule may_return_attempt [OF pads_run])
    apply (rule may_return_attempt [OF control [of bhat]])
    subgoal by (simp add: bhat)
    apply (simp only: bhat simp_thms if_False)
    apply (rule may_return_attempt [OF may_return_attempt [OF finished]])
    apply (rule may_return_Ret)
    apply (simp add: state(2))
    apply (rule may_return_Ret)
    done
qed

section \<open>A preprocessing of the server\<close>

text \<open>With a client that wants no VOPRF.\<close>

lemma server_execution:
  fixes cr :: "('c, 'proof, 'pe, 've) crypto"
  assumes calls: "\<And>ch. ok (EOpen ch True)" "\<And>ch m. ok (ESend ch m True)" "\<And>bs. ok (ERecv Control (Msg (MBytes bs)))"
    and tau: "0 < tau" "tau < 2 ^ 64" and uid: "length uid = 16" and frame: "\<forall>n. frame n \<le> n + 9"
    and binary: "ok (EOtRecv BinaryOt (BINARY_OT_COUNT (cr_base_ot_count cr)) (Some (ot_blocks, choices)))"
    and sent: "required_binary_ot_count (cr_base_ot_count cr) tau = Some n" "ok (EOtSend DeltaOt n (Some pairs))"
      "delta_ot_send (cr_hash cr) (cr_base_ot_count cr) (\<lambda>_. Ok pairs) tau
        = (Ok sent :: (('pe, 've) preproc_error, _) res)"
    and pads: "pads_of sent = Some s_s" and bhat: "masked_bits sk (rs_entries choices ot_blocks) = Some bhat"
    and state: "server_state_new (rs_entries choices ot_blocks) s_s uid None = Some ss"
  shows "may_return ok (preproc_server cr frame sk tau) (Ok ss)"
proof -
  let ?hello = "hello_bytes uid tau False"
  have hello: "may_return ok (recv_with (control_message frame) Control) (Ok ?hello)"
    by (rule may_return_calls(3) [where ok = ok, OF calls(3) [of ?hello]], rule control_fits [OF frame])
      (simp add: length_hello_bytes uid par_N_def)
  have delta_run: "may_return ok (delta_ot_send_on cr tau) (Ok sent)"
    unfolding delta_ot_send_on_def sent(1) expect.simps attempt_Ret
    by (rule may_return_attempt [OF may_return_calls(4) [where ok = ok, OF sent(2)]]) (simp only: sent(3) may_return_Ret)
  show ?thesis
    unfolding preproc_server_def Let_def
    apply (simp only: if_False tau(1) [THEN less_imp_neq, symmetric])
    apply (rule may_return_attempt [OF may_return_calls(1) [where ok = ok, OF calls(1)]])
    apply (rule may_return_attempt [OF hello])
    apply (simp only: read_hello_bytes [OF uid tau(2)] attempt_Ret case_prod_conv)
    apply (rule may_return_attempt [OF may_return_calls(2) [where ok = ok, OF calls(2)]])
    apply (simp only: simp_thms if_False attempt_Ret)
    apply (rule may_return_attempt [OF may_return_calls(5) [where ok = ok, OF binary]])
    apply (simp only: case_prod_conv)
    apply (rule may_return_attempt [OF delta_run])
    apply (simp only: pads bhat expect.simps attempt_Ret)
    apply (rule may_return_attempt [OF may_return_calls(2) [where ok = ok, OF calls(2)]])
    apply (simp only: state expect.simps)
    apply (rule may_return_Ret)
    done
qed

end
