(* ===== verification/KeyRelease.thy ===== *)
theory KeyRelease
  imports ClientChecks
begin

text \<open>
  When the server's key enters a preprocessing, whatever the client does. \<open>preproc_server\<close> is a part that
  does not have the key (\<open>server_before_key\<close>) and one that does (\<open>server_with_key\<close>), and the first ends
  only when the client's commitments to its masks have passed the server's check.
\<close>

section \<open>Two parts of a process\<close>

text \<open>Either the first part is over, or what has happened does not depend on the second.\<close>

lemma after_attempt_cases:
  fixes p :: "('m, ('e, 'a) res) proc" and f :: "'a \<Rightarrow> ('m, ('e, 'b) res) proc"
  assumes "after (attempt p f) es = Some q"
  shows "(\<exists>es1 es2 a. es = es1 @ es2 \<and> after p es1 = Some (Ret (Ok a)) \<and> after (f a) es2 = Some q)
    \<or> (\<forall>g :: 'a \<Rightarrow> ('m, ('e, 'b) res) proc. after (attempt p g) es \<noteq> None)"
  using assms
proof (induction es arbitrary: p)
  case Nil
  then show ?case by simp
next
  case (Cons e es)
  show ?case
  proof (cases "\<exists>r. p = Ret r")
    case True
    then obtain r where r: "p = Ret r" by blast
    show ?thesis
    proof (cases r)
      case (Ok a)
      with r have "after p [] = Some (Ret (Ok a))" "after (f a) (e # es) = Some q" using Cons.prems by simp_all
      then show ?thesis by (metis append_Nil)
    qed (use Cons.prems r in simp_all)
  next
    case False
    then have step: "react (attempt p g) e = map_option (\<lambda>p'. attempt p' g) (react p e)" for g :: "'a \<Rightarrow> ('m, ('e, 'b) res) proc"
      unfolding attempt_def by (intro react_bind) blast
    with Cons.prems obtain p' where p': "react p e = Some p'" "after (attempt p' f) es = Some q"
      by (auto split: option.splits)
    from Cons.IH [OF p'(2)] show ?thesis
    proof (elim disjE exE conjE)
      fix es1 es2 a assume "es = es1 @ es2" "after p' es1 = Some (Ret (Ok a))" "after (f a) es2 = Some q"
      with p'(1) have "e # es = (e # es1) @ es2" "after p (e # es1) = Some (Ret (Ok a))" by simp_all
      with \<open>after (f a) es2 = Some q\<close> show ?thesis by blast
    next
      assume "\<forall>g :: 'a \<Rightarrow> ('m, ('e, 'b) res) proc. after (attempt p' g) es \<noteq> None"
      with p'(1) show ?thesis by (simp add: step)
    qed
  qed
qed

section \<open>The server in two parts\<close>

type_synonym 'c before_key = "uid \<times> bool \<times> rs_entry list \<times> ('c \<times> 'c) list list \<times> block list list \<times> zp list list"

definition server_before_key ::
  "('c, 'proof, 'pe, 've) crypto \<Rightarrow> (nat \<Rightarrow> nat) \<Rightarrow> nat \<Rightarrow> ('c, 'proof, 'pe, 've, 'c before_key) pproc" where
  "server_before_key cr frame tau =
     (if tau = 0 then Ret (Err ZeroTau)
      else
     attempt (open_on Control) (\<lambda>_.
     attempt (recv_with (control_message frame) Control) (\<lambda>hello.
     attempt (Ret (read_hello hello)) (\<lambda>(uid, theirs, wants_voprf).
     attempt (send_on Control (MBytes (encode_tau tau))) (\<lambda>_.
     if theirs \<noteq> tau then Ret (Err (TauMismatch tau theirs))
     else if wants_voprf \<and> evaluations_for tau = 0 then Ret (Err (VoprfTauTooSmall tau))
     else
     attempt (if wants_voprf then voprf_open else Ret (Ok ())) (\<lambda>_.
     attempt (ot_receive_on BinaryOt (BINARY_OT_COUNT (cr_base_ot_count cr))) (\<lambda>(ot_blocks, choices).
     attempt (if wants_voprf then receive_masks_commitments cr (rs_entries choices ot_blocks) (evaluations_for tau)
              else Ret (Ok [])) (\<lambda>c.
     attempt (delta_ot_send_on cr tau) (\<lambda>delta_blocks.
     attempt (Ret (expect (pads_of delta_blocks))) (\<lambda>s_s.
     attempt (if wants_voprf then send_pads_commitments cr delta_blocks (evaluations_for tau)
              else Ret (Ok ())) (\<lambda>_.
     Ret (Ok (uid, wants_voprf, rs_entries choices ot_blocks, c, delta_blocks, s_s)))))))))))))"

definition server_with_key ::
  "('c, 'proof, 'pe, 've) crypto \<Rightarrow> secret_key \<Rightarrow> 'c before_key \<Rightarrow> ('c, 'proof, 'pe, 've, server_state) pproc" where
  "server_with_key cr sk = (\<lambda>(uid, wants_voprf, r_s, c, delta_blocks, s_s).
     attempt (Ret (expect (masked_bits sk r_s))) (\<lambda>bhat.
     attempt (send_on Control (MBytes bhat)) (\<lambda>_.
     attempt (if wants_voprf
              then attempt (prove_on cr sk r_s bhat c delta_blocks) (\<lambda>voprf. Ret (Ok (Some voprf)))
              else Ret (Ok None)) (\<lambda>voprf.
     Ret (expect (server_state_new r_s s_s uid voprf))))))"

lemma attempt_unless: "attempt (if c then Ret (Err e) else p) f = (if c then Ret (Err e) else attempt p f)"
  by simp

lemma preproc_server_parts:
  "preproc_server cr frame sk tau = attempt (server_before_key cr frame tau) (server_with_key cr sk)"
  unfolding preproc_server_def server_before_key_def server_with_key_def
  by (simp only: attempt_unless attempt_assoc case_prod_unfold Let_def attempt_Ret fst_conv snd_conv)

section \<open>What has been checked\<close>

text \<open>The client's commitment to the masks of every block that the server holds is the server's own.\<close>

fun masks_proven :: "('c, 'proof, 'pe, 've) crypto \<Rightarrow> nat \<Rightarrow> 'c before_key \<Rightarrow> bool" where
  "masks_proven cr tau (uid, wants_voprf, r_s, c, delta_blocks, s_s) \<longleftrightarrow> length r_s = par_N \<and>
     (wants_voprf \<longrightarrow> length c = evaluations_for tau \<and> (\<forall>v < length c. length (c ! v) = par_N \<and>
        (\<forall>i < par_N. (if rs_b (r_s ! i) = 0 then fst (c ! v ! i) else snd (c ! v ! i))
           = masks_commitment cr v (rs_ot_block (r_s ! i)))))"

lemma returns_unless: "(\<not> c \<Longrightarrow> returns ok p Q) \<Longrightarrow> returns ok (if c then Ret (Err e) else p) Q"
  by (simp add: returns_Err)

lemma returns_receive_masks:
  "returns ok (receive_masks n) (\<lambda>c. length c = n \<and> (\<forall>c_v \<in> set c. length c_v = par_N))"
proof (induction n)
  case 0
  show ?case unfolding receive_masks.simps by (rule returns_Ret) simp
next
  case (Suc n)
  show ?case
    unfolding receive_masks.simps
    by (rule returns_attempt [OF returns_any], rule returns_unless, rule returns_attempt [OF Suc.IH], rule returns_Ret) auto
qed

lemma masks_matchD:
  assumes "masks_match cr r_s c" and "length r_s = par_N" and "\<forall>c_v \<in> set c. length c_v = par_N"
    and "v < length c" and "i < par_N"
  shows "(if rs_b (r_s ! i) = 0 then fst (c ! v ! i) else snd (c ! v ! i)) = masks_commitment cr v (rs_ot_block (r_s ! i))"
proof -
  have len: "length (c ! v) = par_N" using assms(3,4) by simp
  have "(v, c ! v) \<in> set (enumerate 0 c)" using assms(4) by (auto simp: in_set_conv_nth nth_enumerate_eq)
  then have "list_all (\<lambda>(entry, c_i). (if rs_b entry = 0 then fst c_i else snd c_i) = masks_commitment cr v (rs_ot_block entry))
      (zip r_s (c ! v))"
    using assms(1) unfolding masks_match_def list_all_iff by (drule_tac bspec) (assumption, simp only: prod.case)
  moreover have "(r_s ! i, c ! v ! i) \<in> set (zip r_s (c ! v))"
    using assms(2,5) len by (auto simp: in_set_conv_nth)
  ultimately show ?thesis unfolding list_all_iff by (drule_tac bspec) (assumption, simp only: prod.case)
qed

lemma masks_provenI:
  assumes "length r_s = par_N"
    and "wants_voprf \<longrightarrow> masks_match cr r_s c \<and> length c = evaluations_for tau \<and> (\<forall>c_v \<in> set c. length c_v = par_N)"
  shows "masks_proven cr tau (uid, wants_voprf, r_s, c, delta_blocks, s_s)"
  unfolding masks_proven.simps
proof (intro conjI impI allI)
  fix v i assume wants: wants_voprf and v: "v < length c" and i: "i < par_N"
  with assms(2) have "masks_match cr r_s c" "\<forall>c_v \<in> set c. length c_v = par_N" by simp_all
  from masks_matchD [OF this(1) assms(1) this(2) v i]
  show "(if rs_b (r_s ! i) = 0 then fst (c ! v ! i) else snd (c ! v ! i)) = masks_commitment cr v (rs_ot_block (r_s ! i))" .
qed (use assms in simp_all)

lemma returns_receive_masks_commitments:
  "returns ok (receive_masks_commitments cr r_s n)
     (\<lambda>c. masks_match cr r_s c \<and> length c = n \<and> (\<forall>c_v \<in> set c. length c_v = par_N))"
  unfolding receive_masks_commitments_def
  by (rule returns_attempt [OF returns_receive_masks]) (auto intro!: returns_Ret split: if_splits)

text \<open>What the binary OTs give, for as many as were asked for.\<close>

lemma returns_ots:
  "returns (event_ok digest) (ot_receive_on conn n) (\<lambda>out. length (fst out) = n \<and> length (snd out) = n)"
  by (rule returns_weaken [OF returns_ot_receive_on]) (metis event_ok.simps(2) prod.collapse)

lemma length_rs_entries:
  assumes "length ot_blocks = BINARY_OT_COUNT base" and "length choices = BINARY_OT_COUNT base"
  shows "length (rs_entries choices ot_blocks) = par_N"
  using assms by (simp add: rs_entries_def BINARY_OT_COUNT_def next_multiple_of_ge)

lemma returns_before_key: "returns (event_ok digest) (server_before_key cr frame tau) (masks_proven cr tau)"
  unfolding server_before_key_def
  apply (rule returns_unless)
  apply (rule returns_attempt [OF returns_any])+
  apply (simp only: case_prod_unfold)
  apply (rule returns_attempt [OF returns_any])
  apply (rule returns_unless)+
  apply (rule returns_attempt [OF returns_any])
  apply (rule returns_attempt [OF returns_ots])
  subgoal for _ hello parsed _ _ out
    apply (rule returns_attempt [where R = "\<lambda>c. snd (snd parsed) \<longrightarrow> masks_match cr (rs_entries (snd out) (fst out)) c \<and>
        length c = evaluations_for tau \<and> (\<forall>c_v \<in> set c. length c_v = par_N)"])
    subgoal
      by (cases "snd (snd parsed)") (simp_all add: returns_receive_masks_commitments returns_Ret)
    apply (rule returns_attempt [OF returns_any])+
    apply (rule returns_Ret)
    apply (auto simp only: res.inject intro!: masks_provenI length_rs_entries)
    done
  done

end
