(* ===== verification/ProtocolProperties.thy ===== *)
theory ProtocolProperties
  imports ProtocolEnd Executions KeyRelease Examples
begin

text \<open>The properties of the preprocessing, each with a witness where it has hypotheses.\<close>

section \<open>Example OTs\<close>

definition ex_ots :: ot_outcome where
  "ex_ots c = (let n = (if c = BinaryOt then 512 else 128)
     in (replicate n (ex_block, ex_block), replicate n ex_block, replicate n False))"

lemma ex_ots_agree: "ots_agree ex_ots (cr_base_ot_count ex_crypto) 32"
  by (simp add: ots_agree_def ex_ots_def Let_def ex_crypto_def required_binary_ot_count_def next_multiple_of_def
      BINARY_OT_COUNT_def par_N_def rot_agree_def LOG_DELTA_def)

lemma ex_complete_preprocessing: "complete_preprocessing ex_crypto"
  by (simp add: complete_preprocessing_def cr_preprocessing_holds_def ex_crypto_def)

definition ex_pk :: "ex_commitment verified_key" where
  "ex_pk = VerifiedKey (commit_key ex_crypto ex_sk)"

section \<open>Honest runs\<close>

text \<open>
  C18: an honest preprocessing always succeeds. From any point of any interleaving of the two sides
  the run can only end with both returning \<open>Ok\<close>, and then both states are well formed, hold \<open>tau\<close>
  unspent runs and satisfy what the online phase needs of them. With a verified key this includes
  the commitments and the proof of the VOPRF.
\<close>

theorem preprocessing_matches:
  assumes "0 < tau" and "tau < 2 ^ 64" and "length uid = 16" and "wf_key sk"
    and "\<forall>n. frame n \<le> n + 9" and "ots_agree ot (cr_base_ot_count cr) tau"
    and "pk = None \<or> pk = Some (VerifiedKey (commit_key cr sk)) \<and> complete_preprocessing cr \<and> 16 \<le> tau"
    and "net_steps ot j (Net (preproc_client_with cr frame pk tau uid) (preproc_server cr frame sk tau) quiet quiet) m"
  shows "\<exists>cs ss. reach ot m (Net (Ret (Ok cs)) (Ret (Ok ss)) quiet quiet)
    \<and> wf_client cs \<and> wf_server ss \<and> pads_consistent ss \<and> matched sk cs ss \<and> matched_voprf cr sk cs ss
    \<and> client_remaining_runs cs = tau \<and> server_remaining_runs ss = tau \<and> cs_uid cs = uid
    \<and> map_option cv_pk (cs_voprf cs) = pk"
proof -
  obtain cv sv sent blocks choices where
    run: "live ot (Net (preproc_client_with cr frame pk tau uid) (preproc_server cr frame sk tau) quiet quiet)
       (Net (Ret (Ok (honest_client ot sk blocks choices uid cv))) (Ret (Ok (honest_server ot sent uid sv))) quiet quiet)"
      (is "live ot _ (Net (Ret (Ok ?cs)) (Ret (Ok ?ss)) _ _)")
    and bin: "binary_agree (kept_pairs ot) (kept_entries ot)" and delta: "delta_agree tau sent blocks choices"
    and kept: "voprf_kept cr sk (kept_entries ot) sent (evaluations_for tau) (pk \<noteq> None) cv sv"
    by (rule preprocessing_run [OF assms(1-7)])
  have "net_done (Net (Ret (Ok ?cs)) (Ret (Ok ?ss)) quiet quiet)" by (simp add: net_done_def)
  from reach_every_schedule [OF live_reach [OF run] this assms(8)] have "reach ot m (Net (Ret (Ok ?cs)) (Ret (Ok ?ss)) quiet quiet)" .
  moreover have "client_remaining_runs ?cs = tau" "server_remaining_runs ?ss = tau"
    using delta by (simp_all add: client_remaining_runs_def server_remaining_runs_def runs_remaining_def
        runs_new_def honest_client_def honest_server_def entries_of_def delta_agree_def)
  moreover have "map_option cv_pk (cs_voprf ?cs) = pk" "cs_uid ?cs = uid"
    using kept assms(7) by (auto simp: voprf_kept_def honest_client_def split: if_splits)
  ultimately show ?thesis
    using honest_client_wf [OF bin delta kept assms(4)] honest_server_wf [OF bin delta kept]
      honest_matched [OF bin delta] honest_matched_voprf [OF delta kept] by blast
qed

lemma preprocessing_matches_witness:
  "\<exists>cs ss. reach ex_ots (Net (preproc_client_with ex_crypto (\<lambda>n. n + 9) (Some ex_pk) 32 (replicate 16 7))
        (preproc_server ex_crypto (\<lambda>n. n + 9) ex_sk 32) quiet quiet)
      (Net (Ret (Ok cs)) (Ret (Ok ss)) quiet quiet)
    \<and> wf_client cs \<and> wf_server ss \<and> pads_consistent ss \<and> matched ex_sk cs ss \<and> matched_voprf ex_crypto ex_sk cs ss
    \<and> client_remaining_runs cs = 32 \<and> server_remaining_runs ss = 32 \<and> cs_uid cs = replicate 16 7
    \<and> map_option cv_pk (cs_voprf cs) = Some ex_pk"
  by (rule preprocessing_matches [OF _ _ _ ex_wf_sk _ ex_ots_agree _ net_steps.none])
    (simp_all add: ex_complete_preprocessing ex_pk_def)

text \<open>
  C25: a client and a server that were given different \<open>tau\<close> both fail with that error, each naming
  both numbers, in every interleaving and before any OT: in no network that they reach is either side
  about to run one.
\<close>

theorem tau_mismatch_fails_both:
  fixes cr :: "('c, 'proof, 'pe, 've) crypto"
  assumes "0 < tau_c" and "tau_c < 2 ^ 64" and "0 < tau_s" and "tau_s < 2 ^ 64" and "tau_c \<noteq> tau_s"
    and "length uid = 16" and "\<forall>n. frame n \<le> n + 9" and "pk = None \<or> 16 \<le> tau_c"
    and "net_steps ot j (Net (preproc_client_with cr frame pk tau_c uid) (preproc_server cr frame sk tau_s) quiet quiet) m"
  shows "reach ot m (Net (Ret (Err (TauMismatch tau_c tau_s))) (Ret (Err (TauMismatch tau_s tau_c))) quiet quiet)
    \<and> \<not> at_ot (net_client m) \<and> \<not> at_ot (net_server m)"
proof -
  let ?failed = "Net (Ret (Err (TauMismatch tau_c tau_s))) (Ret (Err (TauMismatch tau_s tau_c))) quiet quiet"
  have ended: "net_done ?failed" by (simp add: net_done_def)
  have "plain m ?failed" by (rule plain_every_schedule [OF assms(9) mismatch_run [OF assms(1-8)] ended])
  with plain_not_at_ot [OF this ended] show ?thesis by (blast intro: live_reach plain_live)
qed

lemma tau_mismatch_fails_both_witness:
  "reach ex_ots (Net (preproc_client_with ex_crypto (\<lambda>n. n + 9) None 16 (replicate 16 7))
      (preproc_server ex_crypto (\<lambda>n. n + 9) ex_sk 32) quiet quiet)
    (Net (Ret (Err (TauMismatch 16 32))) (Ret (Err (TauMismatch 32 16))) quiet quiet)
    \<and> \<not> at_ot (net_client (Net (preproc_client_with ex_crypto (\<lambda>n. n + 9) None 16 (replicate 16 7))
      (preproc_server ex_crypto (\<lambda>n. n + 9) ex_sk 32) quiet quiet))
    \<and> \<not> at_ot (net_server (Net (preproc_client_with ex_crypto (\<lambda>n. n + 9) None 16 (replicate 16 7))
      (preproc_server ex_crypto (\<lambda>n. n + 9) ex_sk 32) quiet quiet))"
  by (rule tau_mismatch_fails_both [OF _ _ _ _ _ _ _ _ net_steps.none]) simp_all

section \<open>A client against any server\<close>

lemma ex_client_execution:
  "\<exists>cs. may_return (event_ok (\<lambda>_. True)) (preproc_client_voprf ex_crypto (\<lambda>n. n + 9) ex_pk 32 (replicate 16 7)) (Ok cs)"
proof -
  let ?cr = ex_crypto and ?ok = "event_ok (\<lambda>_ :: ex_commitment. True) :: (ex_commitment, ex_proof) pmsg event \<Rightarrow> bool"
  let ?pairs = "kept_pairs ex_ots" and ?bhat = "bits_masked ex_sk (kept_entries ex_ots)"
  have bin: "binary_agree ?pairs (kept_entries ex_ots)" by (rule binary_agree_kept [OF ex_ots_agree])
  obtain n sent blocks choices where n: "required_binary_ot_count (cr_base_ot_count ?cr) 32 = Some n"
    and agree: "rot_agree n (fst (ex_ots DeltaOt)) (fst (snd (ex_ots DeltaOt))) (snd (snd (ex_ots DeltaOt)))"
    and delta: "delta_agree 32 sent blocks choices"
    and receive: "delta_ot_receive (cr_hash ?cr) (cr_base_ot_count ?cr) (\<lambda>_. Ok (snd (ex_ots DeltaOt))) 32
      = (Ok (blocks, choices) :: ((unit, unit) preproc_error, _) res)"
    by (rule delta_outcomes [OF ex_ots_agree]) simp_all
  let ?ds = "all_pads ?cr sent 2"
  have fits: "2 * 16 \<le> length sent" using delta by (simp add: delta_agree_def)
  obtain message where finish: "client_finish ?cr ex_pk ?bhat (all_masks ?cr ?pairs 2) (concat ?ds) message
      = (Ok \<lparr> cv_pk = ex_pk, cv_m = pp_m message, cv_d = concat ?ds \<rparr> :: ((unit, unit) preproc_error, _) res)"
    using prove_and_finish [OF bin ex_wf_sk ex_complete_preprocessing _ fits, of "concat ?ds"] by (auto simp: ex_pk_def)
  have blocks: "\<forall>b \<in> set blocks. length b = 16"
    using delta by (auto simp: delta_agree_def in_set_conv_nth)
  have out: "?ok (EOtRecv DeltaOt n (Some (snd (ex_ots DeltaOt))))"
    using agree by (cases "snd (ex_ots DeltaOt)") (simp add: rot_agree_def)
  have pads: "\<forall>d \<in> set ?ds. length d = 16 \<and> ?ok (ERecv VoprfChan (Msg (MPads d)))"
    using delta by (auto simp: all_pads_def delta_agree_def block_pad_commitments_def wf_blocks_def
        dest!: in_set_takeD in_set_dropD)
  have bhat: "length ?bhat = par_N" "list_all (\<lambda>b. b \<le> 1) ?bhat"
    using bits_masked_ok [OF bin ex_wf_sk] by (simp_all add: list_all_iff)
  have pairs: "length ?pairs = par_N" using bin by (simp add: binary_agree_def)
  have "\<exists>cs. client_state_new ?pairs ?bhat (entries_of blocks choices) (replicate 16 7)
      (Some \<lparr> cv_pk = ex_pk, cv_m = pp_m message, cv_d = concat ?ds \<rparr>) = Some cs"
    using pairs bhat by (simp add: client_state_new_def into_array_def)
  then obtain cs where state: "client_state_new ?pairs ?bhat (entries_of blocks choices) (replicate 16 7)
      (Some \<lparr> cv_pk = ex_pk, cv_m = pp_m message, cv_d = concat ?ds \<rparr>) = Some cs" ..
  have "may_return ?ok (preproc_client_voprf ex_crypto (\<lambda>n. n + 9) ex_pk 32 (replicate 16 7)) (Ok cs)"
  proof (rule client_execution [OF _ _ _ _ _ _ _ _ _ _ pairs n out receive _ pads _ bhat _ finish _ state])
    show "?ok (EOtSend BinaryOt (BINARY_OT_COUNT (cr_base_ot_count ?cr)) (Some (fst (ex_ots BinaryOt))))"
      using ex_ots_agree by (simp add: ots_agree_def rot_agree_def)
    show "\<forall>i < 2. check_pads_all ?cr blocks choices (i * 16) (?ds ! i) = Ok ()" "length ?ds = 2"
      using all_pads_pass [OF delta, of 2 ?cr] delta by (auto simp: delta_agree_def)
    show "rc_entries blocks choices = Some (entries_of blocks choices)" by (rule rc_entries_Some [OF blocks])
    show "?pairs = take par_N (fst (ex_ots BinaryOt))" by (simp add: kept_pairs_def)
  qed (simp_all add: evaluations_for_def H_ROWS_def)
  then show ?thesis ..
qed

text \<open>
  C14: whatever the server sends, a client that was given a verified key and whose preprocessing
  returned \<open>Ok\<close> has checked everything a VOPRF needs. Its state is well formed and holds \<open>tau\<close> unspent
  runs, the proof of the preprocessing has verified for the statement about that key, its own bits and
  its own commitments to its masks, and of every run the commitment to a pad that it can open is to
  its own pad, all of it from what the execution gave it: the proof it received and the blocks of its
  OTs (\<open>client_checked\<close>).
\<close>

theorem client_checks_everything:
  assumes "after (preproc_client_voprf cr frame pk tau uid) es = Some (Ret (Ok cs))"
    and "list_all (event_ok digest) es"
  shows "client_checked cr digest (\<lambda>e. e \<in> set es) pk tau uid cs"
proof (rule returnsD [OF returns_preproc_client])
  show "event_ok digest e" if "e \<in> set es" for e using assms(2) that by (simp add: list_all_iff)
  show "after (preproc_client_with cr frame (Some pk) tau uid) es = Some (Ret (Ok cs))"
    using assms(1) by (simp add: preproc_client_voprf_def)
qed (simp add: list_all_iff)

lemma client_checks_everything_witness:
  "\<exists>es cs. client_checked ex_crypto (\<lambda>_. True) (\<lambda>e. e \<in> set es) ex_pk 32 (replicate 16 7) cs"
proof -
  obtain es cs where "after (preproc_client_voprf ex_crypto (\<lambda>n. n + 9) ex_pk 32 (replicate 16 7)) es = Some (Ret (Ok cs))"
    "list_all (event_ok (\<lambda>_. True)) es"
    using ex_client_execution unfolding may_return_def by blast
  then show ?thesis by (intro exI) (rule client_checks_everything)
qed

section \<open>A server against any client\<close>

text \<open>
  C15: the server's key is safe until the client has shown its masks. Whatever a client does, either every
  message the server has sent so far is one that a server with any other key would have sent in its
  place, or the events began with those of a part of the protocol that does not have the key at all,
  which ended with every commitment of the client to masks that the server can check being right
  (\<open>masks_proven\<close>). So a client that commits to other masks, to learn a bit of the key from whether the
  proof fails, has seen nothing that depends on the key when the server stops.
\<close>

theorem key_waits_for_checks:
  assumes "after (preproc_server cr frame sk tau) es = Some p" and "list_all (event_ok digest) es"
  shows "(\<forall>sk'. \<exists>p'. after (preproc_server cr frame sk' tau) es = Some p') \<or>
    (\<exists>es1 es2 x. es = es1 @ es2 \<and> after (server_before_key cr frame tau) es1 = Some (Ret (Ok x)) \<and>
       after (server_with_key cr sk x) es2 = Some p \<and> masks_proven cr tau x)"
  using after_attempt_cases [OF assms(1) [unfolded preproc_server_parts]]
proof (elim disjE exE conjE)
  fix es1 es2 x assume parts: "es = es1 @ es2" "after (server_before_key cr frame tau) es1 = Some (Ret (Ok x))"
    "after (server_with_key cr sk x) es2 = Some p"
  have "list_all (event_ok digest) es1" using assms(2) parts(1) by simp
  from returnsD [OF returns_before_key this parts(2)] parts show ?thesis by blast
qed (simp add: preproc_server_parts)

lemma key_waits_for_checks_witness:
  "(\<forall>sk'. \<exists>p'. after (preproc_server ex_crypto (\<lambda>n. n + 9) sk' 32) [EOpen Control True] = Some p') \<or>
    (\<exists>es1 es2 x. [EOpen Control True] = es1 @ es2 \<and>
       after (server_before_key ex_crypto (\<lambda>n. n + 9) 32) es1 = Some (Ret (Ok x)) \<and>
       after (server_with_key ex_crypto ex_sk x) es2 = Some (the (after (preproc_server ex_crypto (\<lambda>n. n + 9) ex_sk 32) [EOpen Control True])) \<and>
       masks_proven ex_crypto 32 x)"
  by (rule key_waits_for_checks [where digest = "\<lambda>_. True"])
    (simp_all add: preproc_server_def open_on_def open_stream_def)

end
