(* ===== verification/Packing.thy ===== *)
theory Packing
  imports Modular
begin

text \<open>
  \<open>pool-oprf/src/packing.rs\<close>: vectors of \<open>LOG_Q\<close>-bit elements on the wire.

  The bit streams are those of the crate \<open>bitstream_io\<close> and are an argument, the record \<open>bit_io\<close>.
  \<open>bit_io_ok\<close> is what its documentation says of little-endian streams: a write appends the low bits of
  a value that fits, least significant first, and fails on one that does not; aligning pads with
  zeros to a byte; a read takes the next bits or fails when too few are left. A serialised vector is
  the pair of its count and its bytes that the code hands to serde.
\<close>

section \<open>Bit streams\<close>

record ('w, 'r) bit_io =
  bw_new :: 'w
  bw_write :: "nat \<Rightarrow> zq \<Rightarrow> 'w \<Rightarrow> 'w option"
  bw_align :: "'w \<Rightarrow> 'w option"
  bw_out :: "'w \<Rightarrow> bytes"
  br_new :: "bytes \<Rightarrow> 'r"
  br_read :: "nat \<Rightarrow> 'r \<Rightarrow> (zq \<times> 'r) option"

definition le_bits :: "nat \<Rightarrow> nat \<Rightarrow> bool list" where
  "le_bits n v = map (\<lambda>i. odd (v div 2 ^ i)) [0..<n]"

fun bits_value :: "bool list \<Rightarrow> nat" where
  "bits_value [] = 0"
| "bits_value (b # bs) = (if b then 1 else 0) + 2 * bits_value bs"

definition bytes_bits :: "bytes \<Rightarrow> bool list" where
  "bytes_bits bs = concat (map (\<lambda>b. le_bits 8 (unat b)) bs)"

definition bit_io_ok :: "('w, 'r) bit_io \<Rightarrow> ('w \<Rightarrow> bool list) \<Rightarrow> ('r \<Rightarrow> bool list) \<Rightarrow> bool" where
  "bit_io_ok io written left \<longleftrightarrow>
     written (bw_new io) = [] \<and>
     (\<forall>n v w. if unat v < 2 ^ n then \<exists>w'. bw_write io n v w = Some w' \<and> written w' = written w @ le_bits n (unat v)
              else bw_write io n v w = None) \<and>
     (\<forall>w. \<exists>w' k. bw_align io w = Some w' \<and> written w' = written w @ replicate k False \<and> k < 8 \<and>
              8 dvd length (written w')) \<and>
     (\<forall>w. 8 dvd length (written w) \<longrightarrow> bytes_bits (bw_out io w) = written w) \<and>
     (\<forall>bs. left (br_new io bs) = bytes_bits bs) \<and>
     (\<forall>n r. n \<le> 16 \<longrightarrow> (if length (left r) < n then br_read io n r = None
            else \<exists>r'. br_read io n r = Some (of_nat (bits_value (take n (left r))), r') \<and> left r' = drop n (left r)))"

section \<open>The operations (packing.rs)\<close>

text \<open>A failed write or alignment is a panic; a failed read ends \<open>unpack\<close> without a value.\<close>

definition pack :: "('w, 'r) bit_io \<Rightarrow> zq list \<Rightarrow> bytes option" where
  "pack io vals = do {
     writer \<leftarrow> fold (\<lambda>value writer. do { w \<leftarrow> writer; bw_write io LOG_Q value w }) vals (Some (bw_new io));
     writer \<leftarrow> bw_align io writer;
     Some (bw_out io writer) }"

fun unpack_from :: "('w, 'r) bit_io \<Rightarrow> nat \<Rightarrow> 'r \<Rightarrow> zq list option" where
  "unpack_from io 0 reader = Some []"
| "unpack_from io (Suc len) reader =
     (case br_read io LOG_Q reader of None \<Rightarrow> None
      | Some (value, reader) \<Rightarrow> map_option ((#) value) (unpack_from io len reader))"

definition unpack :: "('w, 'r) bit_io \<Rightarrow> nat \<Rightarrow> bytes \<Rightarrow> zq list option" where
  "unpack io len bs = unpack_from io len (br_new io bs)"

definition serialize_packed :: "('w, 'r) bit_io \<Rightarrow> zq list \<Rightarrow> (nat \<times> bytes) option" where
  "serialize_packed io vals = map_option (\<lambda>bs. (length vals, bs)) (pack io vals)"

datatype packed_error = WrongCount nat nat | ShortBytes

definition deserialize_packed ::
  "('w, 'r) bit_io \<Rightarrow> nat \<Rightarrow> nat \<times> bytes \<Rightarrow> (packed_error, zq list) res" where
  "deserialize_packed io len = (\<lambda>(count, bs).
     if count \<noteq> len then Err (WrongCount count len)
     else ok_or ShortBytes (unpack io len bs))"

section \<open>Bits\<close>

lemma length_le_bits [simp]: "length (le_bits n v) = n"
  by (simp add: le_bits_def)

lemma le_bits_Suc: "le_bits (Suc n) v = odd v # le_bits n (v div 2)"
  by (simp add: le_bits_def upt_conv_Cons map_Suc_upt [symmetric] div_mult2_eq comp_def del: upt_Suc)

lemma bits_value_le_bits: "bits_value (le_bits n v) = v mod 2 ^ n"
proof (induction n arbitrary: v)
  case 0
  then show ?case by (simp add: le_bits_def)
next
  case (Suc n)
  have "v mod 2 ^ Suc n = v mod 2 + 2 * (v div 2 mod 2 ^ n)" by (simp add: mod_mult2_eq)
  with Suc show ?case by (simp add: le_bits_Suc mod2_eq_if)
qed

lemma bits_value_less: "bits_value bs < 2 ^ length bs"
  by (induction bs) auto

lemma length_bytes_bits: "length (bytes_bits bs) = 8 * length bs"
  by (induction bs) (simp_all add: bytes_bits_def)

section \<open>Writing and reading\<close>

lemma fold_write:
  assumes io: "bit_io_ok io written left" and small: "\<forall>v \<in> set vals. unat v < 4096"
  shows "\<exists>w'. fold (\<lambda>value writer. do { w \<leftarrow> writer; bw_write io LOG_Q value w }) vals (Some w) = Some w'
    \<and> written w' = written w @ concat (map (\<lambda>v. le_bits 12 (unat v)) vals)"
  using small
proof (induction vals arbitrary: w)
  case Nil
  then show ?case by simp
next
  case (Cons v vals)
  have "unat v < 2 ^ 12" using Cons.prems by simp
  then obtain w1 where "bw_write io 12 v w = Some w1" "written w1 = written w @ le_bits 12 (unat v)"
    using io unfolding bit_io_ok_def by metis
  with Cons.IH [of w1] Cons.prems show ?case by simp
qed

lemma read_step:
  assumes "bit_io_ok io written left"
  shows "if length (left r) < 12 then br_read io 12 r = None
    else \<exists>r'. br_read io 12 r = Some (of_nat (bits_value (take 12 (left r))), r') \<and> left r' = drop 12 (left r)"
proof -
  have "(12 :: nat) \<le> 16" by simp
  with assms show ?thesis unfolding bit_io_ok_def by blast
qed

lemma unpack_from_bits:
  assumes io: "bit_io_ok io written left" and small: "\<forall>v \<in> set vals. unat v < 4096"
    and bits: "left r = concat (map (\<lambda>v. le_bits 12 (unat v)) vals) @ rest"
  shows "unpack_from io (length vals) r = Some vals"
  using small bits
proof (induction vals arbitrary: r)
  case Nil
  then show ?case by simp
next
  case (Cons v vals)
  have take: "take 12 (left r) = le_bits 12 (unat v)"
    and drop: "drop 12 (left r) = concat (map (\<lambda>v. le_bits 12 (unat v)) vals) @ rest"
    and long: "\<not> length (left r) < 12"
    using Cons.prems(2) by simp_all
  from read_step [OF io, of r] long obtain r' where
    r': "br_read io 12 r = Some (of_nat (bits_value (take 12 (left r))), r')" "left r' = drop 12 (left r)" by auto
  have "bits_value (le_bits 12 (unat v)) = unat v" using Cons.prems(1) by (simp add: bits_value_le_bits)
  with r' take have "br_read io 12 r = Some (v, r')" by simp
  with Cons.IH [of r'] r'(2) drop Cons.prems(1) show ?case by simp
qed

lemma unpack_from_length:
  assumes io: "bit_io_ok io written left"
  shows "if length (left r) < 12 * n then unpack_from io n r = None
    else \<exists>vs. unpack_from io n r = Some vs \<and> length vs = n \<and> (\<forall>v \<in> set vs. v < par_Q)"
proof (induction n arbitrary: r)
  case 0
  then show ?case by simp
next
  case (Suc n)
  show ?case
  proof (cases "length (left r) < 12")
    case True
    with read_step [OF io, of r] show ?thesis by simp
  next
    case False
    with read_step [OF io, of r] obtain r' where
      r': "br_read io 12 r = Some (of_nat (bits_value (take 12 (left r))), r')" "left r' = drop 12 (left r)" by auto
    have "bits_value (take 12 (left r)) < 4096"
      using bits_value_less [of "take 12 (left r)"] False by simp
    then have "of_nat (bits_value (take 12 (left r))) < par_Q"
      by (simp add: less_par_Q unat_of_nat_u16)
    moreover have "length (left r') < 12 * n \<longleftrightarrow> length (left r) < 12 * Suc n"
      using False by (auto simp: r'(2))
    ultimately show ?thesis using Suc.IH [of r'] r'(1) by auto
  qed
qed

section \<open>An implementation over bit lists\<close>

fun bits_bytes :: "nat \<Rightarrow> bool list \<Rightarrow> bytes" where
  "bits_bytes 0 bits = []"
| "bits_bytes (Suc n) bits = of_nat (bits_value (take 8 bits)) # bits_bytes n (drop 8 bits)"

definition list_io :: "(bool list, bool list) bit_io" where
  "list_io = \<lparr> bw_new = [],
     bw_write = (\<lambda>n v w. if unat v < 2 ^ n then Some (w @ le_bits n (unat v)) else None),
     bw_align = (\<lambda>w. Some (w @ replicate ((8 - length w mod 8) mod 8) False)),
     bw_out = (\<lambda>w. bits_bytes (length w div 8) w),
     br_new = bytes_bits,
     br_read = (\<lambda>n r. if length r < n then None else Some (of_nat (bits_value (take n r)), drop n r)) \<rparr>"

lemma le_bits_value: "le_bits (length bs) (bits_value bs) = bs"
proof (induction bs)
  case Nil
  then show ?case by (simp add: le_bits_def)
next
  case (Cons b bs)
  have "odd (bits_value (b # bs)) = b" and "bits_value (b # bs) div 2 = bits_value bs" by simp_all
  with Cons show ?case by (simp only: list.size add_0_right add_Suc_right le_bits_Suc)
qed

lemma bytes_bits_bytes: "length bits = 8 * n \<Longrightarrow> bytes_bits (bits_bytes n bits) = bits"
proof (induction n arbitrary: bits)
  case 0
  then show ?case by (simp add: bytes_bits_def)
next
  case (Suc n)
  have "bits_value (take 8 bits) < 256"
    using bits_value_less [of "take 8 bits"] Suc.prems by simp
  then have "le_bits 8 (unat (of_nat (bits_value (take 8 bits)) :: u8)) = take 8 bits"
    using le_bits_value [of "take 8 bits"] Suc.prems by (simp add: unat_of_nat_u8)
  with Suc show ?case by (simp add: bytes_bits_def)
qed

lemma pad_to_byte: "8 dvd n + (8 - n mod 8) mod (8 :: nat)"
proof -
  have "n = 8 * (n div 8) + n mod 8" "n mod 8 < 8" by simp_all
  then obtain a r where "n = 8 * a + r" and "r < 8" by blast
  then show ?thesis by (cases "r = 0") (simp_all add: mod_add_eq)
qed

lemma list_io_align:
  "\<exists>w' k. bw_align list_io w = Some w' \<and> w' = w @ replicate k False \<and> k < 8 \<and> 8 dvd length w'"
  by (intro exI [of _ "w @ replicate ((8 - length w mod 8) mod 8) False"] exI [of _ "(8 - length w mod 8) mod 8"])
    (simp add: list_io_def pad_to_byte)

lemma list_io_out: "8 dvd length w \<Longrightarrow> bytes_bits (bw_out list_io w) = w"
  by (auto simp: list_io_def bytes_bits_bytes elim!: dvdE)

lemma list_io_ok: "bit_io_ok list_io (\<lambda>w. w) (\<lambda>r. r)"
  unfolding bit_io_ok_def
proof (intro conjI allI impI)
  show "bw_new list_io = []" by (simp add: list_io_def)
  show "if unat v < 2 ^ n then \<exists>w'. bw_write list_io n v w = Some w' \<and> w' = w @ le_bits n (unat v)
        else bw_write list_io n v w = None" for n v w
    by (simp add: list_io_def)
  show "\<exists>w' k. bw_align list_io w = Some w' \<and> w' = w @ replicate k False \<and> k < 8 \<and> 8 dvd length w'" for w
    by (rule list_io_align)
  show "bytes_bits (bw_out list_io w) = w" if "8 dvd length w" for w using that by (rule list_io_out)
  show "br_new list_io bs = bytes_bits bs" for bs by (simp add: list_io_def)
  show "if length r < n then br_read list_io n r = None
        else \<exists>r'. br_read list_io n r = Some (of_nat (bits_value (take n r)), r') \<and> r' = drop n r" for n r
    by (simp add: list_io_def)
qed

section \<open>Properties\<close>

text \<open>
  C28: a vector of elements of \<open>Z_q\<close> packs into \<open>12\<close> bits per element, rounded up to a byte, without a
  panic, and deserialising what was serialised gives it back.
\<close>

theorem packing_round_trip:
  assumes "bit_io_ok io written left" and "\<forall>v \<in> set vs. v < par_Q"
  shows "\<exists>bs. serialize_packed io vs = Some (length vs, bs) \<and> length bs = (12 * length vs + 7) div 8
    \<and> deserialize_packed io (length vs) (length vs, bs) = Ok vs"
proof -
  have small: "\<forall>v \<in> set vs. unat v < 4096" using assms(2) by (simp add: less_par_Q)
  have new: "written (bw_new io) = []"
    and align: "\<And>w. \<exists>w' k. bw_align io w = Some w' \<and> written w' = written w @ replicate k False \<and> k < 8 \<and>
              8 dvd length (written w')"
    and out: "\<And>w. 8 dvd length (written w) \<Longrightarrow> bytes_bits (bw_out io w) = written w"
    and reader: "\<And>bs. left (br_new io bs) = bytes_bits bs"
    using assms(1) unfolding bit_io_ok_def by blast+
  let ?bits = "concat (map (\<lambda>v. le_bits 12 (unat v)) vs)"
  have len: "length ?bits = 12 * length vs" by (induction vs) simp_all
  obtain w where w: "fold (\<lambda>value writer. do { w \<leftarrow> writer; bw_write io LOG_Q value w }) vs (Some (bw_new io)) = Some w"
    "written w = ?bits"
    using fold_write [OF assms(1) small, of "bw_new io"] new by auto
  obtain w' k where w': "bw_align io w = Some w'" "written w' = ?bits @ replicate k False" "k < 8"
    "8 dvd length (written w')"
    using align [of w] w(2) by auto
  let ?bs = "bw_out io w'"
  have bits: "bytes_bits ?bs = ?bits @ replicate k False" using out [OF w'(4)] w'(2) by simp
  have "8 * length ?bs = 12 * length vs + k"
    using arg_cong [OF bits, of length] by (simp add: length_bytes_bits len)
  with w'(3) have "length ?bs = (12 * length vs + 7) div 8" by linarith
  moreover have "unpack io (length vs) ?bs = Some vs"
    unfolding unpack_def by (rule unpack_from_bits [OF assms(1) small]) (simp add: reader bits)
  ultimately show ?thesis
    using w(1) w'(1) by (simp add: serialize_packed_def pack_def deserialize_packed_def)
qed

lemma packing_round_trip_witness:
  "\<exists>bs. serialize_packed list_io [0, 4095, 1] = Some (length [0 :: zq, 4095, 1], bs)
    \<and> length bs = (12 * length [0 :: zq, 4095, 1] + 7) div 8
    \<and> deserialize_packed list_io (length [0 :: zq, 4095, 1]) (length [0 :: zq, 4095, 1], bs) = Ok [0, 4095, 1]"
  by (rule packing_round_trip [OF list_io_ok]) (simp add: less_par_Q)

text \<open>
  C29: what a peer can make of a packed vector. A count other than the length of the row is one
  error, bytes too short for the count another, and anything else gives exactly the row's length of
  elements that are all in \<open>Z_q\<close>, whatever the bytes are.
\<close>

theorem deserialize_packed_outcomes:
  assumes "bit_io_ok io written left"
  shows "if count \<noteq> len then deserialize_packed io len (count, bs) = Err (WrongCount count len)
    else if 8 * length bs < 12 * len then deserialize_packed io len (count, bs) = Err ShortBytes
    else (\<exists>vs. deserialize_packed io len (count, bs) = Ok vs \<and> length vs = len \<and> set vs \<subseteq> {v. v < par_Q})"
proof -
  have "left (br_new io bs) = bytes_bits bs" using assms unfolding bit_io_ok_def by blast
  then have "length (left (br_new io bs)) = 8 * length bs" by (simp add: length_bytes_bits)
  with unpack_from_length [OF assms, of "br_new io bs" len] show ?thesis
    by (auto simp: deserialize_packed_def unpack_def split: if_splits)
qed

lemma deserialize_packed_outcomes_witness:
  "if 2 \<noteq> (2 :: nat) then deserialize_packed list_io 2 (2, [255, 255, 255]) = Err (WrongCount 2 2)
    else if 8 * length [255 :: u8, 255, 255] < 12 * 2 then deserialize_packed list_io 2 (2, [255, 255, 255]) = Err ShortBytes
    else (\<exists>vs. deserialize_packed list_io 2 (2, [255, 255, 255]) = Ok vs \<and> length vs = 2 \<and> set vs \<subseteq> {v. v < par_Q})"
  by (rule deserialize_packed_outcomes [OF list_io_ok])

end
