(* ===== verification/Sessions.thy ===== *)
theory Sessions
  imports Protocol
begin

text \<open>
  \<open>pool-oprf/src/channel.rs\<close>, \<open>client.rs\<close> and \<open>server.rs\<close>: the networked client and server, with
  preprocessing first and then requests over one stream.

  An operation with \<open>&mut self\<close> returns the new value of the session with its result, so that what
  an error leaves behind is visible. The connection and the channel are the streams of the process;
  \<open>Arc\<close>, \<open>Mutex\<close> and the blocking tasks leave no trace, as a session serves one call at a time.
\<close>

section \<open>Errors (channel.rs, client.rs, server.rs)\<close>

datatype channel_error = ChannelConnection | ChannelIo | ChannelUnexpectedClose

datatype ('pe, 've) client_error =
    ClientPreproc "('pe, 've) preproc_error"
  | ClientChannel channel_error
  | ClientRequest request_error
  | ClientFinalize "'ve finalize_error"

datatype ('pe, 've) server_error =
    ServerPreproc "('pe, 've) preproc_error"
  | ServerChannel channel_error
  | ServerBlindEval "'pe blind_eval_error"

section \<open>Channels (channel.rs)\<close>

fun request_of :: "('c, 'proof) pmsg \<Rightarrow> request_message option" where
  "request_of (MRequest req) = Some req"
| "request_of _ = None"

fun response_of :: "('c, 'proof) pmsg \<Rightarrow> 'proof response_message option" where
  "response_of (MResponse resp) = Some resp"
| "response_of _ = None"

definition client_channel_new :: "(('c, 'proof) pmsg, (channel_error, unit) res) proc" where
  "client_channel_new = open_stream ChannelConnection OnlineChan"

definition exchange ::
  "request_message \<Rightarrow> (('c, 'proof) pmsg, (channel_error, 'proof response_message) res) proc" where
  "exchange req =
     attempt (send_msg ChannelIo OnlineChan (MRequest req)) (\<lambda>_.
     recv_msg ChannelUnexpectedClose ChannelIo response_of OnlineChan)"

definition server_channel_new :: "(('c, 'proof) pmsg, (channel_error, unit) res) proc" where
  "server_channel_new = open_stream ChannelConnection OnlineChan"

text \<open>\<open>None\<close> once the client is done.\<close>

definition next_request :: "(('c, 'proof) pmsg, (channel_error, request_message option) res) proc" where
  "next_request = Recv OnlineChan (\<lambda>i. case i of
       Closed \<Rightarrow> Ret (Ok None)
     | Broken \<Rightarrow> Ret (Err ChannelIo)
     | Msg m \<Rightarrow> Ret (ok_or ChannelIo (map_option Some (request_of m))))"

definition respond_on ::
  "'proof response_message \<Rightarrow> (('c, 'proof) pmsg, (channel_error, unit) res) proc" where
  "respond_on resp = send_msg ChannelIo OnlineChan (MResponse resp)"

section \<open>The client (client.rs)\<close>

record 'c oprf_client =
  oc_state :: "'c client_state"

type_synonym ('c, 'proof, 'pe, 've, 'a) client_proc =
  "(('c, 'proof) pmsg, (('pe, 've) client_error, 'a) res) proc"

definition oprf_client_new ::
  "('c, 'proof, 'pe, 've) crypto \<Rightarrow> (nat \<Rightarrow> nat) \<Rightarrow> nat \<Rightarrow> uid
     \<Rightarrow> ('c, 'proof, 'pe, 've, 'c oprf_client) client_proc" where
  "oprf_client_new cr frame evaluations uid =
     attempt (Ret (expect (tau_for evaluations))) (\<lambda>tau.
     attempt_as ClientPreproc (preproc_client cr frame tau uid) (\<lambda>st.
     attempt_as ClientChannel client_channel_new (\<lambda>_. Ret (Ok \<lparr> oc_state = st \<rparr>))))"

definition oprf_client_new_voprf ::
  "('c, 'proof, 'pe, 've) crypto \<Rightarrow> (nat \<Rightarrow> nat) \<Rightarrow> 'c verified_key \<Rightarrow> nat \<Rightarrow> uid
     \<Rightarrow> ('c, 'proof, 'pe, 've, 'c oprf_client) client_proc" where
  "oprf_client_new_voprf cr frame pk evaluations uid =
     attempt (Ret (expect (tau_for evaluations))) (\<lambda>tau.
     attempt_as ClientPreproc (preproc_client_voprf cr frame pk tau uid) (\<lambda>st.
     attempt_as ClientChannel client_channel_new (\<lambda>_. Ret (Ok \<lparr> oc_state = st \<rparr>))))"

definition oprf_client_renew ::
  "('c, 'proof, 'pe, 've) crypto \<Rightarrow> (nat \<Rightarrow> nat) \<Rightarrow> 'c oprf_client \<Rightarrow> nat \<Rightarrow> uid
     \<Rightarrow> (('c, 'proof) pmsg, 'c oprf_client \<times> (('pe, 've) client_error, uid) res) proc" where
  "oprf_client_renew cr frame cl evaluations uid =
     (case tau_for evaluations of None \<Rightarrow> Ret (cl, Panic) | Some tau \<Rightarrow>
      proc_bind (case map_option cv_pk (cs_voprf (oc_state cl)) of
            Some pk \<Rightarrow> preproc_client_voprf cr frame pk tau uid
          | None \<Rightarrow> preproc_client cr frame tau uid) (\<lambda>r.
      case r of Ok st \<Rightarrow> Ret (cl\<lparr> oc_state := st \<rparr>, Ok (cs_uid st))
      | Err e \<Rightarrow> Ret (cl, Err (ClientPreproc e))
      | Panic \<Rightarrow> Ret (cl, Panic)))"

definition evaluate_batch ::
  "('c, 'proof, 'pe, 've) crypto \<Rightarrow> 'c oprf_client \<Rightarrow> bytes \<Rightarrow> bytes list
     \<Rightarrow> (('c, 'proof) pmsg, 'c oprf_client \<times> (('pe, 've) client_error, prf_output list) res) proc" where
  "evaluate_batch cr cl tag inputs =
     (let (st, r) = request_batch (cr_xof cr) (oc_state cl) tag inputs;
          cl = cl\<lparr> oc_state := st \<rparr>
      in case r of
           Err e \<Rightarrow> Ret (cl, Err (ClientRequest e))
         | Panic \<Rightarrow> Ret (cl, Panic)
         | Ok (req, fin) \<Rightarrow> proc_bind (exchange req) (\<lambda>x.
             case x of Err e \<Rightarrow> Ret (cl, Err (ClientChannel e))
             | Panic \<Rightarrow> Ret (cl, Panic)
             | Ok resp \<Rightarrow> Ret (cl, map_err ClientFinalize (finalize_batch cr fin resp))))"

definition evaluate_on ::
  "('c, 'proof, 'pe, 've) crypto \<Rightarrow> 'c oprf_client \<Rightarrow> bytes \<Rightarrow> bytes
     \<Rightarrow> (('c, 'proof) pmsg, 'c oprf_client \<times> (('pe, 've) client_error, prf_output) res) proc" where
  "evaluate_on cr cl tag x =
     (let (st, r) = request (cr_xof cr) (oc_state cl) tag x;
          cl = cl\<lparr> oc_state := st \<rparr>
      in case r of
           Err e \<Rightarrow> Ret (cl, Err (ClientRequest e))
         | Panic \<Rightarrow> Ret (cl, Panic)
         | Ok (req, fin) \<Rightarrow> proc_bind (exchange req) (\<lambda>x.
             case x of Err e \<Rightarrow> Ret (cl, Err (ClientChannel e))
             | Panic \<Rightarrow> Ret (cl, Panic)
             | Ok resp \<Rightarrow> Ret (cl, map_err ClientFinalize (finalize cr fin resp))))"

definition client_remaining_evaluations :: "'c oprf_client \<Rightarrow> nat" where
  "client_remaining_evaluations cl = evaluations_for (client_remaining_runs (oc_state cl))"

definition client_max_batch :: "'c oprf_client \<Rightarrow> nat" where
  "client_max_batch cl = (case cs_voprf (oc_state cl) of
       Some _ \<Rightarrow> MAX_VOPRF_BATCH_EVALUATIONS | None \<Rightarrow> MAX_BATCH_EVALUATIONS)"

definition client_uid :: "'c oprf_client \<Rightarrow> uid" where
  "client_uid cl = cs_uid (oc_state cl)"

section \<open>The server (server.rs)\<close>

record oprf_server =
  os_sk :: secret_key

record oprf_session =
  sess_sk :: secret_key
  sess_state :: server_state

type_synonym ('c, 'proof, 'pe, 've, 'a) server_proc =
  "(('c, 'proof) pmsg, (('pe, 've) server_error, 'a) res) proc"

definition server_session ::
  "('c, 'proof, 'pe, 've) crypto \<Rightarrow> (nat \<Rightarrow> nat) \<Rightarrow> oprf_server \<Rightarrow> nat
     \<Rightarrow> ('c, 'proof, 'pe, 've, oprf_session) server_proc" where
  "server_session cr frame srv evaluations =
     attempt (Ret (expect (tau_for evaluations))) (\<lambda>tau.
     attempt_as ServerPreproc (preproc_server cr frame (os_sk srv) tau) (\<lambda>st.
     attempt_as ServerChannel server_channel_new (\<lambda>_.
     Ret (Ok \<lparr> sess_sk = os_sk srv, sess_state = st \<rparr>))))"

definition server_public_key ::
  "('c, 'proof, 'pe, 've) crypto \<Rightarrow> oprf_server \<Rightarrow> ('pe, 'c \<times> 'proof) res" where
  "server_public_key cr srv = voprf_setup cr (os_sk srv)"

definition session_renew ::
  "('c, 'proof, 'pe, 've) crypto \<Rightarrow> (nat \<Rightarrow> nat) \<Rightarrow> oprf_session \<Rightarrow> nat
     \<Rightarrow> (('c, 'proof) pmsg, oprf_session \<times> (('pe, 've) server_error, uid) res) proc" where
  "session_renew cr frame se evaluations =
     (case tau_for evaluations of None \<Rightarrow> Ret (se, Panic) | Some tau \<Rightarrow>
      proc_bind (preproc_server cr frame (sess_sk se) tau) (\<lambda>r.
      case r of Ok st \<Rightarrow> Ret (se\<lparr> sess_state := st \<rparr>, Ok (ss_uid st))
      | Err e \<Rightarrow> Ret (se, Err (ServerPreproc e))
      | Panic \<Rightarrow> Ret (se, Panic)))"

definition serve_next ::
  "('c, 'proof, 'pe, 've) crypto \<Rightarrow> oprf_session
     \<Rightarrow> (('c, 'proof) pmsg, oprf_session \<times> (('pe, 've) server_error, bool) res) proc" where
  "serve_next cr se =
     proc_bind next_request (\<lambda>x.
     case x of Err e \<Rightarrow> Ret (se, Err (ServerChannel e))
     | Panic \<Rightarrow> Ret (se, Panic)
     | Ok None \<Rightarrow> Ret (se, Ok False)
     | Ok (Some req) \<Rightarrow>
         (let (st, r) = blind_eval cr (sess_state se) (sess_sk se) req;
              se = se\<lparr> sess_state := st \<rparr>
          in case r of
               Err e \<Rightarrow> Ret (se, Err (ServerBlindEval e))
             | Panic \<Rightarrow> Ret (se, Panic)
             | Ok resp \<Rightarrow> proc_bind (respond_on resp) (\<lambda>y.
                 Ret (se, res_bind (map_err ServerChannel y) (\<lambda>_. Ok True)))))"

text \<open>The loop of \<open>serve\<close> has no bound of its own: \<open>fuel\<close> bounds the calls of \<open>serve_next\<close>, and the
  result is \<open>None\<close> where it runs out (\<open>serve_ends\<close> says how much is enough).\<close>

primrec serve ::
  "('c, 'proof, 'pe, 've) crypto \<Rightarrow> nat \<Rightarrow> oprf_session
     \<Rightarrow> (('c, 'proof) pmsg, oprf_session \<times> (('pe, 've) server_error, unit) res option) proc" where
  "serve cr 0 se = Ret (se, None)"
| "serve cr (Suc fuel) se =
     proc_bind (serve_next cr se) (\<lambda>(se, r).
     case r of Ok True \<Rightarrow> serve cr fuel se
     | Ok False \<Rightarrow> Ret (se, Some (Ok ()))
     | Err e \<Rightarrow> Ret (se, Some (Err e))
     | Panic \<Rightarrow> Ret (se, Some Panic))"

definition session_remaining_evaluations :: "oprf_session \<Rightarrow> nat" where
  "session_remaining_evaluations se = evaluations_for (server_remaining_runs (sess_state se))"

definition session_max_batch :: "oprf_session \<Rightarrow> nat" where
  "session_max_batch se = (case ss_voprf (sess_state se) of
       Some _ \<Rightarrow> MAX_VOPRF_BATCH_EVALUATIONS | None \<Rightarrow> MAX_BATCH_EVALUATIONS)"

definition session_uid :: "oprf_session \<Rightarrow> uid" where
  "session_uid se = ss_uid (sess_state se)"

end
