(* ===== verification/PsiSession.thy ===== *)
theory PsiSession
  imports Sessions
begin

text \<open>
  \<open>pool-psi/src/error.rs\<close>, \<open>transport.rs\<close>, \<open>client.rs\<close> and \<open>server.rs\<close>: private set intersection over
  an OPRF session. The client announces its set size before the preprocessing; the server sends its
  masked set once and answers as many requests as the size asks for.

  \<open>intersect\<close> takes the client by value, so only its result is left; \<open>serve\<close> and \<open>serve_masked\<close>
  return the session as well.
\<close>

section \<open>Errors (error.rs)\<close>

datatype ('pe, 've) psi_error =
    PsiOprf "('pe, 've) client_error"
  | PsiOprfServer "('pe, 've) server_error"
  | PsiConnection
  | PsiIo
  | PsiUnexpectedClose
  | EmptyClientSet
  | ClientSetTooLarge nat nat
  | ServerSetTooLarge nat nat
  | SetSizeMismatch nat nat
  | PsiMalformed string

type_synonym ('c, 'proof, 'pe, 've, 'a) psi_proc =
  "(('c, 'proof) pmsg, (('pe, 've) psi_error, 'a) res) proc"

section \<open>The two messages around the OPRF (transport.rs)\<close>

fun size_of :: "('c, 'proof) pmsg \<Rightarrow> nat option" where
  "size_of (MSize n) = Some n"
| "size_of _ = None"

fun masked_set_of :: "('c, 'proof) pmsg \<Rightarrow> masked_server_set option" where
  "masked_set_of (MSet masked) = Some masked"
| "masked_set_of _ = None"

definition psi_client_channel :: "('c, 'proof, 'pe, 've, unit) psi_proc" where
  "psi_client_channel = open_stream PsiConnection PsiChan"

definition send_client_set_size :: "nat \<Rightarrow> ('c, 'proof, 'pe, 've, unit) psi_proc" where
  "send_client_set_size set_size = send_msg PsiIo PsiChan (MSize set_size)"

definition recv_set :: "('c, 'proof, 'pe, 've, masked_server_set) psi_proc" where
  "recv_set = recv_msg PsiUnexpectedClose PsiIo masked_set_of PsiChan"

definition psi_server_channel :: "('c, 'proof, 'pe, 've, unit) psi_proc" where
  "psi_server_channel = open_stream PsiConnection PsiChan"

definition recv_client_set_size :: "('c, 'proof, 'pe, 've, nat) psi_proc" where
  "recv_client_set_size = recv_msg PsiUnexpectedClose PsiIo size_of PsiChan"

definition send_set :: "masked_server_set \<Rightarrow> ('c, 'proof, 'pe, 've, unit) psi_proc" where
  "send_set masked = send_msg PsiIo PsiChan (MSet masked)"

section \<open>The client (client.rs)\<close>

record 'c psi_client =
  pc_oprf :: "'c oprf_client"
  pc_set_size :: nat

definition psi_client_with ::
  "('c, 'proof, 'pe, 've) crypto \<Rightarrow> (nat \<Rightarrow> nat) \<Rightarrow> 'c verified_key option \<Rightarrow> nat \<Rightarrow> uid
     \<Rightarrow> ('c, 'proof, 'pe, 've, 'c psi_client) psi_proc" where
  "psi_client_with cr frame pk set_size uid =
     (if set_size = 0 then Ret (Err EmptyClientSet)
      else if MAX_CLIENT_SET < set_size then Ret (Err (ClientSetTooLarge set_size MAX_CLIENT_SET))
      else
     attempt psi_client_channel (\<lambda>_.
     attempt (send_client_set_size set_size) (\<lambda>_.
     attempt_as PsiOprf (case pk of
           Some pk \<Rightarrow> oprf_client_new_voprf cr frame pk set_size uid
         | None \<Rightarrow> oprf_client_new cr frame set_size uid) (\<lambda>oprf.
     Ret (Ok \<lparr> pc_oprf = oprf, pc_set_size = set_size \<rparr>)))))"

definition psi_client_new ::
  "('c, 'proof, 'pe, 've) crypto \<Rightarrow> (nat \<Rightarrow> nat) \<Rightarrow> nat \<Rightarrow> uid
     \<Rightarrow> ('c, 'proof, 'pe, 've, 'c psi_client) psi_proc" where
  "psi_client_new cr frame set_size uid = psi_client_with cr frame None set_size uid"

definition psi_client_new_voprf ::
  "('c, 'proof, 'pe, 've) crypto \<Rightarrow> (nat \<Rightarrow> nat) \<Rightarrow> 'c verified_key \<Rightarrow> nat \<Rightarrow> uid
     \<Rightarrow> ('c, 'proof, 'pe, 've, 'c psi_client) psi_proc" where
  "psi_client_new_voprf cr frame pk set_size uid = psi_client_with cr frame (Some pk) set_size uid"

text \<open>The loop over \<open>set.chunks(max_batch)\<close>, with the outputs so far.\<close>

primrec evaluate_chunks ::
  "('c, 'proof, 'pe, 've) crypto \<Rightarrow> 'c oprf_client \<Rightarrow> bytes \<Rightarrow> prf_output list \<Rightarrow> bytes list list
     \<Rightarrow> ('c, 'proof, 'pe, 've, prf_output list) psi_proc" where
  "evaluate_chunks cr oprf tag outputs [] = Ret (Ok outputs)"
| "evaluate_chunks cr oprf tag outputs (batch # batches) =
     proc_bind (evaluate_batch cr oprf tag batch) (\<lambda>(oprf, r).
     attempt_as PsiOprf (Ret r) (\<lambda>outs. evaluate_chunks cr oprf tag (outputs @ outs) batches))"

definition psi_intersect ::
  "('c, 'proof, 'pe, 've) crypto \<Rightarrow> 'c psi_client \<Rightarrow> bytes list \<Rightarrow> ('c, 'proof, 'pe, 've, nat list) psi_proc" where
  "psi_intersect cr pc elems =
     (if length elems \<noteq> pc_set_size pc then Ret (Err (SetSizeMismatch (pc_set_size pc) (length elems)))
      else
     attempt recv_set (\<lambda>masked.
     if MAX_SERVER_SET < length (ms_elements masked)
     then Ret (Err (ServerSetTooLarge (length (ms_elements masked)) MAX_SERVER_SET))
     else
     attempt (evaluate_chunks cr (pc_oprf pc) (ms_tag masked) []
                (chunks (client_max_batch (pc_oprf pc)) elems)) (\<lambda>outputs.
     Ret (Ok (intersect outputs (ms_elements masked))))))"

definition psi_client_uid :: "'c psi_client \<Rightarrow> uid" where
  "psi_client_uid pc = client_uid (pc_oprf pc)"

section \<open>The server (server.rs)\<close>

record psi_server =
  ps_oprf :: oprf_server

record psi_session =
  pss_oprf :: oprf_session
  pss_set_size :: nat

definition psi_server_session ::
  "('c, 'proof, 'pe, 've) crypto \<Rightarrow> (nat \<Rightarrow> nat) \<Rightarrow> psi_server \<Rightarrow> ('c, 'proof, 'pe, 've, psi_session) psi_proc" where
  "psi_server_session cr frame srv =
     attempt psi_server_channel (\<lambda>_.
     attempt recv_client_set_size (\<lambda>announced.
     if USIZE_MAX < announced then Ret (Err (PsiMalformed ''client set size does not fit in a usize''))
     else let set_size = announced in
     if set_size = 0 then Ret (Err (PsiMalformed ''client announced an empty set''))
     else if MAX_CLIENT_SET < set_size then Ret (Err (ClientSetTooLarge set_size MAX_CLIENT_SET))
     else
     attempt_as PsiOprfServer (server_session cr frame (ps_oprf srv) set_size) (\<lambda>oprf.
     Ret (Ok \<lparr> pss_oprf = oprf, pss_set_size = set_size \<rparr>))))"

definition psi_mask :: "xof \<Rightarrow> psi_server \<Rightarrow> bytes \<Rightarrow> bytes list \<Rightarrow> masked_element list option" where
  "psi_mask xof srv tag ys = mask_server_set xof (os_sk (ps_oprf srv)) tag ys"

definition psi_public_key :: "('c, 'proof, 'pe, 've) crypto \<Rightarrow> psi_server \<Rightarrow> ('pe, 'c \<times> 'proof) res" where
  "psi_public_key cr srv = server_public_key cr (ps_oprf srv)"

text \<open>The loop of \<open>serve_masked\<close>, for the number of requests left.\<close>

primrec serve_requests ::
  "('c, 'proof, 'pe, 've) crypto \<Rightarrow> nat \<Rightarrow> psi_session
     \<Rightarrow> (('c, 'proof) pmsg, psi_session \<times> (('pe, 've) psi_error, unit) res) proc" where
  "serve_requests cr 0 ps = Ret (ps, Ok ())"
| "serve_requests cr (Suc n) ps =
     proc_bind (serve_next cr (pss_oprf ps)) (\<lambda>(oprf, r).
     let ps = ps\<lparr> pss_oprf := oprf \<rparr> in
     case r of Err e \<Rightarrow> Ret (ps, Err (PsiOprfServer e))
     | Panic \<Rightarrow> Ret (ps, Panic)
     | Ok again \<Rightarrow> if again then serve_requests cr n ps else Ret (ps, Err PsiUnexpectedClose))"

definition serve_masked ::
  "('c, 'proof, 'pe, 've) crypto \<Rightarrow> psi_session \<Rightarrow> bytes \<Rightarrow> masked_element list
     \<Rightarrow> (('c, 'proof) pmsg, psi_session \<times> (('pe, 've) psi_error, unit) res) proc" where
  "serve_masked cr ps tag masked =
     (if MAX_SERVER_SET < length masked
      then Ret (ps, Err (ServerSetTooLarge (length masked) MAX_SERVER_SET))
      else proc_bind (send_set \<lparr> ms_tag = tag, ms_elements = masked \<rparr>) (\<lambda>r. case r of
        Err e \<Rightarrow> Ret (ps, Err e)
      | Panic \<Rightarrow> Ret (ps, Panic)
      | Ok _ \<Rightarrow> serve_requests cr (requests_for (pss_set_size ps) (session_max_batch (pss_oprf ps))) ps))"

definition psi_serve ::
  "('c, 'proof, 'pe, 've) crypto \<Rightarrow> psi_session \<Rightarrow> bytes \<Rightarrow> bytes list
     \<Rightarrow> (('c, 'proof) pmsg, psi_session \<times> (('pe, 've) psi_error, unit) res) proc" where
  "psi_serve cr ps tag ys =
     (case mask_server_set (cr_xof cr) (sess_sk (pss_oprf ps)) tag ys of
        None \<Rightarrow> Ret (ps, Panic)
      | Some masked \<Rightarrow> serve_masked cr ps tag masked)"

definition psi_remaining_evaluations :: "psi_session \<Rightarrow> nat" where
  "psi_remaining_evaluations ps = session_remaining_evaluations (pss_oprf ps)"

definition psi_session_uid :: "psi_session \<Rightarrow> uid" where
  "psi_session_uid ps = session_uid (pss_oprf ps)"

end
