(* ===== verification/SessionRun.thy ===== *)
theory SessionRun
  imports Sessions ProtocolEnd OnlineTheorems
begin

text \<open>
  Honest sessions: opening a session, one batch over it and a renewal, as runs of both sides against
  each other, and what errors leave behind on either side whatever the peer does.
\<close>

section \<open>Sessions that belong together\<close>

text \<open>What both sides hold between requests.\<close>

definition linked ::
  "('c, 'proof, 'pe, 've) crypto \<Rightarrow> secret_key \<Rightarrow> 'c oprf_client \<Rightarrow> oprf_session \<Rightarrow> bool" where
  "linked cr sk cl se \<longleftrightarrow> sess_sk se = sk \<and> wf_client (oc_state cl) \<and> wf_server (sess_state se) \<and>
     pads_consistent (sess_state se) \<and> matched sk (oc_state cl) (sess_state se) \<and>
     matched_voprf cr sk (oc_state cl) (sess_state se)"

text \<open>A verified key of the server, or none, and enough evaluations for the preprocessing.\<close>

definition honest_setting ::
  "('c, 'proof, 'pe, 've) crypto \<Rightarrow> (nat \<Rightarrow> nat) \<Rightarrow> ot_outcome \<Rightarrow> secret_key \<Rightarrow> 'c verified_key option
     \<Rightarrow> nat \<Rightarrow> uid \<Rightarrow> bool" where
  "honest_setting cr frame ot sk pk evaluations uid \<longleftrightarrow>
     0 < evaluations \<and> evaluations * 16 < 2 ^ 64 \<and> length uid = 16 \<and> wf_key sk \<and> (\<forall>n. frame n \<le> n + 9) \<and>
     ots_agree ot (cr_base_ot_count cr) (evaluations * 16) \<and> complete_online cr \<and>
     (pk = None \<or> pk = Some (VerifiedKey (commit_key cr sk)) \<and> complete_preprocessing cr)"

definition oprf_client_with ::
  "('c, 'proof, 'pe, 've) crypto \<Rightarrow> (nat \<Rightarrow> nat) \<Rightarrow> 'c verified_key option \<Rightarrow> nat \<Rightarrow> uid
     \<Rightarrow> ('c, 'proof, 'pe, 've, 'c oprf_client) client_proc" where
  "oprf_client_with cr frame pk evaluations uid = (case pk of
       None \<Rightarrow> oprf_client_new cr frame evaluations uid
     | Some key \<Rightarrow> oprf_client_new_voprf cr frame key evaluations uid)"

lemma tau_for_small: "n * 16 < 2 ^ 64 \<Longrightarrow> tau_for n = Some (n * 16)"
  by (simp add: tau_for_def USIZE_MAX_def)

lemma both_open_channels:
  "live ot (Net (attempt_as g client_channel_new f) (attempt_as h server_channel_new k) u d) (Net (f ()) (k ()) u d)"
proof -
  have "live ot (Net (attempt client_channel_new (\<lambda>x. Ret (Ok x))) (attempt server_channel_new (\<lambda>x. Ret (Ok x))) u d)
      (Net (Ret (Ok ())) (Ret (Ok ())) u d)"
    unfolding client_channel_new_def server_channel_new_def by (rule both_open_streams)
  then have "live ot (Net client_channel_new server_channel_new u d) (Net (Ret (Ok ())) (Ret (Ok ())) u d)"
    by (simp only: attempt_Ok)
  from live_then_attempt [OF this] show ?thesis .
qed

lemma preprocessing_links:
  fixes cr :: "('c, 'proof, 'pe, 've) crypto"
  assumes setting: "honest_setting cr frame ot sk pk evaluations uid"
  obtains cs ss where
    "live ot (Net (preproc_client_with cr frame pk (evaluations * 16) uid) (preproc_server cr frame sk (evaluations * 16)) quiet quiet)
       (Net (Ret (Ok cs)) (Ret (Ok ss)) quiet quiet)"
    "wf_client cs" "wf_server ss" "pads_consistent ss" "matched sk cs ss" "matched_voprf cr sk cs ss"
    "client_remaining_runs cs = evaluations * 16" "cs_uid cs = uid" "map_option cv_pk (cs_voprf cs) = pk"
proof -
  let ?tau = "evaluations * 16"
  have conds: "0 < ?tau" "?tau < 2 ^ 64" "length uid = 16" "wf_key sk" "\<forall>n. frame n \<le> n + 9"
    "ots_agree ot (cr_base_ot_count cr) ?tau"
    "pk = None \<or> pk = Some (VerifiedKey (commit_key cr sk)) \<and> complete_preprocessing cr \<and> 16 \<le> ?tau"
    using setting by (auto simp: honest_setting_def)
  obtain cv sv sent blocks choices where
    run: "live ot (Net (preproc_client_with cr frame pk ?tau uid) (preproc_server cr frame sk ?tau) quiet quiet)
       (Net (Ret (Ok (honest_client ot sk blocks choices uid cv))) (Ret (Ok (honest_server ot sent uid sv))) quiet quiet)"
      (is "live ot _ (Net (Ret (Ok ?cs)) (Ret (Ok ?ss)) _ _)")
    and bin: "binary_agree (kept_pairs ot) (kept_entries ot)" and delta: "delta_agree ?tau sent blocks choices"
    and kept: "voprf_kept cr sk (kept_entries ot) sent (evaluations_for ?tau) (pk \<noteq> None) cv sv"
    by (rule preprocessing_run [OF conds])
  have "client_remaining_runs ?cs = ?tau"
    using delta by (simp add: client_remaining_runs_def runs_remaining_def runs_new_def honest_client_def
        entries_of_def delta_agree_def)
  moreover have "map_option cv_pk (cs_voprf ?cs) = pk" "cs_uid ?cs = uid"
    using kept conds(7) by (auto simp: voprf_kept_def honest_client_def split: if_splits)
  ultimately show ?thesis
    using run honest_client_wf [OF bin delta kept conds(4)] honest_server_wf [OF bin delta kept]
      honest_matched [OF bin delta] honest_matched_voprf [OF delta kept] by (intro that)
qed

lemma session_opens:
  fixes cr :: "('c, 'proof, 'pe, 've) crypto"
  assumes setting: "honest_setting cr frame ot sk pk evaluations uid" and key: "os_sk srv = sk"
  obtains cl se where
    "live ot (Net (oprf_client_with cr frame pk evaluations uid) (server_session cr frame srv evaluations) quiet quiet)
       (Net (Ret (Ok cl)) (Ret (Ok se)) quiet quiet)"
    "linked cr sk cl se" "client_remaining_runs (oc_state cl) = evaluations * 16"
    "map_option cv_pk (cs_voprf (oc_state cl)) = pk" "client_uid cl = uid"
proof -
  have tau: "tau_for evaluations = Some (evaluations * 16)"
    using setting by (intro tau_for_small) (simp add: honest_setting_def)
  obtain cs ss where run: "live ot (Net (preproc_client_with cr frame pk (evaluations * 16) uid)
        (preproc_server cr frame sk (evaluations * 16)) quiet quiet) (Net (Ret (Ok cs)) (Ret (Ok ss)) quiet quiet)"
    and st: "wf_client cs" "wf_server ss" "pads_consistent ss" "matched sk cs ss" "matched_voprf cr sk cs ss"
    "client_remaining_runs cs = evaluations * 16" "cs_uid cs = uid" "map_option cv_pk (cs_voprf cs) = pk"
    by (rule preprocessing_links [OF setting])
  let ?cl = "\<lparr> oc_state = cs \<rparr>" and ?se = "\<lparr> sess_sk = sk, sess_state = ss \<rparr>"
  have client: "oprf_client_with cr frame pk evaluations uid =
      attempt_as ClientPreproc (preproc_client_with cr frame pk (evaluations * 16) uid) (\<lambda>st.
      attempt_as ClientChannel client_channel_new (\<lambda>_. Ret (Ok \<lparr> oc_state = st \<rparr>)))"
    using tau by (simp add: oprf_client_with_def oprf_client_new_def oprf_client_new_voprf_def
        preproc_client_def preproc_client_voprf_def split: option.splits)
  have server: "server_session cr frame srv evaluations =
      attempt_as ServerPreproc (preproc_server cr frame sk (evaluations * 16)) (\<lambda>st.
      attempt_as ServerChannel server_channel_new (\<lambda>_. Ret (Ok \<lparr> sess_sk = sk, sess_state = st \<rparr>)))"
    using tau key by (simp add: server_session_def)
  show ?thesis
  proof (rule that)
    show "live ot (Net (oprf_client_with cr frame pk evaluations uid) (server_session cr frame srv evaluations) quiet quiet)
       (Net (Ret (Ok ?cl)) (Ret (Ok ?se)) quiet quiet)"
      unfolding client server
      by (rule live_trans [OF live_then_attempt [OF run] both_open_channels])
    show "linked cr sk ?cl ?se" using st by (simp add: linked_def)
    show "client_remaining_runs (oc_state ?cl) = evaluations * 16"
      "map_option cv_pk (cs_voprf (oc_state ?cl)) = pk" "client_uid ?cl = uid"
      using st by (simp_all add: client_uid_def)
  qed
qed

section \<open>One batch\<close>

text \<open>The two sides after a batch of \<open>n\<close> inputs.\<close>

lemma request_goes_up:
  "live ot (Net (proc_bind (exchange req) f) (proc_bind next_request g) quiet d)
     (Net (proc_bind (recv_msg ChannelUnexpectedClose ChannelIo response_of OnlineChan) f) (g (Ok (Some req))) quiet d)"
proof -
  let ?c = "proc_bind (recv_msg ChannelUnexpectedClose ChannelIo response_of OnlineChan) f"
  have "live ot (Net (proc_bind (exchange req) f) (proc_bind next_request g) quiet d)
     (Net ?c (proc_bind next_request g) (quiet(OnlineChan := [MRequest req])) d)"
    by (rule live_client) (simp_all add: client_move_def exchange_def send_msg_def quiet_at)
  also have "live ot \<dots> (Net ?c (g (Ok (Some req))) quiet d)"
    by (rule live_server) (simp_all add: server_move_def next_request_def)
  finally show ?thesis .
qed

lemma response_goes_down:
  "live ot (Net (proc_bind (recv_msg e1 e2 response_of OnlineChan) f) (proc_bind (respond_on resp) g) u quiet)
     (Net (f (Ok resp)) (g (Ok ())) u quiet)"
proof -
  have "live ot (Net (proc_bind (recv_msg e1 e2 response_of OnlineChan) f) (proc_bind (respond_on resp) g) u quiet)
     (Net (proc_bind (recv_msg e1 e2 response_of OnlineChan) f) (g (Ok ())) u (quiet(OnlineChan := [MResponse resp])))"
    by (rule live_server) (simp_all add: server_move_def respond_on_def send_msg_def quiet_at)
  also have "live ot \<dots> (Net (f (Ok resp)) (g (Ok ())) u quiet)"
    by (rule live_client) (simp_all add: client_move_def recv_msg_def)
  finally show ?thesis .
qed

lemma batch_run:
  fixes cr :: "('c, 'proof, 'pe, 've) crypto"
  assumes linked: "linked cr sk cl se" and sk: "wf_key sk" and complete: "complete_online cr"
    and tag: "length tag \<le> MAX_TAG_LEN" and xs: "xs \<noteq> []" "length xs \<le> client_max_batch cl"
    and runs: "16 * length xs \<le> client_remaining_runs (oc_state cl)"
  obtains cl' se' outs where
    "live ot (Net (evaluate_batch cr cl tag xs :: (('c, 'proof) pmsg, 'c oprf_client \<times> (('pe, 've) client_error, _) res) proc)
          (serve_next cr se) quiet quiet)
       (Net (Ret (cl', Ok outs)) (Ret (se', Ok True)) quiet quiet)"
    "map (evaluate (cr_xof cr) sk tag) xs = map Some outs" "linked cr sk cl' se'"
    "client_remaining_runs (oc_state cl') = client_remaining_runs (oc_state cl) - 16 * length xs"
    "map_option cv_pk (cs_voprf (oc_state cl')) = map_option cv_pk (cs_voprf (oc_state cl))"
proof -
  let ?cs = "oc_state cl" and ?ss = "sess_state se"
  have st: "wf_client ?cs" "wf_server ?ss" "pads_consistent ?ss" "matched sk ?cs ?ss" "matched_voprf cr sk ?cs ?ss"
    and key: "sess_sk se = sk"
    using linked by (simp_all add: linked_def)
  have "length xs \<le> max_batch (cs_voprf ?cs)"
    using xs(2) by (simp add: max_batch_def client_max_batch_def split: option.splits)
  from oprf_run [OF st(1,2) sk st(3-5) complete tag xs(1) this runs] obtain req fin rep outs where
    req: "request_batch (cr_xof cr) ?cs tag xs = (client_spend (16 * length xs) ?cs, Ok (req, fin))"
    and rep: "blind_eval cr ?ss sk req = (server_spend (16 * length xs) ?ss, Ok rep)"
    and fin: "finalize_batch cr fin rep = Ok outs"
    and outs: "map (evaluate (cr_xof cr) sk tag) xs = map Some outs"
    by auto
  let ?cl = "cl\<lparr> oc_state := client_spend (16 * length xs) ?cs \<rparr>"
  let ?se = "se\<lparr> sess_state := server_spend (16 * length xs) ?ss \<rparr>"
  have client: "evaluate_batch cr cl tag xs = proc_bind (exchange req) (\<lambda>x.
      case x of Err e \<Rightarrow> Ret (?cl, Err (ClientChannel e)) | Panic \<Rightarrow> Ret (?cl, Panic)
      | Ok resp \<Rightarrow> Ret (?cl, map_err ClientFinalize (finalize_batch cr fin resp)))"
    by (simp add: evaluate_batch_def req Let_def)
  have server: "serve_next cr se = proc_bind next_request (\<lambda>x.
      case x of Err e \<Rightarrow> Ret (se, Err (ServerChannel e)) | Panic \<Rightarrow> Ret (se, Panic)
      | Ok None \<Rightarrow> Ret (se, Ok False)
      | Ok (Some req) \<Rightarrow> (let (st, r) = blind_eval cr ?ss sk req; se = se\<lparr> sess_state := st \<rparr> in case r of
               Err e \<Rightarrow> Ret (se, Err (ServerBlindEval e)) | Panic \<Rightarrow> Ret (se, Panic)
             | Ok resp \<Rightarrow> proc_bind (respond_on resp) (\<lambda>y. Ret (se, res_bind (map_err ServerChannel y) (\<lambda>_. Ok True)))))"
    by (simp only: serve_next_def key)
  show ?thesis
  proof (rule that)
    show "live ot (Net (evaluate_batch cr cl tag xs) (serve_next cr se) quiet quiet)
       (Net (Ret (?cl, Ok outs)) (Ret (?se, Ok True)) quiet quiet)"
      unfolding client server
      by (rule live_trans [OF request_goes_up]) (simp add: rep, rule live_trans [OF response_goes_down], simp add: fin live_refl)
    show "map (evaluate (cr_xof cr) sk tag) xs = map Some outs" by (rule outs)
    show "linked cr sk ?cl ?se"
    proof -
      have "wf_client (client_spend (16 * length xs) ?cs)"
        by (rule wf_client_spend [OF st(1)]) (use runs wf_client_spent [OF st(1)] in \<open>simp_all add: client_remaining\<close>)
      moreover have "wf_server (server_spend (16 * length xs) ?ss)"
        by (rule wf_server_spend [OF st(2)])
          (use runs st(4) wf_client_spent [OF st(1)] in \<open>simp_all add: client_remaining matched_def budget_defs\<close>)
      ultimately show ?thesis
        using st key by (simp add: linked_def matched_spend matched_voprf_spend)
    qed
    show "client_remaining_runs (oc_state ?cl) = client_remaining_runs ?cs - 16 * length xs"
      by (simp add: client_remaining)
    show "map_option cv_pk (cs_voprf (oc_state ?cl)) = map_option cv_pk (cs_voprf ?cs)" by simp
  qed
qed

section \<open>A sequence of batches\<close>

text \<open>A caller that makes the given calls one after the other and stops at the first error.\<close>

primrec run_calls ::
  "('c, 'proof, 'pe, 've) crypto \<Rightarrow> 'c oprf_client \<Rightarrow> (bytes \<times> bytes list) list
     \<Rightarrow> (('c, 'proof) pmsg, 'c oprf_client \<times> (('pe, 've) client_error, prf_output list list) res) proc" where
  "run_calls cr cl [] = Ret (cl, Ok [])"
| "run_calls cr cl (call # calls) =
     proc_bind (evaluate_batch cr cl (fst call) (snd call)) (\<lambda>(cl, r).
     case r of Err e \<Rightarrow> Ret (cl, Err e) | Panic \<Rightarrow> Ret (cl, Panic)
     | Ok outs \<Rightarrow> proc_bind (run_calls cr cl calls) (\<lambda>(cl, r).
         Ret (cl, res_bind r (\<lambda>rest. Ok (outs # rest)))))"

definition calls_fit :: "'c oprf_client \<Rightarrow> (bytes \<times> bytes list) list \<Rightarrow> bool" where
  "calls_fit cl calls \<longleftrightarrow>
     (\<forall>(tag, xs) \<in> set calls. length tag \<le> MAX_TAG_LEN \<and> xs \<noteq> [] \<and> length xs \<le> client_max_batch cl) \<and>
     16 * sum_list (map (\<lambda>(tag, xs). length xs) calls) \<le> client_remaining_runs (oc_state cl)"

definition outputs_of :: "xof \<Rightarrow> secret_key \<Rightarrow> (bytes \<times> bytes list) list \<Rightarrow> prf_output list list \<Rightarrow> bool" where
  "outputs_of xof sk calls outss \<longleftrightarrow>
     map (\<lambda>(tag, xs). map (evaluate xof sk tag) xs) calls = map (map Some) outss"

lemma proc_bind_Ret [simp]: "proc_bind p Ret = p"
  by (induction p) simp_all

lemma calls_run:
  fixes cr :: "('c, 'proof, 'pe, 've) crypto"
  assumes "linked cr sk cl se" and sk: "wf_key sk" and complete: "complete_online cr" and "calls_fit cl calls"
  shows "\<exists>cl' se' outss. live ot (Net (run_calls cr cl calls) (serve cr (length calls + fuel) se) quiet quiet)
       (Net (Ret (cl', Ok outss)) (serve cr fuel se') quiet quiet)
    \<and> outputs_of (cr_xof cr) sk calls outss \<and> linked cr sk cl' se'
    \<and> client_remaining_runs (oc_state cl')
        = client_remaining_runs (oc_state cl) - 16 * sum_list (map (\<lambda>(tag, xs). length xs) calls)"
  using assms(1,4)
proof (induction calls arbitrary: cl se)
  case Nil
  then show ?case by (auto simp: outputs_of_def intro!: exI [of _ cl] exI [of _ se])
next
  case (Cons call calls)
  obtain tag xs where call: "call = (tag, xs)" by (cases call)
  have fit: "length tag \<le> MAX_TAG_LEN" "xs \<noteq> []" "length xs \<le> client_max_batch cl"
    "16 * length xs \<le> client_remaining_runs (oc_state cl)"
    using Cons.prems(2) call by (auto simp: calls_fit_def)
  obtain cl1 se1 outs where batch:
    "live ot (Net (evaluate_batch cr cl tag xs) (serve_next cr se) quiet quiet)
       (Net (Ret (cl1, Ok outs)) (Ret (se1, Ok True)) quiet quiet)"
    "map (evaluate (cr_xof cr) sk tag) xs = map Some outs" "linked cr sk cl1 se1"
    "client_remaining_runs (oc_state cl1) = client_remaining_runs (oc_state cl) - 16 * length xs"
    "map_option cv_pk (cs_voprf (oc_state cl1)) = map_option cv_pk (cs_voprf (oc_state cl))"
    by (rule batch_run [OF Cons.prems(1) sk complete fit])
  have "client_max_batch cl1 = client_max_batch cl"
    using batch(5) by (cases "cs_voprf (oc_state cl)"; cases "cs_voprf (oc_state cl1)")
      (simp_all add: client_max_batch_def)
  with Cons.prems(2) call batch(4) have "calls_fit cl1 calls" by (auto simp: calls_fit_def)
  from Cons.IH [OF batch(3) this] obtain cl2 se2 outss where rest:
    "live ot (Net (run_calls cr cl1 calls) (serve cr (length calls + fuel) se1) quiet quiet)
       (Net (Ret (cl2, Ok outss)) (serve cr fuel se2) quiet quiet)"
    "outputs_of (cr_xof cr) sk calls outss" "linked cr sk cl2 se2"
    "client_remaining_runs (oc_state cl2)
       = client_remaining_runs (oc_state cl1) - 16 * sum_list (map (\<lambda>(tag, xs). length xs) calls)"
    by blast
  let ?k = "\<lambda>(cl, r). Ret (cl, res_bind r (\<lambda>rest. Ok (outs # rest)))"
  have "live ot (Net (run_calls cr cl (call # calls)) (serve cr (length (call # calls) + fuel) se) quiet quiet)
      (Net (proc_bind (run_calls cr cl1 calls) ?k) (serve cr (length calls + fuel) se1) quiet quiet)"
    using live_then [OF batch(1),
        of "\<lambda>(cl, r). case r of Err e \<Rightarrow> Ret (cl, Err e) | Panic \<Rightarrow> Ret (cl, Panic)
              | Ok outs \<Rightarrow> proc_bind (run_calls cr cl calls) (\<lambda>(cl, r). Ret (cl, res_bind r (\<lambda>rest. Ok (outs # rest))))"
           "\<lambda>(se, r). case r of Ok True \<Rightarrow> serve cr (length calls + fuel) se
              | Ok False \<Rightarrow> Ret (se, Some (Ok ())) | Err e \<Rightarrow> Ret (se, Some (Err e)) | Panic \<Rightarrow> Ret (se, Some Panic)"]
    by (simp add: call)
  also have "live ot \<dots> (Net (Ret (cl2, Ok (outs # outss))) (serve cr fuel se2) quiet quiet)"
    using live_framed [OF rest(1), of ?k Ret] by (simp add: framed_def)
  finally have "live ot (Net (run_calls cr cl (call # calls)) (serve cr (length (call # calls) + fuel) se) quiet quiet)
      (Net (Ret (cl2, Ok (outs # outss))) (serve cr fuel se2) quiet quiet)" .
  moreover have "outputs_of (cr_xof cr) sk (call # calls) (outs # outss)"
    using batch(2) rest(2) call by (simp add: outputs_of_def)
  ultimately show ?case using rest(3,4) batch(4) call by auto
qed

text \<open>The server notices that the client has returned.\<close>

lemma serve_closes:
  "reach ot (Net (Ret x) (serve cr (Suc fuel) se) quiet quiet) (Net (Ret x) (Ret (se, Some (Ok ()))) quiet quiet)"
proof -
  have "net_step ot (Net (Ret x) (serve cr (Suc fuel) se) quiet quiet) (Net (Ret x) (Ret (se, Some (Ok ()))) quiet quiet)"
    by (rule net_step.server) (simp add: server_move_def serve_next_def next_request_def quiet_at)
  then show ?thesis unfolding reach_def by (blast intro: net_steps.intros)
qed

lemma reach_trans: "reach ot a b \<Longrightarrow> reach ot b c \<Longrightarrow> reach ot a c"
  unfolding reach_def by (blast intro: net_steps_trans)

section \<open>How much fuel the server's loop needs\<close>

definition received :: "(('c, 'proof) pmsg) event list \<Rightarrow> nat" where
  "received es = length (filter (\<lambda>e. case e of ERecv OnlineChan (Msg m) \<Rightarrow> True | _ \<Rightarrow> False) es)"

lemma serve_next_received:
  assumes "after (serve_next cr se) es = Some (Ret (se', Ok True))"
  shows "0 < received es"
proof (cases es)
  case Nil
  with assms show ?thesis by (simp add: serve_next_def next_request_def)
next
  case (Cons e rest)
  with assms have "react (serve_next cr se) e \<noteq> None" by (auto split: option.splits)
  then obtain i where e: "e = ERecv OnlineChan i"
    by (cases e) (auto simp: serve_next_def next_request_def split: if_splits)
  show ?thesis
  proof (cases i)
    case (Msg m)
    with Cons e show ?thesis by (simp add: received_def)
  qed (use assms Cons e in \<open>auto simp: serve_next_def next_request_def dest: after_Ret\<close>)
qed

lemma received_append: "received (es @ es') = received es + received es'"
  by (simp add: received_def)

lemma serve_fuel:
  assumes "after (serve cr fuel se) es = Some (Ret (se', None))"
  shows "fuel \<le> received es"
  using assms
proof (induction fuel arbitrary: se es)
  case 0
  then show ?case by simp
next
  case (Suc fuel)
  from after_bind_RetD [OF Suc.prems [unfolded serve.simps]] obtain es1 es2 se1 r where
    es: "es = es1 @ es2" "after (serve_next cr se) es1 = Some (Ret (se1, r))"
    and rest: "after (case r of Ok True \<Rightarrow> serve cr fuel se1 | Ok False \<Rightarrow> Ret (se1, Some (Ok ()))
        | Err e \<Rightarrow> Ret (se1, Some (Err e)) | Panic \<Rightarrow> Ret (se1, Some Panic)) es2 = Some (Ret (se', None))"
    by (auto split: prod.splits)
  have "r = Ok True" using rest by (auto split: res.splits bool.splits dest: after_Ret)
  with Suc.IH rest serve_next_received [of cr se es1 se1] es show ?case
    by (fastforce simp: received_append)
qed

section \<open>Renewing\<close>

lemma session_renews:
  fixes cr :: "('c, 'proof, 'pe, 've) crypto"
  assumes setting: "honest_setting cr frame ot sk pk evaluations uid" and key: "sess_sk se = sk"
    and pk: "map_option cv_pk (cs_voprf (oc_state cl)) = pk"
  obtains cl' se' where
    "live ot (Net (oprf_client_renew cr frame cl evaluations uid) (session_renew cr frame se evaluations) quiet quiet)
       (Net (Ret (cl', Ok uid)) (Ret (se', Ok uid)) quiet quiet)"
    "linked cr sk cl' se'" "client_remaining_runs (oc_state cl') = evaluations * 16"
    "map_option cv_pk (cs_voprf (oc_state cl')) = pk"
proof -
  have tau: "tau_for evaluations = Some (evaluations * 16)"
    using setting by (intro tau_for_small) (simp add: honest_setting_def)
  obtain cs ss where run: "live ot (Net (preproc_client_with cr frame pk (evaluations * 16) uid)
        (preproc_server cr frame sk (evaluations * 16)) quiet quiet) (Net (Ret (Ok cs)) (Ret (Ok ss)) quiet quiet)"
    and st: "wf_client cs" "wf_server ss" "pads_consistent ss" "matched sk cs ss" "matched_voprf cr sk cs ss"
    "client_remaining_runs cs = evaluations * 16" "cs_uid cs = uid" "map_option cv_pk (cs_voprf cs) = pk"
    by (rule preprocessing_links [OF setting])
  let ?cl = "cl\<lparr> oc_state := cs \<rparr>" and ?se = "se\<lparr> sess_state := ss \<rparr>"
  have uids: "ss_uid ss = uid" using st(4,7) by (simp add: matched_def)
  show ?thesis
  proof (rule that)
    show "live ot (Net (oprf_client_renew cr frame cl evaluations uid) (session_renew cr frame se evaluations) quiet quiet)
       (Net (Ret (?cl, Ok uid)) (Ret (?se, Ok uid)) quiet quiet)"
      using live_then [OF run,
        of "\<lambda>r. case r of Ok st \<Rightarrow> Ret (cl\<lparr> oc_state := st \<rparr>, Ok (cs_uid st))
              | Err e \<Rightarrow> Ret (cl, Err (ClientPreproc e)) | Panic \<Rightarrow> Ret (cl, Panic)"
           "\<lambda>r. case r of Ok st \<Rightarrow> Ret (se\<lparr> sess_state := st \<rparr>, Ok (ss_uid st))
              | Err e \<Rightarrow> Ret (se, Err (ServerPreproc e)) | Panic \<Rightarrow> Ret (se, Panic)"]
      by (cases pk) (simp_all add: oprf_client_renew_def session_renew_def tau key pk st(7) uids
          preproc_client_def preproc_client_voprf_def)
    show "linked cr sk ?cl ?se" using st key by (simp add: linked_def)
    show "client_remaining_runs (oc_state ?cl) = evaluations * 16"
      "map_option cv_pk (cs_voprf (oc_state ?cl)) = pk" using st by simp_all
  qed
qed

end
