(* ===== verification/PsiRun.thy ===== *)
theory PsiRun
  imports PsiSession SessionRun
begin

text \<open>Honest runs of a set intersection: opening both sides, the requests of a set, and the result.\<close>

section \<open>The requests of a set\<close>

lemma linked_max_batch: "linked cr sk cl se \<Longrightarrow> session_max_batch se = client_max_batch cl"
  by (auto simp: linked_def matched_voprf_def session_max_batch_def client_max_batch_def split: option.splits)

lemma client_max_batch_pos: "0 < client_max_batch cl"
  by (simp add: client_max_batch_def MAX_BATCH_EVALUATIONS_def MAX_VOPRF_BATCH_EVALUATIONS_def split: option.splits)

lemma client_max_batch_same:
  "map_option cv_pk (cs_voprf (oc_state cl)) = map_option cv_pk (cs_voprf (oc_state cl')) \<Longrightarrow>
   client_max_batch cl = client_max_batch cl'"
  by (auto simp: client_max_batch_def split: option.splits)

lemma chunks_run:
  fixes cr :: "('c, 'proof, 'pe, 've) crypto"
  assumes "linked cr sk cl (pss_oprf ps)" and sk: "wf_key sk" and complete: "complete_online cr"
    and tag: "length tag \<le> MAX_TAG_LEN"
    and "\<forall>batch \<in> set batches. batch \<noteq> [] \<and> length batch \<le> client_max_batch cl"
    and "16 * length (concat batches) \<le> client_remaining_runs (oc_state cl)"
  shows "\<exists>ps' outs. live ot (Net (evaluate_chunks cr cl tag outs0 batches) (serve_requests cr (length batches) ps) quiet quiet)
       (Net (Ret (Ok (outs0 @ outs))) (Ret (ps', Ok ())) quiet quiet)
    \<and> map (evaluate (cr_xof cr) sk tag) (concat batches) = map Some outs"
  using assms(1,5,6)
proof (induction batches arbitrary: cl ps outs0)
  case Nil
  show ?case by (rule exI [of _ ps], rule exI [of _ "[]"]) auto
next
  case (Cons batch batches)
  have fit: "batch \<noteq> []" "length batch \<le> client_max_batch cl"
    "16 * length batch \<le> client_remaining_runs (oc_state cl)" using Cons.prems(2,3) by auto
  obtain cl1 se1 outs where run:
    "live ot (Net (evaluate_batch cr cl tag batch) (serve_next cr (pss_oprf ps)) quiet quiet)
       (Net (Ret (cl1, Ok outs)) (Ret (se1, Ok True)) quiet quiet)"
    and outs: "map (evaluate (cr_xof cr) sk tag) batch = map Some outs"
    and st: "linked cr sk cl1 se1"
      "client_remaining_runs (oc_state cl1) = client_remaining_runs (oc_state cl) - 16 * length batch"
      "map_option cv_pk (cs_voprf (oc_state cl1)) = map_option cv_pk (cs_voprf (oc_state cl))"
    by (rule batch_run [OF Cons.prems(1) sk complete tag fit])
  let ?ps = "ps\<lparr> pss_oprf := se1 \<rparr>"
  have "client_max_batch cl1 = client_max_batch cl" by (rule client_max_batch_same [OF st(3)])
  with Cons.prems st have "linked cr sk cl1 (pss_oprf ?ps)"
    "\<forall>batch \<in> set batches. batch \<noteq> [] \<and> length batch \<le> client_max_batch cl1"
    "16 * length (concat batches) \<le> client_remaining_runs (oc_state cl1)" by auto
  from Cons.IH [OF this, of "outs0 @ outs"] obtain ps' outs' where rest:
    "live ot (Net (evaluate_chunks cr cl1 tag (outs0 @ outs) batches) (serve_requests cr (length batches) ?ps) quiet quiet)
       (Net (Ret (Ok ((outs0 @ outs) @ outs'))) (Ret (ps', Ok ())) quiet quiet)"
    "map (evaluate (cr_xof cr) sk tag) (concat batches) = map Some outs'" by blast
  have "live ot (Net (evaluate_chunks cr cl tag outs0 (batch # batches)) (serve_requests cr (length (batch # batches)) ps) quiet quiet)
      (Net (evaluate_chunks cr cl1 tag (outs0 @ outs) batches) (serve_requests cr (length batches) ?ps) quiet quiet)"
    using live_then [OF run, of
        "\<lambda>(oprf, r). attempt_as PsiOprf (Ret r) (\<lambda>outs. evaluate_chunks cr oprf tag (outs0 @ outs) batches)"
        "\<lambda>(oprf, r). let ps = ps\<lparr> pss_oprf := oprf \<rparr> in
          case r of Err e \<Rightarrow> Ret (ps, Err (PsiOprfServer e)) | Panic \<Rightarrow> Ret (ps, Panic)
          | Ok again \<Rightarrow> if again then serve_requests cr (length batches) ps else Ret (ps, Err PsiUnexpectedClose)"]
    by (simp add: attempt_as_def)
  note whole = live_trans [OF this rest(1)]
  show ?case
  proof (intro exI conjI)
    show "live ot (Net (evaluate_chunks cr cl tag outs0 (batch # batches)) (serve_requests cr (length (batch # batches)) ps) quiet quiet)
       (Net (Ret (Ok (outs0 @ outs @ outs'))) (Ret (ps', Ok ())) quiet quiet)" using whole by (simp only: append_assoc)
    show "map (evaluate (cr_xof cr) sk tag) (concat (batch # batches)) = map Some (outs @ outs')" using outs rest(2) by simp
  qed
qed

section \<open>Opening both sides\<close>

lemma psi_opens:
  fixes cr :: "('c, 'proof, 'pe, 've) crypto"
  assumes setting: "honest_setting cr frame ot sk pk set_size uid" and key: "os_sk (ps_oprf srv) = sk"
    and size: "set_size \<le> MAX_CLIENT_SET"
  obtains cl se where
    "live ot (Net (psi_client_with cr frame pk set_size uid) (psi_server_session cr frame srv) quiet quiet)
       (Net (Ret (Ok \<lparr> pc_oprf = cl, pc_set_size = set_size \<rparr>)) (Ret (Ok \<lparr> pss_oprf = se, pss_set_size = set_size \<rparr>)) quiet quiet)"
    "linked cr sk cl se" "client_remaining_runs (oc_state cl) = set_size * 16"
proof -
  obtain cl se where open_run:
    "live ot (Net (oprf_client_with cr frame pk set_size uid) (server_session cr frame (ps_oprf srv) set_size) quiet quiet)
       (Net (Ret (Ok cl)) (Ret (Ok se)) quiet quiet)"
    and linked: "linked cr sk cl se" "client_remaining_runs (oc_state cl) = set_size * 16"
    by (rule session_opens [OF setting key])
  have sizes: "set_size \<noteq> 0" "\<not> MAX_CLIENT_SET < set_size" "\<not> USIZE_MAX < set_size"
    using setting size by (simp_all add: honest_setting_def MAX_CLIENT_SET_def USIZE_MAX_def)
  let ?p = "attempt_as PsiOprf (oprf_client_with cr frame pk set_size uid)
      (\<lambda>oprf. Ret (Ok \<lparr> pc_oprf = oprf, pc_set_size = set_size \<rparr>)) :: ('c, 'proof, 'pe, 've, 'c psi_client) psi_proc"
  let ?q = "\<lambda>n. if USIZE_MAX < n then Ret (Err (PsiMalformed ''client set size does not fit in a usize''))
     else let set_size = n in
     if set_size = 0 then Ret (Err (PsiMalformed ''client announced an empty set''))
     else if MAX_CLIENT_SET < set_size then Ret (Err (ClientSetTooLarge set_size MAX_CLIENT_SET))
     else attempt_as PsiOprfServer (server_session cr frame (ps_oprf srv) set_size)
       (\<lambda>oprf. Ret (Ok \<lparr> pss_oprf = oprf, pss_set_size = set_size \<rparr>)) :: ('c, 'proof, 'pe, 've, psi_session) psi_proc"
  have client: "psi_client_with cr frame pk set_size uid =
      attempt psi_client_channel (\<lambda>_. attempt (send_client_set_size set_size) (\<lambda>_. ?p))"
    using sizes by (simp add: psi_client_with_def oprf_client_with_def split: option.splits)
  have server: "psi_server_session cr frame srv = attempt psi_server_channel (\<lambda>_. attempt recv_client_set_size ?q)"
    by (simp only: psi_server_session_def)
  have "live ot (Net (psi_client_with cr frame pk set_size uid) (psi_server_session cr frame srv) quiet quiet)
      (Net (attempt (send_client_set_size set_size) (\<lambda>_. ?p)) (attempt recv_client_set_size ?q) quiet quiet)"
    unfolding client server psi_client_channel_def psi_server_channel_def by (rule both_open_streams)
  also have "live ot \<dots> (Net ?p (?q set_size) quiet quiet)"
    unfolding send_client_set_size_def recv_client_set_size_def by (rule up_msg) simp
  also have "?q set_size = attempt_as PsiOprfServer (server_session cr frame (ps_oprf srv) set_size)
       (\<lambda>oprf. Ret (Ok \<lparr> pss_oprf = oprf, pss_set_size = set_size \<rparr>))"
    using sizes by (simp only: if_False Let_def)
  also have "live ot (Net ?p \<dots> quiet quiet) (Net (Ret (Ok \<lparr> pc_oprf = cl, pc_set_size = set_size \<rparr>))
      (Ret (Ok \<lparr> pss_oprf = se, pss_set_size = set_size \<rparr>)) quiet quiet)"
    by (rule live_then_attempt [OF open_run])
  finally show ?thesis using linked by (rule that)
qed

section \<open>The intersection\<close>

lemma intersection_run:
  fixes cr :: "('c, 'proof, 'pe, 've) crypto"
  assumes linked: "linked cr sk cl se" and sk: "wf_key sk" and complete: "complete_online cr"
    and runs: "client_remaining_runs (oc_state cl) = length xs * 16"
    and tag: "length tag \<le> MAX_TAG_LEN" and size: "length ys \<le> MAX_SERVER_SET"
    and masked: "mask_server_set (cr_xof cr) sk tag ys = Some masked"
  obtains ps' outs where
    "live ot (Net (psi_intersect cr \<lparr> pc_oprf = cl, pc_set_size = length xs \<rparr> xs :: ('c, 'proof, 'pe, 've, nat list) psi_proc)
         (psi_serve cr \<lparr> pss_oprf = se, pss_set_size = length xs \<rparr> tag ys) quiet quiet)
       (Net (Ret (Ok (intersect outs masked))) (Ret (ps', Ok ())) quiet quiet)"
    "map (evaluate (cr_xof cr) sk tag) xs = map Some outs"
proof -
  let ?batches = "chunks (client_max_batch cl) xs"
    and ?ps = "\<lparr> pss_oprf = se, pss_set_size = length xs \<rparr>"
    and ?set = "\<lparr> ms_tag = tag, ms_elements = masked \<rparr>"
  have concat: "concat ?batches = xs" by (rule concat_chunks [OF client_max_batch_pos])
  have small: "\<not> MAX_SERVER_SET < length masked"
    using mask_length [OF masked] size by simp
  have "\<forall>batch \<in> set ?batches. batch \<noteq> [] \<and> length batch \<le> client_max_batch cl"
    by (intro ballI chunks_lengths)
  from chunks_run [of cr sk cl ?ps, OF _ sk complete tag this] linked runs concat obtain ps' outs where
    run: "live ot (Net (evaluate_chunks cr cl tag [] ?batches :: ('c, 'proof, 'pe, 've, prf_output list) psi_proc)
        (serve_requests cr (length ?batches) ?ps) quiet quiet)
      (Net (Ret (Ok outs)) (Ret (ps', Ok ())) quiet quiet)"
    and outs: "map (evaluate (cr_xof cr) sk tag) xs = map Some outs"
    by (metis append_Nil mult.commute order_refl psi_session.select_convs(1))
  let ?f = "\<lambda>outputs. Ret (Ok (intersect outputs masked)) :: ('c, 'proof, 'pe, 've, nat list) psi_proc"
  let ?go = "\<lambda>m. if MAX_SERVER_SET < length (ms_elements m)
     then Ret (Err (ServerSetTooLarge (length (ms_elements m)) MAX_SERVER_SET))
     else attempt (evaluate_chunks cr cl (ms_tag m) [] ?batches) (\<lambda>outputs. Ret (Ok (intersect outputs (ms_elements m))))
       :: ('c, 'proof, 'pe, 've, nat list) psi_proc"
  let ?k = "\<lambda>r. case r of Err e \<Rightarrow> Ret (?ps, Err e) | Panic \<Rightarrow> Ret (?ps, Panic)
      | Ok _ \<Rightarrow> serve_requests cr (requests_for (length xs) (client_max_batch cl)) ?ps"
  have client: "psi_intersect cr \<lparr> pc_oprf = cl, pc_set_size = length xs \<rparr> xs = attempt recv_set ?go"
    by (simp add: psi_intersect_def cong: if_cong)
  have server: "psi_serve cr ?ps tag ys = proc_bind (send_set ?set) ?k"
    using masked small linked
    by (simp add: psi_serve_def serve_masked_def linked_def linked_max_batch [OF linked])
  have "live ot (Net (attempt recv_set ?go) (proc_bind (send_set ?set) ?k) quiet quiet)
      (Net (attempt recv_set ?go) (?k (Ok ())) quiet (quiet(PsiChan := [MSet ?set])))"
    by (rule live_server) (simp_all add: server_move_def send_set_def send_msg_def quiet_at)
  also have "live ot \<dots> (Net (?go ?set) (?k (Ok ())) quiet quiet)"
    by (rule live_client) (simp_all add: client_move_def recv_set_def recv_msg_def)
  also have "?go ?set = attempt (evaluate_chunks cr cl tag [] ?batches) ?f" using small by simp
  also have "live ot (Net \<dots> (?k (Ok ())) quiet quiet) (Net (?f outs) (Ret (ps', Ok ())) quiet quiet)"
    using live_then [OF run [unfolded length_chunks [OF client_max_batch_pos] requests_for_def [symmetric]], of "\<lambda>r. case r of Ok a \<Rightarrow> ?f a | Err e \<Rightarrow> Ret (Err e) | Panic \<Rightarrow> Ret Panic" Ret]
    by (simp add: attempt_def)
  finally show ?thesis using outs by (rule that [unfolded client server])
qed

end
