(* ===== verification/NoPanic.thy ===== *)
theory NoPanic
  imports KeyRelease
begin

text \<open>
  Preprocessing against any peer: it ends in an error or in a state of the right shape, and the client
  never panics. The client's proofs are in a logic beside that of \<open>ClientChecks\<close>: \<open>settles ok p Q\<close> adds
  to \<open>returns ok p Q\<close> that no execution of \<open>p\<close> ends in a panic, with one rule per call.
\<close>

section \<open>Processes that do not panic\<close>

definition settles ::
  "('m event \<Rightarrow> bool) \<Rightarrow> ('m, ('e, 'a) res) proc \<Rightarrow> ('a \<Rightarrow> bool) \<Rightarrow> bool" where
  "settles ok p Q \<longleftrightarrow> returns ok p Q \<and> (\<forall>es. list_all ok es \<longrightarrow> after p es \<noteq> Some (Ret Panic))"

lemma settles_noPanic: "settles ok p Q \<Longrightarrow> list_all ok es \<Longrightarrow> after p es \<noteq> Some (Ret Panic)"
  by (simp add: settles_def)

lemma settles_returns: "settles ok p Q \<Longrightarrow> returns ok p Q"
  by (simp add: settles_def)

text \<open>What is known of the results is known of a process that does not panic.\<close>

lemma settlesI: "settles ok p R \<Longrightarrow> returns ok p Q \<Longrightarrow> settles ok p Q"
  by (simp add: settles_def)

lemma settles_weaken: "settles ok p R \<Longrightarrow> (\<And>a. R a \<Longrightarrow> Q a) \<Longrightarrow> settles ok p Q"
  by (auto simp: settles_def elim: returns_weaken)

lemma settles_Ret:
  "r \<noteq> Panic \<Longrightarrow> (\<And>a. r = Ok a \<Longrightarrow> Q a) \<Longrightarrow> settles ok (Ret r) Q"
  unfolding settles_def by (auto intro: returns_Ret dest: after_Ret)

lemma settles_Err: "settles ok (Ret (Err e)) Q"
  by (rule settles_Ret) simp_all

lemma settles_expect: "x = Some a \<Longrightarrow> Q a \<Longrightarrow> settles ok (Ret (expect x)) Q"
  by (rule settles_Ret) simp_all

lemma settles_if_Err: "(\<not> c \<Longrightarrow> settles ok p Q) \<Longrightarrow> settles ok (if c then Ret (Err e) else p) Q"
  by (simp add: settles_Err)

lemma settles_bind:
  assumes p: "settles ok p R" and f: "\<And>r. r \<noteq> Panic \<Longrightarrow> (\<And>a. r = Ok a \<Longrightarrow> R a) \<Longrightarrow> settles ok (f r) Q"
  shows "settles ok (proc_bind p f) Q"
proof -
  have "r \<noteq> Panic \<and> (\<forall>b. r = Ok b \<longrightarrow> Q b)"
    if ok: "list_all ok es" and run: "after (proc_bind p f) es = Some (Ret r)" for es r
  proof -
    from after_bind_RetD [OF run] obtain es1 es2 x where parts: "es = es1 @ es2"
      "after p es1 = Some (Ret x)" "after (f x) es2 = Some (Ret r)" by blast
    with ok have oks: "list_all ok es1" "list_all ok es2" by simp_all
    have "x \<noteq> Panic" using settles_noPanic [OF p oks(1)] parts(2) by blast
    moreover have "R a" if "x = Ok a" for a
      using returnsD [OF settles_returns [OF p] oks(1)] parts(2) that by blast
    ultimately have "settles ok (f x) Q" by (rule f)
    then show ?thesis
      using settles_noPanic [OF _ oks(2)] returnsD [OF settles_returns oks(2)] parts(3) by metis
  qed
  then show ?thesis by (auto simp: settles_def returns_def)
qed

lemma settles_attempt:
  assumes "settles ok p R" and "\<And>a. R a \<Longrightarrow> settles ok (f a) Q"
  shows "settles ok (attempt p f) Q"
  unfolding attempt_def
  by (rule settles_bind [OF assms(1)]) (use assms(2) in \<open>auto intro: settles_Err split: res.split\<close>)

lemma settles_attempt_as:
  assumes "settles ok p R" and "\<And>a. R a \<Longrightarrow> settles ok (f a) Q"
  shows "settles ok (attempt_as g p f) Q"
  unfolding attempt_as_def
  by (rule settles_bind [OF assms(1)]) (use assms(2) in \<open>auto intro: settles_Err split: res.split\<close>)

lemma settles_event:
  assumes "\<And>x. p \<noteq> Ret x" and "\<And>e p'. ok e \<Longrightarrow> react p e = Some p' \<Longrightarrow> settles ok p' Q"
  shows "settles ok p Q"
  unfolding settles_def
proof (intro conjI allI impI)
  show "returns ok p Q" by (rule returns_event) (use assms in \<open>auto intro: settles_returns\<close>)
  fix es assume ok: "list_all ok es"
  show "after p es \<noteq> Some (Ret Panic)"
  proof (cases es)
    case Nil
    then show ?thesis using assms(1) by simp
  next
    case (Cons e es')
    have "after p' es' \<noteq> Some (Ret Panic)" if "react p e = Some p'" for p'
      using settles_noPanic [OF assms(2) [OF _ that]] ok Cons by simp
    with Cons show ?thesis by (simp split: option.split)
  qed
qed

lemma settles_call:
  "(\<And>b. settles ok (k1 b) Q) \<Longrightarrow> settles ok (Open ch k1) Q"
  "(\<And>b. settles ok (k2 b) Q) \<Longrightarrow> settles ok (Send ch m k2) Q"
  "(\<And>i. ok (ERecv ch i) \<Longrightarrow> settles ok (k3 i) Q) \<Longrightarrow> settles ok (Recv ch k3) Q"
  "(\<And>out. ok (EOtSend conn n out) \<Longrightarrow> settles ok (k4 out) Q) \<Longrightarrow> settles ok (OtSend conn n k4) Q"
  "(\<And>got. ok (EOtRecv conn n got) \<Longrightarrow> settles ok (k5 got) Q) \<Longrightarrow> settles ok (OtRecv conn n k5) Q"
  by (rule settles_event; auto elim!: react.elims split: if_splits)+

lemma ok_or_not_Panic: "ok_or e x \<noteq> Panic"
  by (cases x) simp_all

lemma settles_open_stream: "settles ok (open_stream e ch) (\<lambda>_. True)"
  unfolding open_stream_def by (intro settles_call settles_Ret) simp_all

lemma settles_send_msg: "settles ok (send_msg e ch m) (\<lambda>_. True)"
  unfolding send_msg_def by (intro settles_call settles_Ret) simp_all

lemma settles_recv_msg:
  "(\<And>m a. ok (ERecv ch (Msg m)) \<Longrightarrow> decode m = Some a \<Longrightarrow> Q a) \<Longrightarrow> settles ok (recv_msg e1 e2 decode ch) Q"
  unfolding recv_msg_def
  by (rule settles_call(3)) (auto simp: ok_or_not_Panic intro!: settles_Ret split: incoming.splits elim!: ok_or.elims)

text \<open>The calls of the preprocessing, with what \<open>ClientChecks\<close> shows of their results.\<close>

lemma settles_open_on: "settles ok (open_on ch) (\<lambda>_. True)"
  unfolding open_on_def by (rule settles_open_stream)

lemma settles_send_on: "settles ok (send_on ch m) (\<lambda>_. True)"
  unfolding send_on_def by (rule settles_send_msg)

lemma settles_recv_with:
  "(\<And>m a. ok (ERecv ch (Msg m)) \<Longrightarrow> decode m = Some a \<Longrightarrow> Q a) \<Longrightarrow> settles ok (recv_with decode ch) Q"
  unfolding recv_with_def by (rule settles_recv_msg)

lemma settles_recv_any: "settles ok (recv_with decode ch) (\<lambda>_. True)"
  by (rule settles_recv_with) simp

lemma settles_voprf_open: "settles ok voprf_open (\<lambda>_. True)"
  unfolding voprf_open_def by (rule settles_attempt [OF settles_open_on settles_open_on])

lemma settles_send_all: "settles ok (send_all ch ms) (\<lambda>_. True)"
  by (induction ms) (simp_all add: settles_Ret settles_attempt [OF settles_send_on])

lemma settles_ot_send_on: "settles ok (ot_send_on conn n) (\<lambda>pairs. ok (EOtSend conn n (Some pairs)))"
  by (rule settlesI [OF _ returns_ot_send_on, of _ _ _ "\<lambda>_. True"])
    (auto simp: ot_send_on_def ok_or_not_Panic intro!: settles_call settles_Ret)

lemma settles_ot_receive_on: "settles ok (ot_receive_on conn n) (\<lambda>out. ok (EOtRecv conn n (Some out)))"
  by (rule settlesI [OF _ returns_ot_receive_on, of _ _ _ "\<lambda>_. True"])
    (auto simp: ot_receive_on_def ok_or_not_Panic intro!: settles_call settles_Ret)

section \<open>The OTs of a client\<close>

lemma delta_ot_receive_not_Panic:
  assumes "required_binary_ot_count base count = Some n" and "length (fst out) = n" and "length (snd out) = n"
  shows "delta_ot_receive h base (\<lambda>_. Ok out :: ('e, _) res) count \<noteq> Panic"
proof -
  let ?pairs = "zip (fst out) (fst out)"
  have "rot_agree n ?pairs (fst out) (snd out)" using assms(2,3) by (simp add: rot_agree_def)
  from delta_ot_agree [OF assms(1), of "\<lambda>_. Ok ?pairs" ?pairs "\<lambda>_. Ok out :: ('e, _) res" "fst out" "snd out" h, OF _ _ this]
  show ?thesis by auto
qed

lemma settles_delta_ot_receive_on:
  assumes "0 < tau" and "\<And>e. seen e \<Longrightarrow> event_ok digest e"
  shows "settles seen (delta_ot_receive_on cr tau)
    (\<lambda>(blocks, choices). received_blocks cr seen tau blocks choices \<and> wf_received tau blocks choices)"
proof -
  obtain n where n: "required_binary_ot_count (cr_base_ot_count cr) tau = Some n"
    using assms(1) by (simp add: required_binary_ot_count_def)
  have "settles seen (delta_ot_receive_on cr tau) (\<lambda>_. True)"
    unfolding delta_ot_receive_on_def n expect.simps attempt_Ret
  proof (rule settles_attempt [OF settles_ot_receive_on], rule settles_Ret)
    fix out assume "seen (EOtRecv DeltaOt n (Some out))"
    from assms(2) [OF this] show "delta_ot_receive (cr_hash cr) (cr_base_ot_count cr) (\<lambda>_. Ok out) tau \<noteq> Panic"
      by (cases out) (simp add: delta_ot_receive_not_Panic [OF n])
  qed simp
  from settlesI [OF this returns_delta_ot_receive_on] show ?thesis
    by (rule settles_weaken) (auto intro: wf_received_blocks [OF _ assms(2)])
qed

section \<open>The pads of a client\<close>

lemma check_pads_all_not_Panic:
  fixes cr :: "('c, 'proof, 'pe, 've) crypto"
  assumes "wf_received tau blocks choices" and "run + length ds \<le> tau" and "\<forall>d \<in> set ds. length d = DELTA"
  shows "(check_pads_all cr blocks choices run ds :: (('pe, 've) preproc_error, unit) res) \<noteq> Panic"
  using assms
proof (induction ds arbitrary: run)
  case (Cons d ds)
  have run: "run < tau" "length d = 16" using Cons.prems by simp_all
  then have "length (blocks ! run) = 16" "unat (choices ! run) < 16" "run < length blocks" "run < length choices"
    using Cons.prems(1) by (simp_all add: wf_received_def)
  with run have "(check_pads cr blocks choices run d :: (('pe, 've) preproc_error, unit) res) \<noteq> Panic"
    by (simp add: check_pads_def pad_commitment_def r_prime_Some idx_def)
  then show ?case
    unfolding check_pads_all.simps by (rule res_bind_not_Panic) (rule Cons.IH, use Cons.prems in auto)
qed simp

lemma settles_receive_pads:
  assumes "wf_received tau blocks choices" and "(v + n) * 16 \<le> tau"
  shows "settles (event_ok digest) (receive_pads cr blocks choices n v)
    (\<lambda>d. wf_pads digest (n * 16) d \<and> own_pads cr blocks choices (v * 16) d)"
proof (rule settlesI [OF _ returns_receive_pads [OF assms]])
  show "settles (event_ok digest) (receive_pads cr blocks choices n v) (\<lambda>_. True)"
    using assms
  proof (induction n arbitrary: v)
    case (Suc n)
    have message: "settles (event_ok digest) (recv_with pads_message VoprfChan) (\<lambda>d. \<forall>x \<in> set d. length x = DELTA)"
      by (rule settles_recv_with) (auto elim!: pads_message.elims)
    have rest: "settles (event_ok digest) (receive_pads cr blocks choices n (Suc v)) (\<lambda>_. True)"
      by (rule Suc.IH [OF Suc.prems(1)]) (use Suc.prems(2) in simp)
    have room: "v * 16 + 16 \<le> tau" using Suc.prems(2) by simp
    show ?case
      unfolding receive_pads.simps
      by (rule settles_attempt [OF message], rule settles_if_Err,
          rule settles_attempt [OF settles_Ret], rule check_pads_all_not_Panic [OF Suc.prems(1)])
        (use room in \<open>auto simp: RUNS_PER_EVALUATION_def H_ROWS_def intro!: settles_attempt [OF rest] settles_Ret\<close>)
  qed (simp add: settles_Ret)
qed

section \<open>A client's preprocessing\<close>

definition client_shape :: "'c verified_key option \<Rightarrow> nat \<Rightarrow> uid \<Rightarrow> 'c client_state \<Rightarrow> bool" where
  "client_shape pk tau uid cs \<longleftrightarrow> wf_client cs \<and> cs_runs cs = runs_new tau \<and> cs_uid cs = uid \<and>
     map_option cv_pk (cs_voprf cs) = pk"

lemma client_checked_shape: "client_checked cr digest seen pk tau uid cs \<Longrightarrow> client_shape (Some pk) tau uid cs"
  by (auto simp: client_checked_def checked_preprocessing_def client_shape_def)

lemma client_shapeI:
  assumes "wf_received tau blocks choices" and "length pairs = par_N" and "length bhat = par_N"
    and "list_all (\<lambda>b. b \<le> 1) bhat"
    and "client_state_new pairs bhat (entries_of blocks choices) uid None = Some cs"
  shows "client_shape None tau uid cs"
  using assms
  by (auto simp: client_shape_def wf_client_def client_state_new_def into_array_def entries_of_def wf_received_def
      runs_new_def wf_runs_def list_all_iff word_le_nat_alt in_set_conv_nth)

lemma entries_received:
  assumes "wf_received tau blocks choices"
  shows "rc_entries blocks choices = Some (entries_of blocks choices)"
  by (rule rc_entries_Some) (use assms in \<open>auto simp: wf_received_def in_set_conv_nth\<close>)

lemma settles_send_masks:
  assumes "length pairs = par_N"
  shows "settles ok (send_masks_commitments cr pairs ev) (\<lambda>_. True)"
  unfolding send_masks_commitments_def masks_commitments_Some [OF assms] expect.simps attempt_Ret
  by (rule settles_attempt [OF settles_send_all], rule settles_Ret) simp_all

lemma settles_finish_on:
  assumes "\<And>st p. verify_preprocessing cr st p \<noteq> Panic"
  shows "settles ok (finish_on cr pk bhat c d) (\<lambda>_. True)"
proof -
  have "client_finish cr pk bhat c d message \<noteq> Panic" for message
    using assms [of "client_statement pk bhat c (pp_m message)" "pp_proof message"]
    by (cases "verify_preprocessing cr (client_statement pk bhat c (pp_m message)) (pp_proof message)")
      (simp_all add: client_finish_def)
  then show ?thesis
    unfolding finish_on_def by (intro settles_attempt [OF settles_recv_any] settles_Ret) auto
qed

lemma settles_client_state:
  assumes "length pairs = par_N" and "length bhat = par_N"
  shows "settles ok (Ret (expect (client_state_new pairs bhat r_c uid voprf)))
    (\<lambda>cs. client_state_new pairs bhat r_c uid voprf = Some cs)"
  by (rule settles_Ret) (use assms in \<open>auto simp: client_state_new_def into_array_def\<close>)

text \<open>Until the last message of the server, with or without a VOPRF.\<close>

lemma settles_plain_client:
  assumes events: "\<And>e. seen e \<Longrightarrow> event_ok digest e"
  shows "settles seen (preproc_client_with cr frame None tau uid) (client_shape None tau uid)"
proof (cases "tau = 0")
  case False
  then have tau: "0 < tau" by simp
  have pairs: "length (take par_N pairs) = par_N"
    if "seen (EOtSend BinaryOt (BINARY_OT_COUNT (cr_base_ot_count cr)) (Some pairs))" for pairs
    using events [OF that] by (simp add: BINARY_OT_COUNT_def next_multiple_of_ge)
  have read: "settles seen (Ret (read_tau echoed)) (\<lambda>_. True)" for echoed
    by (rule settles_Ret) (simp_all add: read_tau_def decode_tau_def)
  show ?thesis
    unfolding preproc_client_with_def Let_def
    apply (simp only: False if_False simp_thms if_True option.case attempt_Ret)
    apply (rule settles_attempt [OF settles_open_on], rule settles_attempt [OF settles_send_on])
    apply (rule settles_attempt [OF settles_recv_any], rule settles_attempt [OF read])
    apply (rule settles_if_Err)
    apply (rule settles_attempt [OF settles_ot_send_on])
    apply (rule settles_attempt [OF settles_delta_ot_receive_on [OF tau events]], assumption)
    subgoal for _ _ _ _ all_pairs received
      apply (cases received, simp only: prod.case)
      apply (elim conjE, simp only: entries_received expect.simps attempt_Ret)
      apply (rule settles_attempt [OF settles_recv_any], rule settles_if_Err, rule settles_if_Err)
      apply (rule settles_weaken [OF settles_client_state [OF pairs]])
        apply (assumption, simp)
      apply (rule client_shapeI [OF _ pairs])
          apply (assumption, assumption, simp, simp, assumption)
      done
    done
qed (simp add: preproc_client_with_def settles_Err)

lemma settles_voprf_client:
  assumes events: "\<And>e. seen e \<Longrightarrow> event_ok digest e" and verify: "\<And>st p. verify_preprocessing cr st p \<noteq> Panic"
  shows "settles seen (preproc_client_with cr frame (Some pk) tau uid) (client_shape (Some pk) tau uid)"
proof (rule settlesI)
  show "returns seen (preproc_client_with cr frame (Some pk) tau uid) (client_shape (Some pk) tau uid)"
    by (rule returns_weaken [OF returns_preproc_client [OF events] client_checked_shape])
  have pairs: "length (take par_N pairs) = par_N"
    if "seen (EOtSend BinaryOt (BINARY_OT_COUNT (cr_base_ot_count cr)) (Some pairs))" for pairs
    using events [OF that] by (simp add: BINARY_OT_COUNT_def next_multiple_of_ge)
  have read: "settles seen (Ret (read_tau echoed)) (\<lambda>_. True)" for echoed
    by (rule settles_Ret) (simp_all add: read_tau_def decode_tau_def)
  have pads: "settles seen (receive_pads_commitments cr blocks choices (evaluations_for tau)) (\<lambda>_. True)"
    if "wf_received tau blocks choices" for blocks choices
  proof -
    have "(0 + evaluations_for tau) * 16 \<le> tau" by (simp add: evaluations_for_def H_ROWS_def)
    from settles_receive_pads [OF that this] show ?thesis
      unfolding receive_pads_commitments_def settles_def returns_def
      using events by (metis list.pred_mono_strong)
  qed
  have finish: "settles seen (attempt (finish_on cr pk bhat c d) (\<lambda>voprf. Ret (Ok (Some voprf)))) (\<lambda>_. True)"
    for bhat c d by (rule settles_attempt [OF settles_finish_on [OF verify]], rule settles_Ret) simp_all
  show "settles seen (preproc_client_with cr frame (Some pk) tau uid) (\<lambda>_. True)"
    unfolding preproc_client_with_def Let_def
    apply (simp only: if_False simp_thms if_True option.case option.distinct attempt_Ret)
    apply (rule settles_if_Err, rule settles_if_Err)
    apply (rule settles_attempt [OF settles_open_on], rule settles_attempt [OF settles_send_on])
    apply (rule settles_attempt [OF settles_recv_any], rule settles_attempt [OF read])
    apply (rule settles_if_Err, rule settles_attempt [OF settles_voprf_open])
    apply (rule settles_attempt [OF settles_ot_send_on])
    apply (rule settles_attempt [OF settles_send_masks [OF pairs]], assumption)
    apply (rule settles_attempt [OF settles_delta_ot_receive_on [OF _ events]], simp, assumption)
    subgoal for _ _ _ _ _ _ _ received
      apply (cases received, simp only: prod.case)
      apply (elim conjE, simp only: entries_received expect.simps attempt_Ret)
      apply (rule settles_attempt [OF pads], assumption)
      apply (rule settles_attempt [OF settles_recv_any], rule settles_if_Err, rule settles_if_Err)
      apply (rule settles_attempt [OF finish])
      apply (rule settles_weaken [OF settles_client_state [OF pairs]])
      apply (assumption, simp, simp)
      done
    done
qed

lemma returns_client_shape:
  assumes events: "\<And>e. seen e \<Longrightarrow> event_ok digest e"
  shows "returns seen (preproc_client_with cr frame pk tau uid) (client_shape pk tau uid)"
proof (cases pk)
  case None
  then show ?thesis using settles_returns [OF settles_plain_client [OF events]] by simp
next
  case (Some key)
  then show ?thesis using returns_weaken [OF returns_preproc_client [OF events] client_checked_shape] by simp
qed

text \<open>Whatever the server does, with or without a VOPRF.\<close>

lemma settles_preproc_client:
  assumes "\<And>e. seen e \<Longrightarrow> event_ok digest e" and "\<And>st p. verify_preprocessing cr st p \<noteq> Panic"
  shows "settles seen (preproc_client_with cr frame pk tau uid) (client_shape pk tau uid)"
proof (cases pk)
  case None
  then show ?thesis using settles_plain_client [OF assms(1)] by simp
next
  case (Some key)
  then show ?thesis using settles_voprf_client [OF assms] by simp
qed

section \<open>A server's preprocessing\<close>

definition server_shape :: "nat \<Rightarrow> server_state \<Rightarrow> bool" where
  "server_shape tau ss \<longleftrightarrow> wf_server ss \<and> ss_runs ss = runs_new tau"

lemma delta_ot_send_blocks:
  assumes "required_binary_ot_count base count = Some n" and "length pairs = n"
    and "delta_ot_send h base (\<lambda>_. Ok pairs) count = (Ok sent :: ('e, _) res)"
  shows "length sent = count \<and> (\<forall>bs \<in> set sent. wf_blocks bs)"
proof -
  let ?out = "(map fst pairs, replicate n False)"
  have "rot_agree n pairs (fst ?out) (snd ?out)" using assms(2) by (simp add: rot_agree_def)
  from delta_ot_agree [OF assms(1), of "\<lambda>_. Ok pairs :: ('e, _) res" pairs "\<lambda>_. Ok ?out :: ('e, _) res"
      "fst ?out" "snd ?out" h, OF _ _ this] assms(3)
  show ?thesis by (auto simp: wf_blocks_def in_set_conv_nth)
qed

lemma returns_delta_ot_send_on:
  assumes "\<And>e. seen e \<Longrightarrow> event_ok digest e"
  shows "returns seen (delta_ot_send_on cr tau) (\<lambda>sent. length sent = tau \<and> (\<forall>bs \<in> set sent. wf_blocks bs))"
  unfolding delta_ot_send_on_def
  apply (rule returns_attempt [OF returns_expect])
  apply (rule returns_attempt [OF returns_ot_send_on], rule returns_Ret)
  apply (rule delta_ot_send_blocks)
    apply assumption
  using assms apply fastforce
  apply assumption
  done

lemma server_shapeI:
  assumes "length sent = tau" and "\<forall>bs \<in> set sent. wf_blocks bs" and "pads_of sent = Some s_s"
    and "case voprf of None \<Rightarrow> True | Some sv \<Rightarrow> sv_delta_ot_blocks sv = sent"
    and "server_state_new (rs_entries choices ot_blocks) s_s uid voprf = Some ss"
  shows "server_shape tau ss"
proof -
  have s_s: "s_s = map block_pads sent" using assms(2,3) by (simp add: pads_of_Some)
  show ?thesis
    using assms(1,2,4,5)
    by (cases voprf)
      (auto simp: server_shape_def wf_server_def server_state_new_def into_array_def s_s rs_entries_def unwrap_u8_def
        runs_new_def wf_runs_def block_pads_def wf_blocks_def in_set_conv_nth dest!: in_set_takeD split: if_splits)
qed

lemma returns_prove_on:
  "returns ok (prove_on cr sk r_s bhat c sent) (\<lambda>sv. sv_delta_ot_blocks sv = sent)"
  unfolding prove_on_def
  apply (rule returns_attempt [where R = "\<lambda>(message, sv). sv_delta_ot_blocks sv = sent"])
  subgoal by (rule returns_Ret) (auto simp: server_prove_def res_bind_Ok_iff Let_def)
  subgoal for out by (cases out) (auto intro!: returns_then returns_Ret)
  done

lemma returns_preproc_server:
  assumes events: "\<And>e. seen e \<Longrightarrow> event_ok digest e"
  shows "returns seen (preproc_server cr frame sk tau) (server_shape tau)"
proof -
  have finish: "returns seen (if wants then attempt (prove_on cr sk r_s bhat c sent) (\<lambda>voprf. Ret (Ok (Some voprf)))
      else Ret (Ok None)) (\<lambda>voprf. case voprf of None \<Rightarrow> True | Some sv \<Rightarrow> sv_delta_ot_blocks sv = sent)"
    for wants r_s bhat c sent
    by (cases wants) (auto intro!: returns_attempt [OF returns_prove_on] returns_Ret)
  show ?thesis
    unfolding preproc_server_def Let_def case_prod_unfold
    apply (rule returns_if_Err)
    apply (rule returns_then)+
    apply (rule returns_if_Err, rule returns_if_Err)
    apply (rule returns_then, rule returns_then, rule returns_then)
    apply (rule returns_attempt [OF returns_delta_ot_send_on [OF events]], assumption)
    apply (rule returns_attempt [OF returns_expect])
    apply (rule returns_then, rule returns_then, rule returns_then)
    apply (rule returns_attempt [OF finish], rule returns_weaken [OF returns_expect])
    apply (elim conjE, rule server_shapeI; assumption)
    done
qed

end
