(* ===== verification/SessionProperties.thy ===== *)
theory SessionProperties
  imports SessionRun ProtocolProperties NoPanic
begin

text \<open>The properties of networked sessions, each with a witness where it has hypotheses.\<close>

section \<open>A whole session\<close>

definition session_client ::
  "('c, 'proof, 'pe, 've) crypto \<Rightarrow> (nat \<Rightarrow> nat) \<Rightarrow> 'c verified_key option \<Rightarrow> nat \<Rightarrow> uid
     \<Rightarrow> (bytes \<times> bytes list) list \<Rightarrow> ('c, 'proof, 'pe, 've, prf_output list list) client_proc" where
  "session_client cr frame pk evaluations uid calls =
     attempt_as id (oprf_client_with cr frame pk evaluations uid) (\<lambda>cl.
     proc_bind (run_calls cr cl calls) (\<lambda>(cl, r). Ret r))"

definition session_server ::
  "('c, 'proof, 'pe, 've) crypto \<Rightarrow> (nat \<Rightarrow> nat) \<Rightarrow> oprf_server \<Rightarrow> nat \<Rightarrow> nat
     \<Rightarrow> ('c, 'proof, 'pe, 've, (('pe, 've) server_error, unit) res option) server_proc" where
  "session_server cr frame srv evaluations fuel =
     attempt_as id (server_session cr frame srv evaluations) (\<lambda>se.
     proc_bind (serve cr fuel se) (\<lambda>(se, r). Ret (Ok r)))"

text \<open>
  C10: an honest session from the first byte to the last. In every interleaving, the client that
  opens a session for a number of evaluations and makes any calls that fit in it, and the server that
  opens the session and serves until the client is done, both succeed, and the client's outputs are
  the PRF of its inputs under the server's key.
\<close>

theorem session_correct:
  fixes cr :: "('c, 'proof, 'pe, 've) crypto"
  assumes "honest_setting cr frame ot (os_sk srv) pk evaluations uid"
    and "\<forall>(tag, xs) \<in> set calls. length tag \<le> MAX_TAG_LEN \<and> xs \<noteq> [] \<and>
           length xs \<le> (if pk = None then MAX_BATCH_EVALUATIONS else MAX_VOPRF_BATCH_EVALUATIONS)"
    and "sum_list (map (\<lambda>(tag, xs). length xs) calls) \<le> evaluations" and "length calls < fuel"
    and "net_steps ot j (Net (session_client cr frame pk evaluations uid calls)
           (session_server cr frame srv evaluations fuel) quiet quiet) m"
  shows "\<exists>outss. reach ot m (Net (Ret (Ok outss)) (Ret (Ok (Some (Ok ())))) quiet quiet)
    \<and> map (\<lambda>(tag, xs). map (evaluate (cr_xof cr) (os_sk srv) tag) xs) calls = map (map Some) outss"
proof -
  let ?sk = "os_sk srv" and ?init = "Net (session_client cr frame pk evaluations uid calls)
     (session_server cr frame srv evaluations fuel) quiet quiet"
  have sk: "wf_key ?sk" and complete: "complete_online cr" using assms(1) by (simp_all add: honest_setting_def)
  obtain cl se where open_run:
    "live ot (Net (oprf_client_with cr frame pk evaluations uid) (server_session cr frame srv evaluations) quiet quiet)
       (Net (Ret (Ok cl)) (Ret (Ok se)) quiet quiet)"
    and linked: "linked cr ?sk cl se" and runs: "client_remaining_runs (oc_state cl) = evaluations * 16"
    and pk: "map_option cv_pk (cs_voprf (oc_state cl)) = pk"
    by (rule session_opens [OF assms(1) refl])
  have "client_max_batch cl = (if pk = None then MAX_BATCH_EVALUATIONS else MAX_VOPRF_BATCH_EVALUATIONS)"
    using pk by (auto simp: client_max_batch_def split: option.splits)
  then have fit: "calls_fit cl calls" using assms(2,3) runs by (auto simp: calls_fit_def)
  obtain fuel' where fuel: "fuel = length calls + Suc fuel'"
    using assms(4) by (metis add_Suc_right less_imp_Suc_add)
  obtain cl' se' outss where calls_run:
    "live ot (Net (run_calls cr cl calls) (serve cr fuel se) quiet quiet)
       (Net (Ret (cl', Ok outss)) (serve cr (Suc fuel') se') quiet quiet)"
    and outs: "outputs_of (cr_xof cr) ?sk calls outss"
    using calls_run [OF linked sk complete fit, of ot "Suc fuel'"] fuel by auto
  let ?f = "\<lambda>(cl, r). Ret r" and ?g = "\<lambda>(se, r). Ret (Ok r)"
  have "live ot ?init (Net (proc_bind (run_calls cr cl calls) ?f) (proc_bind (serve cr fuel se) ?g) quiet quiet)"
    unfolding session_client_def session_server_def by (rule live_then_attempt [OF open_run])
  also have "live ot \<dots> (Net (Ret (Ok outss)) (proc_bind (serve cr (Suc fuel') se') ?g) quiet quiet)"
    using live_framed [OF calls_run, of ?f ?g] by (simp add: framed_def)
  finally have "reach ot ?init (Net (Ret (Ok outss)) (proc_bind (serve cr (Suc fuel') se') ?g) quiet quiet)"
    by (rule live_reach)
  moreover have "net_step ot (Net (Ret (Ok outss)) (proc_bind (serve cr (Suc fuel') se') ?g) quiet quiet)
      (Net (Ret (Ok outss)) (Ret (Ok (Some (Ok ())))) quiet quiet)"
    by (rule net_step.server) (simp add: server_move_def serve_next_def next_request_def quiet_at)
  then have "reach ot (Net (Ret (Ok outss)) (proc_bind (serve cr (Suc fuel') se') ?g) quiet quiet)
      (Net (Ret (Ok outss)) (Ret (Ok (Some (Ok ())))) quiet quiet)"
    unfolding reach_def by (blast intro: net_steps.intros)
  ultimately have "reach ot ?init (Net (Ret (Ok outss)) (Ret (Ok (Some (Ok ())))) quiet quiet)"
    by (rule reach_trans)
  from reach_every_schedule [OF this _ assms(5)] outs show ?thesis
    by (auto simp: net_done_def outputs_of_def)
qed

lemma ex_honest_setting: "honest_setting ex_crypto (\<lambda>n. n + 9) ex_ots ex_sk (Some ex_pk) 2 (replicate 16 7)"
  using ex_ots_agree
  by (simp add: honest_setting_def ex_wf_sk ex_complete_online ex_complete_preprocessing ex_pk_def)

lemma session_correct_witness:
  "\<exists>outss. reach ex_ots (Net (session_client ex_crypto (\<lambda>n. n + 9) (Some ex_pk) 2 (replicate 16 7) [([1], [[2], [3]])])
        (session_server ex_crypto (\<lambda>n. n + 9) \<lparr> os_sk = ex_sk \<rparr> 2 2) quiet quiet)
      (Net (Ret (Ok outss)) (Ret (Ok (Some (Ok ())))) quiet quiet)
    \<and> map (\<lambda>(tag, xs). map (evaluate (cr_xof ex_crypto) (os_sk \<lparr> os_sk = ex_sk \<rparr>) tag) xs) [([1], [[2], [3]])]
        = map (map Some) outss"
  by (rule session_correct [OF _ _ _ _ net_steps.none])
    (simp_all add: ex_honest_setting MAX_TAG_LEN_def MAX_VOPRF_BATCH_EVALUATIONS_def)

section \<open>Whatever the peer does\<close>

lemma shape_remaining:
  "client_shape pk tau uid cs \<Longrightarrow> client_remaining_runs cs = tau"
  "server_shape tau ss \<Longrightarrow> server_remaining_runs ss = tau"
  by (simp_all add: client_shape_def server_shape_def client_remaining_runs_def server_remaining_runs_def
      runs_remaining_def runs_new_def)

lemma tau_for_Some: "tau_for n = Some tau \<Longrightarrow> tau = n * 16"
  by (auto simp: tau_for_def split: if_splits)

text \<open>A renewal is the preprocessing on the same events, and its outcome.\<close>

lemma session_renew_after:
  assumes "after (session_renew cr frame se n) es = Some (Ret (se', r))" and "tau_for n = Some tau"
  obtains x where "after (preproc_server cr frame (sess_sk se) tau) es = Some (Ret x)"
    "(se', r) = (case x of Ok st \<Rightarrow> (se\<lparr> sess_state := st \<rparr>, Ok (ss_uid st))
       | Err e \<Rightarrow> (se, Err (ServerPreproc e)) | Panic \<Rightarrow> (se, Panic))"
proof -
  from after_bind_RetD [OF assms(1) [unfolded session_renew_def assms(2) option.case]] obtain es1 es2 x
    where es: "es = es1 @ es2" "after (preproc_server cr frame (sess_sk se) tau) es1 = Some (Ret x)"
    and rest: "after (case x of Ok st \<Rightarrow> Ret (se\<lparr> sess_state := st \<rparr>, Ok (ss_uid st))
        | Err e \<Rightarrow> Ret (se, Err (ServerPreproc e)) | Panic \<Rightarrow> Ret (se, Panic)) es2 = Some (Ret (se', r))"
    by blast
  from rest have "es2 = []" by (cases es2; cases x) auto
  with es rest show ?thesis by (intro that) (auto split: res.splits)
qed

lemma client_renew_after:
  assumes "after (oprf_client_renew cr frame cl n uid) es = Some (Ret (cl', r))" and "tau_for n = Some tau"
  obtains x where
    "after (preproc_client_with cr frame (map_option cv_pk (cs_voprf (oc_state cl))) tau uid) es = Some (Ret x)"
    "(cl', r) = (case x of Ok st \<Rightarrow> (cl\<lparr> oc_state := st \<rparr>, Ok (cs_uid st))
       | Err e \<Rightarrow> (cl, Err (ClientPreproc e)) | Panic \<Rightarrow> (cl, Panic))"
proof -
  let ?preproc = "preproc_client_with cr frame (map_option cv_pk (cs_voprf (oc_state cl))) tau uid"
  have "(case map_option cv_pk (cs_voprf (oc_state cl)) of Some pk \<Rightarrow> preproc_client_voprf cr frame pk tau uid
      | None \<Rightarrow> preproc_client cr frame tau uid) = ?preproc"
    by (simp add: preproc_client_voprf_def preproc_client_def split: option.split)
  with assms have "after (proc_bind ?preproc (\<lambda>r. case r of Ok st \<Rightarrow> Ret (cl\<lparr> oc_state := st \<rparr>, Ok (cs_uid st))
      | Err e \<Rightarrow> Ret (cl, Err (ClientPreproc e)) | Panic \<Rightarrow> Ret (cl, Panic))) es = Some (Ret (cl', r))"
    by (simp add: oprf_client_renew_def)
  from after_bind_RetD [OF this] obtain es1 es2 x
    where es: "es = es1 @ es2" "after ?preproc es1 = Some (Ret x)"
    and rest: "after (case x of Ok st \<Rightarrow> Ret (cl\<lparr> oc_state := st \<rparr>, Ok (cs_uid st))
        | Err e \<Rightarrow> Ret (cl, Err (ClientPreproc e)) | Panic \<Rightarrow> Ret (cl, Panic)) es2 = Some (Ret (cl', r))"
    by blast
  from rest have "es2 = []" by (cases es2; cases x) auto
  with es rest show ?thesis by (intro that) (auto split: res.splits)
qed

text \<open>
  C24: whatever the peer sends, a renewal that fails, on either side, leaves the session as it was,
  still usable, and one that succeeds puts the state that the preprocessing gave on the same events in its
  place and returns that state's \<open>uid\<close>: a well-formed state with exactly the runs asked for, all unspent, and on
  the client with the \<open>uid\<close> it drew and the key that the session had.
\<close>

theorem renewal_replaces_or_keeps:
  assumes "after (session_renew cr frame se n) es = Some (Ret (se', r))" and "list_all (event_ok digest) es"
    and "after (oprf_client_renew cr frame cl n' uid) es' = Some (Ret (cl', r'))" and "list_all (event_ok digest) es'"
  shows "(case r of
       Ok u \<Rightarrow> (\<exists>st. after (preproc_server cr frame (sess_sk se) (n * 16)) es = Some (Ret (Ok st)) \<and>
         se' = se\<lparr> sess_state := st \<rparr> \<and> u = ss_uid st \<and> wf_server st \<and> server_remaining_runs st = n * 16)
     | _ \<Rightarrow> se' = se)
    \<and> (case r' of
       Ok u \<Rightarrow> (\<exists>st. after (preproc_client_with cr frame (map_option cv_pk (cs_voprf (oc_state cl))) (n' * 16) uid) es'
           = Some (Ret (Ok st)) \<and>
         cl' = cl\<lparr> oc_state := st \<rparr> \<and> u = uid \<and> cs_uid st = uid \<and> wf_client st \<and>
         client_remaining_runs st = n' * 16 \<and> map_option cv_pk (cs_voprf st) = map_option cv_pk (cs_voprf (oc_state cl)))
     | _ \<Rightarrow> cl' = cl)"
    (is "?server \<and> ?client")
proof
  show ?server
  proof (cases "tau_for n")
    case None
    with assms(1) show ?thesis by (auto simp: session_renew_def dest: after_Ret)
  next
    case (Some tau)
    obtain x where x: "after (preproc_server cr frame (sess_sk se) tau) es = Some (Ret x)"
      "(se', r) = (case x of Ok st \<Rightarrow> (se\<lparr> sess_state := st \<rparr>, Ok (ss_uid st))
         | Err e \<Rightarrow> (se, Err (ServerPreproc e)) | Panic \<Rightarrow> (se, Panic))"
      by (rule session_renew_after [OF assms(1) Some])
    have "server_shape tau st" if "x = Ok st" for st
      using returnsD [OF returns_preproc_server assms(2)] x(1) that by blast
    with x tau_for_Some [OF Some] show ?thesis
      by (auto simp: shape_remaining server_shape_def split: res.splits)
  qed
  show ?client
  proof (cases "tau_for n'")
    case None
    with assms(3) show ?thesis by (auto simp: oprf_client_renew_def dest: after_Ret)
  next
    case (Some tau)
    let ?pk = "map_option cv_pk (cs_voprf (oc_state cl))"
    obtain x where x: "after (preproc_client_with cr frame ?pk tau uid) es' = Some (Ret x)"
      "(cl', r') = (case x of Ok st \<Rightarrow> (cl\<lparr> oc_state := st \<rparr>, Ok (cs_uid st))
         | Err e \<Rightarrow> (cl, Err (ClientPreproc e)) | Panic \<Rightarrow> (cl, Panic))"
      by (rule client_renew_after [OF assms(3) Some])
    have "client_shape ?pk tau uid st" if "x = Ok st" for st
      using returnsD [OF returns_client_shape assms(4)] x(1) that by blast
    with x tau_for_Some [OF Some] show ?thesis
      by (auto simp: shape_remaining client_shape_def split: res.splits)
  qed
qed

definition ex_session :: oprf_session where
  "ex_session = \<lparr> sess_sk = ex_sk, sess_state = ex_server False \<rparr>"

definition ex_oprf_client :: "ex_commitment oprf_client" where
  "ex_oprf_client = \<lparr> oc_state = client_for ex_crypto True \<rparr>"

lemma ex_server_execution:
  "\<exists>ss. may_return (event_ok (\<lambda>_. True)) (preproc_server ex_crypto (\<lambda>n. n + 9) ex_sk 32) (Ok ss)"
proof -
  let ?cr = ex_crypto and ?ok = "event_ok (\<lambda>_ :: ex_commitment. True) :: (ex_commitment, ex_proof) pmsg event \<Rightarrow> bool"
  obtain ot_blocks choices where out: "snd (ex_ots BinaryOt) = (ot_blocks, choices)" by fastforce
  have lens: "length ot_blocks = BINARY_OT_COUNT (cr_base_ot_count ?cr)" "length choices = BINARY_OT_COUNT (cr_base_ot_count ?cr)"
    using ex_ots_agree out by (auto simp: ots_agree_def rot_agree_def)
  have n: "required_binary_ot_count (cr_base_ot_count ?cr) 32 = Some 128"
    by (simp add: ex_crypto_def required_binary_ot_count_def next_multiple_of_def LOG_DELTA_def)
  have agree: "rot_agree 128 (fst (ex_ots DeltaOt)) (fst (snd (ex_ots DeltaOt))) (snd (snd (ex_ots DeltaOt)))"
    using ex_ots_agree n by (auto simp: ots_agree_def)
  obtain sent where sent: "delta_ot_send (cr_hash ?cr) (cr_base_ot_count ?cr) (\<lambda>_. Ok (fst (ex_ots DeltaOt))) 32
      = (Ok sent :: ((unit, unit) preproc_error, _) res)"
    using delta_ot_agree [OF n, of "\<lambda>_. Ok (fst (ex_ots DeltaOt))" _ "\<lambda>_. Ok (snd (ex_ots DeltaOt))" _ _ "cr_hash ?cr",
      OF refl _ agree] by (metis prod.collapse)
  have blocks: "\<forall>bs \<in> set sent. wf_blocks bs"
    using delta_ot_send_blocks [OF n _ sent] agree by (simp add: rot_agree_def)
  have r_s: "length (rs_entries choices ot_blocks) = par_N" by (rule length_rs_entries [OF lens])
  have "\<exists>ss. server_state_new (rs_entries choices ot_blocks) (map block_pads sent) (replicate 16 7) None = Some ss"
    using r_s by (simp add: server_state_new_def into_array_def)
  then obtain ss where state: "server_state_new (rs_entries choices ot_blocks) (map block_pads sent) (replicate 16 7) None = Some ss" ..
  have "may_return ?ok (preproc_server ?cr (\<lambda>n. n + 9) ex_sk 32) (Ok ss)"
  proof (rule server_execution [OF _ _ _ _ _ _ _ _ n _ sent pads_of_Some [OF blocks] masked_bits_Some [OF r_s ex_wf_sk] state])
    show "?ok (EOtRecv BinaryOt (BINARY_OT_COUNT (cr_base_ot_count ?cr)) (Some (ot_blocks, choices)))" by (simp add: lens)
    show "?ok (EOtSend DeltaOt 128 (Some (fst (ex_ots DeltaOt))))" using agree by (simp add: rot_agree_def)
  qed simp_all
  then show ?thesis ..
qed

text \<open>A renewal on each side that succeeds, and one that fails.\<close>

lemma ex_renewals:
  obtains es se' u es' cl' u' where
    "after (session_renew ex_crypto (\<lambda>n. n + 9) ex_session 2) es = Some (Ret (se', Ok u))"
    "list_all (event_ok (\<lambda>_. True)) es"
    "after (oprf_client_renew ex_crypto (\<lambda>n. n + 9) ex_oprf_client 2 (replicate 16 7)) es' = Some (Ret (cl', Ok u'))"
    "list_all (event_ok (\<lambda>_. True)) es'"
proof -
  have tau: "tau_for 2 = Some 32" by (simp add: tau_for_def USIZE_MAX_def H_ROWS_def)
  have pk: "map_option cv_pk (cs_voprf (oc_state ex_oprf_client)) = Some ex_pk"
    by (simp add: ex_oprf_client_def client_for_def client_voprf_for_def ex_pk_def)
  have "\<exists>se' u. may_return (event_ok (\<lambda>_. True)) (session_renew ex_crypto (\<lambda>n. n + 9) ex_session 2) (se', Ok u)"
    using ex_server_execution unfolding session_renew_def tau option.case ex_session_def oprf_session.simps
    by (elim exE, intro exI, elim may_return_bind) (simp, rule may_return_Ret)
  moreover have "\<exists>cl' u'. may_return (event_ok (\<lambda>_. True))
      (oprf_client_renew ex_crypto (\<lambda>n. n + 9) ex_oprf_client 2 (replicate 16 7)) (cl', Ok u')"
    using ex_client_execution unfolding oprf_client_renew_def tau pk option.case
    by (elim exE, intro exI, elim may_return_bind) (simp, rule may_return_Ret)
  ultimately show ?thesis unfolding may_return_def using that by blast
qed

lemma ex_failed_renewals:
  "after (session_renew ex_crypto (\<lambda>n. n + 9) ex_session 0) [] = Some (Ret (ex_session, Err (ServerPreproc ZeroTau)))"
  "after (oprf_client_renew ex_crypto (\<lambda>n. n + 9) ex_oprf_client 1 uid) [EOpen Control False]
     = Some (Ret (ex_oprf_client, Err (ClientPreproc ConnectionFailed)))"
  by (simp_all add: session_renew_def oprf_client_renew_def preproc_server_def preproc_client_voprf_def
      preproc_client_with_def tau_for_def USIZE_MAX_def ex_oprf_client_def client_for_def client_voprf_for_def
      open_on_def open_stream_def H_ROWS_def evaluations_for_def)

lemma renewal_replaces_or_keeps_witness:
  "(\<exists>es se' st es' cl' cs.
      after (session_renew ex_crypto (\<lambda>n. n + 9) ex_session 2) es = Some (Ret (se', Ok (ss_uid st))) \<and>
      se' = ex_session\<lparr> sess_state := st \<rparr> \<and> wf_server st \<and> server_remaining_runs st = 2 * 16 \<and>
      after (oprf_client_renew ex_crypto (\<lambda>n. n + 9) ex_oprf_client 2 (replicate 16 7)) es' = Some (Ret (cl', Ok (replicate 16 7))) \<and>
      cl' = ex_oprf_client\<lparr> oc_state := cs \<rparr> \<and> wf_client cs \<and> client_remaining_runs cs = 2 * 16 \<and>
      map_option cv_pk (cs_voprf cs) = Some ex_pk) \<and>
   (\<exists>se' e cl' e'.
      after (session_renew ex_crypto (\<lambda>n. n + 9) ex_session 0) [] = Some (Ret (se', Err e)) \<and> se' = ex_session \<and>
      after (oprf_client_renew ex_crypto (\<lambda>n. n + 9) ex_oprf_client 1 (replicate 16 7)) [EOpen Control False]
        = Some (Ret (cl', Err e')) \<and> cl' = ex_oprf_client)"
proof
  obtain es se' u es' cl' u' where runs:
    "after (session_renew ex_crypto (\<lambda>n. n + 9) ex_session 2) es = Some (Ret (se', Ok u))"
    "list_all (event_ok (\<lambda>_. True)) es"
    "after (oprf_client_renew ex_crypto (\<lambda>n. n + 9) ex_oprf_client 2 (replicate 16 7)) es' = Some (Ret (cl', Ok u'))"
    "list_all (event_ok (\<lambda>_. True)) es'"
    by (rule ex_renewals)
  have pk: "map_option cv_pk (cs_voprf (oc_state ex_oprf_client)) = Some ex_pk"
    by (simp add: ex_oprf_client_def client_for_def client_voprf_for_def ex_pk_def)
  from renewal_replaces_or_keeps [OF runs, unfolded res.case pk] runs
  show "\<exists>es se' st es' cl' cs.
      after (session_renew ex_crypto (\<lambda>n. n + 9) ex_session 2) es = Some (Ret (se', Ok (ss_uid st))) \<and>
      se' = ex_session\<lparr> sess_state := st \<rparr> \<and> wf_server st \<and> server_remaining_runs st = 2 * 16 \<and>
      after (oprf_client_renew ex_crypto (\<lambda>n. n + 9) ex_oprf_client 2 (replicate 16 7)) es' = Some (Ret (cl', Ok (replicate 16 7))) \<and>
      cl' = ex_oprf_client\<lparr> oc_state := cs \<rparr> \<and> wf_client cs \<and> client_remaining_runs cs = 2 * 16 \<and>
      map_option cv_pk (cs_voprf cs) = Some ex_pk"
    by blast
next
  show "\<exists>se' e cl' e'.
      after (session_renew ex_crypto (\<lambda>n. n + 9) ex_session 0) [] = Some (Ret (se', Err e)) \<and> se' = ex_session \<and>
      after (oprf_client_renew ex_crypto (\<lambda>n. n + 9) ex_oprf_client 1 (replicate 16 7)) [EOpen Control False]
        = Some (Ret (cl', Err e')) \<and> cl' = ex_oprf_client"
    using ex_failed_renewals(1) ex_failed_renewals(2) [of "replicate 16 7"] by blast
qed

text \<open>
  C23: renewing the preprocessing. When a client and the server of its session renew it for any number of
  evaluations, in every interleaving both succeed with the same \<open>uid\<close>, and the two ends are again linked:
  they hold matching states with exactly the runs that were asked for, under the key the session had.
\<close>

theorem renewal_links_again:
  fixes cr :: "('c, 'proof, 'pe, 've) crypto"
  assumes "honest_setting cr frame ot (sess_sk se) pk evaluations uid" and "map_option cv_pk (cs_voprf (oc_state cl)) = pk"
    and "net_steps ot j (Net (oprf_client_renew cr frame cl evaluations uid) (session_renew cr frame se evaluations)
           quiet quiet) m"
  shows "\<exists>cl' se'. reach ot m (Net (Ret (cl', Ok uid)) (Ret (se', Ok uid)) quiet quiet)
    \<and> linked cr (sess_sk se) cl' se' \<and> client_remaining_runs (oc_state cl') = evaluations * 16
    \<and> map_option cv_pk (cs_voprf (oc_state cl')) = pk"
proof -
  obtain cl' se' where run: "live ot (Net (oprf_client_renew cr frame cl evaluations uid)
        (session_renew cr frame se evaluations) quiet quiet) (Net (Ret (cl', Ok uid)) (Ret (se', Ok uid)) quiet quiet)"
    and "linked cr (sess_sk se) cl' se'" "client_remaining_runs (oc_state cl') = evaluations * 16"
    "map_option cv_pk (cs_voprf (oc_state cl')) = pk"
    by (rule session_renews [OF assms(1) refl assms(2)])
  with reach_every_schedule [OF live_reach [OF run] _ assms(3)] show ?thesis
    by (auto simp: net_done_def)
qed

lemma renewal_links_again_witness:
  "\<exists>cl' se'. reach ex_ots (Net (oprf_client_renew ex_crypto (\<lambda>n. n + 9) \<lparr> oc_state = client_for ex_crypto True \<rparr> 2 (replicate 16 7))
       (session_renew ex_crypto (\<lambda>n. n + 9) ex_session 2) quiet quiet)
      (Net (Ret (cl', Ok (replicate 16 7))) (Ret (se', Ok (replicate 16 7))) quiet quiet)
    \<and> linked ex_crypto (sess_sk ex_session) cl' se' \<and> client_remaining_runs (oc_state cl') = 2 * 16
    \<and> map_option cv_pk (cs_voprf (oc_state cl')) = Some ex_pk"
  by (rule renewal_links_again [OF _ _ net_steps.none])
    (simp_all add: ex_session_def ex_honest_setting [unfolded ex_pk_def] client_for_def client_voprf_for_def ex_pk_def)

text \<open>
  C27: the server's loop ends. With fuel for more rounds than the requests it received, \<open>serve\<close> has
  returned, with a clean end or an error, and never for lack of fuel.
\<close>

theorem serve_ends:
  assumes "received es < fuel" and "after (serve cr fuel se) es = Some (Ret (se', r))"
  shows "r \<noteq> None"
  using serve_fuel [of cr fuel se es se'] assms by auto

lemma serve_ends_witness:
  "(Some (Ok ()) :: ((unit, unit) server_error, unit) res option) \<noteq> None"
  by (rule serve_ends [of "[ERecv OnlineChan Closed]" 1 ex_crypto
        "\<lparr> sess_sk = ex_sk, sess_state = ex_server False \<rparr>" "\<lparr> sess_sk = ex_sk, sess_state = ex_server False \<rparr>"])
    (simp_all add: received_def serve_next_def next_request_def)

end
