(* ===== verification/PsiProperties.thy ===== *)
theory PsiProperties
  imports PsiRun SessionProperties
begin

text \<open>The properties of private set intersection, each with a witness where it has hypotheses.\<close>

section \<open>Both parties, from opening to the result\<close>

definition psi_client_run ::
  "('c, 'proof, 'pe, 've) crypto \<Rightarrow> (nat \<Rightarrow> nat) \<Rightarrow> 'c verified_key option \<Rightarrow> uid \<Rightarrow> bytes list
     \<Rightarrow> ('c, 'proof, 'pe, 've, nat list) psi_proc" where
  "psi_client_run cr frame pk uid xs =
     attempt_as id (psi_client_with cr frame pk (length xs) uid) (\<lambda>pc. psi_intersect cr pc xs)"

definition psi_server_run ::
  "('c, 'proof, 'pe, 've) crypto \<Rightarrow> (nat \<Rightarrow> nat) \<Rightarrow> psi_server \<Rightarrow> bytes \<Rightarrow> bytes list
     \<Rightarrow> ('c, 'proof, 'pe, 've, unit) psi_proc" where
  "psi_server_run cr frame srv tag ys =
     attempt_as id (psi_server_session cr frame srv) (\<lambda>ps.
     proc_bind (psi_serve cr ps tag ys) (\<lambda>(ps, r). Ret r))"

text \<open>What the client is to learn: the indices of its elements whose output the server's set has.\<close>

definition masked_alike :: "xof \<Rightarrow> secret_key \<Rightarrow> bytes \<Rightarrow> bytes \<Rightarrow> bytes \<Rightarrow> bool" where
  "masked_alike xof sk tag x y \<longleftrightarrow>
     map_option elements (evaluate xof sk tag x) = map_option elements (evaluate xof sk tag y)"

definition common_indices :: "(bytes \<Rightarrow> bytes \<Rightarrow> bool) \<Rightarrow> bytes list \<Rightarrow> bytes list \<Rightarrow> nat list" where
  "common_indices alike xs ys = filter (\<lambda>i. list_ex (alike (xs ! i)) ys) [0..<length xs]"

lemma intersect_common:
  assumes sk: "wf_key sk" and masked: "mask_server_set xof sk tag ys = Some masked"
    and outs: "map (evaluate xof sk tag) xs = map Some outs"
  shows "intersect outs masked = common_indices (masked_alike xof sk tag) xs ys"
proof -
  have set: "set masked = {elements out |out y. y \<in> set ys \<and> evaluate xof sk tag y = Some out}"
    using mask_server_set_Some [OF sk, of xof tag ys] masked by auto
  have len: "length outs = length xs" using outs by (metis length_map)
  have at: "evaluate xof sk tag (xs ! i) = Some (outs ! i)" if "i < length xs" for i
    using arg_cong [OF outs, of "\<lambda>zs. zs ! i"] that len by simp
  have "\<exists>out. evaluate xof sk tag y = Some out" for y using evaluate_row [OF sk, of xof tag y] by blast
  then obtain f where f: "\<And>y. evaluate xof sk tag y = Some (f y)" by metis
  have "elements (outs ! i) \<in> set masked \<longleftrightarrow> list_ex (masked_alike xof sk tag (xs ! i)) ys" if "i < length xs" for i
    using at [OF that] unfolding set masked_alike_def list_ex_iff f by auto
  then show ?thesis unfolding intersect_filter common_indices_def len by (intro filter_cong) auto
qed

lemma psi_run:
  fixes cr :: "('c, 'proof, 'pe, 've) crypto"
  assumes setting: "honest_setting cr frame ot (os_sk (ps_oprf srv)) pk (length xs) uid"
    and sizes: "length xs \<le> MAX_CLIENT_SET" "length ys \<le> MAX_SERVER_SET" "length tag \<le> MAX_TAG_LEN"
  shows "live ot (Net (psi_client_run cr frame pk uid xs) (psi_server_run cr frame srv tag ys) quiet quiet)
    (Net (Ret (Ok (common_indices (masked_alike (cr_xof cr) (os_sk (ps_oprf srv)) tag) xs ys)))
       (Ret (Ok ())) quiet quiet)"
proof -
  let ?sk = "os_sk (ps_oprf srv)"
  have sk: "wf_key ?sk" and complete: "complete_online cr" using setting by (simp_all add: honest_setting_def)
  obtain masked where masked: "mask_server_set (cr_xof cr) ?sk tag ys = Some masked"
    using mask_server_set_Some [OF sk, of "cr_xof cr" tag ys] by blast
  obtain cl se where open_run:
    "live ot (Net (psi_client_with cr frame pk (length xs) uid) (psi_server_session cr frame srv) quiet quiet)
       (Net (Ret (Ok \<lparr> pc_oprf = cl, pc_set_size = length xs \<rparr>)) (Ret (Ok \<lparr> pss_oprf = se, pss_set_size = length xs \<rparr>)) quiet quiet)"
    and linked: "linked cr ?sk cl se" and runs: "client_remaining_runs (oc_state cl) = length xs * 16"
    by (rule psi_opens [OF setting refl sizes(1)])
  obtain ps' outs where inter:
    "live ot (Net (psi_intersect cr \<lparr> pc_oprf = cl, pc_set_size = length xs \<rparr> xs :: ('c, 'proof, 'pe, 've, nat list) psi_proc)
         (psi_serve cr \<lparr> pss_oprf = se, pss_set_size = length xs \<rparr> tag ys) quiet quiet)
       (Net (Ret (Ok (intersect outs masked))) (Ret (ps', Ok ())) quiet quiet)"
    and outs: "map (evaluate (cr_xof cr) ?sk tag) xs = map Some outs"
    by (rule intersection_run [OF linked sk complete runs sizes(3,2) masked])
  have "live ot (Net (psi_client_run cr frame pk uid xs) (psi_server_run cr frame srv tag ys) quiet quiet)
      (Net (psi_intersect cr \<lparr> pc_oprf = cl, pc_set_size = length xs \<rparr> xs)
        (proc_bind (psi_serve cr \<lparr> pss_oprf = se, pss_set_size = length xs \<rparr> tag ys) (\<lambda>(ps, r). Ret r)) quiet quiet)"
    unfolding psi_client_run_def psi_server_run_def by (rule live_then_attempt [OF open_run])
  also have "live ot \<dots> (Net (Ret (Ok (intersect outs masked))) (Ret (Ok ())) quiet quiet)"
    using live_then [OF inter, of Ret "\<lambda>(ps, r). Ret r"] by simp
  finally show ?thesis unfolding intersect_common [OF sk masked outs] .
qed

text \<open>
  C20: a set intersection of honest parties, with or without proofs, in every interleaving: both
  succeed, and the client learns exactly the indices of its elements whose PRF output is that of an
  element of the server, in order and duplicates apart.
\<close>

theorem psi_intersects:
  fixes cr :: "('c, 'proof, 'pe, 've) crypto"
  assumes "honest_setting cr frame ot (os_sk (ps_oprf srv)) pk (length xs) uid"
    and "length xs \<le> MAX_CLIENT_SET" and "length ys \<le> MAX_SERVER_SET" and "length tag \<le> MAX_TAG_LEN"
    and "net_steps ot j (Net (psi_client_run cr frame pk uid xs) (psi_server_run cr frame srv tag ys) quiet quiet) m"
  shows "reach ot m (Net (Ret (Ok (common_indices (masked_alike (cr_xof cr) (os_sk (ps_oprf srv)) tag) xs ys)))
      (Ret (Ok ())) quiet quiet)"
  by (rule reach_every_schedule [OF live_reach [OF psi_run [OF assms(1-4)]] _ assms(5)]) (simp add: net_done_def)

lemma psi_intersects_witness:
  "reach ex_ots (Net (psi_client_run ex_crypto (\<lambda>n. n + 9) (Some ex_pk) (replicate 16 7) [[2], [3]])
       (psi_server_run ex_crypto (\<lambda>n. n + 9) \<lparr> ps_oprf = \<lparr> os_sk = ex_sk \<rparr> \<rparr> [1] [[3]]) quiet quiet)
     (Net (Ret (Ok (common_indices (masked_alike (cr_xof ex_crypto)
         (os_sk (ps_oprf \<lparr> ps_oprf = \<lparr> os_sk = ex_sk \<rparr> \<rparr>)) [1]) [[2], [3]] [[3]])))
       (Ret (Ok ())) quiet quiet)"
  by (rule psi_intersects [OF _ _ _ _ net_steps.none])
    (simp_all add: ex_honest_setting [simplified numeral_2_eq_2] MAX_CLIENT_SET_def MAX_SERVER_SET_def MAX_TAG_LEN_def)

text \<open>
  C21: where no element of the client collides with another element of the server under the PRF, the
  client learns exactly which of its elements the server has, each as often as it lists it.
\<close>

theorem psi_exact_without_collisions:
  fixes cr :: "('c, 'proof, 'pe, 've) crypto"
  assumes "honest_setting cr frame ot (os_sk (ps_oprf srv)) pk (length xs) uid"
    and "length xs \<le> MAX_CLIENT_SET" and "length ys \<le> MAX_SERVER_SET" and "length tag \<le> MAX_TAG_LEN"
    and "\<forall>x \<in> set xs. \<forall>y \<in> set ys. masked_alike (cr_xof cr) (os_sk (ps_oprf srv)) tag x y \<longrightarrow> x = y"
    and "net_steps ot j (Net (psi_client_run cr frame pk uid xs) (psi_server_run cr frame srv tag ys) quiet quiet) m"
  shows "reach ot m (Net (Ret (Ok (filter (\<lambda>i. xs ! i \<in> set ys) [0..<length xs]))) (Ret (Ok ())) quiet quiet)"
proof -
  have "list_ex (masked_alike (cr_xof cr) (os_sk (ps_oprf srv)) tag x) ys \<longleftrightarrow> x \<in> set ys" if "x \<in> set xs" for x
    using assms(5) that by (auto simp: list_ex_iff masked_alike_def)
  then have "common_indices (masked_alike (cr_xof cr) (os_sk (ps_oprf srv)) tag) xs ys
      = filter (\<lambda>i. xs ! i \<in> set ys) [0..<length xs]"
    unfolding common_indices_def by (intro filter_cong) auto
  with reach_every_schedule [OF live_reach [OF psi_run [OF assms(1-4)]] _ assms(6)] show ?thesis
    by (simp add: net_done_def)
qed

lemma psi_exact_without_collisions_witness:
  "reach ex_ots (Net (psi_client_run ex_crypto (\<lambda>n. n + 9) (Some ex_pk) (replicate 16 7) [[2], [2]])
       (psi_server_run ex_crypto (\<lambda>n. n + 9) \<lparr> ps_oprf = \<lparr> os_sk = ex_sk \<rparr> \<rparr> [1] [[2]]) quiet quiet)
     (Net (Ret (Ok (filter (\<lambda>i. [[2], [2]] ! i \<in> set [[2 :: u8]]) [0..<length [[2 :: u8], [2]]])))
       (Ret (Ok ())) quiet quiet)"
  by (rule psi_exact_without_collisions [OF _ _ _ _ _ net_steps.none])
    (simp_all add: ex_honest_setting [simplified numeral_2_eq_2] MAX_CLIENT_SET_def MAX_SERVER_SET_def MAX_TAG_LEN_def)

section \<open>Masked sets\<close>

text \<open>
  C22: masking a set never panics, and gives the PRF outputs of its elements in strictly increasing
  order: sorted and without duplicates, whatever the order and repetitions of the set.
\<close>

theorem mask_server_set_sorted:
  assumes "wf_key sk"
  shows "\<exists>masked. mask_server_set xof sk tag ys = Some masked \<and> sorted_wrt (<) masked
    \<and> set masked = {elements out |out y. y \<in> set ys \<and> evaluate xof sk tag y = Some out}"
  using mask_server_set_Some [OF assms] .

lemma mask_server_set_sorted_witness:
  "\<exists>masked. mask_server_set (cr_xof ex_crypto) ex_sk [1] [[2], [3]] = Some masked \<and> sorted_wrt (<) masked
    \<and> set masked = {elements out |out y. y \<in> set [[2], [3]] \<and> evaluate (cr_xof ex_crypto) ex_sk [1] y = Some out}"
  by (rule mask_server_set_sorted [OF ex_wf_sk])

section \<open>Sizes\<close>

lemma evaluate_chunks_error:
  "evaluate_chunks cr oprf tag outputs batches = Ret (Err e) \<Longrightarrow> \<exists>e'. e = PsiOprf e'"
proof (induction batches arbitrary: oprf outputs)
  case Nil
  then show ?case by simp
next
  case (Cons batch batches)
  from Cons.prems obtain x where eb: "evaluate_batch cr oprf tag batch = Ret x"
    by (auto dest: proc_bind_eq_Ret)
  obtain oprf' r where x: "x = (oprf', r)" by (cases x)
  with Cons eb show ?case by (cases r) (auto simp: attempt_as_def)
qed

lemma attempt_eq_Err: "attempt p f = Ret (Err e) \<Longrightarrow> p = Ret (Err e) \<or> (\<exists>a. p = Ret (Ok a) \<and> f a = Ret (Err e))"
  by (cases p; simp add: attempt_def split: res.splits)

lemma server_session_starts:
  assumes "0 < n" and "n \<le> MAX_CLIENT_SET"
  shows "\<exists>k. attempt_as g (server_session cr frame srv n) f = Open Control k"
  using assms by (simp add: server_session_def tau_for_def USIZE_MAX_def MAX_CLIENT_SET_def H_ROWS_def
      preproc_server_def open_on_def open_stream_def attempt_as_def)

text \<open>
  Sizes are refused before any work: the client opens nothing for an empty or oversized set and
  refuses a set of another size than it announced; the server refuses such announcements before any
  preprocessing; an oversized masked set is refused by the server that would send it, unsent, and by
  the client that receives it, before any request.
\<close>

lemma psi_sizes_refused:
  fixes cr :: "('c, 'proof, 'pe, 've) crypto"
  shows "(psi_client_with cr frame pk set_size uid = Ret (Err e) \<longleftrightarrow>
      set_size = 0 \<and> e = EmptyClientSet \<or> MAX_CLIENT_SET < set_size \<and> e = ClientSetTooLarge set_size MAX_CLIENT_SET)
    \<and> ((\<exists>e. after (psi_server_session cr frame srv) [EOpen PsiChan True, ERecv PsiChan (Msg (MSize n))]
      = Some (Ret (Err e))) \<longleftrightarrow> n = 0 \<or> MAX_CLIENT_SET < n)
    \<and> (psi_intersect cr pc xs = Ret (Err e) \<longleftrightarrow>
      length xs \<noteq> pc_set_size pc \<and> e = SetSizeMismatch (pc_set_size pc) (length xs))
    \<and> (after (psi_intersect cr pc xs) [ERecv PsiChan (Msg (MSet masked))]
      = Some (Ret (Err (ServerSetTooLarge (length (ms_elements masked)) MAX_SERVER_SET)))
      \<longleftrightarrow> length xs = pc_set_size pc \<and> MAX_SERVER_SET < length (ms_elements masked))
    \<and> (serve_masked cr ps tag elems = Ret (ps', Err e') \<longleftrightarrow>
      MAX_SERVER_SET < length elems \<and> ps' = ps \<and> e' = ServerSetTooLarge (length elems) MAX_SERVER_SET)"
proof (intro conjI)
  show "psi_client_with cr frame pk set_size uid = Ret (Err e) \<longleftrightarrow>
      set_size = 0 \<and> e = EmptyClientSet \<or> MAX_CLIENT_SET < set_size \<and> e = ClientSetTooLarge set_size MAX_CLIENT_SET"
    by (auto simp: psi_client_with_def psi_client_channel_def open_stream_def)
  have "\<exists>k. attempt_as PsiOprfServer (server_session cr frame (ps_oprf srv) n)
      (\<lambda>oprf. Ret (Ok \<lparr> pss_oprf = oprf, pss_set_size = n \<rparr>)) = Open Control k" if "0 < n" "n \<le> MAX_CLIENT_SET"
    by (rule server_session_starts [OF that])
  then show "(\<exists>e. after (psi_server_session cr frame srv) [EOpen PsiChan True, ERecv PsiChan (Msg (MSize n))]
      = Some (Ret (Err e))) \<longleftrightarrow> n = 0 \<or> MAX_CLIENT_SET < n"
    by (cases "n = 0 \<or> MAX_CLIENT_SET < n")
      (auto simp: psi_server_session_def psi_server_channel_def open_stream_def recv_client_set_size_def recv_msg_def Let_def
          MAX_CLIENT_SET_def USIZE_MAX_def)
  show "psi_intersect cr pc xs = Ret (Err e) \<longleftrightarrow>
      length xs \<noteq> pc_set_size pc \<and> e = SetSizeMismatch (pc_set_size pc) (length xs)"
    by (auto simp: psi_intersect_def recv_set_def recv_msg_def)
  show "after (psi_intersect cr pc xs) [ERecv PsiChan (Msg (MSet masked))]
      = Some (Ret (Err (ServerSetTooLarge (length (ms_elements masked)) MAX_SERVER_SET)))
      \<longleftrightarrow> length xs = pc_set_size pc \<and> MAX_SERVER_SET < length (ms_elements masked)"
    by (auto simp: psi_intersect_def recv_set_def recv_msg_def dest!: attempt_eq_Err evaluate_chunks_error)
  show "serve_masked cr ps tag elems = Ret (ps', Err e') \<longleftrightarrow>
      MAX_SERVER_SET < length elems \<and> ps' = ps \<and> e' = ServerSetTooLarge (length elems) MAX_SERVER_SET"
    by (auto simp: serve_masked_def send_set_def send_msg_def)
qed

end
