(* ===== verification/PrimitiveProperties.thy ===== *)
theory PrimitiveProperties
  imports OprfProperties
begin

text \<open>The properties of the parts below the protocol: OTs, encodings, rounding, and the shape of the states.\<close>

section \<open>States\<close>

text \<open>
  C30: every operation of the online phase returns a well-formed state from a well-formed one, whatever
  it is asked and however it ends: the arrays keep their lengths, the bits and choices their ranges,
  the counter stays within \<open>tau\<close> and, with a VOPRF, on a multiple of \<open>16\<close>, and the server's pads stay
  those of the blocks it committed to.
\<close>

theorem states_stay_well_formed:
  assumes "wf_client cs" and "wf_server ss" and "wf_key sk" and "pads_consistent ss" and "prover_total cr"
    and "wf_request req"
  shows "wf_client (fst (request_batch xof cs tag xs)) \<and> wf_client (fst (request xof cs tag x)) \<and>
    wf_server (fst (blind_eval cr ss sk req)) \<and> pads_consistent (fst (blind_eval cr ss sk req))"
proof -
  obtain n r where "blind_eval cr ss sk req = (server_spend n ss, r)" "server_spent ss + n \<le> server_total ss"
    using blind_eval_outcome [OF assms(2-6)] by blast
  then have "wf_server (fst (blind_eval cr ss sk req))" "pads_consistent (fst (blind_eval cr ss sk req))"
    using wf_server_spend [OF assms(2)] assms(4) by simp_all
  moreover have "fst (request xof cs tag x) = fst (request_batch xof cs tag [x])"
    by (simp add: request_def case_prod_unfold split: res.splits)
  ultimately show ?thesis using request_batch_wf [OF assms(1)] by simp
qed

lemma states_stay_well_formed_witness:
  "wf_client (fst (request_batch (cr_xof ex_crypto) (ex_client True) [1] [[2]])) \<and>
   wf_client (fst (request (cr_xof ex_crypto) (ex_client True) [1] [2])) \<and>
   wf_server (fst (blind_eval ex_crypto (ex_server True) ex_sk ex_bad_request)) \<and>
   pads_consistent (fst (blind_eval ex_crypto (ex_server True) ex_sk ex_bad_request))"
  by (rule states_stay_well_formed [OF ex_wf_client ex_wf_server ex_wf_sk ex_pads ex_prover_total ex_wf_request(2)])

section \<open>Oblivious transfer\<close>

text \<open>
  C31: a \<open>1\<close>-out-of-\<open>16\<close> OT from four binary ones. On binary OTs that agree, both sides succeed, the
  sender has \<open>16\<close> blocks for each transfer, and of each the receiver has the one of its choice, which
  is the number its four choice bits spell.
\<close>

theorem delta_ot_transfers:
  assumes "required_binary_ot_count base count = Some n"
    and "send n = Ok pairs" and "receive n = Ok (blocks, choices)" and "rot_agree n pairs blocks choices"
  shows "\<exists>sent bs cs. delta_ot_send h base send count = Ok sent
           \<and> delta_ot_receive h base receive count = Ok (bs, cs)
           \<and> length sent = count \<and> length bs = count
           \<and> cs = map choice_from_bits (take count (chunks_exact LOG_DELTA choices))
           \<and> list_all2 (\<lambda>(b, c) s. unat c < DELTA \<and> length s = DELTA \<and> s ! unat c = b) (zip bs cs) sent"
proof -
  obtain sent bs cs where out: "delta_ot_send h base send count = Ok sent" "delta_ot_receive h base receive count = Ok (bs, cs)"
    "length sent = count" "length bs = count" "length cs = count"
    "\<forall>j < count. unat (cs ! j) < 16 \<and> length (sent ! j) = 16 \<and> length (bs ! j) = 16
        \<and> (\<forall>c < 16. length (sent ! j ! c) = 16) \<and> sent ! j ! unat (cs ! j) = bs ! j"
    using delta_ot_agree [OF assms(1), of send pairs receive blocks choices h, OF assms(2-4)] by blast
  have "cs = map choice_from_bits (take count (chunks_exact LOG_DELTA choices))"
    using out(2) assms(1,3) by (auto simp: delta_ot_receive_def Let_def res_bind_Ok_iff split: option.splits res.splits if_splits)
  with out show ?thesis by (auto simp: list_all2_conv_all_nth)
qed

lemma delta_ot_transfers_witness:
  "\<exists>sent bs cs. delta_ot_send (\<lambda>msg i. 0) 1 (\<lambda>n. Ok (replicate n (ex_block, ex_block)) :: (unit, _) res) 1 = Ok sent
       \<and> delta_ot_receive (\<lambda>msg i. 0) 1 (\<lambda>n. Ok (replicate n ex_block, replicate n True) :: (unit, _) res) 1 = Ok (bs, cs)
       \<and> length sent = 1 \<and> length bs = 1 \<and> cs = map choice_from_bits (take 1 (chunks_exact LOG_DELTA (replicate 4 True)))
       \<and> list_all2 (\<lambda>(b, c) s. unat c < DELTA \<and> length s = DELTA \<and> s ! unat c = b) (zip bs cs) sent"
  by (rule delta_ot_transfers [of 1 1 4 _ "replicate 4 (ex_block, ex_block)" _ "replicate 4 ex_block" "replicate 4 True"])
    (simp_all add: required_binary_ot_count_def next_multiple_of_def LOG_DELTA_def rot_agree_def del: replicate.simps)

section \<open>Encodings\<close>

text \<open>
  C40: the random oracle separates its inputs: no two pairs of a tag and an input are hashed from the
  same bytes, since the message starts with the length of the tag.
\<close>

theorem random_oracle_separates:
  assumes "length tag < 2 ^ 64" and "length tag' < 2 ^ 64"
  shows "ro_message tag x = ro_message tag' x' \<longleftrightarrow> tag = tag' \<and> x = x'"
  using ro_message_inj [OF _ assms] by blast

lemma random_oracle_separates_witness: "ro_message [1] [2, 3] = ro_message [1, 2] [3] \<longleftrightarrow> [1 :: u8] = [1, 2] \<and> [2, 3] = [3 :: u8]"
  by (rule random_oracle_separates) simp_all

section \<open>Rounding\<close>

text \<open>
  Rounding an element of \<open>Z_q\<close> takes the nearest multiple of \<open>Delta\<close>, ties down, modulo \<open>p\<close>; it
  panics exactly on a value that is not in \<open>Z_q\<close>.
\<close>

lemma rounding_is_nearest:
  "case round_zq_to_zp v of
     None \<Rightarrow> par_Q \<le> v
   | Some r \<Rightarrow> v < par_Q \<and> (\<exists>k. unat r = k mod 256 \<and> 16 * k < unat v + 8 \<and> unat v \<le> 16 * k + 8)"
proof (cases "unat v < 4096")
  case True
  obtain r where r: "round_zq_to_zp v = Some r" "unat r = (unat v + 7) div 16 mod 256"
    using unat_round_zq_to_zp [OF True] by blast
  have "16 * ((unat v + 7) div 16) < unat v + 8 \<and> unat v \<le> 16 * ((unat v + 7) div 16) + 8" by presburger
  with r True show ?thesis by (auto simp: less_par_Q)
next
  case False
  then have "round_zq_to_zp v = None" by (simp add: round_zq_to_zp_None)
  with False less_par_Q [of v] show ?thesis by (simp add: not_less [symmetric])
qed

end
