(* ===== verification/Air.thy ===== *)
theory Air
  imports Modular
begin

text \<open>
  Arithmetic circuits of the Plonky3 backend: \<open>pool-voprf/src/plonky3/selectors.rs\<close>,
  \<open>constraints/common.rs\<close> and the constants of \<open>plonky3.rs\<close>, over what Plonky3's crates provide.

  The field is any integral domain \<open>'f\<close>. \<open>baby_bear\<close> is what the circuits rely on of BabyBear: its
  characteristic is the prime \<open>ORDER_U32\<close>, so that whole numbers below it are different elements.
  \<open>Val::from_int\<close> is \<^const>\<open>of_nat\<close>. A rule is an equation between elements of the field, and a table
  satisfies an AIR when its rule holds on every row, with the row after it (the first one after
  the last) and the periodic columns at the row's position: this is what Plonky3 proves and what its
  \<open>check_all_constraints\<close> checks. A periodic column repeats whole down the table.
\<close>

declare of_nat_unat [simp del]

section \<open>The field\<close>

definition ORDER_U32 :: nat where
  "ORDER_U32 = 2 ^ 31 - 2 ^ 27 + 1"

definition baby_bear :: "'f :: idom itself \<Rightarrow> bool" where
  "baby_bear _ \<longleftrightarrow> (\<forall>n. (of_nat n :: 'f) = 0 \<longleftrightarrow> ORDER_U32 dvd n)"

text \<open>\<open>ilog2\<close> of a number that is not 0, and \<open>next_power_of_two\<close>.\<close>

fun ilog2 :: "nat \<Rightarrow> nat" where
  "ilog2 n = (if n < 2 then 0 else Suc (ilog2 (n div 2)))"

declare ilog2.simps [simp del]

definition next_power_of_two :: "nat \<Rightarrow> nat" where
  "next_power_of_two n = (if n \<le> 1 then 1 else 2 ^ Suc (ilog2 (n - 1)))"

section \<open>Constants (plonky3.rs, common.rs)\<close>

definition ROWS :: nat where "ROWS = 256"
definition N_TABLE_ROWS :: nat where "N_TABLE_ROWS = next_power_of_two par_N"
definition N_BITS :: nat where "N_BITS = ilog2 par_N + 1"
definition KEY_BITS :: nat where "KEY_BITS = par_N"

text \<open>\<open>bits\<close> of common.rs, for any width.\<close>

definition low_bits :: "'w :: len word \<Rightarrow> nat \<Rightarrow> 'f :: idom list" where
  "low_bits value count = map (\<lambda>k. of_nat (unat (drop_bit k value AND 1))) [0..<count]"

section \<open>Rules\<close>

text \<open>\<open>assert_bool\<close> and \<open>when(condition).assert_eq\<close> of a builder, and \<open>pack_bits_le\<close>.\<close>

definition assert_bool :: "'f :: idom \<Rightarrow> bool" where
  "assert_bool x \<longleftrightarrow> x * (x - 1) = 0"

definition when_eq :: "'f :: idom \<Rightarrow> 'f \<Rightarrow> 'f \<Rightarrow> bool" where
  "when_eq condition x y \<longleftrightarrow> condition * (x - y) = 0"

primrec pack_bits_le :: "'f :: idom list \<Rightarrow> 'f" where
  "pack_bits_le [] = 0"
| "pack_bits_le (b # bs) = b + 2 * pack_bits_le bs"

record 'f air =
  air_width :: nat
  air_periodic :: "'f list list"
  air_rules :: "'f list \<Rightarrow> 'f list \<Rightarrow> 'f list \<Rightarrow> 'f list \<Rightarrow> bool"

definition periodic_at :: "'f list list \<Rightarrow> nat \<Rightarrow> 'f list" where
  "periodic_at columns r = map (\<lambda>column. column ! (r mod length column)) columns"

definition satisfies :: "'f air \<Rightarrow> 'f list list \<Rightarrow> 'f list \<Rightarrow> bool" where
  "satisfies air rows public \<longleftrightarrow> rows \<noteq> [] \<and> list_all (\<lambda>row. length row = air_width air) rows \<and>
     list_all (\<lambda>column. column \<noteq> [] \<and> length column dvd length rows) (air_periodic air) \<and>
     list_all (\<lambda>r. air_rules air (rows ! r) (rows ! (Suc r mod length rows)) public
                    (periodic_at (air_periodic air) r)) [0..<length rows]"

section \<open>Selectors (selectors.rs)\<close>

definition selectors :: "nat \<Rightarrow> nat \<Rightarrow> 'f :: idom list list" where
  "selectors K width = map (\<lambda>k. map (\<lambda>row. of_bool (row div width = k)) [0..<K * width]) [0..<K]"

definition select_by :: "'f :: idom list \<Rightarrow> 'f list \<Rightarrow> 'f" where
  "select_by sel vals = sum_list (map (\<lambda>(sel_k, val). sel_k * val) (zip sel vals))"

definition index_by :: "'f :: idom list \<Rightarrow> 'f" where
  "index_by sel = select_by sel (map of_nat [0..<length sel])"

section \<open>Whole numbers in the field\<close>

lemma ORDER_U32: "ORDER_U32 = 2013265921"
  by (simp add: ORDER_U32_def)

lemma of_nat_eq_0:
  assumes "baby_bear TYPE('f :: idom)"
  shows "(of_nat n :: 'f) = 0 \<longleftrightarrow> ORDER_U32 dvd n"
  using assms by (simp add: baby_bear_def)

lemma of_nat_eq:
  assumes bb: "baby_bear TYPE('f :: idom)" and "m < ORDER_U32" and "n < ORDER_U32"
    and "(of_nat m :: 'f) = of_nat n"
  shows "m = n"
proof -
  have le: "a = b" if "a \<le> b" "b < ORDER_U32" "(of_nat a :: 'f) = of_nat b" for a b
  proof -
    have "(of_nat (b - a) :: 'f) = 0" using that by (simp add: of_nat_diff)
    then have "ORDER_U32 dvd b - a" using of_nat_eq_0 [OF bb] by blast
    with that show ?thesis by (cases "b - a = 0") (auto dest: dvd_imp_le)
  qed
  show ?thesis
  proof (cases "m \<le> n")
    case True
    with le [of m n] assms show ?thesis by simp
  next
    case False
    with le [of n m] assms show ?thesis by simp
  qed
qed

lemma assert_bool_iff: "assert_bool x \<longleftrightarrow> x = 0 \<or> x = 1"
  by (simp add: assert_bool_def)

lemma assert_bool_of_bool [simp]: "assert_bool (of_bool b)"
  by (cases b) (simp_all add: assert_bool_def)

lemma when_eq_cases: "(\<exists>b. condition = of_bool b \<and> (b \<longrightarrow> x = y)) \<Longrightarrow> when_eq condition x y"
  by (auto simp: when_eq_def)

lemma when_eq_1 [simp]: "when_eq 1 x y \<longleftrightarrow> x = y"
  by (simp add: when_eq_def)

lemma when_eq_0 [simp]: "when_eq 0 x y"
  by (simp add: when_eq_def)

section \<open>Bits\<close>

lemma u8_bit: "(b :: u8) \<le> 1 \<Longrightarrow> b = 0 \<or> b = 1"
proof -
  assume "b \<le> 1"
  then have "unat b = 0 \<or> unat b = 1" by (auto simp: word_le_nat_alt)
  then show ?thesis by (auto simp: word_unat_eq_iff)
qed

text \<open>The number that bit columns stand for.\<close>

fun bits_nat :: "bool list \<Rightarrow> nat" where
  "bits_nat [] = 0"
| "bits_nat (b # bs) = of_bool b + 2 * bits_nat bs"

lemma bits_nat_less: "bits_nat bs < 2 ^ length bs"
  by (induction bs) (auto simp: of_bool_def)

lemma bits_nat_append: "bits_nat (xs @ ys) = bits_nat xs + 2 ^ length xs * bits_nat ys"
  by (induction xs) (simp_all add: algebra_simps)

lemma bits_nat_of_nat: "bits_nat (map (\<lambda>k. odd (v div 2 ^ k)) [0..<n]) = v mod 2 ^ n"
proof (induction n arbitrary: v)
  case 0
  then show ?case by simp
next
  case (Suc n)
  have "map (\<lambda>k. odd (v div 2 ^ k)) [0..<Suc n] = odd v # map (\<lambda>k. odd (v div 2 div 2 ^ k)) [0..<n]"
    by (simp add: upt_conv_Cons map_Suc_upt [symmetric] div_mult2_eq comp_def del: upt_Suc)
  moreover have "v mod 2 ^ Suc n = v mod 2 + 2 * (v div 2 mod 2 ^ n)" by (simp add: mod_mult2_eq)
  ultimately show ?case using Suc by (simp add: mod2_eq_if del: upt_Suc)
qed

lemma pack_bits_of_bool: "pack_bits_le (map of_bool bs) = (of_nat (bits_nat bs) :: 'f :: idom)"
  by (induction bs) simp_all

lemma bool_columns:
  assumes "list_all assert_bool cols"
  obtains bs where "cols = map of_bool bs"
proof
  show "cols = map of_bool (map (\<lambda>x. x = 1) cols)"
    using assms by (induction cols) (auto simp: assert_bool_iff)
qed

lemma low_bits_of_bool:
  fixes v :: "'w :: len word"
  shows "(low_bits v n :: 'f :: idom list) = map of_bool (map (\<lambda>k. odd (unat v div 2 ^ k)) [0..<n])"
proof -
  have "unat (drop_bit k v AND 1) = unat v div 2 ^ k mod 2" for k
  proof -
    have "unat (drop_bit k v AND 1) = unat (drop_bit k v) AND unat (1 :: 'w word)" by (rule unsigned_and_eq)
    also have "\<dots> = drop_bit k (unat v) mod 2" by (simp only: unat_drop_bit_eq unsigned_1 and_one_eq)
    also have "\<dots> = unat v div 2 ^ k mod 2" by (simp only: drop_bit_eq_div)
    finally show ?thesis .
  qed
  moreover have "(of_nat (n mod 2) :: 'f) = of_bool (odd n)" for n by (simp add: mod2_eq_if)
  ultimately show ?thesis by (simp add: low_bits_def)
qed

lemma length_low_bits [simp]: "length (low_bits v n) = n"
  by (simp add: low_bits_def)

lemma pack_low_bits: "pack_bits_le (low_bits v n) = of_nat (unat v mod 2 ^ n)"
  by (simp only: low_bits_of_bool pack_bits_of_bool bits_nat_of_nat)

lemma low_bits_bool: "list_all assert_bool (low_bits v n)"
  by (simp add: low_bits_of_bool list_all_iff)

section \<open>Selecting\<close>

lemma select_by_one:
  assumes "length vals = K" and "i < K"
  shows "select_by (map (\<lambda>k. of_bool (i = k)) [0..<K]) vals = vals ! i"
proof -
  have "select_by (map (\<lambda>k. of_bool (i = k)) [0..<K]) vals = (\<Sum>k<K. of_bool (i = k) * vals ! k)"
    using assms(1) unfolding select_by_def
    by (subst sum_list_sum_nth) (auto simp: atLeast0LessThan intro: sum.cong)
  also have "\<dots> = (\<Sum>k<K. if k = i then vals ! k else 0)" by (intro sum.cong) auto
  also have "\<dots> = vals ! i" using assms(2) by simp
  finally show ?thesis .
qed

lemma index_by_one: "i < K \<Longrightarrow> index_by (map (\<lambda>k. of_bool (i = k)) [0..<K]) = of_nat i"
  by (simp add: index_by_def select_by_one)

lemma periodic_selectors:
  assumes "0 < width" and "0 < K"
  shows "periodic_at (selectors K width) r = map (\<lambda>k. of_bool (r div width mod K = k)) [0..<K]"
proof -
  have "r mod (K * width) < K * width" using assms by simp
  moreover have "r mod (K * width) div width = r div width mod K"
    using assms(1) by (simp add: mult.commute [of K] mod_mult2_eq)
  ultimately show ?thesis by (simp add: periodic_at_def selectors_def)
qed

end
