(* ===== verification/Plonky3Commitments.thy ===== *)
theory Plonky3Commitments
  imports Air Voprf
begin

text \<open>
  \<open>pool-voprf/src/plonky3/commitments.rs\<close> and \<open>commitments/*.rs\<close>: the commitments of the Plonky3
  backend, hashes of a domain and values.

  Poseidon2 and its sponge are those of Plonky3's crates and are an argument, the record
  \<open>poseidon2\<close>: the permutation, the sponge \<open>PaddingFreeSponge\<close>, and what \<open>Poseidon2Air\<close> provides
  to put the permutation in a circuit (\<open>Sponge\<close> says what is relied on). The backend has two, of 32
  and of 16 elements.
\<close>

declare of_nat_unat [simp del]

section \<open>Poseidon2\<close>

record 'f poseidon2 =
  p2_width :: nat
  p2_permute :: "'f list \<Rightarrow> 'f list"
  p2_hash_iter :: "'f list \<Rightarrow> 'f list"
  p2_num_cols :: nat
  p2_rules :: "'f list \<Rightarrow> bool"
  p2_last_post :: "'f list \<Rightarrow> 'f list"
  p2_generate :: "'f list \<Rightarrow> 'f list"

record 'f backend =
  be_wide :: "'f poseidon2"
  be_narrow :: "'f poseidon2"

section \<open>Constants and packing (commitments.rs)\<close>

definition BITS_PER_ELEMENT :: nat where "BITS_PER_ELEMENT = ilog2 ORDER_U32"
definition RANDOMNESS_ELEMENTS :: nat where "RANDOMNESS_ELEMENTS = div_ceil 128 BITS_PER_ELEMENT"
definition PAIR_ELEMENTS :: nat where "PAIR_ELEMENTS = 1 + RANDOMNESS_ELEMENTS"
definition WIDTH :: nat where "WIDTH = 32"
definition NARROW_WIDTH :: nat where "NARROW_WIDTH = 16"
definition CAPACITY :: nat where "CAPACITY = 8"
definition DIGEST_ELEMENTS :: nat where "DIGEST_ELEMENTS = CAPACITY"
definition RATE :: nat where "RATE = WIDTH - CAPACITY"
definition NARROW_RATE :: nat where "NARROW_RATE = NARROW_WIDTH - CAPACITY"

definition pack_randomness :: "commitment_randomness \<Rightarrow> 'f :: idom list" where
  "pack_randomness r = map (\<lambda>k. let shifted = drop_bit (k * BITS_PER_ELEMENT) r
       in of_nat (unat (shifted mod push_bit BITS_PER_ELEMENT 1))) [0..<RANDOMNESS_ELEMENTS]"

section \<open>A commitment of one kind (commitments.rs)\<close>

text \<open>\<open>Commitment<DOMAIN, LEN>\<close> is a digest of \<open>DIGEST_ELEMENTS\<close> elements; \<open>LEN\<close> is the length of the
  committed elements.\<close>

type_synonym 'f digest = "'f list"

definition domain_element :: "domain \<Rightarrow> 'f :: idom" where
  "domain_element d = of_nat (unat (domain_value d))"

definition commitment_input :: "domain \<Rightarrow> 'f :: idom list \<Rightarrow> 'f list" where
  "commitment_input d elems = domain_element d # elems"

definition commit_elements :: "'f :: idom backend \<Rightarrow> domain \<Rightarrow> 'f list \<Rightarrow> 'f digest" where
  "commit_elements be d elems =
     (let input = commitment_input d elems
      in if length elems < NARROW_RATE then p2_hash_iter (be_narrow be) input
         else p2_hash_iter (be_wide be) input)"

section \<open>The key (commitments/key.rs)\<close>

definition PACKED_KEY_ELEMENTS :: nat where
  "PACKED_KEY_ELEMENTS = div_ceil par_N BITS_PER_ELEMENT"

definition pack_bits :: "u8 list \<Rightarrow> u32" where
  "pack_bits bits = fold (\<lambda>(position, bit) element. element OR push_bit position (ucast bit)) (enumerate 0 bits) 0"

definition pack_key :: "secret_key \<Rightarrow> u32 list" where
  "pack_key sk = map pack_bits (chunks BITS_PER_ELEMENT (as_bits sk))"

definition key_elements :: "u32 list \<Rightarrow> 'f :: idom list" where
  "key_elements packed = map (\<lambda>element. of_nat (unat element)) packed"

definition key_commit :: "'f :: idom backend \<Rightarrow> secret_key \<Rightarrow> 'f digest" where
  "key_commit be sk = commit_elements be Key (key_elements (pack_key sk))"

section \<open>Masks, mask sums and pads (commitments/masks.rs, mask_sum.rs, pad.rs)\<close>

definition zq_elements :: "zq list \<Rightarrow> 'f :: idom list" where
  "zq_elements vals = map (\<lambda>v. of_nat (unat v)) vals"

definition masks_elements :: "zq list \<Rightarrow> commitment_randomness \<Rightarrow> 'f :: idom list" where
  "masks_elements masks r = zq_elements masks @ pack_randomness r"

definition masks_commit :: "'f :: idom backend \<Rightarrow> masks_input \<Rightarrow> 'f digest" where
  "masks_commit be input =
     commit_elements be Masks (masks_elements (mi_masks input) (mi_randomness input))"

definition mask_sum_elements :: "zq list \<Rightarrow> commitment_randomness \<Rightarrow> 'f :: idom list" where
  "mask_sum_elements r_sigma_sums r = zq_elements r_sigma_sums @ pack_randomness r"

definition mask_sum_commit :: "'f :: idom backend \<Rightarrow> mask_sums_input \<Rightarrow> 'f digest" where
  "mask_sum_commit be input =
     commit_elements be MaskSum (mask_sum_elements (msi_r_sigma_sums input) (msi_randomness input))"

definition pad_elements :: "zp \<Rightarrow> commitment_randomness \<Rightarrow> 'f :: idom list" where
  "pad_elements pad_j r = [of_nat (unat pad_j)] @ pack_randomness r"

definition pad_commit :: "'f :: idom backend \<Rightarrow> pad_input \<Rightarrow> 'f digest" where
  "pad_commit be input = commit_elements be Pad (pad_elements (pi_pad input) (pi_randomness input))"

section \<open>What the constants are\<close>

lemma BITS_PER_ELEMENT [simp]: "BITS_PER_ELEMENT = 30"
  by (simp add: BITS_PER_ELEMENT_def ORDER_U32 ilog2.simps)

lemma plonky3_constants [simp]:
  "RANDOMNESS_ELEMENTS = 5" "PAIR_ELEMENTS = 6" "WIDTH = 32" "NARROW_WIDTH = 16" "CAPACITY = 8"
  "DIGEST_ELEMENTS = 8" "RATE = 24" "NARROW_RATE = 8" "PACKED_KEY_ELEMENTS = 17"
  by (simp_all add: RANDOMNESS_ELEMENTS_def PAIR_ELEMENTS_def WIDTH_def NARROW_WIDTH_def CAPACITY_def
      DIGEST_ELEMENTS_def RATE_def NARROW_RATE_def PACKED_KEY_ELEMENTS_def div_ceil_def par_N_def)

lemma table_constants [simp]: "N_TABLE_ROWS = 512" "N_BITS = 9" "ROWS = 256" "KEY_BITS = 482"
  by (simp_all add: N_TABLE_ROWS_def N_BITS_def ROWS_def KEY_BITS_def next_power_of_two_def par_N_def
      ilog2.simps)

lemma length_pack_randomness [simp]: "length (pack_randomness r) = 5"
  by (simp add: pack_randomness_def)

lemma length_zq_elements [simp]: "length (zq_elements vals) = length vals"
  by (simp add: zq_elements_def)

section \<open>Packed bits\<close>

text \<open>A packed element is the number its bits stand for, lowest first.\<close>

lemma pack_bits_nat:
  assumes "\<forall>b \<in> set bits. b = 0 \<or> b = 1" and "length bits \<le> 30"
  shows "unat (pack_bits bits) = bits_nat (map (\<lambda>b. b = 1) bits)"
  using assms
proof (induction bits rule: rev_induct)
  case Nil
  then show ?case by (simp add: pack_bits_def)
next
  case (snoc b bits)
  let ?n = "length bits" and ?low = "pack_bits bits"
  have low: "unat ?low < 2 ^ ?n"
    using snoc bits_nat_less [of "map (\<lambda>b. b = 1) bits"] by simp
  have n: "?n < 32" using snoc.prems(2) by simp
  have step: "pack_bits (bits @ [b]) = ?low OR push_bit ?n (ucast b)"
    by (simp add: pack_bits_def enumerate_append_eq)
  show ?case
  proof (cases "b = 1")
    case True
    have "?low AND push_bit ?n 1 = 0"
    proof (rule bit_word_eqI)
      fix i :: nat
      assume "i < LENGTH(32)"
      have "\<not> bit (unat ?low) ?n" using low by (simp add: bit_iff_odd)
      then have "\<not> bit ?low ?n" by (simp add: bit_unsigned_iff)
      then show "bit (?low AND push_bit ?n 1) i \<longleftrightarrow> bit (0 :: u32) i"
        by (auto simp: bit_and_iff bit_exp_iff)
    qed
    then have "pack_bits (bits @ [b]) = ?low + push_bit ?n 1"
      using True step by (simp add: disjunctive_add_eq_or)
    moreover have "unat (push_bit ?n 1 :: u32) = 2 ^ ?n"
    proof -
      have "(2 :: nat) ^ ?n < 2 ^ 32" using n by (intro power_strict_increasing) simp_all
      moreover have "unat (push_bit ?n 1 :: u32) = take_bit LENGTH(32) (push_bit ?n 1)"
        by (simp only: unsigned_push_bit_eq unsigned_1)
      ultimately show ?thesis using n by (simp add: take_bit_nat_eq_self)
    qed
    moreover have "2 ^ ?n \<le> (2 :: nat) ^ 29" using snoc.prems(2) by (intro power_increasing) simp_all
    ultimately have "unat (pack_bits (bits @ [b])) = unat ?low + 2 ^ ?n"
      using low by (simp add: unat_word_ariths)
    with True snoc show ?thesis by (simp add: bits_nat_append)
  next
    case False
    with snoc step show ?thesis by (simp add: bits_nat_append)
  qed
qed

end
