(* ===== verification/Sponge.thy ===== *)
theory Sponge
  imports Plonky3Commitments
begin

text \<open>
  \<open>pool-voprf/src/plonky3/sponge.rs\<close>: the sponge of a commitment inside a circuit. The columns of a
  permutation are its input, then its rounds.

  \<open>poseidon2_ok\<close> is what the circuits rely on of Plonky3's crates: \<open>PaddingFreeSponge\<close> writes an
  input that fits the rate over a zero state and permutes it once; the rules of \<open>Poseidon2Air\<close> on its
  columns say that the last state is the permutation of the first columns; \<open>generate_trace_rows\<close>
  fills columns that satisfy them.
\<close>

section \<open>What is relied on\<close>

definition padded :: "nat \<Rightarrow> 'f :: idom list \<Rightarrow> 'f list" where
  "padded width input = input @ replicate (width - length input) 0"

definition poseidon2_ok :: "nat \<Rightarrow> 'f :: idom poseidon2 \<Rightarrow> bool" where
  "poseidon2_ok width p \<longleftrightarrow>
     p2_width p = width \<and> width \<le> p2_num_cols p \<and>
     (\<forall>s. length s = width \<longrightarrow> length (p2_permute p s) = width) \<and>
     (\<forall>input. input \<noteq> [] \<and> length input \<le> width - CAPACITY \<longrightarrow>
        p2_hash_iter p input = take DIGEST_ELEMENTS (p2_permute p (padded width input))) \<and>
     (\<forall>cols. length cols = p2_num_cols p \<and> p2_rules p cols \<longrightarrow>
        p2_last_post p cols = p2_permute p (take width cols)) \<and>
     (\<forall>s. length s = width \<longrightarrow> length (p2_generate p s) = p2_num_cols p \<and>
        take width (p2_generate p s) = s \<and> p2_rules p (p2_generate p s))"

definition backend_ok :: "'f :: idom backend \<Rightarrow> bool" where
  "backend_ok be \<longleftrightarrow> poseidon2_ok WIDTH (be_wide be) \<and> poseidon2_ok NARROW_WIDTH (be_narrow be)"

section \<open>The sponge in a circuit\<close>

text \<open>\<open>CircuitSponge::trace\<close>, which panics on an input that does not fit.\<close>

definition sponge_trace :: "'f :: idom poseidon2 \<Rightarrow> 'f list \<Rightarrow> 'f list option" where
  "sponge_trace p input =
     (if length input \<le> p2_width p - CAPACITY then Some (p2_generate p (padded (p2_width p) input)) else None)"

text \<open>\<open>eval_commitment\<close>. That the domain and the values fit is checked before any rule; every call of
  the source passes constants that do (\<open>commitment_lengths\<close>).\<close>

definition eval_commitment ::
  "'f :: idom poseidon2 \<Rightarrow> 'f list \<Rightarrow> nat \<Rightarrow> 'f \<Rightarrow> nat \<Rightarrow> 'f digest \<Rightarrow> bool" where
  "eval_commitment p row first domain len digest \<longleftrightarrow>
     (let columns = take (p2_num_cols p) (drop first row);
          inputs = take (p2_width p) columns;
          state = p2_last_post p columns
      in len < p2_width p - CAPACITY \<and>
         p2_rules p columns \<and>
         hd inputs = domain \<and>
         list_all (\<lambda>zero. zero = 0) (drop len (tl inputs)) \<and>
         list_all (\<lambda>(val, expected). val = expected) (zip (take DIGEST_ELEMENTS state) digest))"

section \<open>A commitment rule is a commitment\<close>

lemma length_padded: "length input \<le> width \<Longrightarrow> length (padded width input) = width"
  by (simp add: padded_def)

lemma list_all_zip_eq:
  "length xs = length ys \<Longrightarrow> list_all (\<lambda>(x, y). x = y) (zip xs ys) \<longleftrightarrow> xs = ys"
  by (induction xs ys rule: list_induct2) simp_all

lemma hash_iter_padded:
  assumes "poseidon2_ok width p" and "input \<noteq> []" and "length input \<le> width - 8"
  shows "p2_hash_iter p input = take 8 (p2_permute p (padded width input))"
  using assms by (simp add: poseidon2_ok_def)

lemma all_zero: "list_all (\<lambda>z. z = 0) zs \<Longrightarrow> zs = replicate (length zs) 0"
  by (induction zs) simp_all

lemma eval_commitment_sound:
  assumes ok: "poseidon2_ok width p" and rule: "eval_commitment p row first domain len digest"
    and room: "first + p2_num_cols p \<le> length row" and width: "8 \<le> width" and digest: "length digest = 8"
  shows "p2_hash_iter p (domain # take len (drop (Suc first) row)) = digest"
proof -
  let ?columns = "take (p2_num_cols p) (drop first row)" and ?inputs = "take width (drop first row)"
  let ?vals = "take len (drop (Suc first) row)"
  have w: "p2_width p = width" "width \<le> p2_num_cols p" using ok by (simp_all add: poseidon2_ok_def)
  then have inputs: "take width ?columns = ?inputs" by (simp add: min_absorb1)
  from rule have len: "len < width - 8" and rules: "p2_rules p ?columns" and hd: "hd ?inputs = domain"
    and zeros: "list_all (\<lambda>z. z = 0) (drop len (tl ?inputs))"
    and state: "list_all (\<lambda>(x, y). x = y) (zip (take 8 (p2_last_post p ?columns)) digest)"
    by (simp_all add: eval_commitment_def Let_def w inputs)
  have length_inputs: "length ?inputs = width" using room w by simp
  then have tl: "tl ?inputs = take (width - 1) (drop (Suc first) row)"
    by (simp add: tl_take tl_drop drop_Suc)
  have "?inputs = domain # tl ?inputs"
    using hd length_inputs width by (cases ?inputs) auto
  also have "tl ?inputs = take len (tl ?inputs) @ drop len (tl ?inputs)" by simp
  also have "take len (tl ?inputs) = ?vals" using len by (simp add: tl min_absorb1)
  also have "drop len (tl ?inputs) = replicate (width - 1 - len) 0"
    using all_zero [OF zeros] length_inputs by simp
  finally have input: "?inputs = padded width (domain # ?vals)"
    using len room w by (simp add: padded_def min_absorb1)
  have "p2_last_post p ?columns = p2_permute p ?inputs"
    using ok rules room inputs by (simp add: poseidon2_ok_def)
  moreover have "length (p2_permute p ?inputs) = width" using ok length_inputs by (simp add: poseidon2_ok_def)
  ultimately have "take 8 (p2_permute p ?inputs) = digest"
    using state digest width list_all_zip_eq [of "take 8 (p2_permute p ?inputs)" digest] by simp
  moreover have "p2_hash_iter p (domain # ?vals) = take 8 (p2_permute p (padded width (domain # ?vals)))"
    by (rule hash_iter_padded [OF ok]) (use len in auto)
  ultimately show ?thesis by (simp only: input)
qed

lemma eval_commitment_complete:
  assumes ok: "poseidon2_ok width p" and width: "8 \<le> width" and len: "Suc (length vals) \<le> width - 8"
    and hash: "sponge_trace p (domain # vals) = Some hash" and first: "first = length before"
    and digest: "digest = p2_hash_iter p (domain # vals)"
  shows "eval_commitment p (before @ hash @ rest) first domain (length vals) digest"
    and "take (length vals) (drop (Suc first) (before @ hash @ rest)) = vals"
proof -
  let ?input = "padded width (domain # vals)"
  have w: "p2_width p = width" "width \<le> p2_num_cols p" using ok by (simp_all add: poseidon2_ok_def)
  have h: "hash = p2_generate p ?input" using hash w by (simp add: sponge_trace_def split: if_splits)
  have length_input: "length ?input = width" using len by (simp add: length_padded)
  then have gen: "length hash = p2_num_cols p" "take width hash = ?input" "p2_rules p hash"
    using ok h by (simp_all add: poseidon2_ok_def)
  have columns: "take (p2_num_cols p) (drop first (before @ hash @ rest)) = hash"
    using gen(1) first by simp
  have tl: "tl ?input = vals @ replicate (width - Suc (length vals)) 0" by (simp add: padded_def)
  have "p2_last_post p hash = p2_permute p ?input" using ok gen by (simp add: poseidon2_ok_def)
  moreover have "take 8 (p2_permute p ?input) = digest"
    using hash_iter_padded [OF ok, of "domain # vals"] len digest by simp
  moreover have "length (take 8 (p2_permute p ?input)) = 8"
    using ok length_input width by (simp add: poseidon2_ok_def)
  moreover have "hd ?input = domain" by (simp add: padded_def)
  ultimately show "eval_commitment p (before @ hash @ rest) first domain (length vals) digest"
    unfolding eval_commitment_def Let_def columns w
    using len gen list_all_zip_eq [of digest digest] by (simp add: tl list_all_iff)
  have "take (Suc (length vals)) hash = take (Suc (length vals)) ?input"
    using len gen(2) by (metis Suc_leD diff_le_self le_trans min.absorb1 min.commute take_take)
  then have "take (length vals) (tl hash) = vals"
    by (cases hash) (auto simp: padded_def)
  moreover have "drop (Suc first) (before @ hash @ rest) = tl (hash @ rest)"
    using first by (cases hash) (simp_all add: drop_Suc)
  moreover have "Suc (length vals) \<le> length hash" using gen len w by simp
  ultimately show "take (length vals) (drop (Suc first) (before @ hash @ rest)) = vals"
    by (cases hash) auto
qed

lemma backend_okD:
  "backend_ok be \<Longrightarrow> poseidon2_ok 32 (be_wide be)"
  "backend_ok be \<Longrightarrow> poseidon2_ok 16 (be_narrow be)"
  by (simp_all add: backend_ok_def)

lemma sponge_trace_Some:
  assumes "poseidon2_ok width p" and "length input \<le> width - 8"
  shows "\<exists>hash. sponge_trace p input = Some hash \<and> length hash = p2_num_cols p"
  using assms by (simp add: sponge_trace_def poseidon2_ok_def length_padded)

end
