(* ===== verification/CommitmentAirs.thy ===== *)
theory CommitmentAirs
  imports Sponge
begin

text \<open>
  \<open>pool-voprf/src/plonky3/constraints/k_key.rs\<close>, \<open>m_mask_sum.rs\<close>, \<open>s_masks.rs\<close> and \<open>p_pads.rs\<close>: the
  circuits of the constraints (K), (M), (S) and (P), each a commitment in a row of the table. The
  rules of a constraint read the columns of its own part of the row.

  Of each, \<open>_sound\<close> says what its rules on a row imply, whatever the row, and \<open>_complete\<close> that
  the row the prover builds satisfies them.
\<close>

section \<open>(K): the key (k_key.rs)\<close>

definition key_SPONGE :: nat where "key_SPONGE = KEY_BITS"
definition key_PACKED :: nat where "key_PACKED = key_SPONGE + 1"

definition key_num_cols :: "'f :: idom backend \<Rightarrow> nat" where
  "key_num_cols be = key_SPONGE + p2_num_cols (be_wide be)"

definition key_row :: "'f :: idom backend \<Rightarrow> secret_key \<Rightarrow> 'f list option" where
  "key_row be sk = do {
     let packed = pack_key sk;
     let bits = map (\<lambda>bit. of_bool (bit = 1)) (as_bits sk);
     hash \<leftarrow> sponge_trace (be_wide be) (commitment_input Key (key_elements packed));
     Some (bits @ hash) }"

definition key_trace :: "'f :: idom backend \<Rightarrow> secret_key \<Rightarrow> 'f list list option" where
  "key_trace be sk = map_option (replicate ROWS) (key_row be sk)"

definition packed_column :: "'f :: idom list \<Rightarrow> nat \<Rightarrow> 'f" where
  "packed_column bits i =
     sum_list (map (\<lambda>(position, bit). bit * of_nat (2 ^ position))
       (enumerate 0 (chunks BITS_PER_ELEMENT bits ! i)))"

definition key_rules :: "'f :: idom backend \<Rightarrow> 'f list \<Rightarrow> 'f digest \<Rightarrow> bool" where
  "key_rules be row pk \<longleftrightarrow>
     (let bits = take KEY_BITS row
      in list_all assert_bool bits \<and>
         list_all (\<lambda>i. row ! (key_PACKED + i) = packed_column bits i) [0..<PACKED_KEY_ELEMENTS] \<and>
         eval_commitment (be_wide be) row key_SPONGE (domain_element Key) PACKED_KEY_ELEMENTS pk)"

definition key_air :: "'f :: idom backend \<Rightarrow> 'f air" where
  "key_air be = \<lparr> air_width = key_num_cols be, air_periodic = [],
     air_rules = (\<lambda>row next public periodic. length public = DIGEST_ELEMENTS \<and> key_rules be row public) \<rparr>"

section \<open>(M): the mask sums (m_mask_sum.rs)\<close>

definition mask_sum_SPONGE :: nat where "mask_sum_SPONGE = 0"
definition mask_sum_R_SIGMA :: nat where "mask_sum_R_SIGMA = mask_sum_SPONGE + 1"
definition mask_sum_RANDOMNESS :: nat where
  "mask_sum_RANDOMNESS = mask_sum_R_SIGMA + RUNS_PER_EVALUATION"

definition mask_sum_num_cols :: "'f :: idom backend \<Rightarrow> nat" where
  "mask_sum_num_cols be = mask_sum_SPONGE + p2_num_cols (be_wide be)"

definition MASK_SUM_ELEMENTS :: nat where
  "MASK_SUM_ELEMENTS = RUNS_PER_EVALUATION + RANDOMNESS_ELEMENTS"

definition mask_sum_row ::
  "'f :: idom backend \<Rightarrow> zq list \<Rightarrow> commitment_randomness \<Rightarrow> 'f list option" where
  "mask_sum_row be r_sigma_sums r =
     sponge_trace (be_wide be) (commitment_input MaskSum (mask_sum_elements r_sigma_sums r))"

definition mask_sum_trace ::
  "'f :: idom backend \<Rightarrow> zq list \<Rightarrow> commitment_randomness \<Rightarrow> 'f list list option" where
  "mask_sum_trace be r_sigma_sums r = map_option (replicate ROWS) (mask_sum_row be r_sigma_sums r)"

definition mask_sum_rules :: "'f :: idom backend \<Rightarrow> 'f list \<Rightarrow> 'f digest \<Rightarrow> bool" where
  "mask_sum_rules be row m \<longleftrightarrow>
     eval_commitment (be_wide be) row mask_sum_SPONGE (domain_element MaskSum) MASK_SUM_ELEMENTS m"

definition mask_sum_air :: "'f :: idom backend \<Rightarrow> 'f air" where
  "mask_sum_air be = \<lparr> air_width = mask_sum_num_cols be, air_periodic = [],
     air_rules = (\<lambda>row next public periodic. length public = DIGEST_ELEMENTS \<and> mask_sum_rules be row public) \<rparr>"

section \<open>(S): the server's masks (s_masks.rs)\<close>

definition masks_SK_I :: nat where "masks_SK_I = 0"
definition masks_SPONGE :: nat where "masks_SPONGE = masks_SK_I + 1"
definition masks_MASKS :: nat where "masks_MASKS = masks_SPONGE + 1"

definition masks_num_cols :: "'f :: idom backend \<Rightarrow> nat" where
  "masks_num_cols be = masks_SPONGE + p2_num_cols (be_wide be)"

definition MASKS_ELEMENTS :: nat where
  "MASKS_ELEMENTS = RUNS_PER_EVALUATION + RANDOMNESS_ELEMENTS"

definition masks_B_BAR :: nat where "masks_B_BAR = 0"
definition masks_C_0 :: nat where "masks_C_0 = masks_B_BAR + 1"
definition masks_C_1 :: nat where "masks_C_1 = masks_C_0 + DIGEST_ELEMENTS"
definition masks_PERIODIC :: nat where "masks_PERIODIC = masks_C_1 + DIGEST_ELEMENTS"

definition masks_periodic :: "u8 list \<Rightarrow> ('f :: idom digest \<times> 'f digest) list \<Rightarrow> 'f list list" where
  "masks_periodic b_bar c =
     (let column = (\<lambda>val. map (\<lambda>row. val (min row (par_N - 1))) [0..<N_TABLE_ROWS])
      in column (\<lambda>i. of_nat (unat (b_bar ! i)))
         # map (\<lambda>e. column (\<lambda>i. fst (c ! i) ! e)) [0..<DIGEST_ELEMENTS]
         @ map (\<lambda>e. column (\<lambda>i. snd (c ! i) ! e)) [0..<DIGEST_ELEMENTS])"

definition masks_row ::
  "'f :: idom backend \<Rightarrow> u8 \<Rightarrow> zq list \<Rightarrow> commitment_randomness \<Rightarrow> 'f list option" where
  "masks_row be sk_i masks_i ot_block_i = do {
     let vals = masks_elements masks_i ot_block_i;
     hash \<leftarrow> sponge_trace (be_wide be) (commitment_input Masks vals);
     Some (of_nat (unat sk_i) # hash) }"

definition masks_trace ::
  "'f :: idom backend \<Rightarrow> secret_key \<Rightarrow> zq list list \<Rightarrow> commitment_randomness list \<Rightarrow> 'f list list option"
where
  "masks_trace be sk masks ot_blocks =
     opt_map (\<lambda>row. let i = min row (par_N - 1) in masks_row be (as_bits sk ! i) (masks ! i) (ot_blocks ! i))
       [0..<N_TABLE_ROWS]"

definition masks_rules ::
  "'f :: idom backend \<Rightarrow> 'f list \<Rightarrow> 'f \<Rightarrow> 'f digest \<Rightarrow> 'f digest \<Rightarrow> bool" where
  "masks_rules be row b_bar_i c_0 c_1 \<longleftrightarrow>
     (let sk_i = row ! masks_SK_I;
          b_i = b_bar_i + sk_i - b_bar_i * sk_i * 2;
          c_b_i = map (\<lambda>e. c_0 ! e + b_i * (c_1 ! e - c_0 ! e)) [0..<DIGEST_ELEMENTS]
      in assert_bool sk_i \<and>
         eval_commitment (be_wide be) row masks_SPONGE (domain_element Masks) MASKS_ELEMENTS c_b_i)"

definition masks_air ::
  "'f :: idom backend \<Rightarrow> u8 list \<Rightarrow> ('f digest \<times> 'f digest) list \<Rightarrow> 'f air" where
  "masks_air be b_bar c = \<lparr> air_width = masks_num_cols be, air_periodic = masks_periodic b_bar c,
     air_rules = (\<lambda>row next public periodic.
       masks_rules be row (periodic ! masks_B_BAR)
         (map (\<lambda>e. periodic ! (masks_C_0 + e)) [0..<DIGEST_ELEMENTS])
         (map (\<lambda>e. periodic ! (masks_C_1 + e)) [0..<DIGEST_ELEMENTS])) \<rparr>"

section \<open>(P): the pads (p_pads.rs)\<close>

definition pads_SPONGE :: nat where "pads_SPONGE = 0"
definition pads_PAD :: nat where "pads_PAD = pads_SPONGE + 1"

definition pads_num_cols :: "'f :: idom backend \<Rightarrow> nat" where
  "pads_num_cols be = pads_SPONGE + p2_num_cols (be_narrow be)"

definition pads_entries ::
  "'f :: idom backend \<Rightarrow> zp list \<Rightarrow> commitment_randomness list \<Rightarrow> 'f list list option" where
  "pads_entries be pads rnd =
     opt_map (\<lambda>(pad_j, r). sponge_trace (be_narrow be) (commitment_input Pad (pad_elements pad_j r)))
       (zip pads rnd)"

definition pads_trace ::
  "'f :: idom backend \<Rightarrow> zp list \<Rightarrow> commitment_randomness list \<Rightarrow> 'f list list option" where
  "pads_trace be pads rnd =
     map_option (\<lambda>entries. concat (replicate (ROWS div DELTA) entries)) (pads_entries be pads rnd)"

definition pads_rules :: "'f :: idom backend \<Rightarrow> 'f list \<Rightarrow> 'f digest \<Rightarrow> bool" where
  "pads_rules be row hash \<longleftrightarrow>
     eval_commitment (be_narrow be) row pads_SPONGE (domain_element Pad) PAIR_ELEMENTS hash"

definition pads_air :: "'f :: idom backend \<Rightarrow> 'f air" where
  "pads_air be = \<lparr> air_width = pads_num_cols be, air_periodic = selectors DELTA 1,
     air_rules = (\<lambda>row next public periodic.
       let d = map (\<lambda>j. take DIGEST_ELEMENTS (drop (j * DIGEST_ELEMENTS) public)) [0..<DELTA];
           hash = map (\<lambda>k. select_by periodic (map (\<lambda>d_j. d_j ! k) d)) [0..<DIGEST_ELEMENTS]
       in pads_rules be row hash) \<rparr>"

definition pads_public_values :: "'f :: idom digest list \<Rightarrow> 'f list" where
  "pads_public_values d = concat d"

lemma commitment_lengths:
  "PACKED_KEY_ELEMENTS < RATE" "MASK_SUM_ELEMENTS < RATE" "MASKS_ELEMENTS < RATE" "PAIR_ELEMENTS < NARROW_RATE"
  by (simp_all add: MASK_SUM_ELEMENTS_def MASKS_ELEMENTS_def)

end
