(* ===== verification/CommitmentRules.thy ===== *)
theory CommitmentRules
  imports CommitmentAirs
begin

text \<open>The circuits of (K), (M), (S) and (P) are their constraints: soundness and completeness.\<close>

section \<open>The hash of each kind\<close>

lemma commit_elements_wide:
  "8 \<le> length elems \<Longrightarrow> commit_elements be d elems = p2_hash_iter (be_wide be) (domain_element d # elems)"
  by (simp add: commit_elements_def commitment_input_def Let_def)

lemma commit_elements_narrow:
  "length elems < 8 \<Longrightarrow> commit_elements be d elems = p2_hash_iter (be_narrow be) (domain_element d # elems)"
  by (simp add: commit_elements_def commitment_input_def Let_def)

lemma length_hash_iter:
  assumes "poseidon2_ok width p" and "8 \<le> width" and "input \<noteq> []" and "length input \<le> width - 8"
  shows "length (p2_hash_iter p input) = 8"
  using assms hash_iter_padded [OF assms(1,3,4)] length_padded [of input width]
  by (simp add: poseidon2_ok_def)

lemma nth_slice: "a \<le> length xs \<Longrightarrow> i < n \<Longrightarrow> take n (drop a xs) ! i = xs ! (a + i)"
  by simp

section \<open>(K)\<close>

text \<open>The key whose bits are given.\<close>

definition key_of :: "bool list \<Rightarrow> secret_key" where
  "key_of bs = SecretKey (map of_bool bs)"

definition key_bits :: "secret_key \<Rightarrow> bool list" where
  "key_bits sk = map (\<lambda>b. b = 1) (as_bits sk)"

lemma wf_key_of: "length bs = 482 \<Longrightarrow> wf_key (key_of bs)"
  by (auto simp: key_of_def wf_key_def par_N_def)

lemma key_of_bits:
  assumes "wf_key sk"
  shows "key_of (key_bits sk) = sk" and "length (key_bits sk) = 482"
proof -
  have "of_bool (b = 1) = b" if "b \<in> set (as_bits sk)" for b
    using assms that u8_bit [of b] by (auto simp: wf_key_def)
  then have "map (\<lambda>b. of_bool (b = 1)) (as_bits sk) = as_bits sk" by (intro map_idI)
  then show "key_of (key_bits sk) = sk" by (cases sk) (simp add: key_of_def key_bits_def comp_def)
  show "length (key_bits sk) = 482" using assms by (simp add: key_bits_def wf_key_def par_N_def)
qed

lemma key_bits_of [simp]: "key_bits (key_of bs) = bs"
  by (simp add: key_bits_def key_of_def comp_def)

lemma pack_bits_le_sum:
  "sum_list (map (\<lambda>(position, bit). bit * of_nat (2 ^ position)) (enumerate n bits)) = 2 ^ n * pack_bits_le bits"
  by (induction bits arbitrary: n) (simp_all add: algebra_simps)

lemma packed_column_pack: "packed_column bits i = pack_bits_le (chunks 30 bits ! i)"
  using pack_bits_le_sum [of 0] by (simp add: packed_column_def)

lemma key_elements_bits:
  "key_elements (pack_key (key_of bs)) = map (\<lambda>c. pack_bits_le (map of_bool c)) (chunks 30 bs)"
proof -
  have "unat (pack_bits (map of_bool c)) = bits_nat c" if "c \<in> set (chunks 30 bs)" for c
  proof -
    have "length c \<le> 30" using chunks_lengths [OF that] by simp
    then show ?thesis using pack_bits_nat [of "map of_bool c"] by (auto simp: comp_def)
  qed
  then show ?thesis
    by (simp add: key_elements_def pack_key_def key_of_def chunks_map pack_bits_of_bool comp_def)
qed

lemma length_key_elements:
  assumes "length bs = 482"
  shows "length (key_elements (pack_key (key_of bs)) :: 'f :: idom list) = 17"
  using assms by (simp add: key_elements_bits length_chunks div_ceil_def)

lemma key_rules_sound:
  assumes be: "backend_ok be" and rules: "key_rules be row pk"
    and room: "key_num_cols be \<le> length row" and pk: "length pk = 8"
  obtains bs where "length bs = 482" "take 482 row = map of_bool bs" "key_commit be (key_of bs) = pk"
    "take 17 (drop 483 row) = key_elements (pack_key (key_of bs))"
proof -
  let ?bits = "take 482 row"
  have len: "length ?bits = 482" using room by (simp add: key_num_cols_def key_SPONGE_def)
  from rules have bools: "list_all assert_bool ?bits"
    and packed: "list_all (\<lambda>i. row ! (483 + i) = packed_column ?bits i) [0..<17]"
    and hash: "eval_commitment (be_wide be) row 482 (domain_element Key) 17 pk"
    by (simp_all add: key_rules_def Let_def key_SPONGE_def key_PACKED_def)
  from bool_columns [OF bools] obtain bs where bs: "?bits = map of_bool bs" by blast
  have length_bs: "length bs = 482" using arg_cong [OF bs, of length] len by simp
  have room17: "483 + 17 \<le> length row"
    using room backend_okD(1) [OF be] by (simp add: key_num_cols_def key_SPONGE_def poseidon2_ok_def)
  have opened: "take 17 (drop 483 row) = key_elements (pack_key (key_of bs))"
  proof (rule nth_equalityI)
    show len': "length (take 17 (drop 483 row)) = length (key_elements (pack_key (key_of bs)) :: 'a list)"
      using room17 length_key_elements [OF length_bs] by simp
    fix i assume "i < length (take 17 (drop 483 row))"
    then have i: "i < 17" by simp
    with packed have "row ! (483 + i) = packed_column (map of_bool bs) i"
      by (simp add: list_all_iff bs)
    also have "\<dots> = key_elements (pack_key (key_of bs)) ! i"
      using i length_bs by (simp add: packed_column_pack key_elements_bits chunks_map length_chunks div_ceil_def)
    finally show "take 17 (drop 483 row) ! i = key_elements (pack_key (key_of bs)) ! i"
      using i room17 by simp
  qed
  have "p2_hash_iter (be_wide be) (domain_element Key # take 17 (drop (Suc 482) row)) = pk"
    by (rule eval_commitment_sound [OF backend_okD(1) [OF be] hash])
      (use room pk in \<open>simp_all add: key_num_cols_def key_SPONGE_def\<close>)
  with opened have "key_commit be (key_of bs) = pk"
    using length_key_elements [OF length_bs, where 'f = 'a] by (simp add: key_commit_def commit_elements_wide)
  with length_bs bs show ?thesis using opened by (rule that)
qed

lemma key_row_complete:
  fixes be :: "'f :: idom backend"
  assumes be: "backend_ok be" and sk: "wf_key sk"
  obtains row where "key_row be sk = Some row" "length row = key_num_cols be"
    "take 482 row = map of_bool (key_bits sk)" "\<And>rest. key_rules be (row @ rest) (key_commit be sk)"
    "take 17 (drop 483 row) = key_elements (pack_key sk)"
proof -
  let ?bs = "key_bits sk" and ?bits = "map of_bool (key_bits sk) :: 'f list"
  let ?vals = "key_elements (pack_key sk) :: 'f list"
  have bs: "length ?bs = 482" and sk_of: "key_of ?bs = sk" using key_of_bits [OF sk] by simp_all
  have vals: "?vals = map (\<lambda>c. pack_bits_le (map of_bool c)) (chunks 30 ?bs)"
    using key_elements_bits [of ?bs, where 'a = 'f] sk_of by simp
  have len: "length ?vals = 17" using length_key_elements [OF bs, where 'f = 'f] sk_of by simp
  obtain hash where hash: "sponge_trace (be_wide be) (domain_element Key # ?vals) = Some hash"
    and length_hash: "length hash = p2_num_cols (be_wide be)"
    using sponge_trace_Some [OF backend_okD(1) [OF be], of "domain_element Key # ?vals"] len by auto
  let ?row = "?bits @ hash"
  have bits: "map (\<lambda>bit. of_bool (bit = 1)) (as_bits sk) = ?bits" by (simp add: key_bits_def comp_def)
  show ?thesis
  proof (rule that)
    show "key_row be sk = Some ?row"
      using hash by (simp add: key_row_def Let_def bits commitment_input_def)
    show "length ?row = key_num_cols be" using length_hash bs by (simp add: key_num_cols_def key_SPONGE_def)
    show take: "take 482 ?row = ?bits" using bs by simp
    have pk: "key_commit be sk = p2_hash_iter (be_wide be) (domain_element Key # ?vals)"
      using len by (simp add: key_commit_def commit_elements_wide)
    have first: "482 = length ?bits" using bs by simp
    note complete = eval_commitment_complete [OF backend_okD(1) [OF be] _ _ hash first pk]
    have opened: "take 17 (drop 483 (?bits @ hash @ rest)) = ?vals" for rest using complete(2) len by simp
    from opened [of "[]"] show "take 17 (drop 483 ?row) = ?vals" by simp
    fix rest
    have eval: "eval_commitment (be_wide be) (?bits @ hash @ rest) 482 (domain_element Key) 17 (key_commit be sk)"
      using complete(1) len by simp
    have "(?bits @ hash @ rest) ! (483 + i) = packed_column ?bits i" if i: "i < 17" for i
    proof -
      have "483 \<le> length (?bits @ hash @ rest)"
        using bs length_hash backend_okD(1) [OF be] by (simp add: poseidon2_ok_def)
      then have "(?bits @ hash @ rest) ! (483 + i) = take 17 (drop 483 (?bits @ hash @ rest)) ! i"
        using i by (simp only: nth_slice)
      then show ?thesis
        using i bs by (simp only: opened vals) (simp add: packed_column_pack chunks_map length_chunks div_ceil_def)
    qed
    with eval show "key_rules be (?row @ rest) (key_commit be sk)"
      using bs by (simp add: key_rules_def Let_def key_SPONGE_def key_PACKED_def list_all_iff)
  qed
qed

section \<open>(M)\<close>

lemma masks_constants [simp]: "MASK_SUM_ELEMENTS = 21" "MASKS_ELEMENTS = 21"
  by (simp_all add: MASK_SUM_ELEMENTS_def MASKS_ELEMENTS_def)

lemma mask_sum_rules_sound:
  assumes be: "backend_ok be" and rules: "mask_sum_rules be row m"
    and room: "mask_sum_num_cols be \<le> length row" and m: "length m = 8"
  shows "commit_elements be MaskSum (take 21 (drop 1 row)) = m"
proof -
  have ok: "poseidon2_ok 32 (be_wide be)" by (rule backend_okD [OF be])
  have "p2_hash_iter (be_wide be) (domain_element MaskSum # take 21 (drop (Suc 0) row)) = m"
    by (rule eval_commitment_sound [OF ok])
      (use rules room m in \<open>simp_all add: mask_sum_rules_def mask_sum_SPONGE_def mask_sum_num_cols_def\<close>)
  moreover have "32 \<le> length row"
    using room ok by (simp add: mask_sum_num_cols_def mask_sum_SPONGE_def poseidon2_ok_def)
  ultimately show ?thesis by (simp add: commit_elements_wide)
qed

lemma mask_sum_row_complete:
  assumes be: "backend_ok be" and sums: "length sums = 16"
  obtains row where "mask_sum_row be sums r = Some row" "length row = mask_sum_num_cols be"
    "take 21 (drop 1 row) = mask_sum_elements sums r"
    "\<And>rest. mask_sum_rules be (row @ rest) (mask_sum_commit be \<lparr> msi_r_sigma_sums = sums, msi_randomness = r \<rparr>)"
proof -
  have ok: "poseidon2_ok 32 (be_wide be)" by (rule backend_okD [OF be])
  let ?vals = "mask_sum_elements sums r :: 'a list"
  have len: "length ?vals = 21" using sums by (simp add: mask_sum_elements_def)
  obtain row where row: "sponge_trace (be_wide be) (domain_element MaskSum # ?vals) = Some row"
    and length_row: "length row = p2_num_cols (be_wide be)"
    using sponge_trace_Some [OF ok, of "domain_element MaskSum # ?vals"] len by auto
  have m: "mask_sum_commit be \<lparr> msi_r_sigma_sums = sums, msi_randomness = r \<rparr>
      = p2_hash_iter (be_wide be) (domain_element MaskSum # ?vals)"
    using len by (simp add: mask_sum_commit_def commit_elements_wide)
  have first: "0 = length []" by simp
  note complete = eval_commitment_complete [OF ok _ _ row first m]
  show ?thesis
  proof (rule that)
    show "mask_sum_row be sums r = Some row" using row by (simp add: mask_sum_row_def commitment_input_def)
    show "length row = mask_sum_num_cols be"
      using length_row by (simp add: mask_sum_num_cols_def mask_sum_SPONGE_def)
    show "take 21 (drop 1 row) = ?vals" using complete(2) [of "[]"] len by simp
    show "mask_sum_rules be (row @ rest) (mask_sum_commit be \<lparr> msi_r_sigma_sums = sums, msi_randomness = r \<rparr>)"
      for rest using complete(1) len by (simp add: mask_sum_rules_def mask_sum_SPONGE_def)
  qed
qed

section \<open>(S)\<close>

text \<open>The commitment that the rule picks, for bits \<open>b_bar_i\<close> and \<open>sk_i\<close>.\<close>

lemma picked_commitment:
  fixes c_0 :: "'f :: idom list"
  assumes "length c_0 = 8" and "length c_1 = 8"
  shows "map (\<lambda>e. c_0 ! e + (of_bool b + of_bool s - of_bool b * of_bool s * 2) * (c_1 ! e - c_0 ! e)) [0..<8]
      = (if b = s then c_0 else c_1)"
  by (rule nth_equalityI) (use assms in \<open>auto simp: of_bool_def\<close>)

lemma masks_rules_sound:
  assumes be: "backend_ok be" and rules: "masks_rules be row (of_bool b) c_0 c_1"
    and room: "masks_num_cols be \<le> length row" and c: "length c_0 = 8" "length c_1 = 8"
  obtains s where "row ! 0 = of_bool s"
    "commit_elements be Masks (take 21 (drop 2 row)) = (if b = s then c_0 else c_1)"
proof -
  have ok: "poseidon2_ok 32 (be_wide be)" by (rule backend_okD [OF be])
  have "assert_bool (row ! 0)" using rules by (simp add: masks_rules_def Let_def masks_SK_I_def)
  then have "row ! 0 = of_bool (row ! 0 = 1)" by (auto simp: assert_bool_iff)
  then obtain s where s: "row ! 0 = of_bool s" by blast
  let ?c = "if b = s then c_0 else c_1"
  have "eval_commitment (be_wide be) row 1 (domain_element Masks) 21 ?c"
    using rules picked_commitment [OF c, of b s]
    by (simp add: masks_rules_def Let_def masks_SK_I_def masks_SPONGE_def s del: upt_Suc)
  then have "p2_hash_iter (be_wide be) (domain_element Masks # take 21 (drop (Suc 1) row)) = ?c"
    by (rule eval_commitment_sound [OF ok])
      (use room c in \<open>simp_all add: masks_num_cols_def masks_SPONGE_def masks_SK_I_def\<close>)
  moreover have "33 \<le> length row"
    using room ok by (simp add: masks_num_cols_def masks_SPONGE_def masks_SK_I_def poseidon2_ok_def)
  ultimately have "commit_elements be Masks (take 21 (drop 2 row)) = ?c"
    by (simp add: commit_elements_wide numeral_2_eq_2)
  with s show ?thesis by (rule that)
qed

lemma masks_row_complete:
  assumes be: "backend_ok be" and masks: "length masks = 16"
    and c: "length c_0 = 8" "length c_1 = 8"
    and picked: "(if b = s then c_0 else c_1) = masks_commit be \<lparr> mi_masks = masks, mi_randomness = r \<rparr>"
  obtains row where "masks_row be (of_bool s) masks r = Some row" "length row = masks_num_cols be"
    "row ! 0 = of_bool s" "take 21 (drop 2 row) = masks_elements masks r"
    "\<And>rest. masks_rules be (row @ rest) (of_bool b) c_0 c_1"
proof -
  have ok: "poseidon2_ok 32 (be_wide be)" by (rule backend_okD [OF be])
  let ?vals = "masks_elements masks r :: 'a list"
  have len: "length ?vals = 21" using masks by (simp add: masks_elements_def)
  obtain hash where hash: "sponge_trace (be_wide be) (domain_element Masks # ?vals) = Some hash"
    and length_hash: "length hash = p2_num_cols (be_wide be)"
    using sponge_trace_Some [OF ok, of "domain_element Masks # ?vals"] len by auto
  have c_b: "(if b = s then c_0 else c_1) = p2_hash_iter (be_wide be) (domain_element Masks # ?vals)"
    using len by (simp only: picked masks_commit_def masks_input.select_convs)
      (simp add: commit_elements_wide)
  let ?row = "of_bool s # hash"
  have first: "1 = length [of_bool s :: 'a]" by simp
  note complete = eval_commitment_complete [OF ok _ _ hash first c_b]
  show ?thesis
  proof (rule that)
    show "masks_row be (of_bool s) masks r = Some ?row"
      using hash by (cases s) (simp_all add: masks_row_def commitment_input_def)
    show "length ?row = masks_num_cols be"
      using length_hash by (simp add: masks_num_cols_def masks_SPONGE_def masks_SK_I_def)
    show "?row ! 0 = of_bool s" by simp
    show "take 21 (drop 2 ?row) = ?vals" using complete(2) [of "[]"] len by (simp add: numeral_2_eq_2)
    show "masks_rules be (?row @ rest) (of_bool b) c_0 c_1" for rest
      using complete(1) [of rest] len picked_commitment [OF c, of b s]
      by (simp add: masks_rules_def Let_def masks_SK_I_def masks_SPONGE_def del: upt_Suc)
  qed
qed

section \<open>(P)\<close>

lemma pads_rules_sound:
  assumes be: "backend_ok be" and rules: "pads_rules be row d"
    and room: "pads_num_cols be \<le> length row" and d: "length d = 8"
  shows "commit_elements be Pad (take 6 (drop 1 row)) = d"
proof -
  have ok: "poseidon2_ok 16 (be_narrow be)" by (rule backend_okD [OF be])
  have "p2_hash_iter (be_narrow be) (domain_element Pad # take 6 (drop (Suc 0) row)) = d"
    by (rule eval_commitment_sound [OF ok])
      (use rules room d in \<open>simp_all add: pads_rules_def pads_SPONGE_def pads_num_cols_def\<close>)
  then show ?thesis by (simp add: commit_elements_narrow)
qed

lemma pads_row_complete:
  assumes be: "backend_ok be"
  obtains row where
    "sponge_trace (be_narrow be) (commitment_input Pad (pad_elements pad_j r)) = Some row"
    "length row = pads_num_cols be" "take 6 (drop 1 row) = pad_elements pad_j r"
    "\<And>rest. pads_rules be (row @ rest) (pad_commit be \<lparr> pi_pad = pad_j, pi_randomness = r \<rparr>)"
proof -
  have ok: "poseidon2_ok 16 (be_narrow be)" by (rule backend_okD [OF be])
  let ?vals = "pad_elements pad_j r :: 'a list"
  have len: "length ?vals = 6" by (simp add: pad_elements_def)
  obtain row where row: "sponge_trace (be_narrow be) (domain_element Pad # ?vals) = Some row"
    and length_row: "length row = p2_num_cols (be_narrow be)"
    using sponge_trace_Some [OF ok, of "domain_element Pad # ?vals"] len by auto
  have d: "pad_commit be \<lparr> pi_pad = pad_j, pi_randomness = r \<rparr>
      = p2_hash_iter (be_narrow be) (domain_element Pad # ?vals)"
    using len by (simp add: pad_commit_def commit_elements_narrow)
  have first: "0 = length []" by simp
  note complete = eval_commitment_complete [OF ok _ _ row first d]
  show ?thesis
  proof (rule that)
    show "sponge_trace (be_narrow be) (commitment_input Pad ?vals) = Some row"
      using row by (simp add: commitment_input_def)
    show "length row = pads_num_cols be" using length_row by (simp add: pads_num_cols_def pads_SPONGE_def)
    show "take 6 (drop 1 row) = ?vals" using complete(2) [of "[]"] len by simp
    show "pads_rules be (row @ rest) (pad_commit be \<lparr> pi_pad = pad_j, pi_randomness = r \<rparr>)" for rest
      using complete(1) len by (simp add: pads_rules_def pads_SPONGE_def)
  qed
qed

end
