(* ===== verification/ArithmeticAirs.thy ===== *)
theory ArithmeticAirs
  imports CommitmentRules
begin

text \<open>
  \<open>pool-voprf/src/plonky3/constraints/a_sum.rs\<close>, \<open>r_response.rs\<close> and \<open>t_sum_of_masks.rs\<close>: the
  circuits of the constraints (A), (R) and (T), which check arithmetic modulo \<open>q\<close> and \<open>p\<close> with
  equations between elements of the field. A number that has to be below a power of two is given by
  bit columns, lowest first.
\<close>

section \<open>(A): the sum (a_sum.rs)\<close>

definition A_SIGMA_BITS :: nat where "A_SIGMA_BITS = LOG_Q"
definition QUOTIENT_BITS :: nat where "QUOTIENT_BITS = N_BITS"
definition sum_R_SIGMA :: nat where "sum_R_SIGMA = 0"
definition sum_A_SIGMA :: nat where "sum_A_SIGMA = sum_R_SIGMA + 1"
definition sum_QUOTIENT :: nat where "sum_QUOTIENT = sum_A_SIGMA + A_SIGMA_BITS"
definition sum_num_cols :: nat where "sum_num_cols = sum_QUOTIENT + QUOTIENT_BITS"
definition SUM_BOUND :: nat where "SUM_BOUND = unat par_Q * 2 ^ QUOTIENT_BITS"

definition sum_row :: "secret_key \<Rightarrow> zq \<Rightarrow> zq list \<Rightarrow> 'f :: idom list" where
  "sum_row sk r_tilde e =
     (let first_sum = sum_list (map (\<lambda>(sk_i, e_i). if sk_i = 0 then 0 else ucast e_i) (zip (as_bits sk) e)) :: u32;
          sum = first_sum + ucast r_tilde
      in of_nat (unat r_tilde) # low_bits (ucast (reduce_q sum) :: u32) A_SIGMA_BITS
         @ low_bits (quotient_q sum) QUOTIENT_BITS)"

definition sum_trace :: "secret_key \<Rightarrow> zq \<Rightarrow> zq list \<Rightarrow> 'f :: idom list list" where
  "sum_trace sk r_tilde e = replicate ROWS (sum_row sk r_tilde e)"

definition sum_rules :: "'f :: idom list \<Rightarrow> 'f list \<Rightarrow> 'f list \<Rightarrow> bool" where
  "sum_rules row sk e \<longleftrightarrow>
     (let r_tilde = row ! sum_R_SIGMA;
          a_bits = take (sum_QUOTIENT - sum_A_SIGMA) (drop sum_A_SIGMA row);
          quotient_bits = take (sum_num_cols - sum_QUOTIENT) (drop sum_QUOTIENT row);
          s = sum_list (map (\<lambda>(sk_i, e_i). sk_i * e_i) (zip sk e)) + r_tilde
      in list_all assert_bool (a_bits @ quotient_bits) \<and>
         s = pack_bits_le a_bits + pack_bits_le quotient_bits * of_nat (unat par_Q))"

definition sum_air :: "'f :: idom air" where
  "sum_air = \<lparr> air_width = sum_num_cols, air_periodic = [],
     air_rules = (\<lambda>row next public periodic.
       sum_rules row (map (\<lambda>i. public ! (par_N + i)) [0..<KEY_BITS]) (map (\<lambda>i. public ! i) [0..<par_N])) \<rparr>"

section \<open>(R): the response (r_response.rs)\<close>

definition T_BITS :: nat where "T_BITS = LOG_Q"
definition resp_A_SIGMA :: nat where "resp_A_SIGMA = 0"
definition resp_T :: nat where "resp_T = resp_A_SIGMA + 1"
definition resp_WRAPPED :: nat where "resp_WRAPPED = resp_T + T_BITS"
definition resp_PAD :: nat where "resp_PAD = resp_WRAPPED + 1"
definition resp_CARRY :: nat where "resp_CARRY = resp_PAD + 1"
definition resp_num_cols :: nat where "resp_num_cols = resp_CARRY + 1"

definition up :: "'f :: idom list \<Rightarrow> 'f" where
  "up m = (let top = last m; lower = butlast m;
               any_lower = 1 - prod_list (map (\<lambda>bit. 1 - bit) lower)
           in top * any_lower)"

definition response_entry :: "zq \<Rightarrow> zp list \<Rightarrow> zdelta \<Rightarrow> nat \<Rightarrow> 'f :: idom list option" where
  "response_entry a_tilde pads b_bar_prime j = do {
     t \<leftarrow> sub_q a_tilde (of_nat j);
     let wrapped = a_tilde < of_nat j;
     rounded \<leftarrow> round_zq t;
     pad_j \<leftarrow> pad pads j b_bar_prime;
     let carry = rounded + ucast pad_j \<ge> par_P;
     Some (of_nat (unat a_tilde) # low_bits t T_BITS
           @ [of_bool wrapped, of_nat (unat pad_j), of_bool carry]) }"

definition response_entries :: "zq \<Rightarrow> zp list \<Rightarrow> zdelta \<Rightarrow> 'f :: idom list list option" where
  "response_entries a_tilde pads b_bar_prime =
     opt_map (response_entry a_tilde pads b_bar_prime) [0..<DELTA]"

definition response_trace :: "zq \<Rightarrow> zp list \<Rightarrow> zdelta \<Rightarrow> 'f :: idom list list option" where
  "response_trace a_tilde pads b_bar_prime =
     map_option (\<lambda>entries. concat (replicate (ROWS div DELTA) entries)) (response_entries a_tilde pads b_bar_prime)"

definition response_rules :: "'f :: idom list \<Rightarrow> 'f \<Rightarrow> 'f \<Rightarrow> bool" where
  "response_rules row j y_j \<longleftrightarrow>
     (let a_tilde = row ! resp_A_SIGMA;
          t_bits = take (resp_WRAPPED - resp_T) (drop resp_T row);
          wrapped = row ! resp_WRAPPED; pad_j = row ! resp_PAD; carry = row ! resp_CARRY;
          t = pack_bits_le t_bits;
          m = take LOG_DELTA t_bits; quotient = drop LOG_DELTA t_bits;
          rounded = pack_bits_le quotient + up m
      in list_all assert_bool t_bits \<and> assert_bool wrapped \<and> assert_bool carry \<and>
         t = a_tilde - j + wrapped * of_nat (unat par_Q) \<and>
         rounded + pad_j - carry * of_nat (unat par_P) = y_j)"

definition response_air :: "'f :: idom air" where
  "response_air = \<lparr> air_width = resp_num_cols, air_periodic = selectors DELTA 1,
     air_rules = (\<lambda>row next public periodic.
       response_rules row (index_by periodic) (select_by periodic public)) \<rparr>"

definition zp_elements :: "zp list \<Rightarrow> 'f :: idom list" where
  "zp_elements y = map (\<lambda>v. of_nat (unat v)) y"

section \<open>(T): the sums of the masks (t_sum_of_masks.rs)\<close>

definition R_SIGMA_BITS :: nat where "R_SIGMA_BITS = LOG_Q"
definition sums_SK_I :: nat where "sums_SK_I = 0"
definition sums_MASKS :: nat where "sums_MASKS = sums_SK_I + 1"
definition sums_SUMS :: nat where "sums_SUMS = sums_MASKS + RUNS_PER_EVALUATION"
definition sums_R_SIGMA :: nat where "sums_R_SIGMA = sums_SUMS + RUNS_PER_EVALUATION"
definition sums_QUOTIENT :: nat where "sums_QUOTIENT = sums_R_SIGMA + RUNS_PER_EVALUATION * R_SIGMA_BITS"
definition sums_num_cols :: nat where "sums_num_cols = sums_QUOTIENT + RUNS_PER_EVALUATION * QUOTIENT_BITS"

definition sum_term :: "u8 \<Rightarrow> zq \<Rightarrow> zq_accum" where
  "sum_term sk_i r = ucast (if sk_i = 0 then r else par_Q - r)"

definition sums_periodic :: "'f :: idom list list" where
  "sums_periodic =
     (let column = (\<lambda>first last. map (\<lambda>row. of_bool (first \<le> row \<and> row < last)) [0..<N_TABLE_ROWS])
      in [column 0 1, column 0 (par_N - 1), column (par_N - 1) par_N])"

text \<open>The sums of every run after each block.\<close>

fun running_sums :: "zq_accum list \<Rightarrow> (u8 \<times> zq list) list \<Rightarrow> zq_accum list list" where
  "running_sums acc [] = []"
| "running_sums acc ((sk_i, masks_i) # blocks) =
     (let acc = map (\<lambda>k. acc ! k + sum_term sk_i (masks_i ! k)) [0..<RUNS_PER_EVALUATION]
      in acc # running_sums acc blocks)"

definition sums_rows :: "secret_key \<Rightarrow> zq list list \<Rightarrow> 'f :: idom list list" where
  "sums_rows sk masks =
     (let sums = running_sums (replicate RUNS_PER_EVALUATION 0) (take par_N (zip (as_bits sk) masks));
          sum = last sums
      in map (\<lambda>row. let i = min row (par_N - 1) in
           of_nat (unat (as_bits sk ! i))
           # map (\<lambda>r. of_nat (unat r)) (masks ! i)
           @ map (\<lambda>s. of_nat (unat s)) (sums ! i)
           @ concat (map (\<lambda>s. low_bits (ucast (reduce_q s) :: u32) R_SIGMA_BITS) sum)
           @ concat (map (\<lambda>s. low_bits (quotient_q s) QUOTIENT_BITS) sum)) [0..<N_TABLE_ROWS])"

definition term_column :: "'f :: idom list \<Rightarrow> nat \<Rightarrow> 'f" where
  "term_column row k =
     (let sk = row ! sums_SK_I; r = row ! (sums_MASKS + k)
      in r + sk * (of_nat (unat par_Q) - r * 2))"

definition sums_rules :: "'f :: idom list \<Rightarrow> 'f list \<Rightarrow> 'f \<Rightarrow> 'f \<Rightarrow> 'f \<Rightarrow> bool" where
  "sums_rules row next first_block has_next_block last_block \<longleftrightarrow>
     (let r_sigma_bits = take (sums_QUOTIENT - sums_R_SIGMA) (drop sums_R_SIGMA row);
          quotient_bits = take (sums_num_cols - sums_QUOTIENT) (drop sums_QUOTIENT row)
      in list_all assert_bool (row ! sums_SK_I # r_sigma_bits @ quotient_bits) \<and>
         list_all (\<lambda>(k, r_sigma_bits, quotient_bits).
           let sum = row ! (sums_SUMS + k); next_sum = next ! (sums_SUMS + k);
               r_sigma = pack_bits_le r_sigma_bits; quotient = pack_bits_le quotient_bits
           in when_eq first_block sum (term_column row k) \<and>
              when_eq has_next_block next_sum (sum + term_column next k) \<and>
              when_eq last_block sum (r_sigma + quotient * of_nat (unat par_Q)))
           (enumerate 0 (zip (chunks R_SIGMA_BITS r_sigma_bits) (chunks QUOTIENT_BITS quotient_bits))))"

definition sums_air :: "'f :: idom air" where
  "sums_air = \<lparr> air_width = sums_num_cols, air_periodic = sums_periodic,
     air_rules = (\<lambda>row next public periodic. sums_rules row next (periodic ! 0) (periodic ! 1) (periodic ! 2)) \<rparr>"

section \<open>Constants\<close>

lemma sum_constants [simp]:
  "A_SIGMA_BITS = 12" "QUOTIENT_BITS = 9" "sum_R_SIGMA = 0" "sum_A_SIGMA = 1" "sum_QUOTIENT = 13" "sum_num_cols = 22"
  by (simp_all add: A_SIGMA_BITS_def QUOTIENT_BITS_def sum_R_SIGMA_def sum_A_SIGMA_def sum_QUOTIENT_def sum_num_cols_def)

text \<open>The assertion of the source: both sides of a sum rule are below the order of the field.\<close>

lemma SUM_BOUND: "SUM_BOUND < ORDER_U32"
  by (simp add: SUM_BOUND_def ORDER_U32)

lemma resp_constants [simp]:
  "T_BITS = 12" "resp_A_SIGMA = 0" "resp_T = 1" "resp_WRAPPED = 13" "resp_PAD = 14" "resp_CARRY = 15"
  "resp_num_cols = 16"
  by (simp_all add: T_BITS_def resp_A_SIGMA_def resp_T_def resp_WRAPPED_def resp_PAD_def resp_CARRY_def
      resp_num_cols_def)

lemma sums_constants [simp]:
  "R_SIGMA_BITS = 12" "sums_SK_I = 0" "sums_MASKS = 1" "sums_SUMS = 17" "sums_R_SIGMA = 33"
  "sums_QUOTIENT = 225" "sums_num_cols = 369"
  by (simp_all add: R_SIGMA_BITS_def sums_SK_I_def sums_MASKS_def sums_SUMS_def sums_R_SIGMA_def
      sums_QUOTIENT_def sums_num_cols_def)

end
