(* ===== verification/ArithmeticRules.thy ===== *)
theory ArithmeticRules
  imports ArithmeticAirs
begin

text \<open>
  The circuits of (A) and (R) are their constraints: an equation in the field between numbers below
  its order is an equation between the numbers.
\<close>

section \<open>Bit columns\<close>

lemma bit_columns:
  assumes "list_all assert_bool cols"
  obtains bs where "cols = map of_bool bs" "length bs = length cols"
    "pack_bits_le cols = of_nat (bits_nat bs)" "bits_nat bs < 2 ^ length cols"
proof -
  obtain bs where bs: "cols = map of_bool bs" using bool_columns [OF assms] by blast
  show ?thesis
  proof (rule that [OF bs])
    show "length bs = length cols" "pack_bits_le cols = of_nat (bits_nat bs)"
      unfolding bs by (simp_all add: pack_bits_of_bool)
    show "bits_nat bs < 2 ^ length cols" unfolding bs using bits_nat_less by simp
  qed
qed

lemma bit_column: "assert_bool x \<Longrightarrow> \<exists>b. x = of_bool b"
  by (metis (full_types) assert_bool_iff of_bool_eq)

section \<open>(A)\<close>

lemma field_dot:
  "length bs = length e \<Longrightarrow>
   sum_list (map (\<lambda>(s, x). s * x) (zip (map of_bool bs) (zq_elements e))) = of_nat (dot e (as_bits (key_of bs)))"
proof (induction bs e rule: list_induct2)
  case Nil
  then show ?case by (simp add: key_of_def zq_elements_def)
next
  case (Cons b bs x e)
  then show ?case by (cases b) (simp_all add: key_of_def zq_elements_def)
qed

lemma dot_small:
  assumes "length e = 482" and "\<forall>x \<in> set e. unat x < 4096" and "wf_key sk"
  shows "dot e (as_bits sk) \<le> 482 * 4095"
proof -
  have "dot e (as_bits sk) \<le> length e * 4095"
    by (rule dot_bound) (use assms wf_key_bound [OF assms(3)] in auto)
  then show ?thesis using assms(1) by simp
qed

lemma sum_rules_sound:
  fixes row :: "'f :: idom list"
  assumes bb: "baby_bear TYPE('f)" and rules: "sum_rules row (map of_bool bs) (zq_elements e)"
    and r: "row ! 0 = of_nat (unat r)" "unat r < 4096" and bs: "length bs = 482"
    and e: "length e = 482" "\<forall>x \<in> set e. unat x < 4096" and room: "22 \<le> length row"
  shows "pack_bits_le (take 12 (drop 1 row)) = of_nat (unat (a_sigma_sum (key_of bs) r e))"
proof -
  let ?a = "take 12 (drop 1 row)" and ?q = "take 9 (drop 13 row)" and ?d = "dot e (as_bits (key_of bs))"
  from rules have a: "list_all assert_bool ?a" and q: "list_all assert_bool ?q"
    and eq: "of_nat ?d + of_nat (unat r) = pack_bits_le ?a + pack_bits_le ?q * of_nat (unat par_Q)"
    using field_dot [of bs e, where 'a = 'f] bs e(1) by (simp_all add: sum_rules_def Let_def r(1))
  obtain as where as: "pack_bits_le ?a = of_nat (bits_nat as)" "bits_nat as < 2 ^ length ?a"
    by (rule bit_columns [OF a])
  obtain qs where qs: "pack_bits_le ?q = of_nat (bits_nat qs)" "bits_nat qs < 2 ^ length ?q"
    by (rule bit_columns [OF q])
  have small: "bits_nat as < 4096" "bits_nat qs < 512" using as(2) qs(2) room by simp_all
  have key: "wf_key (key_of bs)" by (rule wf_key_of [OF bs])
  have d: "?d \<le> 482 * 4095" by (rule dot_small [OF e key])
  have "(of_nat (?d + unat r) :: 'f) = of_nat (bits_nat as + bits_nat qs * 4096)"
    using eq as(1) qs(1) by simp
  from of_nat_eq [OF bb _ _ this] have "?d + unat r = bits_nat as + bits_nat qs * 4096"
    using d r(2) small by (simp add: ORDER_U32)
  then have "bits_nat as = (?d + unat r) mod 4096" using small by simp
  also have "\<dots> = unat (a_sigma_sum (key_of bs) r e)"
    using unat_a_sigma_sum [OF key e(2) _ r(2)] e(1) by simp
  finally show ?thesis by (simp only: as(1))
qed

lemma unat_first_sum:
  assumes "wf_key sk" and "length e = 482" and "\<forall>x \<in> set e. unat x < 4096"
  shows "unat (sum_list (map (\<lambda>(s, x). if s = 0 then 0 else ucast x) (zip (as_bits sk) e)) :: u32) = dot e (as_bits sk)"
proof -
  let ?w = "map (\<lambda>(s, x). if s = 0 then 0 else ucast x) (zip (as_bits sk) e) :: u32 list"
  have val: "unat (if s = 0 then 0 else ucast x :: u32) = unat x * unat s" if "s \<in> set (as_bits sk)" for s and x :: zq
  proof -
    from wf_key_bound [OF assms(1) that] have "unat s = 0 \<or> unat s = 1" by linarith
    then show ?thesis by (auto simp: unat_eq_zero)
  qed
  have "map unat ?w = map (\<lambda>(s, x). unat x * unat s) (zip (as_bits sk) e)"
    unfolding map_map by (rule map_cong [OF refl]) (use val in \<open>auto dest: set_zip_leftD\<close>)
  moreover have "sum_list (map (\<lambda>(s, x). unat x * unat s) (zip (as_bits sk) e)) = dot e (as_bits sk)"
    unfolding dot_def by (subst zip_commute) (simp add: comp_def case_prod_unfold)
  ultimately have sum: "sum_list (map unat ?w) = dot e (as_bits sk)" by (simp only:)
  have "unat (sum_list ?w) = sum_list (map unat ?w)"
    by (rule unat_sum_list_bound) (use dot_small [OF assms(2,3,1)] in \<open>simp only: sum, simp\<close>)
  then show ?thesis by (simp only: sum)
qed

lemma sum_row_complete:
  fixes rest :: "'f :: idom list"
  assumes sk: "wf_key sk" and e: "length e = 482" "\<forall>x \<in> set e. unat x < 4096" and r: "unat r < 4096"
  shows "sum_rules (sum_row sk r e @ rest) (map of_bool (key_bits sk)) (zq_elements e)"
    and "length (sum_row sk r e :: 'f list) = 22" and "(sum_row sk r e :: 'f list) ! 0 = of_nat (unat r)"
    and "pack_bits_le (take 12 (drop 1 (sum_row sk r e :: 'f list))) = of_nat (unat (a_sigma_sum sk r e))"
proof -
  let ?w = "sum_list (map (\<lambda>(s, x). if s = 0 then 0 else ucast x) (zip (as_bits sk) e)) + ucast r :: u32"
  let ?d = "dot e (as_bits sk)"
  have d: "?d \<le> 482 * 4095" by (rule dot_small [OF e sk])
  have w: "unat ?w = ?d + unat r"
    using unat_first_sum [OF sk e] d r by (simp add: unat_word_ariths)
  have row: "sum_row sk r e = (of_nat (unat r) :: 'f) # low_bits (ucast (reduce_q ?w) :: u32) 12 @ low_bits (quotient_q ?w) 9"
    by (simp add: sum_row_def Let_def)
  have a: "pack_bits_le (low_bits (ucast (reduce_q ?w) :: u32) 12) = (of_nat ((?d + unat r) mod 4096) :: 'f)"
    by (simp only: pack_low_bits unat_ucast_16_32 unat_reduce_q w) simp
  have "(?d + unat r) div 4096 < 512" using d r by simp
  then have q: "pack_bits_le (low_bits (quotient_q ?w) 9) = (of_nat ((?d + unat r) div 4096) :: 'f)"
    by (simp only: pack_low_bits unat_quotient_q w) simp
  have slices: "take 12 (drop 1 (sum_row sk r e @ rest)) = low_bits (ucast (reduce_q ?w) :: u32) 12"
    "take 9 (drop 13 (sum_row sk r e @ rest)) = low_bits (quotient_q ?w) 9"
    unfolding row by simp_all
  have "(of_nat (?d + unat r) :: 'f) = of_nat ((?d + unat r) mod 4096 + (?d + unat r) div 4096 * 4096)"
    by (simp only: mod_mult_div_eq mod_div_mult_eq)
  then have eq: "of_nat ?d + of_nat (unat r)
      = (of_nat ((?d + unat r) mod 4096) + of_nat ((?d + unat r) div 4096) * of_nat 4096 :: 'f)"
    by (simp only: of_nat_add of_nat_mult)
  have dot: "sum_list (map (\<lambda>(s, x). s * x) (zip (map of_bool (key_bits sk)) (zq_elements e))) = (of_nat ?d :: 'f)"
    using field_dot [of "key_bits sk" e, where 'a = 'f] key_of_bits [OF sk] e(1) by simp
  have first: "(sum_row sk r e @ rest) ! 0 = of_nat (unat r)" by (simp add: row)
  have bools: "list_all assert_bool (low_bits (ucast (reduce_q ?w) :: u32) 12 @ low_bits (quotient_q ?w) 9 :: 'f list)"
    by (simp add: low_bits_bool)
  have takes: "13 - (1 :: nat) = 12" "22 - (13 :: nat) = 9" by simp_all
  show "sum_rules (sum_row sk r e @ rest) (map of_bool (key_bits sk)) (zq_elements e)"
    unfolding sum_rules_def Let_def sum_constants takes slices first dot a q
    using bools eq by (simp only: unat_par_Q simp_thms)
  show "length (sum_row sk r e :: 'f list) = 22" "(sum_row sk r e :: 'f list) ! 0 = of_nat (unat r)" by (simp_all add: row)
  have "unat (a_sigma_sum sk r e) = (?d + unat r) mod 4096"
    using unat_a_sigma_sum [OF sk e(2) _ r] e(1) by simp
  then show "pack_bits_le (take 12 (drop 1 (sum_row sk r e :: 'f list))) = of_nat (unat (a_sigma_sum sk r e))"
    unfolding row using a by simp
qed

section \<open>(R)\<close>

lemma up_bits:
  assumes "length ms = 4"
  shows "up (map of_bool ms) = (of_bool (8 < bits_nat ms) :: 'f :: idom)"
proof -
  obtain a b c d where "ms = [a, b, c, d]"
    using assms by (auto simp: length_Suc_conv numeral_eq_Suc)
  then show ?thesis by (cases a; cases b; cases c; cases d) (simp_all add: up_def)
qed

text \<open>Rounding, from the bits of the number.\<close>

lemma rounded_bits:
  assumes "length ts = 12"
  shows "pack_bits_le (drop 4 (map of_bool ts)) + up (take 4 (map of_bool ts))
    = (of_nat ((bits_nat ts + 7) div 16) :: 'f :: idom)"
proof -
  let ?low = "bits_nat (take 4 ts)" and ?high = "bits_nat (drop 4 ts)"
  have split: "bits_nat ts = ?low + 16 * ?high"
    using bits_nat_append [of "take 4 ts" "drop 4 ts"] assms by simp
  have low: "?low < 16" using bits_nat_less [of "take 4 ts"] assms by simp
  have "(bits_nat ts + 7) div 16 = ?high + (if 8 < ?low then 1 else 0)" using split low by auto
  moreover have "pack_bits_le (drop 4 (map of_bool ts)) = (of_nat ?high :: 'f)"
    by (simp add: drop_map pack_bits_of_bool)
  moreover have "up (take 4 (map of_bool ts)) = (of_bool (8 < ?low) :: 'f)"
    using up_bits [of "take 4 ts"] assms by (simp add: take_map)
  ultimately show ?thesis by simp
qed

text \<open>Taking a number modulo \<open>q\<close> or \<open>p\<close> wraps at most once.\<close>

lemma wraps_once: "a < 4096 \<Longrightarrow> j < 16 \<Longrightarrow> (a + 4096 - j) mod 4096 + j = a + of_bool (a < j) * (4096 :: nat)"
  by (cases "a < j") (simp_all add: le_mod_geq)

lemma carries_once: "s < 512 \<Longrightarrow> s mod 256 + of_bool (256 \<le> s) * 256 = (s :: nat)"
  by (cases "256 \<le> s") (simp_all add: le_mod_geq)

text \<open>What the response has at entry \<open>j\<close>, over the integers.\<close>

definition entry_value :: "nat \<Rightarrow> nat \<Rightarrow> nat \<Rightarrow> nat" where
  "entry_value a j pad_j = (((a + 4096 - j) mod 4096 + 7) div 16 + pad_j) mod 256"

lemma response_rules_sound:
  fixes row :: "'f :: idom list"
  assumes bb: "baby_bear TYPE('f)" and rules: "response_rules row (of_nat j) (of_nat (unat (y :: u8)))"
    and a: "row ! 0 = of_nat (unat a)" "unat (a :: zq) < 4096" and j: "j < 16"
    and pad: "row ! 14 = of_nat (unat (p :: u8))" and room: "16 \<le> length row"
  shows "unat y = entry_value (unat a) j (unat p)"
proof -
  let ?t = "take 12 (drop 1 row)"
  have bits: "list_all assert_bool ?t" "assert_bool (row ! 13)" "assert_bool (row ! 15)"
    and eq_t: "pack_bits_le ?t = row ! 0 - of_nat j + row ! 13 * of_nat (unat par_Q)"
    and eq_y: "pack_bits_le (drop 4 ?t) + up (take 4 ?t) + row ! 14 - row ! 15 * of_nat (unat par_P) = of_nat (unat y)"
    using rules by (simp_all only: response_rules_def Let_def resp_constants LOG_DELTA, simp_all)
  obtain ts where ts: "?t = map of_bool ts" "length ts = length ?t" "pack_bits_le ?t = of_nat (bits_nat ts)"
    "bits_nat ts < 2 ^ length ?t" by (rule bit_columns [OF bits(1)])
  have n: "length ts = 12" "bits_nat ts < 4096" using ts(2,4) room by simp_all
  obtain w where w: "row ! 13 = of_bool w" using bit_column [OF bits(2)] by blast
  obtain c where c: "row ! 15 = of_bool c" using bit_column [OF bits(3)] by blast
  have "(of_nat (bits_nat ts) :: 'f) = of_nat (unat a) - of_nat j + of_bool w * of_nat 4096"
    using eq_t by (simp only: ts(3) a(1) w unat_par_Q)
  then have "(of_nat (bits_nat ts + j) :: 'f) = of_nat (unat a + of_bool w * 4096)"
    by (simp add: algebra_simps)
  from of_nat_eq [OF bb _ _ this] have "bits_nat ts + j = unat a + of_bool w * 4096"
    using n(2) a(2) j by (cases w) (simp_all add: ORDER_U32)
  then have t: "bits_nat ts = (unat a + 4096 - j) mod 4096"
    using n(2) a(2) j by (cases w) (auto simp: mod_if)
  let ?r = "(bits_nat ts + 7) div 16"
  have "(of_nat ?r :: 'f) + of_nat (unat p) - of_bool c * of_nat 256 = of_nat (unat y)"
    using eq_y by (simp only: ts(1) rounded_bits [OF n(1)] pad c unat_par_P)
  then have "(of_nat (?r + unat p) :: 'f) = of_nat (unat y + of_bool c * 256)"
    by (simp add: algebra_simps)
  moreover have "?r \<le> 256" using n(2) by simp
  moreover have "unat p < 256" "unat y < 256" by (rule unat_u8_less)+
  ultimately have "?r + unat p = unat y + of_bool c * 256"
    using of_nat_eq [OF bb, of "?r + unat p" "unat y + of_bool c * 256"] by (cases c) (simp_all add: ORDER_U32)
  with \<open>unat y < 256\<close> have "unat y = (?r + unat p) mod 256" by (cases c) simp_all
  then show ?thesis by (simp add: entry_value_def t)
qed

lemma response_entry_complete:
  fixes rest :: "'f :: idom list"
  assumes a: "unat a < 4096" and b: "unat b < 16" and j: "j < 16" and pads: "length pads = 16"
    and y: "unat y = entry_value (unat a) j (unat (pads ! ((j + 16 - unat b) mod 16)))"
  obtains row :: "'f list" where "response_entry a pads b j = Some row" "length row = 16"
    "row ! 0 = of_nat (unat a)" "row ! 14 = of_nat (unat (pads ! ((j + 16 - unat b) mod 16)))"
    "\<And>rest. response_rules (row @ rest) (of_nat j) (of_nat (unat (y :: u8)))"
proof -
  let ?p = "pads ! ((j + 16 - unat b) mod 16)"
  have uj: "unat (of_nat j :: zq) = j" using j by (simp add: unat_of_nat_u16)
  obtain t where t: "sub_q a (of_nat j) = Some t" "unat t = (unat a + 4096 - j) mod 4096"
    using unat_sub_q [of a "of_nat j"] a j uj by auto
  then have t_less: "unat t < 4096" by simp
  obtain r where r: "round_zq t = Some r" "unat r = (unat t + 7) div 16"
    using unat_round_zq [OF t_less] by auto
  have wrapped: "a < of_nat j \<longleftrightarrow> unat a < j" by (simp add: word_less_nat_alt uj)
  have p: "unat ?p < 256" by (rule unat_u8_less)
  have sum_less: "unat r + unat ?p < 512" using r(2) t_less p by simp
  then have carry: "r + ucast ?p \<ge> par_P \<longleftrightarrow> 256 \<le> unat r + unat ?p"
    by (simp add: word_le_nat_alt unat_word_ariths)
  let ?row = "of_nat (unat a) # low_bits t 12 @ [of_bool (unat a < j), of_nat (unat ?p), of_bool (256 \<le> unat r + unat ?p)] :: 'f list"
  have bits: "low_bits t 12 = (map of_bool (map (\<lambda>k. odd (unat t div 2 ^ k)) [0..<12]) :: 'f list)"
    by (rule low_bits_of_bool)
  let ?ts = "map (\<lambda>k. odd (unat t div 2 ^ k)) [0..<12]"
  have nat_ts: "bits_nat ?ts = unat t" using bits_nat_of_nat [of "unat t" 12] t_less by (simp only:) simp
  have pack_t: "pack_bits_le (low_bits t 12) = (of_nat (unat t) :: 'f)"
    using t_less by (simp add: pack_low_bits)
  have round: "pack_bits_le (drop 4 (low_bits t 12)) + up (take 4 (low_bits t 12)) = (of_nat (unat r) :: 'f)"
    unfolding bits using rounded_bits [of ?ts, where 'f = 'f] by (simp only: nat_ts r(2)) simp
  show ?thesis
  proof (rule that)
    show "response_entry a pads b j = Some ?row"
      using pad_Some [OF j b pads] by (simp add: response_entry_def t(1) r(1) wrapped carry)
    show "length ?row = 16" "?row ! 0 = of_nat (unat a)" "?row ! 14 = of_nat (unat ?p)"
      by (simp_all add: nth_append)
    fix rest
    have twelve: "13 - (1 :: nat) = 12" by simp
    have slice: "take 12 (drop 1 (?row @ rest)) = low_bits t 12" by simp
    have at: "(?row @ rest) ! 0 = of_nat (unat a)" "(?row @ rest) ! 13 = of_bool (unat a < j)"
      "(?row @ rest) ! 14 = of_nat (unat ?p)" "(?row @ rest) ! 15 = of_bool (256 \<le> unat r + unat ?p)"
      by (simp_all add: nth_append)
    have "unat t + j = unat a + of_bool (unat a < j) * 4096"
      using wraps_once [OF a j] by (simp only: t(2))
    then have "(of_nat (unat t + j) :: 'f) = of_nat (unat a + of_bool (unat a < j) * 4096)" by (simp only:)
    then have eq_t: "(of_nat (unat t) :: 'f) = of_nat (unat a) - of_nat j + of_bool (unat a < j) * of_nat 4096"
      by (simp add: algebra_simps)
    have "unat y = (unat r + unat ?p) mod 256" using y by (simp only: entry_value_def r(2) t(2))
    then have "unat r + unat ?p = unat y + of_bool (256 \<le> unat r + unat ?p) * 256"
      using carries_once [OF sum_less] by (simp only:)
    then have "(of_nat (unat r + unat ?p) :: 'f) = of_nat (unat y + of_bool (256 \<le> unat r + unat ?p) * 256)"
      by (simp only:)
    then have eq_y: "(of_nat (unat r) :: 'f) + of_nat (unat ?p) - of_bool (256 \<le> unat r + unat ?p) * of_nat 256 = of_nat (unat y)"
      by (simp add: algebra_simps)
    show "response_rules (?row @ rest) (of_nat j) (of_nat (unat y))"
      unfolding response_rules_def Let_def resp_constants LOG_DELTA twelve slice
      using eq_t eq_y low_bits_bool [of t 12]
      by (simp only: at pack_t round unat_par_Q unat_par_P assert_bool_of_bool simp_thms)
  qed
qed

end
