(* ===== verification/OnlineAir.thy ===== *)
theory OnlineAir
  imports ArithmeticRules
begin

text \<open>
  \<open>pool-voprf/src/plonky3/statements/online.rs\<close>: the circuit of the online statement. Row
  \<open>16 * k + j\<close> holds the columns of (K), (M), (A), (R) and (P) side by side, for entry \<open>j\<close> of the
  response of run \<open>k\<close>. The values that two constraints share are columns that a rule makes equal.
\<close>

declare of_nat_unat [simp del]

section \<open>Layout\<close>

definition online_KEY :: nat where "online_KEY = 0"
definition online_MASK_SUM :: "'f :: idom backend \<Rightarrow> nat" where
  "online_MASK_SUM be = online_KEY + key_num_cols be"
definition online_SUM :: "'f :: idom backend \<Rightarrow> nat" where
  "online_SUM be = online_MASK_SUM be + mask_sum_num_cols be"
definition online_RESPONSE :: "'f :: idom backend \<Rightarrow> nat" where
  "online_RESPONSE be = online_SUM be + sum_num_cols"
definition online_PADS :: "'f :: idom backend \<Rightarrow> nat" where
  "online_PADS be = online_RESPONSE be + resp_num_cols"
definition online_num_cols :: "'f :: idom backend \<Rightarrow> nat" where
  "online_num_cols be = online_PADS be + pads_num_cols be"

definition pads_NUM_PUBLIC_VALUES :: nat where
  "pads_NUM_PUBLIC_VALUES = DELTA * DIGEST_ELEMENTS"

definition online_PK :: nat where "online_PK = 0"
definition online_M :: nat where "online_M = online_PK + DIGEST_ELEMENTS"
definition online_FIRST_RUN :: nat where "online_FIRST_RUN = online_M + DIGEST_ELEMENTS"
definition online_E :: nat where "online_E = 0"
definition online_Y :: nat where "online_Y = online_E + par_N"
definition online_D :: nat where "online_D = online_Y + DELTA"
definition RUN_PUBLIC_VALUES :: nat where "RUN_PUBLIC_VALUES = online_D + pads_NUM_PUBLIC_VALUES"

definition online_S :: nat where "online_S = 0"
definition online_U :: nat where "online_U = online_S + DELTA"
definition online_PERIODIC :: nat where "online_PERIODIC = online_U + RUNS_PER_EVALUATION"

section \<open>The table\<close>

text \<open>The values in the order the response uses the pads.\<close>

definition in_response_order :: "'a list \<Rightarrow> zdelta \<Rightarrow> 'a list option" where
  "in_response_order vals b_bar_prime =
     opt_map (\<lambda>j. do { d \<leftarrow> sub_delta (of_nat j) b_bar_prime; idx vals (unat d) }) [0..<DELTA]"

record 'f run_rows =
  rr_sum :: "'f list"
  rr_response :: "'f list list"
  rr_pads :: "'f list list"

definition run_rows_honest ::
  "'f :: idom backend \<Rightarrow> secret_key \<Rightarrow> 'f digest run_statement \<Rightarrow> run_witness \<Rightarrow> 'f run_rows option"
where
  "run_rows_honest be sk run w = do {
     let a = a_sigma_sum sk (rw_r_sigma_sum w) (run_e run);
     response \<leftarrow> response_entries a (rw_pads w) (run_b_bar_prime run);
     pads \<leftarrow> in_response_order (rw_pads w) (run_b_bar_prime run);
     rnd \<leftarrow> in_response_order (rw_d_randomness w) (run_b_bar_prime run);
     entries \<leftarrow> pads_entries be pads rnd;
     Some \<lparr> rr_sum = sum_row sk (rw_r_sigma_sum w) (run_e run), rr_response = response, rr_pads = entries \<rparr> }"

definition online_table :: "'f list \<Rightarrow> 'f list \<Rightarrow> 'f run_rows list \<Rightarrow> 'f list list" where
  "online_table key mask_sum runs =
     concat (map (\<lambda>run. map (\<lambda>(response, pad_j). key @ mask_sum @ rr_sum run @ response @ pad_j)
       (zip (rr_response run) (rr_pads run))) runs)"

definition online_trace ::
  "'f :: idom backend \<Rightarrow> ('f digest, 'f digest, 'f digest) online_statement \<Rightarrow> online_witness
     \<Rightarrow> 'f list list option" where
  "online_trace be st w = do {
     key \<leftarrow> key_row be (ow_sk w);
     mask_sum \<leftarrow> mask_sum_row be (ow_r_sigma_sums w) (ow_m_randomness w);
     runs \<leftarrow> opt_map (\<lambda>k. run_rows_honest be (ow_sk w) (os_runs st ! k) (ow_runs w ! k)) [0..<RUNS_PER_EVALUATION];
     Some (online_table key mask_sum runs) }"

section \<open>The rules\<close>

definition online_periodic :: "'f :: idom list list" where
  "online_periodic = selectors DELTA 1 @ selectors RUNS_PER_EVALUATION DELTA"

definition columns :: "'f list \<Rightarrow> nat \<Rightarrow> nat \<Rightarrow> 'f list" where
  "columns row start end = take (end - start) (drop start row)"

definition of_run :: "'f :: idom list \<Rightarrow> 'f list \<Rightarrow> ('f list \<Rightarrow> 'f) \<Rightarrow> 'f" where
  "of_run u public val =
     select_by u (map (\<lambda>k. val (take RUN_PUBLIC_VALUES (drop (online_FIRST_RUN + k * RUN_PUBLIC_VALUES) public)))
       [0..<RUNS_PER_EVALUATION])"

definition online_rules :: "'f :: idom backend \<Rightarrow> 'f list \<Rightarrow> 'f list \<Rightarrow> 'f list \<Rightarrow> bool" where
  "online_rules be row public periodic \<longleftrightarrow>
     (let s = columns periodic online_S online_U;
          u = columns periodic online_U online_PERIODIC;
          pk = map (\<lambda>i. public ! (online_PK + i)) [0..<DIGEST_ELEMENTS];
          m = map (\<lambda>i. public ! (online_M + i)) [0..<DIGEST_ELEMENTS];
          e = map (\<lambda>i. of_run u public (\<lambda>run. run ! (online_E + i))) [0..<par_N];
          j = index_by s;
          y_j = of_run u public (\<lambda>run. select_by s (map (\<lambda>j. run ! (online_Y + j)) [0..<DELTA]));
          d = map (\<lambda>i. of_run u public (\<lambda>run.
                select_by s (map (\<lambda>j. run ! (online_D + j * DIGEST_ELEMENTS + i)) [0..<DELTA]))) [0..<DIGEST_ELEMENTS];
          sk = map (\<lambda>i. row ! (online_KEY + i)) [0..<KEY_BITS];
          key_columns = columns row online_KEY (online_MASK_SUM be);
          mask_sum_columns = columns row (online_MASK_SUM be) (online_SUM be);
          sum_columns = columns row (online_SUM be) (online_RESPONSE be);
          response_columns = columns row (online_RESPONSE be) (online_PADS be);
          pads_columns = columns row (online_PADS be) (online_num_cols be);
          r_sigma_sums = columns mask_sum_columns mask_sum_R_SIGMA mask_sum_RANDOMNESS;
          r_sigma_sum = select_by u (map (\<lambda>k. r_sigma_sums ! k) [0..<RUNS_PER_EVALUATION]);
          a_sigma_sum = pack_bits_le (columns sum_columns sum_A_SIGMA sum_QUOTIENT)
      in key_rules be key_columns pk \<and>
         mask_sum_rules be mask_sum_columns m \<and>
         sum_rules sum_columns sk e \<and>
         response_rules response_columns j y_j \<and>
         pads_rules be pads_columns d \<and>
         sum_columns ! sum_R_SIGMA = r_sigma_sum \<and>
         response_columns ! resp_A_SIGMA = a_sigma_sum \<and>
         response_columns ! resp_PAD = pads_columns ! pads_PAD)"

definition online_air :: "'f :: idom backend \<Rightarrow> 'f air" where
  "online_air be = \<lparr> air_width = online_num_cols be, air_periodic = online_periodic,
     air_rules = (\<lambda>row next public periodic. online_rules be row public periodic) \<rparr>"

definition online_public_values ::
  "('f :: idom digest, 'f digest, 'f digest) online_statement \<Rightarrow> 'f list option" where
  "online_public_values st = do {
     runs \<leftarrow> opt_map (\<lambda>run. do {
        d \<leftarrow> in_response_order (run_d run) (run_b_bar_prime run);
        Some (zq_elements (run_e run) @ zp_elements (run_y run) @ pads_public_values d) }) (os_runs st);
     Some (os_pk st @ os_m st @ concat runs) }"

section \<open>Constants\<close>

lemma online_constants [simp]:
  "online_KEY = 0" "online_PK = 0" "online_M = 8" "online_FIRST_RUN = 16" "online_E = 0" "online_Y = 482"
  "online_D = 498" "RUN_PUBLIC_VALUES = 626" "online_S = 0" "online_U = 16" "online_PERIODIC = 32"
  by (simp_all add: online_KEY_def online_PK_def online_M_def online_FIRST_RUN_def online_E_def online_Y_def
      online_D_def RUN_PUBLIC_VALUES_def pads_NUM_PUBLIC_VALUES_def online_S_def online_U_def online_PERIODIC_def
      par_N_def)

text \<open>One row per run and entry, the assertion of the source.\<close>

lemma rows_per_run: "ROWS = RUNS_PER_EVALUATION * DELTA"
  by simp

lemma in_response_order_Some:
  assumes "length vals = 16" and "unat b < 16"
  shows "in_response_order vals b = Some (map (\<lambda>j. vals ! ((j + 16 - unat b) mod 16)) [0..<16])"
  unfolding in_response_order_def DELTA
proof (rule opt_map_total)
  fix j assume "j \<in> set [0..<16]"
  then obtain d where "sub_delta (of_nat j) b = Some d" "unat d = (j + 16 - unat b) mod 16"
    using unat_sub_delta [of "of_nat j" b] assms by (auto simp: unat_of_nat_delta)
  with assms show "do { d \<leftarrow> sub_delta (of_nat j) b; idx vals (unat d) } = Some (vals ! ((j + 16 - unat b) mod 16))"
    by simp
qed

end
