(* ===== verification/OnlineAirRules.thy ===== *)
theory OnlineAirRules
  imports OnlineAir
begin

text \<open>
  The circuit of the online statement is the statement: what a table that satisfies it implies
  (\<open>online_relation\<close>), and that the table of an honest prover satisfies it.
\<close>

declare of_nat_unat [simp del]

section \<open>The public values of a run\<close>

lemma of_run_at:
  assumes "k < 16" and "length before = 16" and "length runs = 16" and "\<forall>run \<in> set runs. length run = 626"
  shows "of_run (map (\<lambda>i. of_bool (k = i)) [0..<16]) (before @ concat runs) val = val (runs ! k)"
proof -
  have "take 626 (drop (16 + i * 626) (before @ concat runs)) = runs ! i" if "i < 16" for i
    using nth_slice_concat [of runs 626 i] that assms by simp
  then have "map (\<lambda>i. val (take 626 (drop (16 + i * 626) (before @ concat runs)))) [0..<16]
      = map (\<lambda>i. val (runs ! i)) [0..<16]" by simp
  then show ?thesis
    unfolding of_run_def online_constants RUNS_16
    using select_by_one [of "map (\<lambda>i. val (runs ! i)) [0..<16]" 16 k] assms(1) by (simp only:) simp
qed

text \<open>The lengths of the digests, arrays in the source, and the range the request has.\<close>

definition wf_online_public :: "('f digest, 'f digest, 'f digest) online_statement \<Rightarrow> bool" where
  "wf_online_public st \<longleftrightarrow> wf_online_statement st \<and> length (os_pk st) = DIGEST_ELEMENTS \<and>
     length (os_m st) = DIGEST_ELEMENTS \<and>
     (\<forall>run \<in> set (os_runs st). (\<forall>d \<in> set (run_d run). length d = DIGEST_ELEMENTS) \<and>
        unat (run_b_bar_prime run) < DELTA \<and> (\<forall>x \<in> set (run_e run). x < par_Q))"

definition order_of :: "zdelta \<Rightarrow> nat \<Rightarrow> nat" where
  "order_of b j = (j + 16 - unat b) mod 16"

lemma order_of_less [simp]: "order_of b j < 16"
  by (simp add: order_of_def)

definition run_values :: "'f :: idom digest run_statement \<Rightarrow> 'f list" where
  "run_values run = zq_elements (run_e run) @ zp_elements (run_y run)
     @ concat (map (\<lambda>j. run_d run ! order_of (run_b_bar_prime run) j) [0..<16])"

lemma wf_public_run:
  assumes "wf_online_public st" and "run \<in> set (os_runs st)"
  shows "length (run_d run) = 16" and "length (run_e run) = 482" and "length (run_y run) = 16"
    and "unat (run_b_bar_prime run) < 16" and "\<forall>x \<in> set (run_e run). unat x < 4096"
    and "l < 16 \<Longrightarrow> length (run_d run ! l) = 8"
  using assms
  by (auto simp: wf_online_public_def wf_online_statement_def wf_run_statement_def par_N_def less_par_Q)

lemma length_run_values:
  assumes wf: "wf_online_public st" "run \<in> set (os_runs st)"
  shows "length (run_values run) = 626"
proof -
  have "length (concat (map (\<lambda>j. run_d run ! order_of (run_b_bar_prime run) j) [0..<16])) = 8 * 16"
    using length_concat_const [of "map (\<lambda>j. run_d run ! order_of (run_b_bar_prime run) j) [0..<16]" 8]
      wf_public_run(6) [OF wf] by simp
  then show ?thesis using wf_public_run [OF wf] by (simp add: run_values_def zp_elements_def)
qed

lemma online_public_values_Some:
  assumes wf: "wf_online_public st"
  shows "online_public_values st = Some ((os_pk st @ os_m st) @ concat (map run_values (os_runs st)))"
proof -
  have "opt_map (\<lambda>run. do { d \<leftarrow> in_response_order (run_d run) (run_b_bar_prime run);
        Some (zq_elements (run_e run) @ zp_elements (run_y run) @ pads_public_values d) }) (os_runs st)
      = Some (map run_values (os_runs st))"
  proof (rule opt_map_total)
    fix run assume run: "run \<in> set (os_runs st)"
    note facts = wf_public_run [OF wf run]
    show "do { d \<leftarrow> in_response_order (run_d run) (run_b_bar_prime run);
        Some (zq_elements (run_e run) @ zp_elements (run_y run) @ pads_public_values d) } = Some (run_values run)"
      using in_response_order_Some [OF facts(1,4)] by (simp add: run_values_def pads_public_values_def order_of_def)
  qed
  then show ?thesis by (simp add: online_public_values_def)
qed

text \<open>What a position of the public values of a run holds.\<close>

lemma run_values_at:
  assumes wf: "wf_online_public st" "run \<in> set (os_runs st)"
  shows "map (\<lambda>i. run_values run ! i) [0..<482] = zq_elements (run_e run)"
    and "j < 16 \<Longrightarrow> run_values run ! (482 + j) = of_nat (unat (run_y run ! j))"
    and "j < 16 \<Longrightarrow> map (\<lambda>i. run_values run ! (498 + j * 8 + i)) [0..<8]
           = run_d run ! order_of (run_b_bar_prime run) j"
proof -
  note facts = wf_public_run [OF wf]
  let ?ds = "map (\<lambda>j. run_d run ! order_of (run_b_bar_prime run) j) [0..<16]"
  show "map (\<lambda>i. run_values run ! i) [0..<482] = zq_elements (run_e run)"
    by (rule nth_equalityI) (use facts in \<open>simp_all add: run_values_def nth_append\<close>)
  show "run_values run ! (482 + j) = of_nat (unat (run_y run ! j))" if "j < 16"
    using that facts by (simp add: run_values_def nth_append zp_elements_def)
  show "map (\<lambda>i. run_values run ! (498 + j * 8 + i)) [0..<8] = run_d run ! order_of (run_b_bar_prime run) j"
    if j: "j < 16"
  proof -
    have all: "\<forall>xs \<in> set ?ds. length xs = 8" using facts(6) by simp
    have "run_values run ! (498 + j * 8 + i) = concat ?ds ! (j * 8 + i)" for i
      using facts(1-3) by (simp add: run_values_def nth_append zp_elements_def)
    moreover have "j * 8 + 8 \<le> length (concat ?ds)" using length_concat_const [OF all] j by simp
    ultimately have "map (\<lambda>i. run_values run ! (498 + j * 8 + i)) [0..<8] = take 8 (drop (j * 8) (concat ?ds))"
      by (intro nth_equalityI) simp_all
    then show ?thesis using nth_slice_concat [OF all, of j] j by simp
  qed
qed

section \<open>The rules on one row\<close>

lemma online_periodic_at:
  assumes "k < 16" and "j < 16"
  shows "periodic_at online_periodic (16 * k + j)
    = (map (\<lambda>i. of_bool (j = i)) [0..<16] @ map (\<lambda>i. of_bool (k = i)) [0..<16] :: 'f :: idom list)"
proof -
  have "periodic_at (xs @ ys) r = periodic_at xs r @ periodic_at ys r" for xs ys :: "'f list list" and r
    by (simp add: periodic_at_def)
  moreover have "(16 * k + j) mod 16 = j" "(16 * k + j) div 16 mod 16 = k" using assms by simp_all
  ultimately show ?thesis
    using periodic_selectors [of 1 16 "16 * k + j", where 'a = 'f] periodic_selectors [of 16 16 "16 * k + j", where 'a = 'f]
    by (simp add: online_periodic_def del: upt_Suc)
qed

definition online_row_rules ::
  "'f :: idom backend \<Rightarrow> ('f digest, 'f digest, 'f digest) online_statement \<Rightarrow> nat \<Rightarrow> nat
     \<Rightarrow> 'f list \<Rightarrow> 'f list \<Rightarrow> 'f list \<Rightarrow> 'f list \<Rightarrow> 'f list \<Rightarrow> bool" where
  "online_row_rules be st k j key mask_sum asum response pads \<longleftrightarrow>
     (let run = os_runs st ! k
      in key_rules be key (os_pk st) \<and> mask_sum_rules be mask_sum (os_m st) \<and>
         sum_rules asum (take 482 key) (zq_elements (run_e run)) \<and>
         response_rules response (of_nat j) (of_nat (unat (run_y run ! j))) \<and>
         pads_rules be pads (run_d run ! order_of (run_b_bar_prime run) j) \<and>
         asum ! 0 = mask_sum ! Suc k \<and>
         response ! 0 = pack_bits_le (take 12 (drop 1 asum)) \<and>
         response ! 14 = pads ! 1)"

lemma online_rules_at:
  assumes wf: "wf_online_public st" and k: "k < 16" and j: "j < 16" and room: "482 \<le> key_num_cols be"
    and row: "row = key @ mask_sum @ asum @ response @ pads"
    and lengths: "length key = key_num_cols be" "length mask_sum = mask_sum_num_cols be" "length asum = 22"
      "length response = 16" "length pads = pads_num_cols be" "17 \<le> mask_sum_num_cols be"
    and public: "online_public_values st = Some public"
  shows "online_rules be row public (periodic_at online_periodic (16 * k + j)) \<longleftrightarrow>
    online_row_rules be st k j key mask_sum asum response pads"
proof -
  let ?run = "os_runs st ! k" and ?u = "map (\<lambda>i. of_bool (k = i)) [0..<16]" and ?s = "map (\<lambda>i. of_bool (j = i)) [0..<16]"
  let ?before = "os_pk st @ os_m st"
  have len: "length (os_runs st) = 16" "length (os_pk st) = 8" "length (os_m st) = 8"
    using wf by (simp_all add: wf_online_public_def wf_online_statement_def)
  have run: "?run \<in> set (os_runs st)" using len k by simp
  have pub: "public = ?before @ concat (map run_values (os_runs st))"
    using public online_public_values_Some [OF wf] by simp
  have all: "\<forall>run \<in> set (map run_values (os_runs st)). length run = 626"
    using length_run_values [OF wf] by simp
  have of_run: "of_run ?u public val = val (run_values ?run)" for val
    unfolding pub using of_run_at [OF k, of ?before "map run_values (os_runs st)" val] all len k by simp
  note at = run_values_at [OF wf run]
  have s: "columns (?s @ ?u) 0 16 = ?s" and u: "columns (?s @ ?u) 16 32 = ?u" by (simp_all add: columns_def)
  have pk: "map (\<lambda>i. public ! (0 + i)) [0..<8] = os_pk st"
    by (rule nth_equalityI) (use len in \<open>simp_all add: pub nth_append\<close>)
  have m: "map (\<lambda>i. public ! (8 + i)) [0..<8] = os_m st"
    by (rule nth_equalityI) (use len in \<open>simp_all add: pub nth_append\<close>)
  have y: "select_by ?s (map (\<lambda>j. run_values ?run ! (482 + j)) [0..<16]) = of_nat (unat (run_y ?run ! j))"
    using select_by_one [of "map (\<lambda>j. run_values ?run ! (482 + j)) [0..<16]" 16 j] at(2) j by simp
  have d: "map (\<lambda>i. select_by ?s (map (\<lambda>j. run_values ?run ! (498 + j * 8 + i)) [0..<16])) [0..<8]
      = run_d ?run ! order_of (run_b_bar_prime ?run) j"
  proof -
    have "select_by ?s (map (\<lambda>j. run_values ?run ! (498 + j * 8 + i)) [0..<16]) = run_values ?run ! (498 + j * 8 + i)" for i
      using select_by_one [of "map (\<lambda>j. run_values ?run ! (498 + j * 8 + i)) [0..<16]" 16 j] j by simp
    then show ?thesis using at(3) [OF j] by (simp only:)
  qed
  have sk: "map (\<lambda>i. row ! (0 + i)) [0..<482] = take 482 key"
    by (rule nth_equalityI) (use room lengths row in \<open>simp_all add: nth_append\<close>)
  have cols: "columns row 0 (online_MASK_SUM be) = key"
    "columns row (online_MASK_SUM be) (online_SUM be) = mask_sum"
    "columns row (online_SUM be) (online_RESPONSE be) = asum"
    "columns row (online_RESPONSE be) (online_PADS be) = response"
    "columns row (online_PADS be) (online_num_cols be) = pads"
    using lengths by (simp_all add: row columns_def online_MASK_SUM_def online_SUM_def online_RESPONSE_def
        online_PADS_def online_num_cols_def)
  have r_sigmas: "select_by ?u (map (\<lambda>k. columns mask_sum mask_sum_R_SIGMA mask_sum_RANDOMNESS ! k) [0..<16])
      = mask_sum ! Suc k"
    using select_by_one [of "map (\<lambda>k. columns mask_sum 1 17 ! k) [0..<16]" 16 k] k lengths
    by (simp add: columns_def mask_sum_R_SIGMA_def mask_sum_SPONGE_def mask_sum_RANDOMNESS_def)
  have a: "columns asum 1 13 = take 12 (drop 1 asum)" by (simp add: columns_def)
  show ?thesis
    unfolding online_rules_def Let_def online_periodic_at [OF k j] online_constants sum_constants resp_constants
      plonky3_constants RUNS_16 DELTA table_constants s u of_run cols pk m sk y d r_sigmas a index_by_one [OF j]
      online_row_rules_def
    using at(1) by (simp add: pads_PAD_def pads_SPONGE_def par_N_def del: upt_Suc drop_Suc)
qed

section \<open>What a table shows\<close>

text \<open>
  The openings in a table: the values its rows hold for a commitment. The rules read a row (and (T)
  the next one), so two rows could hold different openings of the same commitment; \<open>binding\<close> says
  that the commitment is binding on the openings at hand, which is what the hash is for.
\<close>

definition binding :: "'f :: idom backend \<Rightarrow> (domain \<times> 'f list) set \<Rightarrow> bool" where
  "binding be openings \<longleftrightarrow> (\<forall>(d, xs) \<in> openings. \<forall>(d', ys) \<in> openings.
     d = d' \<and> commit_elements be d xs = commit_elements be d ys \<longrightarrow> xs = ys)"

lemma bindingD:
  "binding be openings \<Longrightarrow> (d, xs) \<in> openings \<Longrightarrow> (d, ys) \<in> openings \<Longrightarrow>
   commit_elements be d xs = commit_elements be d ys \<Longrightarrow> xs = ys"
  unfolding binding_def by blast

definition key_opening :: "'f list \<Rightarrow> 'f list" where
  "key_opening row = take 17 (drop 483 row)"

definition mask_sum_opening :: "'f :: idom backend \<Rightarrow> 'f list \<Rightarrow> 'f list" where
  "mask_sum_opening be row = take 21 (drop (Suc (key_num_cols be)) row)"

definition pad_opening :: "'f :: idom backend \<Rightarrow> 'f list \<Rightarrow> 'f list" where
  "pad_opening be row = take 6 (drop (Suc (online_PADS be)) row)"

definition shared_openings :: "'f :: idom backend \<Rightarrow> 'f list list \<Rightarrow> (domain \<times> 'f list) set" where
  "shared_openings be rows = (\<lambda>row. (Key, key_opening row)) ` set rows
     \<union> (\<lambda>row. (MaskSum, mask_sum_opening be row)) ` set rows"

definition online_openings :: "'f :: idom backend \<Rightarrow> 'f list list \<Rightarrow> (domain \<times> 'f list) set" where
  "online_openings be rows = shared_openings be rows \<union> (\<lambda>row. (Pad, pad_opening be row)) ` set rows"

text \<open>
  The key, the mask sums and the pads that the public values commit to, with every entry of every
  response computed from them. The mask sums and the pads are elements of the field: no rule keeps
  them in range. The preprocessing circuit does for the mask sums, and the client compares the
  commitment of the pad it uses with its own.
\<close>

definition entry_relation ::
  "'f :: idom backend \<Rightarrow> (domain \<times> 'f list) set \<Rightarrow> 'f digest run_statement \<Rightarrow> secret_key \<Rightarrow> 'f \<Rightarrow> nat \<Rightarrow> bool" where
  "entry_relation be openings run sk r j \<longleftrightarrow> (\<exists>p rnd. (Pad, p # rnd) \<in> openings \<and>
     commit_elements be Pad (p # rnd) = run_d run ! order_of (run_b_bar_prime run) j \<and> length rnd = 5 \<and>
     (\<forall>r_sigma pad_j. r = of_nat (unat r_sigma) \<and> unat r_sigma < 4096 \<and> p = of_nat (unat pad_j) \<longrightarrow>
        unat (run_y run ! j) = entry_value (unat (a_sigma_sum sk r_sigma (run_e run))) j (unat (pad_j :: zp))))"

definition online_relation ::
  "'f :: idom backend \<Rightarrow> (domain \<times> 'f list) set \<Rightarrow> ('f digest, 'f digest, 'f digest) online_statement
     \<Rightarrow> secret_key \<Rightarrow> 'f list \<Rightarrow> 'f list \<Rightarrow> bool"
where
  "online_relation be openings st sk r rnd \<longleftrightarrow> wf_key sk \<and> length r = 16 \<and> length rnd = 5 \<and>
     (Key, key_elements (pack_key sk)) \<in> openings \<and> (MaskSum, r @ rnd) \<in> openings \<and>
     key_commit be sk = os_pk st \<and> commit_elements be MaskSum (r @ rnd) = os_m st \<and>
     (\<forall>k < 16. \<forall>j < 16. entry_relation be openings (os_runs st ! k) sk (r ! k) j)"

lemma bits_nat_inj: "length xs = length ys \<Longrightarrow> bits_nat xs = bits_nat ys \<Longrightarrow> xs = ys"
proof (induction xs ys rule: list_induct2)
  case Nil
  then show ?case by simp
next
  case (Cons x xs y ys)
  then have "bits_nat (x # xs) mod 2 = bits_nat (y # ys) mod 2" "bits_nat (x # xs) div 2 = bits_nat (y # ys) div 2"
    by simp_all
  then have "x = y" "bits_nat xs = bits_nat ys" by (cases x; cases y; simp)+
  with Cons.IH show ?case by simp
qed

text \<open>A key is what its packed elements are.\<close>

lemma key_elements_inj:
  assumes bb: "baby_bear TYPE('f :: idom)" and bs: "length bs = 482" "length cs = 482"
    and eq: "(key_elements (pack_key (key_of bs)) :: 'f list) = key_elements (pack_key (key_of cs))"
  shows "bs = cs"
proof -
  have len: "length (chunks 30 bs) = 17" "length (chunks 30 cs) = 17"
    using bs by (simp_all add: length_chunks div_ceil_def)
  have "chunks 30 bs = chunks 30 cs"
  proof (rule nth_equalityI)
    show "length (chunks 30 bs) = length (chunks 30 cs)" using len by simp
    fix i assume "i < length (chunks 30 bs)"
    then have i: "i < 17" using len by simp
    let ?b = "chunks 30 bs ! i" and ?c = "chunks 30 cs ! i"
    have mem: "?b \<in> set (chunks 30 bs)" "?c \<in> set (chunks 30 cs)" using i len by simp_all
    have same: "length ?b = length ?c" using i bs len by (simp add: nth_chunks)
    have "(of_nat (bits_nat ?b) :: 'f) = of_nat (bits_nat ?c)"
      using arg_cong [OF eq, of "\<lambda>xs. xs ! i"] i len by (simp add: key_elements_bits pack_bits_of_bool)
    moreover have "bits_nat c < ORDER_U32" if "length c \<le> 30" for c
    proof -
      have "(2 :: nat) ^ length c \<le> 2 ^ 30" using that by (intro power_increasing) simp_all
      then show ?thesis using bits_nat_less [of c] by (simp add: ORDER_U32)
    qed
    moreover have "length ?b \<le> 30" "length ?c \<le> 30"
      using chunks_lengths [OF mem(1)] chunks_lengths [OF mem(2)] by simp_all
    ultimately have "bits_nat ?b = bits_nat ?c" by (intro of_nat_eq [OF bb]) simp_all
    then show "?b = ?c" by (rule bits_nat_inj [OF same])
  qed
  then have "concat (chunks 30 bs) = concat (chunks 30 cs)" by (rule arg_cong)
  then show ?thesis by (simp only: concat_chunks zero_less_numeral)
qed

text \<open>The columns of the commitments have room for what they open.\<close>

lemma wide_room:
  assumes "backend_ok be"
  shows "514 \<le> key_num_cols be" and "32 \<le> mask_sum_num_cols be" and "16 \<le> pads_num_cols be"
  using backend_okD [OF assms]
  by (simp_all add: key_num_cols_def key_SPONGE_def mask_sum_num_cols_def mask_sum_SPONGE_def
      pads_num_cols_def pads_SPONGE_def poseidon2_ok_def)

end
