(* ===== verification/OnlineComplete.thy ===== *)
theory OnlineComplete
  imports OnlineAirRules
begin

text \<open>
  Completeness of the circuit of the online statement: the table of a prover whose witness the
  statement holds for satisfies it.
\<close>

declare of_nat_unat [simp del]

section \<open>The rows of one run\<close>

text \<open>What the columns of a prover hold whose witness the statement of the run holds for: the response's
  and the pads' in row \<open>j\<close>, and those of the run.\<close>

definition honest_response :: "secret_key \<Rightarrow> 'd run_statement \<Rightarrow> run_witness \<Rightarrow> nat \<Rightarrow> 'f :: idom list \<Rightarrow> bool" where
  "honest_response sk st w j row \<longleftrightarrow> length row = 16 \<and>
     row ! 0 = of_nat (unat (a_sigma_sum sk (rw_r_sigma_sum w) (run_e st))) \<and>
     row ! 14 = of_nat (unat (rw_pads w ! order_of (run_b_bar_prime st) j)) \<and>
     response_rules row (of_nat j) (of_nat (unat (run_y st ! j)))"

definition honest_pads :: "'f :: idom backend \<Rightarrow> 'f digest run_statement \<Rightarrow> run_witness \<Rightarrow> nat \<Rightarrow> 'f list \<Rightarrow> bool" where
  "honest_pads be st w j row \<longleftrightarrow> (let l = order_of (run_b_bar_prime st) j in
     length row = pads_num_cols be \<and> row ! 1 = of_nat (unat (rw_pads w ! l)) \<and> pads_rules be row (run_d st ! l) \<and>
     take 6 (drop 1 row) = pad_elements (rw_pads w ! l) (rw_d_randomness w ! l))"

definition honest_run :: "'f :: idom backend \<Rightarrow> secret_key \<Rightarrow> 'f digest run_statement \<Rightarrow> run_witness \<Rightarrow> 'f run_rows \<Rightarrow> bool" where
  "honest_run be sk st w rr \<longleftrightarrow> length (rr_sum rr) = 22 \<and> length (rr_response rr) = 16 \<and> length (rr_pads rr) = 16 \<and>
     sum_rules (rr_sum rr) (map of_bool (key_bits sk)) (zq_elements (run_e st)) \<and>
     rr_sum rr ! 0 = of_nat (unat (rw_r_sigma_sum w)) \<and>
     pack_bits_le (take 12 (drop 1 (rr_sum rr))) = of_nat (unat (a_sigma_sum sk (rw_r_sigma_sum w) (run_e st))) \<and>
     (\<forall>j < 16. honest_response sk st w j (rr_response rr ! j) \<and> honest_pads be st w j (rr_pads rr ! j))"

lemma honest_response_rows:
  fixes st :: "'d run_statement"
  assumes pads: "length (rw_pads w) = 16" and b: "unat (run_b_bar_prime st) < 16"
    and a: "unat (a_sigma_sum sk (rw_r_sigma_sum w) (run_e st)) < 4096"
    and y: "respond (a_sigma_sum sk (rw_r_sigma_sum w) (run_e st)) (rw_pads w) (run_b_bar_prime st) = Some (run_y st)"
  shows "\<exists>rows :: 'f :: idom list list.
    response_entries (a_sigma_sum sk (rw_r_sigma_sum w) (run_e st)) (rw_pads w) (run_b_bar_prime st) = Some rows \<and>
    length rows = 16 \<and> (\<forall>j < 16. honest_response sk st w j (rows ! j))"
proof -
  let ?a = "a_sigma_sum sk (rw_r_sigma_sum w) (run_e st)" and ?pads = "rw_pads w" and ?b = "run_b_bar_prime st"
  obtain y' where y': "respond ?a ?pads ?b = Some y'" "\<forall>j < 16. unat (y' ! j) = (((unat ?a + 4096 - j) mod 4096 + 7) div 16
                        + unat (?pads ! ((j + 16 - unat ?b) mod 16))) mod 256"
    using respond_Some [OF a b pads] by blast
  have "\<exists>row :: 'f list. response_entry ?a ?pads ?b j = Some row \<and> honest_response sk st w j row" if j: "j < 16" for j
  proof -
    have entry: "unat (run_y st ! j) = entry_value (unat ?a) j (unat (?pads ! ((j + 16 - unat ?b) mod 16)))"
      using y y' j by (simp add: entry_value_def)
    obtain row :: "'f list" where "response_entry ?a ?pads ?b j = Some row" "length row = 16"
      "row ! 0 = of_nat (unat ?a)" "row ! 14 = of_nat (unat (?pads ! ((j + 16 - unat ?b) mod 16)))"
      "\<And>rest. response_rules (row @ rest) (of_nat j) (of_nat (unat (run_y st ! j)))"
      by (rule response_entry_complete [OF a b j pads entry, where 'f = 'f]) (rule that)
    then show ?thesis unfolding honest_response_def by (metis append_Nil2 order_of_def)
  qed
  from opt_map_upt [of 16 "response_entry ?a ?pads ?b" "honest_response sk st w", OF this]
  show ?thesis by (simp add: response_entries_def)
qed

lemma honest_pads_rows:
  fixes be :: "'f :: idom backend"
  assumes be: "backend_ok be" and lens: "length (rw_pads w) = 16" "length (rw_d_randomness w) = 16"
    and b: "unat (run_b_bar_prime st) < 16" and holds: "pads_holds (pad_commit be) (run_d st) (rw_pads w) (rw_d_randomness w)"
  obtains pads rnd rows where "in_response_order (rw_pads w) (run_b_bar_prime st) = Some pads"
    "in_response_order (rw_d_randomness w) (run_b_bar_prime st) = Some rnd"
    "pads_entries be pads rnd = Some rows" "length rows = 16" "\<forall>j < 16. honest_pads be st w j (rows ! j)"
proof -
  let ?l = "order_of (run_b_bar_prime st)"
  let ?pads = "map (\<lambda>j. rw_pads w ! ?l j) [0..<16]" and ?rnd = "map (\<lambda>j. rw_d_randomness w ! ?l j) [0..<16]"
  have order: "in_response_order (rw_pads w) (run_b_bar_prime st) = Some ?pads"
    "in_response_order (rw_d_randomness w) (run_b_bar_prime st) = Some ?rnd"
    using in_response_order_Some [OF lens(1) b] in_response_order_Some [OF lens(2) b] by (simp_all add: order_of_def)
  let ?g = "\<lambda>j. sponge_trace (be_narrow be) (commitment_input Pad (pad_elements (rw_pads w ! ?l j) (rw_d_randomness w ! ?l j)))"
  have "\<exists>row. ?g j = Some row \<and> honest_pads be st w j row" if j: "j < 16" for j
  proof -
    have d: "pad_commit be \<lparr> pi_pad = rw_pads w ! ?l j, pi_randomness = rw_d_randomness w ! ?l j \<rparr> = run_d st ! ?l j"
      using holds by (simp add: pads_holds_def list_all_iff)
    obtain row where row: "?g j = Some row"
      "length row = pads_num_cols be" "take 6 (drop 1 row) = pad_elements (rw_pads w ! ?l j) (rw_d_randomness w ! ?l j)"
      "\<And>rest. pads_rules be (row @ rest) (pad_commit be \<lparr> pi_pad = rw_pads w ! ?l j, pi_randomness = rw_d_randomness w ! ?l j \<rparr>)"
      by (rule pads_row_complete [OF be]) (rule that)
    have "row ! 1 = take 6 (drop 1 row) ! 0" using row(2) wide_room(3) [OF be] by simp
    also have "\<dots> = of_nat (unat (rw_pads w ! ?l j))" unfolding row(3) by (simp add: pad_elements_def)
    finally show ?thesis using row(1-3) d row(4) [of "[]"] by (simp add: honest_pads_def Let_def)
  qed
  from opt_map_upt [of 16 ?g "honest_pads be st w", OF this] obtain rows where
    rows: "opt_map ?g [0..<16] = Some rows" "length rows = 16" "\<forall>j < 16. honest_pads be st w j (rows ! j)" by blast
  have "pads_entries be ?pads ?rnd = opt_map ?g [0..<16]"
    unfolding pads_entries_def zip_map_map zip_same_conv_map opt_map_map by (simp add: comp_def)
  with rows that [OF order] show ?thesis by simp
qed

lemma run_rows_complete:
  fixes be :: "'f :: idom backend"
  assumes be: "backend_ok be" and sk: "wf_key sk" and w: "wf_run_witness w" and st: "wf_run_statement st"
    and holds: "run_holds_for (pad_commit be) sk st w"
  shows "\<exists>rr. run_rows_honest be sk st w = Some rr \<and> honest_run be sk st w rr"
proof -
  let ?r = "rw_r_sigma_sum w" and ?e = "run_e st" and ?b = "run_b_bar_prime st"
  let ?a = "a_sigma_sum sk ?r ?e"
  have lens: "length (rw_pads w) = 16" "length (rw_d_randomness w) = 16" "length ?e = 482"
    using w st by (simp_all add: wf_run_witness_def wf_run_statement_def par_N_def)
  from holds have ranges: "unat ?r < 4096" "\<forall>x \<in> set ?e. unat x < 4096" "unat ?b < 16" "unat ?a < 4096"
    and y: "respond ?a (rw_pads w) ?b = Some (run_y st)" and d: "pads_holds (pad_commit be) (run_d st) (rw_pads w) (rw_d_randomness w)"
    by (simp_all add: run_holds_for_def sum_holds_def response_holds_def less_par_Q list_all_iff)
  obtain response :: "'f list list" where response: "response_entries ?a (rw_pads w) ?b = Some response" "length response = 16"
    "\<forall>j < 16. honest_response sk st w j (response ! j)"
    using honest_response_rows [OF lens(1) ranges(3,4) y] by metis
  obtain pads rnd entries where pads: "in_response_order (rw_pads w) ?b = Some pads" "in_response_order (rw_d_randomness w) ?b = Some rnd"
    "pads_entries be pads rnd = Some entries" "length entries = 16" "\<forall>j < 16. honest_pads be st w j (entries ! j)"
    by (rule honest_pads_rows [OF be lens(1,2) ranges(3) d])
  have honest: "run_rows_honest be sk st w
      = Some \<lparr> rr_sum = sum_row sk ?r ?e, rr_response = response, rr_pads = entries \<rparr>"
    by (simp add: run_rows_honest_def Let_def response(1) pads(1-3))
  note sums = sum_row_complete(2-4) [OF sk lens(3) ranges(2,1)]
  have "sum_rules (sum_row sk ?r ?e :: 'f list) (map of_bool (key_bits sk)) (zq_elements ?e)"
    using sum_row_complete(1) [OF sk lens(3) ranges(2,1), of "[] :: 'f list"] by simp
  with honest response pads sums show ?thesis by (simp add: honest_run_def)
qed

section \<open>The table\<close>

text \<open>The openings in the table of an honest prover are its witness.\<close>

definition online_honest_openings :: "online_witness \<Rightarrow> (domain \<times> 'f :: idom list) set" where
  "online_honest_openings w =
     {(Key, key_elements (pack_key (ow_sk w))), (MaskSum, mask_sum_elements (ow_r_sigma_sums w) (ow_m_randomness w))}
     \<union> (\<Union>rw \<in> set (ow_runs w). \<Union>l < 16. {(Pad, pad_elements (rw_pads rw ! l) (rw_d_randomness rw ! l))})"

text \<open>The columns of an honest prover.\<close>

definition honest_online :: "'f :: idom backend \<Rightarrow> ('f digest, 'f digest, 'f digest) online_statement \<Rightarrow> online_witness \<Rightarrow> bool" where
  "honest_online be st w \<longleftrightarrow> backend_ok be \<and> wf_online_public st \<and> wf_online_witness w \<and>
     online_holds_for (key_commit be) (mask_sum_commit be) (pad_commit be) st w"

definition honest_online_columns ::
  "'f :: idom backend \<Rightarrow> ('f digest, 'f digest, 'f digest) online_statement \<Rightarrow> online_witness
     \<Rightarrow> 'f list \<Rightarrow> 'f list \<Rightarrow> 'f run_rows list \<Rightarrow> bool" where
  "honest_online_columns be st w key ms runs \<longleftrightarrow>
     length key = key_num_cols be \<and> key_rules be key (os_pk st) \<and> take 482 key = map of_bool (key_bits (ow_sk w)) \<and>
     take 17 (drop 483 key) = key_elements (pack_key (ow_sk w)) \<and>
     length ms = mask_sum_num_cols be \<and> mask_sum_rules be ms (os_m st) \<and>
     take 21 (drop 1 ms) = mask_sum_elements (ow_r_sigma_sums w) (ow_m_randomness w) \<and>
     length runs = 16 \<and> (\<forall>k < 16. honest_run be (ow_sk w) (os_runs st ! k) (ow_runs w ! k) (runs ! k))"

lemma honest_online_trace:
  fixes be :: "'f :: idom backend"
  assumes honest: "honest_online be st w"
  obtains key ms runs where "honest_online_columns be st w key ms runs" "online_trace be st w = Some (online_table key ms runs)"
proof -
  let ?sk = "ow_sk w" and ?sums = "ow_r_sigma_sums w"
  have be: "backend_ok be" and sk: "wf_key ?sk" and len: "length (ow_runs w) = 16" "length (os_runs st) = 16"
    using honest by (simp_all add: honest_online_def wf_online_witness_def wf_online_public_def wf_online_statement_def)
  have sums: "length ?sums = 16" using len by (simp add: ow_r_sigma_sums_def)
  have committed: "os_pk st = key_commit be ?sk"
    "os_m st = mask_sum_commit be \<lparr> msi_r_sigma_sums = ?sums, msi_randomness = ow_m_randomness w \<rparr>"
    using honest by (simp_all add: honest_online_def online_holds_for_def key_holds_def mask_sum_holds_def)
  obtain key where key: "key_row be ?sk = Some key" "length key = key_num_cols be"
    "take 482 key = map of_bool (key_bits ?sk)" "\<And>rest. key_rules be (key @ rest) (key_commit be ?sk)"
    "take 17 (drop 483 key) = key_elements (pack_key ?sk)"
    by (rule key_row_complete [OF be sk]) (rule that)
  obtain ms where ms: "mask_sum_row be ?sums (ow_m_randomness w) = Some ms" "length ms = mask_sum_num_cols be"
    "take 21 (drop 1 ms) = mask_sum_elements ?sums (ow_m_randomness w)"
    "\<And>rest. mask_sum_rules be (ms @ rest)
       (mask_sum_commit be \<lparr> msi_r_sigma_sums = ?sums, msi_randomness = ow_m_randomness w \<rparr>)"
    by (rule mask_sum_row_complete [OF be sums]) (rule that)
  let ?f = "\<lambda>k. run_rows_honest be ?sk (os_runs st ! k) (ow_runs w ! k)"
  let ?P = "\<lambda>k. honest_run be ?sk (os_runs st ! k) (ow_runs w ! k)"
  have "\<exists>rr. ?f k = Some rr \<and> ?P k rr" if k: "k < 16" for k
    by (rule run_rows_complete [OF be sk])
      (use honest k len in \<open>simp_all add: honest_online_def online_holds_for_def list_all_length wf_online_witness_def
         wf_online_public_def wf_online_statement_def\<close>)
  from opt_map_upt [of 16 ?f ?P, OF this] obtain runs where
    runs: "opt_map ?f [0..<16] = Some runs" "length runs = 16" "\<forall>k < 16. ?P k (runs ! k)" by blast
  have "online_trace be st w = Some (online_table key ms runs)"
    using key(1) ms(1) runs(1) by (simp add: online_trace_def del: upt_Suc)
  moreover have "honest_online_columns be st w key ms runs"
    using key(2,3,5) ms(2,3) runs(2,3) key(4) [of "[]"] ms(4) [of "[]"] committed by (simp add: honest_online_columns_def)
  ultimately show ?thesis by (rule that [rotated])
qed

text \<open>Row \<open>j\<close> of run \<open>k\<close>.\<close>

lemma honest_online_at:
  fixes be :: "'f :: idom backend"
  assumes "honest_online_columns be st w key ms runs"
  shows "length (online_table key ms runs) = 256"
    and "r < 256 \<Longrightarrow> online_table key ms runs ! r = key @ ms @ rr_sum (runs ! (r div 16))
      @ rr_response (runs ! (r div 16)) ! (r mod 16) @ rr_pads (runs ! (r div 16)) ! (r mod 16)"
proof -
  let ?row = "\<lambda>run. map (\<lambda>(response, pad_j). key @ ms @ rr_sum run @ response @ pad_j) (zip (rr_response run) (rr_pads run))"
  have runs: "length runs = 16" "\<And>k. k < 16 \<Longrightarrow> length (rr_response (runs ! k)) = 16 \<and> length (rr_pads (runs ! k)) = 16"
    using assms by (simp_all add: honest_online_columns_def honest_run_def)
  have each: "\<forall>xs \<in> set (map ?row runs). length xs = 16"
    using runs by (auto simp: in_set_conv_nth)
  show "length (online_table key ms runs) = 256"
    using length_concat_const [OF each] runs(1) by (simp add: online_table_def)
  assume r: "r < 256"
  have "online_table key ms runs ! (16 * (r div 16) + r mod 16) = map ?row runs ! (r div 16) ! (r mod 16)"
    unfolding online_table_def by (rule nth_concat_const [OF each]) (use r runs(1) in simp_all)
  then show "online_table key ms runs ! r = key @ ms @ rr_sum (runs ! (r div 16))
      @ rr_response (runs ! (r div 16)) ! (r mod 16) @ rr_pads (runs ! (r div 16)) ! (r mod 16)"
    using r runs by simp
qed

lemma honest_online_rules:
  fixes be :: "'f :: idom backend"
  assumes honest: "honest_online be st w" and columns: "honest_online_columns be st w key ms runs"
    and public: "online_public_values st = Some public" and r: "r < 256"
  shows "length (online_table key ms runs ! r) = online_num_cols be"
    and "online_rules be (online_table key ms runs ! r) public (periodic_at online_periodic r)"
proof -
  let ?k = "r div 16" and ?j = "r mod 16"
  have kj: "?k < 16" "?j < 16" and r_eq: "16 * ?k + ?j = r" using r by simp_all
  have be: "backend_ok be" and wf: "wf_online_public st" and len: "length (ow_runs w) = 16"
    using honest by (simp_all add: honest_online_def wf_online_witness_def)
  have lens: "length key = key_num_cols be" "length ms = mask_sum_num_cols be"
    and ms: "take 21 (drop 1 ms) = mask_sum_elements (ow_r_sigma_sums w) (ow_m_randomness w)"
    and run: "honest_run be (ow_sk w) (os_runs st ! ?k) (ow_runs w ! ?k) (runs ! ?k)"
    and fixed: "key_rules be key (os_pk st)" "mask_sum_rules be ms (os_m st)" "take 482 key = map of_bool (key_bits (ow_sk w))"
    using columns kj(1) by (simp_all add: honest_online_columns_def)
  have row: "length (rr_sum (runs ! ?k)) = 22" "length (rr_response (runs ! ?k) ! ?j) = 16" "length (rr_pads (runs ! ?k) ! ?j) = pads_num_cols be"
    using run kj(2) by (simp_all add: honest_run_def honest_response_def honest_pads_def Let_def)
  note split = honest_online_at(2) [OF columns r]
  show "length (online_table key ms runs ! r) = online_num_cols be"
    using lens row unfolding split by (simp add: online_num_cols_def online_PADS_def online_RESPONSE_def online_SUM_def online_MASK_SUM_def)
  have "ms ! Suc ?k = take 21 (drop 1 ms) ! ?k" using wide_room(2) [OF be] lens(2) kj(1) by simp
  also have "\<dots> = of_nat (unat (rw_r_sigma_sum (ow_runs w ! ?k)))"
    using kj(1) len by (simp only: ms) (simp add: mask_sum_elements_def zq_elements_def ow_r_sigma_sums_def nth_append)
  finally have "online_row_rules be st ?k ?j key ms (rr_sum (runs ! ?k)) (rr_response (runs ! ?k) ! ?j) (rr_pads (runs ! ?k) ! ?j)"
    using fixed run kj(2) by (simp add: online_row_rules_def honest_run_def honest_response_def honest_pads_def Let_def)
  then show "online_rules be (online_table key ms runs ! r) public (periodic_at online_periodic r)"
    using online_rules_at [OF wf kj _ split lens row _ public, unfolded r_eq] wide_room [OF be] by simp
qed

lemma honest_online_opens:
  fixes be :: "'f :: idom backend"
  assumes honest: "honest_online be st w" and columns: "honest_online_columns be st w key ms runs" and r: "r < 256"
  defines "row \<equiv> online_table key ms runs ! r"
  shows "(Key, key_opening row) \<in> (online_honest_openings w :: (domain \<times> 'f list) set)"
    and "(MaskSum, mask_sum_opening be row) \<in> (online_honest_openings w :: (domain \<times> 'f list) set)"
    and "(Pad, pad_opening be row) \<in> (online_honest_openings w :: (domain \<times> 'f list) set)"
proof -
  let ?k = "r div 16" and ?j = "r mod 16"
  let ?l = "order_of (run_b_bar_prime (os_runs st ! ?k)) ?j"
  have kj: "?k < 16" "?j < 16" using r by simp_all
  note split = honest_online_at(2) [OF columns r, folded row_def] and room = wide_room [OF conjunct1 [OF honest [unfolded honest_online_def]]]
  have lens: "length key = key_num_cols be" "length ms = mask_sum_num_cols be" "length (rr_sum (runs ! ?k)) = 22"
    "length (rr_response (runs ! ?k) ! ?j) = 16"
    and opened: "take 17 (drop 483 key) = key_elements (pack_key (ow_sk w))"
    "take 21 (drop 1 ms) = mask_sum_elements (ow_r_sigma_sums w) (ow_m_randomness w)"
    "take 6 (drop 1 (rr_pads (runs ! ?k) ! ?j)) = pad_elements (rw_pads (ow_runs w ! ?k) ! ?l) (rw_d_randomness (ow_runs w ! ?k) ! ?l)"
    using columns kj by (simp_all add: honest_online_columns_def honest_run_def honest_response_def honest_pads_def Let_def)
  show "(Key, key_opening row) \<in> (online_honest_openings w :: (domain \<times> 'f list) set)"
    using room(1) lens(1) opened(1) by (simp add: split key_opening_def online_honest_openings_def)
  show "(MaskSum, mask_sum_opening be row) \<in> (online_honest_openings w :: (domain \<times> 'f list) set)"
    using room(2) lens(1,2) opened(2) by (simp add: split mask_sum_opening_def online_honest_openings_def)
  have "pad_opening be row = pad_elements (rw_pads (ow_runs w ! ?k) ! ?l) (rw_d_randomness (ow_runs w ! ?k) ! ?l)"
    using lens opened(3) by (simp add: split pad_opening_def online_PADS_def online_RESPONSE_def online_SUM_def online_MASK_SUM_def)
  moreover have "ow_runs w ! ?k \<in> set (ow_runs w)" using honest kj(1) by (simp add: honest_online_def wf_online_witness_def)
  moreover have "?l < 16" by (simp add: order_of_def)
  ultimately show "(Pad, pad_opening be row) \<in> (online_honest_openings w :: (domain \<times> 'f list) set)"
    unfolding online_honest_openings_def by blast
qed

lemma online_air_complete:
  fixes be :: "'f :: idom backend"
  assumes "backend_ok be" and "wf_online_public st" and "wf_online_witness w"
    and "online_holds_for (key_commit be) (mask_sum_commit be) (pad_commit be) st w"
    and public: "online_public_values st = Some public"
  obtains rows where "online_trace be st w = Some rows" "length rows = ROWS" "satisfies (online_air be) rows public"
    "online_openings be rows \<subseteq> online_honest_openings w"
proof -
  have honest: "honest_online be st w" using assms by (simp add: honest_online_def)
  obtain key ms runs where columns: "honest_online_columns be st w key ms runs"
    and trace: "online_trace be st w = Some (online_table key ms runs)" by (rule honest_online_trace [OF honest])
  let ?rows = "online_table key ms runs"
  note len = honest_online_at(1) [OF columns] and rules = honest_online_rules [OF honest columns public]
  show ?thesis
  proof (rule that [OF trace])
    show "length ?rows = ROWS" using len by simp
    have "column \<noteq> [] \<and> length column dvd length ?rows" if "column \<in> set (online_periodic :: 'f list list)" for column
      using that unfolding len by (auto simp: online_periodic_def selectors_def simp del: upt_Suc)
    then show "satisfies (online_air be) ?rows public"
      using rules len by (auto simp: satisfies_def online_air_def list_all_iff in_set_conv_nth simp del: upt_Suc)
    show "online_openings be ?rows \<subseteq> online_honest_openings w"
      using honest_online_opens [OF honest columns] len by (auto simp: online_openings_def shared_openings_def in_set_conv_nth)
  qed
qed

end
