(* ===== verification/OnlineSound.thy ===== *)
theory OnlineSound
  imports OnlineAirRules
begin

text \<open>
  Soundness of the circuit of the online statement: a table that satisfies it shows that every
  response is computed from the committed key, mask sums and pads.
\<close>

declare of_nat_unat [simp del]

section \<open>One row\<close>

lemma online_row_sound:
  fixes be :: "'f :: idom backend"
  assumes bb: "baby_bear TYPE('f)" and be: "backend_ok be" and wf: "wf_online_public st"
    and k: "k < 16" and j: "j < 16"
    and rules: "online_row_rules be st k j key mask_sum asum response pads"
    and opened: "(Pad, take 6 (drop 1 pads)) \<in> openings"
    and lengths: "length key = key_num_cols be" "length mask_sum = mask_sum_num_cols be" "length asum = 22"
      "length response = 16" "length pads = pads_num_cols be"
  obtains bs where "length bs = 482" "key_commit be (key_of bs) = os_pk st"
    "take 17 (drop 483 key) = key_elements (pack_key (key_of bs))"
    "commit_elements be MaskSum (take 21 (drop 1 mask_sum)) = os_m st"
    "entry_relation be openings (os_runs st ! k) (key_of bs) (mask_sum ! Suc k) j"
proof -
  let ?run = "os_runs st ! k" and ?l = "order_of (run_b_bar_prime (os_runs st ! k)) j"
  have len: "length (os_runs st) = 16" "length (os_pk st) = 8" "length (os_m st) = 8"
    using wf by (simp_all add: wf_online_public_def wf_online_statement_def)
  then have run: "?run \<in> set (os_runs st)" using k by simp
  note facts = wf_public_run [OF wf run]
  from rules have parts: "key_rules be key (os_pk st)" "mask_sum_rules be mask_sum (os_m st)"
    "sum_rules asum (take 482 key) (zq_elements (run_e ?run))"
    "response_rules response (of_nat j) (of_nat (unat (run_y ?run ! j)))"
    "pads_rules be pads (run_d ?run ! ?l)"
    "asum ! 0 = mask_sum ! Suc k" "response ! 0 = pack_bits_le (take 12 (drop 1 asum))" "response ! 14 = pads ! 1"
    by (simp_all add: online_row_rules_def Let_def)
  obtain bs where bs: "length bs = 482" "take 482 key = map of_bool bs" "key_commit be (key_of bs) = os_pk st"
    "take 17 (drop 483 key) = key_elements (pack_key (key_of bs))"
    by (rule key_rules_sound [OF be parts(1)]) (use lengths len in simp_all)
  have m: "commit_elements be MaskSum (take 21 (drop 1 mask_sum)) = os_m st"
    by (rule mask_sum_rules_sound [OF be parts(2)]) (use lengths len in simp_all)
  have d: "commit_elements be Pad (take 6 (drop 1 pads)) = run_d ?run ! ?l"
    by (rule pads_rules_sound [OF be parts(5)]) (use lengths facts(6) [of ?l] in simp_all)
  have pad_row: "take 6 (drop 1 pads) = pads ! 1 # take 5 (drop 2 pads)"
    using wide_room(3) [OF be] lengths(5)
    by (intro nth_equalityI) (auto simp: nth_Cons' simp flip: add_2_eq_Suc)
  have "entry_relation be openings ?run (key_of bs) (mask_sum ! Suc k) j"
    unfolding entry_relation_def
  proof (intro exI conjI allI impI)
    show "(Pad, pads ! 1 # take 5 (drop 2 pads)) \<in> openings" using opened pad_row by simp
    show "commit_elements be Pad (pads ! 1 # take 5 (drop 2 pads)) = run_d ?run ! ?l" using d pad_row by simp
    show "length (take 5 (drop 2 pads)) = 5" using wide_room(3) [OF be] lengths(5) by simp
    fix r_sigma :: zq and pad_j :: zp
    assume *: "mask_sum ! Suc k = of_nat (unat r_sigma) \<and> unat r_sigma < 4096 \<and> pads ! 1 = of_nat (unat pad_j)"
    have "pack_bits_le (take 12 (drop 1 asum)) = of_nat (unat (a_sigma_sum (key_of bs) r_sigma (run_e ?run)))"
      by (rule sum_rules_sound [OF bb]) (use parts * bs facts lengths in simp_all)
    then show "unat (run_y ?run ! j) = entry_value (unat (a_sigma_sum (key_of bs) r_sigma (run_e ?run))) j (unat pad_j)"
      by (intro response_rules_sound [OF bb parts(4)]) (use parts * lengths j unat_a_sigma_less in simp_all)
  qed
  with bs(1,3,4) m show ?thesis by (rule that)
qed

section \<open>The table\<close>

lemma online_openingsI:
  "row \<in> set rows \<Longrightarrow> (Key, key_opening row) \<in> online_openings be rows"
  "row \<in> set rows \<Longrightarrow> (MaskSum, mask_sum_opening be row) \<in> online_openings be rows"
  "row \<in> set rows \<Longrightarrow> (Pad, pad_opening be row) \<in> online_openings be rows"
  by (simp_all add: online_openings_def shared_openings_def)

lemma online_air_row:
  assumes be: "backend_ok be" and wf: "wf_online_public st"
    and public: "online_public_values st = Some public" and sat: "satisfies (online_air be) rows public"
    and k: "k < 16" and j: "j < 16"
  obtains key mask_sum asum response pads where "rows ! (16 * k + j) = key @ mask_sum @ asum @ response @ pads"
    "16 * k + j < length rows"
    "length key = key_num_cols be" "length mask_sum = mask_sum_num_cols be" "length asum = 22"
    "length response = 16" "length pads = pads_num_cols be"
    "online_row_rules be st k j key mask_sum asum response pads"
proof -
  let ?r = "16 * k + j"
  have column: "map (\<lambda>row. of_bool (row div 16 = 0)) [0..<256] \<in> set (online_periodic :: 'a list list)"
    by (auto simp: online_periodic_def selectors_def simp del: upt_Suc)
  have "\<forall>column \<in> set (online_periodic :: 'a list list). length column dvd length rows"
    using sat by (simp add: satisfies_def online_air_def list_all_iff)
  from bspec [OF this column] have "(256 :: nat) dvd length rows" by simp
  moreover have "rows \<noteq> []" using sat by (simp add: satisfies_def)
  ultimately have "256 \<le> length rows" using dvd_imp_le by fastforce
  then have r: "?r < length rows" using k j by simp
  let ?row = "rows ! ?r"
  have length_row: "length ?row = online_num_cols be"
    and rules: "online_rules be ?row public (periodic_at online_periodic ?r)"
    using sat r by (auto simp: satisfies_def online_air_def list_all_iff)
  let ?key = "take (key_num_cols be) ?row" and ?rest1 = "drop (key_num_cols be) ?row"
  let ?mask = "take (mask_sum_num_cols be) ?rest1" and ?rest2 = "drop (mask_sum_num_cols be) ?rest1"
  let ?sum = "take 22 ?rest2" and ?rest3 = "drop 22 ?rest2"
  let ?resp = "take 16 ?rest3" and ?pads = "drop 16 ?rest3"
  have lens: "length ?key = key_num_cols be" "length ?mask = mask_sum_num_cols be" "length ?sum = 22"
    "length ?resp = 16" "length ?pads = pads_num_cols be"
    using length_row by (simp_all add: online_num_cols_def online_PADS_def online_RESPONSE_def online_SUM_def
        online_MASK_SUM_def)
  have split: "?row = ?key @ ?mask @ ?sum @ ?resp @ ?pads" by (simp only: append_take_drop_id)
  have "online_row_rules be st k j ?key ?mask ?sum ?resp ?pads"
    using online_rules_at [OF wf k j _ split lens _ public] rules wide_room [OF be] by simp
  with split r lens show ?thesis by (rule that)
qed

lemma online_row_relation:
  fixes be :: "'f :: idom backend"
  assumes bb: "baby_bear TYPE('f)" and be: "backend_ok be" and wf: "wf_online_public st"
    and public: "online_public_values st = Some public" and sat: "satisfies (online_air be) rows public"
    and kj: "k < 16" "j < 16"
  defines "row \<equiv> rows ! (16 * k + j)"
  obtains bs where "length bs = 482" "key_commit be (key_of bs) = os_pk st" "row \<in> set rows"
    "key_opening row = key_elements (pack_key (key_of bs))"
    "commit_elements be MaskSum (mask_sum_opening be row) = os_m st" "length (mask_sum_opening be row) = 21"
    "entry_relation be (online_openings be rows) (os_runs st ! k) (key_of bs) (mask_sum_opening be row ! k) j"
proof -
  obtain key mask_sum asum response pads where
    row: "row = key @ mask_sum @ asum @ response @ pads" and inside: "16 * k + j < length rows" and
    lens: "length key = key_num_cols be" "length mask_sum = mask_sum_num_cols be" "length asum = 22"
      "length response = 16" "length pads = pads_num_cols be" and
    rules: "online_row_rules be st k j key mask_sum asum response pads"
    by (rule online_air_row [OF be wf public sat kj, folded row_def])
  have mem: "row \<in> set rows" using inside by (simp add: row_def)
  have key: "key_opening row = take 17 (drop 483 key)"
    using row lens(1) wide_room(1) [OF be] by (simp add: key_opening_def)
  have mask: "mask_sum_opening be row = take 21 (drop 1 mask_sum)"
    using row lens(1,2) wide_room(2) [OF be] by (simp add: mask_sum_opening_def)
  have at: "take 21 (drop 1 mask_sum) ! k = mask_sum ! Suc k" "length (take 21 (drop 1 mask_sum)) = 21"
    using lens(2) wide_room(2) [OF be] kj by simp_all
  have "pad_opening be row = take 6 (drop 1 pads)"
    using row lens by (simp add: pad_opening_def online_PADS_def online_RESPONSE_def online_SUM_def online_MASK_SUM_def)
  then have "(Pad, take 6 (drop 1 pads)) \<in> online_openings be rows" using online_openingsI(3) [OF mem, of be] by simp
  from online_row_sound [OF bb be wf kj rules this lens] at that mem show ?thesis unfolding key mask by metis
qed

lemma online_air_sound:
  fixes be :: "'f :: idom backend"
  assumes bb: "baby_bear TYPE('f)" and be: "backend_ok be" and wf: "wf_online_public st"
    and public: "online_public_values st = Some public" and sat: "satisfies (online_air be) rows public"
    and bind: "binding be (online_openings be rows)"
  shows "\<exists>sk r rnd. online_relation be (online_openings be rows) st sk r rnd"
proof -
  let ?X = "online_openings be rows"
  note row = online_row_relation [OF bb be wf public sat]
  obtain bs where bs: "length bs = 482" "key_commit be (key_of bs) = os_pk st" "rows ! (16 * 0 + 0) \<in> set rows"
    "key_opening (rows ! (16 * 0 + 0)) = key_elements (pack_key (key_of bs))"
    "commit_elements be MaskSum (mask_sum_opening be (rows ! (16 * 0 + 0))) = os_m st"
    "length (mask_sum_opening be (rows ! (16 * 0 + 0))) = 21"
    by (rule row [of 0 0]) simp_all
  note bs = bs [simplified]
  let ?M = "mask_sum_opening be (rows ! 0)"
  have all: "entry_relation be ?X (os_runs st ! k) (key_of bs) (?M ! k) j" if kj: "k < 16" "j < 16" for k j
  proof -
    let ?row = "rows ! (16 * k + j)"
    obtain cs where cs: "length cs = 482" "key_commit be (key_of cs) = os_pk st" "?row \<in> set rows"
      "key_opening ?row = key_elements (pack_key (key_of cs))"
      "commit_elements be MaskSum (mask_sum_opening be ?row) = os_m st"
      "entry_relation be ?X (os_runs st ! k) (key_of cs) (mask_sum_opening be ?row ! k) j"
      by (rule row [OF kj])
    have "key_opening ?row = key_opening (rows ! 0)"
      by (rule bindingD [OF bind online_openingsI(1) [OF cs(3)] online_openingsI(1) [OF bs(3)]])
        (use bs cs in \<open>simp add: key_commit_def\<close>)
    then have "cs = bs" using key_elements_inj [OF bb cs(1) bs(1)] cs(4) bs(4) by simp
    moreover have "mask_sum_opening be ?row = ?M"
      by (rule bindingD [OF bind online_openingsI(2) [OF cs(3)] online_openingsI(2) [OF bs(3)]])
        (use bs cs in simp)
    ultimately show ?thesis using cs(6) by simp
  qed
  have "(Key, key_elements (pack_key (key_of bs))) \<in> ?X"
    using online_openingsI(1) [OF bs(3), of be] bs(4) by simp
  moreover have "(MaskSum, take 16 ?M @ drop 16 ?M) \<in> ?X"
    using online_openingsI(2) [OF bs(3), of be] by simp
  ultimately have "online_relation be ?X st (key_of bs) (take 16 ?M) (drop 16 ?M)"
    using bs all wf_key_of by (simp add: online_relation_def)
  then show ?thesis by blast
qed

end
