(* ===== verification/SumsRules.thy ===== *)
theory SumsRules
  imports ArithmeticRules RowIdentity
begin

text \<open>
  The circuit of (T) is its constraint. Its rules connect the rows of the blocks of one evaluation:
  row \<open>i\<close> holds the sums up to block \<open>i\<close>, and the row of the last block has the whole sums, which
  its bit columns reduce modulo \<open>q\<close>.
\<close>

declare of_nat_unat [simp del]

section \<open>The rules of one run\<close>

text \<open>The bit columns of run \<open>k\<close>.\<close>

definition r_sigma_columns :: "'f list \<Rightarrow> nat \<Rightarrow> 'f list" where
  "r_sigma_columns row k = take 12 (drop (33 + k * 12) row)"

definition quotient_columns :: "'f list \<Rightarrow> nat \<Rightarrow> 'f list" where
  "quotient_columns row k = take 9 (drop (225 + k * 9) row)"

lemma r_sigma_chunk:
  assumes "225 \<le> length row" and "k < 16"
  shows "chunks 12 (take 192 (drop 33 row)) ! k = r_sigma_columns row k"
proof -
  have "k * 12 + 12 \<le> 192" using assms(2) by simp
  then have "min 12 (192 - k * 12) = 12" by simp
  then show ?thesis
    using assms by (simp add: nth_chunks length_chunks div_ceil_def r_sigma_columns_def drop_take add.commute)
qed

lemma quotient_chunk:
  assumes "369 \<le> length row" and "k < 16"
  shows "chunks 9 (take 144 (drop 225 row)) ! k = quotient_columns row k"
proof -
  have "k * 9 + 9 \<le> 144" using assms(2) by simp
  then have "min 9 (144 - k * 9) = 9" by simp
  then show ?thesis
    using assms by (simp add: nth_chunks length_chunks div_ceil_def quotient_columns_def drop_take add.commute)
qed

lemma sums_rules_iff:
  assumes room: "369 \<le> length row"
  shows "sums_rules row next f h l \<longleftrightarrow>
    list_all assert_bool (row ! 0 # take 192 (drop 33 row) @ take 144 (drop 225 row)) \<and>
    (\<forall>k < 16. when_eq f (row ! (17 + k)) (term_column row k) \<and>
       when_eq h (next ! (17 + k)) (row ! (17 + k) + term_column next k) \<and>
       when_eq l (row ! (17 + k)) (pack_bits_le (r_sigma_columns row k) + pack_bits_le (quotient_columns row k) * 4096))"
proof -
  let ?rs = "chunks 12 (take 192 (drop 33 row))" and ?qs = "chunks 9 (take 144 (drop 225 row))"
  have len: "length ?rs = 16" "length ?qs = 16" using room by (simp_all add: length_chunks div_ceil_def)
  have enum: "enumerate 0 (zip ?rs ?qs) = map (\<lambda>k. (k, r_sigma_columns row k, quotient_columns row k)) [0..<16]"
    by (rule nth_equalityI)
      (use len room r_sigma_chunk [of row] quotient_chunk [of row] in \<open>simp_all add: nth_enumerate_eq\<close>)
  show ?thesis
    unfolding sums_rules_def Let_def
    by (simp add: enum list.pred_map comp_def list_all_iff del: upt_Suc) (simp add: Ball_def)
qed

section \<open>The sums down the rows\<close>

text \<open>What a block adds, and the sum up to block \<open>i\<close>, over the integers.\<close>

definition block_term :: "bool list \<Rightarrow> zq list list \<Rightarrow> nat \<Rightarrow> nat \<Rightarrow> nat" where
  "block_term bs masks k i = (if bs ! i then 4096 - unat (masks ! i ! k) else unat (masks ! i ! k))"

definition block_sum :: "bool list \<Rightarrow> zq list list \<Rightarrow> nat \<Rightarrow> nat \<Rightarrow> nat" where
  "block_sum bs masks k i = (\<Sum>b \<le> i. block_term bs masks k b)"

lemma block_sum_le:
  assumes "\<forall>i < 482. unat (masks ! i ! k) < 4096" and "i < 482"
  shows "block_sum bs masks k i \<le> Suc i * 4096"
proof -
  have "block_term bs masks k b \<le> 4096" if "b \<le> i" for b
    using assms that by (auto simp: block_term_def less_imp_le)
  then have "block_sum bs masks k i \<le> (\<Sum>b \<le> i. 4096)" unfolding block_sum_def by (intro sum_mono) simp
  then show ?thesis by simp
qed

lemma term_column_block:
  assumes "row ! 0 = of_bool (bs ! i)" and "row ! (1 + k) = of_nat (unat (masks ! i ! k))"
    and "unat (masks ! i ! k) < 4096"
  shows "term_column row k = of_nat (block_term bs masks k i)"
proof -
  have "(of_nat (4096 - unat (masks ! i ! k)) :: 'a) = of_nat 4096 - of_nat (unat (masks ! i ! k))"
    using assms(3) by (intro of_nat_diff) simp
  then show ?thesis
    using assms(1,2) by (simp add: term_column_def Let_def block_term_def)
qed

text \<open>The server's sum is the last one, modulo \<open>q\<close>.\<close>

lemma r_sigma_block_sum:
  assumes bs: "length bs = 482" and masks: "wf_masks masks" "\<forall>i < 482. unat (masks ! i ! k) < 4096"
    and k: "k < 16"
  shows "\<exists>z. r_sigma_sum (key_of bs) (column k masks) = Some z \<and> unat z = block_sum bs masks k 481 mod 4096"
proof -
  have len: "length masks = 482" using masks(1) by (simp add: wf_masks_def par_N_def)
  let ?rs = "column k masks"
  have rs: "length ?rs = 482" "\<And>i. i < 482 \<Longrightarrow> ?rs ! i = masks ! i ! k" using len by (simp_all add: column_def)
  have small: "\<forall>r \<in> set ?rs. unat r < 4096" using masks(2) rs by (auto simp: in_set_conv_nth)
  obtain z where z: "r_sigma_sum (key_of bs) ?rs = Some z" "unat z < 4096"
    "int (unat z) = signed_sum (as_bits (key_of bs)) ?rs mod 4096"
    using r_sigma_sum_Some [OF small, of "key_of bs"] rs(1) by auto
  have "signed_sum (as_bits (key_of bs)) ?rs
      = (\<Sum>i<482. if as_bits (key_of bs) ! i = 0 then int (unat (?rs ! i)) else - int (unat (?rs ! i)))"
    by (rule signed_sum_sum) (use bs rs(1) in \<open>simp_all add: key_of_def\<close>)
  also have "\<dots> mod 4096 = (\<Sum>i<482. int (block_term bs masks k i)) mod 4096"
  proof (rule sum_cong_mod)
    fix i :: nat
    assume i: "i \<in> {..<482}"
    let ?m = "unat (masks ! i ! k)"
    have "?m < 4096" using i masks(2) by simp
    then have "int (4096 - ?m) = 4096 + - int ?m" by simp
    then have neg: "int (4096 - ?m) mod 4096 = - int ?m mod 4096" by (simp only: mod_add_self1)
    have "as_bits (key_of bs) ! i = (if bs ! i then 1 else 0)" using i bs by (simp add: key_of_def)
    then show "(if as_bits (key_of bs) ! i = 0 then int (unat (?rs ! i)) else - int (unat (?rs ! i))) mod 4096
        = int (block_term bs masks k i) mod 4096"
      using i rs(2) [of i] neg by (cases "bs ! i") (simp_all only: block_term_def if_True if_False lessThan_iff simp_thms zero_neq_one one_neq_zero)
  qed
  also have "(\<Sum>i<482. int (block_term bs masks k i)) = int (block_sum bs masks k 481)"
    by (simp add: block_sum_def lessThan_Suc_atMost [symmetric])
  finally have "int (unat z) = int (block_sum bs masks k 481 mod 4096)"
    using z(3) by (simp only: zmod_int of_nat_numeral)
  with z(1) show ?thesis by simp
qed

text \<open>The columns of \<open>r_sigma\<close> are bits, on every row.\<close>

lemma sums_bits:
  assumes rules: "sums_rules row next f h l" and room: "369 \<le> length row" and k: "k < 16"
  obtains rs qs where "pack_bits_le (r_sigma_columns row k) = of_nat (bits_nat rs)" "bits_nat rs < 4096"
    "pack_bits_le (quotient_columns row k) = of_nat (bits_nat qs)" "bits_nat qs < 512"
proof -
  let ?r = "r_sigma_columns row k" and ?q = "quotient_columns row k"
  have bits: "list_all assert_bool (take 192 (drop 33 row) @ take 144 (drop 225 row))"
    using rules by (simp add: sums_rules_iff [OF room])
  have "set ?r \<subseteq> set (take 192 (drop 33 row))"
    using r_sigma_chunk [of row k] room k chunk_subset [of 12 k "take 192 (drop 33 row)"]
    by (simp add: length_chunks div_ceil_def)
  then have r: "list_all assert_bool ?r" using bits by (auto simp: list_all_iff)
  have "set ?q \<subseteq> set (take 144 (drop 225 row))"
    using quotient_chunk [of row k] room k chunk_subset [of 9 k "take 144 (drop 225 row)"]
    by (simp add: length_chunks div_ceil_def)
  then have q: "list_all assert_bool ?q" using bits by (auto simp: list_all_iff)
  obtain rs where rs: "pack_bits_le ?r = of_nat (bits_nat rs)" "bits_nat rs < 2 ^ length ?r"
    by (rule bit_columns [OF r])
  obtain qs where qs: "pack_bits_le ?q = of_nat (bits_nat qs)" "bits_nat qs < 2 ^ length ?q"
    by (rule bit_columns [OF q])
  have "length ?r \<le> 12" "length ?q \<le> 9" by (simp_all add: r_sigma_columns_def quotient_columns_def)
  then have "(2 :: nat) ^ length ?r \<le> 2 ^ 12" "(2 :: nat) ^ length ?q \<le> 2 ^ 9"
    by (intro power_increasing; simp)+
  with rs(2) qs(2) have "bits_nat rs < 4096" "bits_nat qs < 512" by simp_all
  with rs(1) qs(1) show ?thesis by (intro that)
qed

lemma sums_rules_sound:
  fixes R :: "nat \<Rightarrow> 'f :: idom list"
  assumes bb: "baby_bear TYPE('f)"
    and rules: "\<And>i. i < 482 \<Longrightarrow>
          sums_rules (R i) (R (Suc i)) (of_bool (i = 0)) (of_bool (i < 481)) (of_bool (i = 481))"
    and room: "\<And>i. i < 482 \<Longrightarrow> 369 \<le> length (R i)"
    and sk: "\<And>i. i < 482 \<Longrightarrow> R i ! 0 = of_bool (bs ! i)" and bs: "length bs = 482"
    and masks: "wf_masks masks" "\<forall>i < 482. unat (masks ! i ! k) < 4096"
    and columns: "\<And>i. i < 482 \<Longrightarrow> R i ! (1 + k) = of_nat (unat (masks ! i ! k))" and k: "k < 16"
  shows "\<exists>z. r_sigma_sum (key_of bs) (column k masks) = Some z
    \<and> pack_bits_le (r_sigma_columns (R 481) k) = of_nat (unat z)"
proof -
  have terms: "term_column (R i) k = of_nat (block_term bs masks k i)" if "i < 482" for i
    using sk columns masks(2) that by (intro term_column_block) simp_all
  have sums: "R i ! (17 + k) = of_nat (block_sum bs masks k i)" if "i < 482" for i
    using that
  proof (induction i)
    case 0
    then show ?case using rules [of 0] room [of 0] k terms [of 0] by (simp add: sums_rules_iff block_sum_def)
  next
    case (Suc i)
    then have "when_eq 1 (R (Suc i) ! (17 + k)) (R i ! (17 + k) + term_column (R (Suc i)) k)"
      using rules [of i] room [of i] k by (simp add: sums_rules_iff)
    with Suc terms [of "Suc i"] show ?case by (simp add: block_sum_def)
  qed
  let ?r = "r_sigma_columns (R 481) k" and ?q = "quotient_columns (R 481) k"
  have last: "R 481 ! (17 + k) = pack_bits_le ?r + pack_bits_le ?q * 4096"
    using rules [of 481] room [of 481] k by (simp add: sums_rules_iff)
  obtain rs qs where rs: "pack_bits_le ?r = of_nat (bits_nat rs)" "bits_nat rs < 4096"
    and qs: "pack_bits_le ?q = of_nat (bits_nat qs)" "bits_nat qs < 512"
    using sums_bits [OF rules [of 481] room [of 481] k] by auto
  let ?s = "block_sum bs masks k 481"
  have "(of_nat ?s :: 'f) = of_nat (bits_nat rs + bits_nat qs * 4096)"
    using last sums [of 481] rs(1) qs(1) by simp
  moreover have "?s \<le> 482 * 4096" using block_sum_le [OF masks(2), of 481 bs] by simp
  ultimately have "?s = bits_nat rs + bits_nat qs * 4096"
    using of_nat_eq [OF bb, of ?s "bits_nat rs + bits_nat qs * 4096"] rs(2) qs(2) by (simp add: ORDER_U32)
  then have "bits_nat rs = ?s mod 4096" using rs(2) by simp
  with r_sigma_block_sum [OF bs masks k] rs(1) show ?thesis by auto
qed

end
