(* ===== verification/SumsComplete.thy ===== *)
theory SumsComplete
  imports SumsRules
begin

text \<open>The table of (T) that an honest prover builds satisfies its rules.\<close>

declare of_nat_unat [simp del]

section \<open>The running sums of the prover\<close>

lemma running_sums_nth:
  assumes "i < length blocks" and "k < 16" and "unat (acc ! k) + length blocks * 65536 < 2 ^ 32"
  shows "unat (running_sums acc blocks ! i ! k)
    = unat (acc ! k) + (\<Sum>b \<le> i. unat (sum_term (fst (blocks ! b)) (snd (blocks ! b) ! k)))"
  using assms
proof (induction acc blocks arbitrary: i rule: running_sums.induct)
  case (1 acc)
  then show ?case by simp
next
  case (2 acc sk_i masks_i blocks)
  let ?acc = "map (\<lambda>k. acc ! k + sum_term sk_i (masks_i ! k)) [0..<16]"
  have "unat (sum_term sk_i (masks_i ! k)) < 65536"
    unfolding sum_term_def unat_ucast_16_32 by (rule unat_u16_less)
  then have first: "unat (?acc ! k) = unat (acc ! k) + unat (sum_term sk_i (masks_i ! k))"
    using 2(3,4) by (simp add: unat_word_ariths)
  show ?case
  proof (cases i)
    case 0
    with first show ?thesis by (simp add: Let_def)
  next
    case (Suc i')
    have "unat (running_sums ?acc blocks ! i' ! k)
        = unat (?acc ! k) + (\<Sum>b \<le> i'. unat (sum_term (fst (blocks ! b)) (snd (blocks ! b) ! k)))"
      by (rule 2(1) [unfolded RUNS_16]) (use 2(2-4) Suc first \<open>unat (sum_term sk_i (masks_i ! k)) < 65536\<close> in simp_all)
    with first Suc show ?thesis
      by (simp add: Let_def sum.atMost_Suc_shift del: upt_Suc sum.atMost_Suc)
  qed
qed

lemma running_sums_lengths:
  "length (running_sums acc blocks) = length blocks"
  "i < length blocks \<Longrightarrow> length (running_sums acc blocks ! i) = 16"
proof (induction acc blocks arbitrary: i rule: running_sums.induct)
  case (1 acc)
  { case 1 show ?case by simp }
  { case 2 then show ?case by simp }
next
  case (2 acc sk_i masks_i blocks)
  { case 1 then show ?case using 2(1) by (simp add: Let_def) }
  { case 2 then show ?case using "2.IH"(2) by (cases i) (simp_all add: Let_def del: upt_Suc) }
qed

definition prover_sums :: "secret_key \<Rightarrow> zq list list \<Rightarrow> zq_accum list list" where
  "prover_sums sk masks = running_sums (replicate 16 0) (take 482 (zip (as_bits sk) masks))"

lemma prover_sums_nth:
  assumes bs: "length bs = 482" and masks: "wf_masks masks" "\<forall>i < 482. unat (masks ! i ! k) < 4096"
    and i: "i < 482" and k: "k < 16"
  shows "unat (prover_sums (key_of bs) masks ! i ! k) = block_sum bs masks k i"
proof -
  have len: "length masks = 482" using masks(1) by (simp add: wf_masks_def par_N_def)
  let ?blocks = "take 482 (zip (as_bits (key_of bs)) masks)"
  have "unat (sum_term (fst (?blocks ! b)) (snd (?blocks ! b) ! k)) = block_term bs masks k b" if "b < 482" for b
  proof -
    have "unat (par_Q - masks ! b ! k) = 4096 - unat (masks ! b ! k)"
      using masks(2) that by (subst unat_sub) (simp_all add: word_le_nat_alt less_imp_le)
    then show ?thesis
      using that bs len unfolding sum_term_def unat_ucast_16_32 by (simp add: key_of_def block_term_def)
  qed
  then have "(\<Sum>b \<le> i. unat (sum_term (fst (?blocks ! b)) (snd (?blocks ! b) ! k))) = block_sum bs masks k i"
    unfolding block_sum_def using i by (intro sum.cong) auto
  moreover have "length ?blocks = 482" using bs len by (simp add: key_of_def)
  ultimately show ?thesis
    using running_sums_nth [of i ?blocks k "replicate 16 0"] i k by (simp add: prover_sums_def)
qed

section \<open>A row of the prover\<close>

lemma slice_middle:
  "length front = a \<Longrightarrow> k + n \<le> length xs \<Longrightarrow> take n (drop (a + k) (front @ xs @ rest)) = take n (drop k xs)"
  by simp

lemma of_nat_div_mod: "of_nat (n mod m) + of_nat (n div m) * of_nat m = (of_nat n :: 'f :: idom)"
proof -
  have "of_nat (n mod m) + of_nat (n div m) * of_nat m = (of_nat (n mod m + n div m * m) :: 'f)"
    by (simp only: of_nat_add of_nat_mult)
  also have "n mod m + n div m * m = n" by (rule mod_div_mult_eq)
  finally show ?thesis .
qed

definition prover_sum :: "bool list \<Rightarrow> zq list list \<Rightarrow> nat \<Rightarrow> nat" where
  "prover_sum bs masks k = block_sum bs masks k 481"

text \<open>The columns of a row: the key's bit, the masks, the running sums, and the bits of the remainders and the
  quotients of the last sums.\<close>

abbreviation remainder_bits :: "zq_accum \<Rightarrow> 'f :: idom list" where
  "remainder_bits s \<equiv> low_bits (ucast (reduce_q s) :: u32) 12"

abbreviation quotient_bits :: "zq_accum \<Rightarrow> 'f :: idom list" where
  "quotient_bits s \<equiv> low_bits (quotient_q s) 9"

abbreviation sums_front :: "bool list \<Rightarrow> zq list list \<Rightarrow> nat \<Rightarrow> 'f :: idom list" where
  "sums_front bs masks i \<equiv> of_nat (unat (as_bits (key_of bs) ! i)) # zq_elements (masks ! i)
     @ map (\<lambda>s. of_nat (unat s)) (prover_sums (key_of bs) masks ! i)"

lemma sums_row_columns:
  fixes bs masks r
  defines "row \<equiv> sums_rows (key_of bs) masks ! r :: 'f :: idom list" and "ends \<equiv> last (prover_sums (key_of bs) masks)"
    and "front \<equiv> sums_front bs masks (min r 481) :: 'f list"
  assumes bs: "length bs = 482" and masks: "wf_masks masks" and r: "r < 512"
  shows "row = front @ concat (map remainder_bits ends) @ concat (map quotient_bits ends)"
    and "length front = 33" and "length ends = 16" and "ends = prover_sums (key_of bs) masks ! 481"
    and "length (concat (map remainder_bits ends) :: 'f list) = 192" and "length (concat (map quotient_bits ends) :: 'f list) = 144"
proof -
  let ?sums = "prover_sums (key_of bs) masks"
  have len: "length masks = 482" "length (masks ! min r 481) = 16"
    using masks by (simp_all add: wf_masks_def par_N_def)
  have length_sums: "length ?sums = 482" "\<And>i. i < 482 \<Longrightarrow> length (?sums ! i) = 16"
    using running_sums_lengths [where acc = "replicate 16 0" and blocks = "take 482 (zip (as_bits (key_of bs)) masks)"] bs len
    by (simp_all add: prover_sums_def key_of_def)
  then have "?sums \<noteq> []" by auto
  then show last: "ends = ?sums ! 481" using length_sums(1) by (simp add: ends_def last_conv_nth)
  then show ends: "length ends = 16" using length_sums(2) by simp
  show "length front = 33" using len length_sums(2) by (simp add: front_def)
  show "row = front @ concat (map remainder_bits ends) @ concat (map quotient_bits ends)"
    using r by (simp add: row_def front_def ends_def sums_rows_def Let_def prover_sums_def zq_elements_def par_N_def)
  have all: "\<forall>xs \<in> set (map remainder_bits ends :: 'f list list). length xs = 12"
    "\<forall>xs \<in> set (map quotient_bits ends :: 'f list list). length xs = 9" by simp_all
  show "length (concat (map remainder_bits ends) :: 'f list) = 192" "length (concat (map quotient_bits ends) :: 'f list) = 144"
    using length_concat_const [OF all(1)] length_concat_const [OF all(2)] ends by simp_all
qed

lemma sums_row:
  fixes bs masks r i
  defines "row \<equiv> sums_rows (key_of bs) masks ! r :: 'f :: idom list" and "i \<equiv> min r 481"
  assumes bs: "length bs = 482" and masks: "wf_masks masks" "\<forall>k < 16. \<forall>i < 482. unat (masks ! i ! k) < 4096"
    and r: "r < 512"
  shows "length row = 369" and "row ! 0 = of_bool (bs ! i)" and "take 16 (drop 1 row) = zq_elements (masks ! i)"
    and "k < 16 \<Longrightarrow> row ! (17 + k) = of_nat (block_sum bs masks k i)"
    and "k < 16 \<Longrightarrow> pack_bits_le (r_sigma_columns row k) = of_nat (prover_sum bs masks k mod 4096)"
    and "k < 16 \<Longrightarrow> pack_bits_le (quotient_columns row k) = of_nat (prover_sum bs masks k div 4096)"
    and "list_all assert_bool (row ! 0 # take 192 (drop 33 row) @ take 144 (drop 225 row))"
proof -
  let ?ends = "last (prover_sums (key_of bs) masks)" and ?front = "sums_front bs masks i :: 'f list"
  let ?R = "concat (map remainder_bits ?ends) :: 'f list" and ?Q = "concat (map quotient_bits ?ends) :: 'f list"
  have i: "i < 482" by (simp add: i_def)
  have len: "length (masks ! i) = 16" using masks(1) i by (simp add: wf_masks_def par_N_def)
  note row = sums_row_columns(1) [OF bs masks(1) r, where 'f = 'f, folded row_def i_def]
    and front = sums_row_columns(2) [OF bs masks(1) r, where 'f = 'f, folded i_def]
    and ends = sums_row_columns(3,4) [OF bs masks(1) r] and RQ = sums_row_columns(5,6) [OF bs masks(1) r, where 'f = 'f]
  have parts: "take 192 (drop 33 row) = ?R" "take 144 (drop 225 row) = ?Q"
    using front RQ unfolding row by simp_all
  show "length row = 369" using front RQ unfolding row by simp
  show bit: "row ! 0 = of_bool (bs ! i)" using bs i unfolding row by (simp add: key_of_def)
  show "take 16 (drop 1 row) = zq_elements (masks ! i)" using len unfolding row by simp
  have sums: "unat (prover_sums (key_of bs) masks ! i ! k) = block_sum bs masks k i" if "i < 482" "k < 16" for i k
    using prover_sums_nth [OF bs masks(1) _ that] masks(2) that by blast
  show "row ! (17 + k) = of_nat (block_sum bs masks k i)" if "k < 16"
    using sums [OF i that] len front that unfolding row by (simp add: nth_append)
  have s: "unat (?ends ! k) = prover_sum bs masks k" if "k < 16" for k
    using sums [of 481 k] that by (simp add: ends(2) prover_sum_def)
  show "pack_bits_le (r_sigma_columns row k) = of_nat (prover_sum bs masks k mod 4096)" if k: "k < 16"
  proof -
    have "r_sigma_columns row k = take 12 (drop (k * 12) ?R)"
      unfolding row r_sigma_columns_def using RQ k by (intro slice_middle [OF front]) simp
    also have "\<dots> = remainder_bits (?ends ! k)"
      using nth_slice_concat [of "map remainder_bits ?ends :: 'f list list" 12 k] k ends(1) by simp
    finally show ?thesis by (simp only: pack_low_bits unat_ucast_16_32 unat_reduce_q s [OF k]) simp
  qed
  show "pack_bits_le (quotient_columns row k) = of_nat (prover_sum bs masks k div 4096)" if k: "k < 16"
  proof -
    have "length (?front @ ?R) = 225" using front RQ by simp
    from slice_middle [OF this, of "k * 9" 9 ?Q "[]"] have "quotient_columns row k = take 9 (drop (k * 9) ?Q)"
      using RQ k unfolding row quotient_columns_def by simp
    also have "\<dots> = quotient_bits (?ends ! k)"
      using nth_slice_concat [of "map quotient_bits ?ends :: 'f list list" 9 k] k ends(1) by simp
    moreover have "\<forall>i < 482. unat (masks ! i ! k) < 4096" using masks(2) k by blast
    from block_sum_le [OF this, of 481 bs] have "prover_sum bs masks k div 4096 < 512" by (simp add: prover_sum_def)
    ultimately show ?thesis by (simp only: pack_low_bits unat_quotient_q s [OF k]) simp
  qed
  have "list_all assert_bool ?R" "list_all assert_bool ?Q"
    using low_bits_bool by (auto simp: list_all_iff)
  then show "list_all assert_bool (row ! 0 # take 192 (drop 33 row) @ take 144 (drop 225 row))"
    using bit by (simp add: parts)
qed

lemma sums_rules_complete:
  fixes bs masks
  defines "rows \<equiv> sums_rows (key_of bs) masks :: 'f :: idom list list"
  assumes bs: "length bs = 482" and masks: "wf_masks masks" "\<forall>k < 16. \<forall>i < 482. unat (masks ! i ! k) < 4096"
    and r: "r < 512" and step: "r < 481 \<Longrightarrow> next = rows ! Suc r"
  shows "sums_rules (rows ! r) next (of_bool (r = 0)) (of_bool (r < 481)) (of_bool (r = 481))"
proof -
  note row = sums_row [OF bs masks r, where 'f = 'f, folded rows_def]
  have terms: "term_column (rows ! j) k = of_nat (block_term bs masks k (min j 481))" if "j < 512" "k < 16" for j k
  proof -
    note row' = sums_row [OF bs masks that(1), where 'f = 'f, folded rows_def]
    have "rows ! j ! (1 + k) = take 16 (drop 1 (rows ! j)) ! k" using row'(1) that by simp
    also have "\<dots> = of_nat (unat (masks ! min j 481 ! k))"
      using masks(1) that by (simp only: row'(3)) (simp add: zq_elements_def wf_masks_def par_N_def)
    finally show ?thesis using row'(2) masks(2) that by (intro term_column_block) simp_all
  qed
  show ?thesis
  proof (subst sums_rules_iff, goal_cases)
    case 1
    then show ?case using row(1) by simp
  next
    case 2
    have "when_eq (of_bool (r = 0)) (rows ! r ! (17 + k)) (term_column (rows ! r) k)" if "k < 16" for k
      using row(4) [OF that] terms [OF r that] by (cases "r = 0") (simp_all add: block_sum_def)
    moreover have "when_eq (of_bool (r < 481)) (next ! (17 + k)) (rows ! r ! (17 + k) + term_column next k)" if k: "k < 16" for k
    proof (cases "r < 481")
      case True
      have "next ! (17 + k) = of_nat (block_sum bs masks k (Suc r))"
        using sums_row(4) [OF bs masks, of "Suc r" k, where 'f = 'f, folded rows_def] True k by (simp add: step)
      with True row(4) [OF k] terms [of "Suc r" k] k show ?thesis by (simp add: step block_sum_def)
    next
      case False
      then show ?thesis by simp
    qed
    moreover have "when_eq (of_bool (r = 481)) (rows ! r ! (17 + k))
        (pack_bits_le (r_sigma_columns (rows ! r) k) + pack_bits_le (quotient_columns (rows ! r) k) * 4096)" if k: "k < 16" for k
    proof (cases "r = 481")
      case True
      then show ?thesis
        using row(4-6) [OF k] of_nat_div_mod [of "prover_sum bs masks k" 4096, where 'f = 'f]
        by (simp add: prover_sum_def)
    next
      case False
      then show ?thesis by simp
    qed
    ultimately show ?case using row(7) by blast
  qed
qed

end
