(* ===== verification/PreprocessingAir.thy ===== *)
theory PreprocessingAir
  imports SumsComplete OnlineAirRules
begin

text \<open>
  \<open>pool-voprf/src/plonky3/statements/preprocessing.rs\<close>: the circuit of the preprocessing statement.
  Every evaluation has 512 rows, and row \<open>i\<close> of it holds the columns of (K), (M), (S) and (T) for
  block \<open>i\<close>. The periodic columns are made of the public values, so the circuit depends on them.
\<close>

declare of_nat_unat [simp del]

section \<open>Layout\<close>

definition pre_KEY :: nat where "pre_KEY = 0"
definition pre_MASK_SUM :: "'f :: idom backend \<Rightarrow> nat" where
  "pre_MASK_SUM be = pre_KEY + key_num_cols be"
definition pre_SERVER_MASKS :: "'f :: idom backend \<Rightarrow> nat" where
  "pre_SERVER_MASKS be = pre_MASK_SUM be + mask_sum_num_cols be"
definition pre_SUM_OF_MASKS :: "'f :: idom backend \<Rightarrow> nat" where
  "pre_SUM_OF_MASKS be = pre_SERVER_MASKS be + masks_num_cols be"
definition pre_num_cols :: "'f :: idom backend \<Rightarrow> nat" where
  "pre_num_cols be = pre_SUM_OF_MASKS be + sums_num_cols"

definition pre_PK :: nat where "pre_PK = 0"
definition pre_B_BAR :: nat where "pre_B_BAR = pre_PK + DIGEST_ELEMENTS"
definition pre_FIRST_EVALUATION :: nat where "pre_FIRST_EVALUATION = pre_B_BAR + par_N"
definition VALUES_PER_EVALUATION :: nat where
  "VALUES_PER_EVALUATION = DIGEST_ELEMENTS + par_N * 2 * DIGEST_ELEMENTS"

definition sums_PERIODIC :: nat where "sums_PERIODIC = 3"
definition pre_M :: nat where "pre_M = 0"
definition pre_S :: nat where "pre_S = pre_M + DIGEST_ELEMENTS"
definition pre_T :: nat where "pre_T = pre_S + masks_PERIODIC"
definition pre_SEL :: nat where "pre_SEL = pre_T + sums_PERIODIC"
definition pre_PERIODIC :: nat where "pre_PERIODIC = pre_SEL + par_N"

text \<open>The rows of a table, the evaluation a row is in and the block it is for.\<close>

definition table_rows :: "nat \<Rightarrow> nat" where
  "table_rows evaluations = next_power_of_two (evaluations * N_TABLE_ROWS)"

definition evaluation_at :: "nat \<Rightarrow> nat \<Rightarrow> nat" where
  "evaluation_at row evaluations = min (row div N_TABLE_ROWS) (evaluations - 1)"

definition block_at :: "nat \<Rightarrow> nat" where
  "block_at row = min (row mod N_TABLE_ROWS) (par_N - 1)"

section \<open>The circuit and its table\<close>

type_synonym 'f pre_statement = "('f digest, 'f digest, 'f digest) preprocessing_statement"

record 'f pre_circuit =
  pre_public :: "'f list"
  pre_evaluations :: nat

definition pre_public_values :: "'f :: idom pre_statement \<Rightarrow> 'f list" where
  "pre_public_values st = ps_pk st @ map (\<lambda>b. of_nat (unat b)) (ps_b_bar st)
     @ concat (map (\<lambda>ev. es_m ev @ concat (map (\<lambda>(c_0, c_1). c_0 @ c_1) (es_c ev))) (ps_evaluations st))"

definition pre_circuit_new :: "'f :: idom pre_statement \<Rightarrow> 'f pre_circuit" where
  "pre_circuit_new st = \<lparr> pre_public = pre_public_values st, pre_evaluations = length (ps_evaluations st) \<rparr>"

definition evaluation_values :: "'f pre_circuit \<Rightarrow> nat \<Rightarrow> 'f list" where
  "evaluation_values air v =
     take VALUES_PER_EVALUATION (drop (pre_FIRST_EVALUATION + v * VALUES_PER_EVALUATION) (pre_public air))"

definition evaluation_m :: "'f pre_circuit \<Rightarrow> nat \<Rightarrow> 'f list" where
  "evaluation_m air v = take DIGEST_ELEMENTS (evaluation_values air v)"

definition evaluation_c :: "'f pre_circuit \<Rightarrow> nat \<Rightarrow> nat \<Rightarrow> nat \<Rightarrow> 'f list" where
  "evaluation_c air v i b =
     take DIGEST_ELEMENTS (drop ((1 + 2 * i + b) * DIGEST_ELEMENTS) (evaluation_values air v))"

definition pre_table ::
  "'f :: idom backend \<Rightarrow> 'f list \<Rightarrow> preprocessing_witness \<Rightarrow> preprocessing_witness \<Rightarrow> 'f list list option"
where
  "pre_table be k_row s_witness witness = do {
     let evaluations = length (pw_evaluations witness);
     m_rows \<leftarrow> opt_map (\<lambda>v. mask_sum_row be (ew_r_sigma_sums v) (ew_m_randomness v)) (pw_evaluations witness);
     s_tables \<leftarrow> opt_map (\<lambda>v. masks_trace be (pw_sk s_witness) (ew_masks v) (pw_ot_blocks s_witness))
       (pw_evaluations s_witness);
     let t_tables = map (\<lambda>v. sums_rows (pw_sk witness) (ew_masks v)) (pw_evaluations witness);
     Some (map (\<lambda>row. let v = evaluation_at row evaluations; i = row mod N_TABLE_ROWS
                      in k_row @ m_rows ! v @ s_tables ! v ! i @ t_tables ! v ! i)
            [0..<table_rows evaluations]) }"

definition pre_trace :: "'f :: idom backend \<Rightarrow> preprocessing_witness \<Rightarrow> 'f list list option" where
  "pre_trace be w = do { key \<leftarrow> key_row be (pw_sk w); pre_table be key w w }"

definition pre_periodic :: "'f :: idom pre_circuit \<Rightarrow> 'f list list" where
  "pre_periodic air =
     (let column = (\<lambda>val. map (\<lambda>row. val (evaluation_at row (pre_evaluations air)) (block_at row))
            [0..<table_rows (pre_evaluations air)]);
          m = map (\<lambda>e. column (\<lambda>v i. evaluation_m air v ! e)) [0..<DIGEST_ELEMENTS];
          b_bar = column (\<lambda>v i. pre_public air ! (pre_B_BAR + i));
          c = concat (map (\<lambda>b. map (\<lambda>e. column (\<lambda>v i. evaluation_c air v i b ! e)) [0..<DIGEST_ELEMENTS]) [0..<2]);
          sel = map (\<lambda>i. map (\<lambda>row. of_bool (row = i)) [0..<N_TABLE_ROWS]) [0..<par_N]
      in m @ [b_bar] @ c @ sums_periodic @ sel)"

definition pre_rules ::
  "'f :: idom backend \<Rightarrow> 'f list \<Rightarrow> 'f list \<Rightarrow> 'f list \<Rightarrow> 'f list \<Rightarrow> bool" where
  "pre_rules be row next public periodic \<longleftrightarrow>
     (let pk = map (\<lambda>i. public ! (pre_PK + i)) [0..<DIGEST_ELEMENTS];
          m = map (\<lambda>i. periodic ! (pre_M + i)) [0..<DIGEST_ELEMENTS];
          b_bar_i = periodic ! (pre_S + masks_B_BAR);
          c_0 = map (\<lambda>e. periodic ! (pre_S + masks_C_0 + e)) [0..<DIGEST_ELEMENTS];
          c_1 = map (\<lambda>e. periodic ! (pre_S + masks_C_1 + e)) [0..<DIGEST_ELEMENTS];
          first_block = periodic ! pre_T; has_next_block = periodic ! (pre_T + 1);
          last_block = periodic ! (pre_T + 2);
          sel = columns periodic pre_SEL pre_PERIODIC;
          key_bits = columns row pre_KEY (pre_KEY + KEY_BITS);
          m_columns = columns row (pre_MASK_SUM be) (pre_SERVER_MASKS be);
          s_columns = columns row (pre_SERVER_MASKS be) (pre_SUM_OF_MASKS be);
          t_columns = columns row (pre_SUM_OF_MASKS be) (pre_num_cols be);
          t_next = columns next (pre_SUM_OF_MASKS be) (pre_num_cols be);
          sk_i = t_columns ! sums_SK_I;
          differences = map (\<lambda>i. sk_i - key_bits ! i) [0..<par_N];
          r_sigma_bits = columns t_columns sums_R_SIGMA sums_QUOTIENT;
          r_sigma_sums = columns m_columns mask_sum_R_SIGMA mask_sum_RANDOMNESS
      in key_rules be (columns row pre_KEY (pre_MASK_SUM be)) pk \<and>
         mask_sum_rules be m_columns m \<and>
         masks_rules be s_columns b_bar_i c_0 c_1 \<and>
         sums_rules t_columns t_next first_block has_next_block last_block \<and>
         select_by sel differences = 0 \<and>
         s_columns ! masks_SK_I = t_columns ! sums_SK_I \<and>
         list_all (\<lambda>k. s_columns ! (masks_MASKS + k) = t_columns ! (sums_MASKS + k)) [0..<RUNS_PER_EVALUATION] \<and>
         list_all (\<lambda>(bits, r_sigma_sum). pack_bits_le bits = r_sigma_sum)
           (zip (chunks R_SIGMA_BITS r_sigma_bits) r_sigma_sums))"

definition pre_air :: "'f :: idom backend \<Rightarrow> 'f pre_circuit \<Rightarrow> 'f air" where
  "pre_air be air = \<lparr> air_width = pre_num_cols be, air_periodic = pre_periodic air,
     air_rules = pre_rules be \<rparr>"

section \<open>Constants\<close>

lemma pre_constants [simp]:
  "pre_KEY = 0" "pre_PK = 0" "pre_B_BAR = 8" "pre_FIRST_EVALUATION = 490" "VALUES_PER_EVALUATION = 7720"
  "sums_PERIODIC = 3" "pre_M = 0" "pre_S = 8" "pre_T = 25" "pre_SEL = 28" "pre_PERIODIC = 510"
  "masks_B_BAR = 0" "masks_C_0 = 1" "masks_C_1 = 9" "masks_SK_I = 0" "masks_MASKS = 2"
  by (simp_all add: pre_KEY_def pre_PK_def pre_B_BAR_def pre_FIRST_EVALUATION_def VALUES_PER_EVALUATION_def
      sums_PERIODIC_def pre_M_def pre_S_def pre_T_def pre_SEL_def pre_PERIODIC_def masks_PERIODIC_def
      masks_B_BAR_def masks_C_0_def masks_C_1_def masks_SK_I_def masks_MASKS_def masks_SPONGE_def par_N_def)

lemma ilog2_less: "0 < n \<Longrightarrow> n < 2 ^ Suc (ilog2 n)"
proof (induction n rule: ilog2.induct)
  case (1 n)
  show ?case
  proof (cases "n < 2")
    case True
    with "1.prems" show ?thesis by (simp add: ilog2.simps [of n])
  next
    case False
    then have "n div 2 < 2 ^ Suc (ilog2 (n div 2))" by (intro "1.IH") simp_all
    with False show ?thesis by (simp add: ilog2.simps [of n])
  qed
qed

lemma next_power_of_two_ge: "n \<le> next_power_of_two n"
  using ilog2_less [of "n - 1"] by (auto simp: next_power_of_two_def)

lemma next_power_of_two_dvd:
  assumes "2 ^ k \<le> n"
  shows "2 ^ k dvd next_power_of_two n"
proof (cases "n \<le> 1")
  case True
  with assms less_exp [of k] have "k = 0" by linarith
  then show ?thesis by simp
next
  case False
  then have "next_power_of_two n = 2 ^ Suc (ilog2 (n - 1))" by (simp add: next_power_of_two_def)
  moreover have "2 ^ k < (2 :: nat) ^ Suc (Suc (ilog2 (n - 1)))"
  proof -
    have "n - 1 < 2 ^ Suc (ilog2 (n - 1))" using False by (intro ilog2_less) simp
    then show ?thesis using assms by simp
  qed
  then have "k < Suc (Suc (ilog2 (n - 1)))" by (rule power_less_imp_less_exp [rotated]) simp
  then have "k \<le> Suc (ilog2 (n - 1))" by simp
  ultimately show ?thesis using le_imp_power_dvd by metis
qed

lemma table_rows:
  assumes "0 < evaluations"
  shows "evaluations * 512 \<le> table_rows evaluations" and "512 dvd table_rows evaluations"
proof -
  show "evaluations * 512 \<le> table_rows evaluations" using next_power_of_two_ge by (simp add: table_rows_def)
  have "2 ^ 9 dvd next_power_of_two (evaluations * 512)" by (rule next_power_of_two_dvd) (use assms in simp)
  then show "512 dvd table_rows evaluations" by (simp add: table_rows_def)
qed

end
