(* ===== verification/PreprocessingRules.thy ===== *)
theory PreprocessingRules
  imports PreprocessingAir
begin

text \<open>What the rules of the preprocessing circuit ask of one row, with the public values of its
  evaluation and block.\<close>

declare of_nat_unat [simp del]

section \<open>The public values of an evaluation\<close>

definition wf_pre_public :: "'f pre_statement \<Rightarrow> bool" where
  "wf_pre_public st \<longleftrightarrow> length (ps_pk st) = DIGEST_ELEMENTS \<and> length (ps_b_bar st) = par_N \<and>
     (\<forall>b \<in> set (ps_b_bar st). b \<le> 1) \<and> ps_evaluations st \<noteq> [] \<and>
     (\<forall>ev \<in> set (ps_evaluations st). length (es_m ev) = DIGEST_ELEMENTS \<and> length (es_c ev) = par_N \<and>
        (\<forall>(c_0, c_1) \<in> set (es_c ev). length c_0 = DIGEST_ELEMENTS \<and> length c_1 = DIGEST_ELEMENTS))"

lemma wf_pre_evaluation:
  assumes "wf_pre_public st" and "v < length (ps_evaluations st)"
  shows "length (es_m (ps_evaluations st ! v)) = 8" and "length (es_c (ps_evaluations st ! v)) = 482"
    and "i < 482 \<Longrightarrow> length (fst (es_c (ps_evaluations st ! v) ! i)) = 8"
    and "i < 482 \<Longrightarrow> length (snd (es_c (ps_evaluations st ! v) ! i)) = 8"
proof -
  let ?ev = "ps_evaluations st ! v"
  have ev: "?ev \<in> set (ps_evaluations st)" using assms(2) by simp
  then show "length (es_m ?ev) = 8" and c: "length (es_c ?ev) = 482"
    using assms(1) by (simp_all add: wf_pre_public_def par_N_def)
  show "length (fst (es_c ?ev ! i)) = 8" "length (snd (es_c ?ev ! i)) = 8" if "i < 482"
  proof -
    have "es_c ?ev ! i \<in> set (es_c ?ev)" using that c by simp
    moreover have "\<forall>(c_0, c_1) \<in> set (es_c ?ev). length c_0 = 8 \<and> length c_1 = 8"
      using assms(1) ev by (simp add: wf_pre_public_def)
    ultimately show "length (fst (es_c ?ev ! i)) = 8" "length (snd (es_c ?ev ! i)) = 8"
      by (auto simp: case_prod_unfold)
  qed
qed

definition c_values :: "('f list \<times> 'f list) list \<Rightarrow> 'f list" where
  "c_values c = concat (map (\<lambda>(c_0, c_1). c_0 @ c_1) c)"

lemma c_values_at:
  assumes "\<And>i. i < length c \<Longrightarrow> length (fst (c ! i)) = 8 \<and> length (snd (c ! i)) = 8" and "i < length c"
  shows "take 8 (drop ((2 * i) * 8) (c_values c)) = fst (c ! i)"
    and "take 8 (drop ((2 * i + 1) * 8) (c_values c)) = snd (c ! i)"
    and "length (c_values c) = length c * 16"
proof -
  let ?pairs = "map (\<lambda>(c_0, c_1). [c_0, c_1]) c"
  have parts: "c_values c = concat (concat ?pairs)"
    unfolding c_values_def by (induction c) (auto simp: case_prod_unfold)
  have pairs: "\<forall>xs \<in> set ?pairs. length xs = 2" by auto
  have len: "length (concat ?pairs) = 2 * length c" using length_concat_const [OF pairs] by simp
  have nth: "concat ?pairs ! (2 * i + b) = (if b = 0 then fst (c ! i) else snd (c ! i))" if "i < length c" "b < 2" for i b
    using nth_concat_const [OF pairs, of i b] that less_2_cases [of b] by (auto simp: case_prod_unfold)
  have all: "\<forall>xs \<in> set (concat ?pairs). length xs = 8"
    using assms(1) by (fastforce simp: in_set_conv_nth case_prod_unfold)
  show "take 8 (drop ((2 * i) * 8) (c_values c)) = fst (c ! i)"
    using nth_slice_concat [OF all, of "2 * i"] nth [of i 0] len assms(2) by (simp add: parts)
  show "take 8 (drop ((2 * i + 1) * 8) (c_values c)) = snd (c ! i)"
    using nth_slice_concat [OF all, of "2 * i + 1"] nth [of i 1] len assms(2) by (simp add: parts)
  show "length (c_values c) = length c * 16"
    using length_concat_const [OF all] len by (simp add: parts)
qed

lemma evaluation_values_at:
  assumes wf: "wf_pre_public st" and v: "v < length (ps_evaluations st)"
  shows "evaluation_m (pre_circuit_new st) v = es_m (ps_evaluations st ! v)"
    and "i < 482 \<Longrightarrow> evaluation_c (pre_circuit_new st) v i 0 = fst (es_c (ps_evaluations st ! v) ! i)"
    and "i < 482 \<Longrightarrow> evaluation_c (pre_circuit_new st) v i 1 = snd (es_c (ps_evaluations st ! v) ! i)"
    and "i < 482 \<Longrightarrow> pre_public (pre_circuit_new st) ! (8 + i) = of_nat (unat (ps_b_bar st ! i))"
    and "i < 8 \<Longrightarrow> pre_public (pre_circuit_new st) ! i = ps_pk st ! i"
proof -
  let ?vals = "map (\<lambda>ev. es_m ev @ c_values (es_c ev)) (ps_evaluations st)" and ?ev = "ps_evaluations st ! v"
  let ?front = "ps_pk st @ map (\<lambda>b. of_nat (unat b)) (ps_b_bar st)"
  note facts = wf_pre_evaluation [OF wf]
  have pk: "length (ps_pk st) = 8" "length (ps_b_bar st) = 482"
    using wf by (simp_all add: wf_pre_public_def par_N_def)
  have public: "pre_public (pre_circuit_new st) = ?front @ concat ?vals"
    by (simp add: pre_circuit_new_def pre_public_values_def c_values_def)
  have "\<forall>xs \<in> set ?vals. length xs = 7720"
    using facts c_values_at(3) by (fastforce simp: in_set_conv_nth)
  from nth_slice_concat [OF this, of v] have vals: "evaluation_values (pre_circuit_new st) v = es_m ?ev @ c_values (es_c ?ev)"
    using v pk by (simp add: evaluation_values_def public)
  then show "evaluation_m (pre_circuit_new st) v = es_m ?ev"
    using facts(1) [OF v] by (simp add: evaluation_m_def)
  have c: "evaluation_c (pre_circuit_new st) v i b = take 8 (drop ((2 * i + b) * 8) (c_values (es_c ?ev)))" for i b
    using facts(1) [OF v] by (simp add: evaluation_c_def vals algebra_simps)
  show "evaluation_c (pre_circuit_new st) v i 0 = fst (es_c ?ev ! i)"
    "evaluation_c (pre_circuit_new st) v i 1 = snd (es_c ?ev ! i)" if "i < 482"
    using c_values_at(1,2) [of "es_c ?ev" i] facts(2-4) [OF v] that c [of i 0] c [of i 1] by simp_all
  show "pre_public (pre_circuit_new st) ! (8 + i) = of_nat (unat (ps_b_bar st ! i))" if "i < 482"
    using pk that by (simp add: public nth_append)
  show "pre_public (pre_circuit_new st) ! i = ps_pk st ! i" if "i < 8"
    using pk that by (simp add: public nth_append)
qed

section \<open>The periodic columns at a row\<close>

lemma pre_periodic_at:
  assumes wf: "wf_pre_public st" and r: "r < table_rows (length (ps_evaluations st))"
  defines "v \<equiv> evaluation_at r (length (ps_evaluations st))" and "i \<equiv> block_at r"
  shows "periodic_at (pre_periodic (pre_circuit_new st)) r
    = es_m (ps_evaluations st ! v) @ [of_nat (unat (ps_b_bar st ! i))]
      @ fst (es_c (ps_evaluations st ! v) ! i) @ snd (es_c (ps_evaluations st ! v) ! i)
      @ [of_bool (r mod 512 = 0), of_bool (r mod 512 < 481), of_bool (r mod 512 = 481)]
      @ map (\<lambda>i. of_bool (r mod 512 = i)) [0..<482]"
proof -
  let ?air = "pre_circuit_new st" and ?ev = "ps_evaluations st ! v"
  have "0 < length (ps_evaluations st)" using wf by (simp add: wf_pre_public_def)
  then have v: "v < length (ps_evaluations st)" by (simp add: v_def evaluation_at_def min_less_iff_disj)
  have i: "i < 482" by (simp add: i_def block_at_def par_N_def)
  note at = evaluation_values_at [OF wf v] and facts = wf_pre_evaluation [OF wf v]
  have app: "periodic_at (xs @ ys) r = periodic_at xs r @ periodic_at ys r" for xs ys :: "'a list list"
    by (simp add: periodic_at_def)
  have at_r: "map f [0..<table_rows (pre_evaluations ?air)] ! (r mod table_rows (pre_evaluations ?air)) = f r"
    for f :: "nat \<Rightarrow> 'a" using r by (simp add: pre_circuit_new_def)
  have v_i: "evaluation_at r (pre_evaluations ?air) = v" "block_at r = i"
    by (simp_all add: v_def i_def pre_circuit_new_def)
  have nth_map: "map ((!) xs) [0..<8] = xs" if "length xs = 8" for xs :: "'a list"
    by (rule nth_equalityI) (use that in simp_all)
  have m: "map (\<lambda>e. evaluation_m ?air v ! e) [0..<8] = es_m ?ev"
    "map (\<lambda>e. evaluation_c ?air v i 0 ! e) [0..<8] = fst (es_c ?ev ! i)"
    "map (\<lambda>e. evaluation_c ?air v i (Suc 0) ! e) [0..<8] = snd (es_c ?ev ! i)"
    using at(1) at(2,3) [OF i] facts(1) facts(3,4) [OF i] nth_map by simp_all
  have two: "[0..<2] = [0, Suc 0]" by (simp add: numeral_2_eq_2)
  have flags: "periodic_at sums_periodic r
      = [of_bool (r mod 512 = 0), of_bool (r mod 512 < 481), of_bool (r mod 512 = 481) :: 'a]"
    by (auto simp: periodic_at_def sums_periodic_def par_N_def Let_def simp del: upt_Suc)
  show ?thesis
    unfolding pre_periodic_def Let_def app flags two
    by (simp add: periodic_at_def at_r v_i m at(4) [OF i] par_N_def comp_def del: upt_Suc)
qed

section \<open>The rules at a row\<close>

definition pre_row_rules ::
  "'f :: idom backend \<Rightarrow> 'f pre_statement \<Rightarrow> nat \<Rightarrow> 'f list \<Rightarrow> 'f list \<Rightarrow> 'f list \<Rightarrow> 'f list \<Rightarrow> 'f list \<Rightarrow> bool"
where
  "pre_row_rules be st r key mask_sum s t t_next \<longleftrightarrow>
     (let ev = ps_evaluations st ! evaluation_at r (length (ps_evaluations st)); i = block_at r
      in key_rules be key (ps_pk st) \<and> mask_sum_rules be mask_sum (es_m ev) \<and>
         masks_rules be s (of_nat (unat (ps_b_bar st ! i))) (fst (es_c ev ! i)) (snd (es_c ev ! i)) \<and>
         sums_rules t t_next (of_bool (r mod 512 = 0)) (of_bool (r mod 512 < 481)) (of_bool (r mod 512 = 481)) \<and>
         (r mod 512 < 482 \<longrightarrow> t ! 0 = key ! (r mod 512)) \<and> s ! 0 = t ! 0 \<and>
         (\<forall>k < 16. s ! (2 + k) = t ! (1 + k)) \<and>
         (\<forall>k < 16. pack_bits_le (r_sigma_columns t k) = mask_sum ! Suc k))"

lemma select_none:
  assumes "length vals = K" and "K \<le> i"
  shows "select_by (map (\<lambda>k. of_bool (i = k)) [0..<K]) vals = (0 :: 'f :: idom)"
proof -
  have "select_by (map (\<lambda>k. of_bool (i = k)) [0..<K]) vals = (\<Sum>k<K. of_bool (i = k) * vals ! k)"
    using assms(1) unfolding select_by_def
    by (subst sum_list_sum_nth) (auto simp: atLeast0LessThan intro: sum.cong)
  also have "\<dots> = 0" by (rule sum.neutral) (use assms(2) in auto)
  finally show ?thesis .
qed

lemma pre_rules_at:
  fixes be :: "'f :: idom backend"
  assumes wf: "wf_pre_public st" and r: "r < table_rows (length (ps_evaluations st))"
    and row: "row = key @ mask_sum @ s @ t" and nxt: "next = key' @ mask_sum' @ s' @ t'"
    and lengths: "length key = key_num_cols be" "length mask_sum = mask_sum_num_cols be"
      "length s = masks_num_cols be" "length t = 369"
      "length key' = key_num_cols be" "length mask_sum' = mask_sum_num_cols be"
      "length s' = masks_num_cols be" "length t' = 369"
    and room: "482 \<le> key_num_cols be" "17 \<le> mask_sum_num_cols be"
  shows "pre_rules be row next (pre_public (pre_circuit_new st)) (periodic_at (pre_periodic (pre_circuit_new st)) r)
    \<longleftrightarrow> pre_row_rules be st r key mask_sum s t t'"
proof -
  let ?E = "length (ps_evaluations st)" and ?i = "block_at r"
  let ?ev = "ps_evaluations st ! evaluation_at r ?E"
  let ?P = "periodic_at (pre_periodic (pre_circuit_new st)) r" and ?pub = "pre_public (pre_circuit_new st)"
  have "0 < ?E" using wf by (simp add: wf_pre_public_def)
  then have v: "evaluation_at r ?E < ?E" by (simp add: evaluation_at_def min_less_iff_disj)
  have i: "?i < 482" by (simp add: block_at_def par_N_def)
  note facts = wf_pre_evaluation [OF wf v] and at = evaluation_values_at [OF wf v]
  note P = pre_periodic_at [OF wf r]
  let ?sel = "map (\<lambda>i. of_bool (r mod 512 = i)) [0..<482] :: 'f list"
  have pk: "map (\<lambda>i. ?pub ! (0 + i)) [0..<8] = ps_pk st"
    by (rule nth_equalityI) (use at(5) wf in \<open>simp_all add: wf_pre_public_def\<close>)
  have P_parts: "map (\<lambda>i. ?P ! (0 + i)) [0..<8] = es_m ?ev" "?P ! (8 + 0) = of_nat (unat (ps_b_bar st ! ?i))"
    "map (\<lambda>e. ?P ! (8 + 1 + e)) [0..<8] = fst (es_c ?ev ! ?i)"
    "map (\<lambda>e. ?P ! (8 + 9 + e)) [0..<8] = snd (es_c ?ev ! ?i)"
    "?P ! 25 = of_bool (r mod 512 = 0)" "?P ! (25 + 1) = of_bool (r mod 512 < 481)"
    "?P ! (25 + 2) = of_bool (r mod 512 = 481)" "columns ?P 28 510 = ?sel"
    unfolding P using facts(1) facts(3,4) [OF i]
    by (auto simp: nth_append columns_def nth_Cons' intro!: nth_equalityI simp del: upt_Suc)
  have cols: "columns row 0 (pre_MASK_SUM be) = key"
    "columns row (pre_MASK_SUM be) (pre_SERVER_MASKS be) = mask_sum"
    "columns row (pre_SERVER_MASKS be) (pre_SUM_OF_MASKS be) = s"
    "columns row (pre_SUM_OF_MASKS be) (pre_num_cols be) = t"
    "columns next (pre_SUM_OF_MASKS be) (pre_num_cols be) = t'"
    "columns row 0 (0 + 482) = take 482 key"
    using lengths room by (simp_all add: row nxt columns_def pre_MASK_SUM_def pre_SERVER_MASKS_def
        pre_SUM_OF_MASKS_def pre_num_cols_def)
  have sel: "select_by ?sel (map (\<lambda>i. t ! 0 - take 482 key ! i) [0..<482]) = 0
      \<longleftrightarrow> (r mod 512 < 482 \<longrightarrow> t ! 0 = key ! (r mod 512))"
  proof (cases "r mod 512 < 482")
    case True
    then show ?thesis
      using select_by_one [of "map (\<lambda>i. t ! 0 - take 482 key ! i) [0..<482]" 482 "r mod 512"] by simp
  next
    case False
    then show ?thesis
      using select_none [of "map (\<lambda>i. t ! 0 - take 482 key ! i) [0..<482]" 482 "r mod 512"] by simp
  qed
  have zip: "zip (chunks 12 (columns t 33 225)) (columns mask_sum mask_sum_R_SIGMA mask_sum_RANDOMNESS)
      = map (\<lambda>k. (r_sigma_columns t k, mask_sum ! Suc k)) [0..<16]"
    by (rule nth_equalityI)
      (use r_sigma_chunk [of t] lengths(2,4) room(2) in \<open>simp_all add: columns_def length_chunks div_ceil_def
         mask_sum_R_SIGMA_def mask_sum_RANDOMNESS_def mask_sum_SPONGE_def\<close>)
  have upt: "list_all Q [0..<16] \<longleftrightarrow> (\<forall>k < 16. Q k)" for Q :: "nat \<Rightarrow> bool"
    by (auto simp: list_all_iff)
  have pairs: "list_all (\<lambda>(bits, x). pack_bits_le bits = x) (map (\<lambda>k. (r_sigma_columns t k, mask_sum ! Suc k)) [0..<16])
      \<longleftrightarrow> (\<forall>k < 16. pack_bits_le (r_sigma_columns t k) = mask_sum ! Suc k)"
    by (simp only: list.pred_map comp_def case_prod_conv upt)
  show ?thesis
    unfolding pre_rules_def Let_def pre_constants sums_constants plonky3_constants table_constants RUNS_16
      par_N_def pk P_parts cols sel zip pairs upt pre_row_rules_def ..
qed

end
