(* ===== verification/PreprocessingSound.thy ===== *)
theory PreprocessingSound
  imports PreprocessingRules OnlineSound
begin

text \<open>
  Soundness of the circuit of the preprocessing statement: a table that satisfies it shows that the
  committed mask sums are in range and are the sums of the masks that the client committed to, picked
  and signed by the bits of the committed key.
\<close>

declare of_nat_unat [simp del]

section \<open>The parts of a row\<close>

definition pre_key :: "'f :: idom backend \<Rightarrow> 'f list \<Rightarrow> 'f list" where
  "pre_key be row = take (key_num_cols be) row"
definition pre_mask :: "'f :: idom backend \<Rightarrow> 'f list \<Rightarrow> 'f list" where
  "pre_mask be row = take (mask_sum_num_cols be) (drop (key_num_cols be) row)"
definition pre_s :: "'f :: idom backend \<Rightarrow> 'f list \<Rightarrow> 'f list" where
  "pre_s be row = take (masks_num_cols be) (drop (key_num_cols be + mask_sum_num_cols be) row)"
definition pre_t :: "'f :: idom backend \<Rightarrow> 'f list \<Rightarrow> 'f list" where
  "pre_t be row = drop (key_num_cols be + mask_sum_num_cols be + masks_num_cols be) row"

definition masks_opening :: "'f :: idom backend \<Rightarrow> 'f list \<Rightarrow> 'f list" where
  "masks_opening be row = take 21 (drop 2 (pre_s be row))"

definition pre_openings :: "'f :: idom backend \<Rightarrow> 'f list list \<Rightarrow> (domain \<times> 'f list) set" where
  "pre_openings be rows = shared_openings be rows \<union> (\<lambda>row. (Masks, masks_opening be row)) ` set rows"

lemma pre_openingsI:
  "row \<in> set rows \<Longrightarrow> (Key, key_opening row) \<in> pre_openings be rows"
  "row \<in> set rows \<Longrightarrow> (MaskSum, mask_sum_opening be row) \<in> pre_openings be rows"
  "row \<in> set rows \<Longrightarrow> (Masks, masks_opening be row) \<in> pre_openings be rows"
  by (simp_all add: pre_openings_def shared_openings_def)

lemma pre_row_parts:
  assumes "length row = pre_num_cols be"
  shows "row = pre_key be row @ pre_mask be row @ pre_s be row @ pre_t be row"
    and "length (pre_key be row) = key_num_cols be" and "length (pre_mask be row) = mask_sum_num_cols be"
    and "length (pre_s be row) = masks_num_cols be" and "length (pre_t be row) = 369"
proof -
  have len: "length row = key_num_cols be + mask_sum_num_cols be + masks_num_cols be + 369"
    using assms by (simp add: pre_num_cols_def pre_SUM_OF_MASKS_def pre_SERVER_MASKS_def pre_MASK_SUM_def)
  show "row = pre_key be row @ pre_mask be row @ pre_s be row @ pre_t be row"
    unfolding pre_key_def pre_mask_def pre_s_def pre_t_def drop_drop [symmetric] add.commute [of "key_num_cols be"]
      add.assoc
    by (metis (no_types, lifting) append_take_drop_id drop_drop add.commute add.assoc)
  show "length (pre_key be row) = key_num_cols be" "length (pre_mask be row) = mask_sum_num_cols be"
    "length (pre_s be row) = masks_num_cols be" "length (pre_t be row) = 369"
    using len by (simp_all add: pre_key_def pre_mask_def pre_s_def pre_t_def)
qed

lemma pre_air_row:
  fixes be :: "'f :: idom backend"
  assumes be: "backend_ok be" and wf: "wf_pre_public st"
    and sat: "satisfies (pre_air be (pre_circuit_new st)) rows (pre_public (pre_circuit_new st))"
    and r: "r < length (ps_evaluations st) * 512"
  defines "next \<equiv> rows ! (Suc r mod length rows)"
  shows "length (ps_evaluations st) * 512 \<le> length rows" and "length (rows ! r) = pre_num_cols be"
    and "length next = pre_num_cols be"
    and "pre_row_rules be st r (pre_key be (rows ! r)) (pre_mask be (rows ! r)) (pre_s be (rows ! r))
           (pre_t be (rows ! r)) (pre_t be next)"
proof -
  let ?E = "length (ps_evaluations st)" and ?P = "pre_periodic (pre_circuit_new st)"
  have E: "0 < ?E" using wf by (simp add: wf_pre_public_def)
  note T = table_rows [OF E]
  let ?column = "map (\<lambda>row. pre_public (pre_circuit_new st) ! (pre_B_BAR + block_at row)) [0..<table_rows (pre_evaluations (pre_circuit_new st))]"
  have "?column \<in> set ?P" by (simp add: pre_periodic_def Let_def)
  moreover have "\<forall>column \<in> set ?P. length column dvd length rows"
    using sat by (simp add: satisfies_def pre_air_def list_all_iff)
  ultimately have "length ?column dvd length rows" by blast
  moreover have "rows \<noteq> []" using sat by (simp add: satisfies_def)
  ultimately have "table_rows ?E \<le> length rows" by (simp add: pre_circuit_new_def dvd_imp_le)
  with T show rows: "?E * 512 \<le> length rows" by simp
  have "table_rows ?E \<ge> ?E * 512" by (rule T)
  then have r': "r < table_rows ?E" "r < length rows" using r rows by simp_all
  have "Suc r mod length rows < length rows" using r'(2) by (intro mod_less_divisor) linarith
  then show len: "length (rows ! r) = pre_num_cols be" "length next = pre_num_cols be"
    using sat r' by (simp_all add: satisfies_def pre_air_def list_all_iff next_def)
  have "pre_rules be (rows ! r) next (pre_public (pre_circuit_new st)) (periodic_at ?P r)"
    using sat r' by (simp add: satisfies_def pre_air_def list_all_iff next_def)
  then show "pre_row_rules be st r (pre_key be (rows ! r)) (pre_mask be (rows ! r)) (pre_s be (rows ! r))
           (pre_t be (rows ! r)) (pre_t be next)"
    using pre_rules_at [OF wf r'(1) pre_row_parts(1) [OF len(1)] pre_row_parts(1) [OF len(2)]
        pre_row_parts(2-5) [OF len(1)] pre_row_parts(2-5) [OF len(2)]] wide_room [OF be] by simp
qed

section \<open>An evaluation\<close>

definition masks_in_range :: "zq list list \<Rightarrow> bool" where
  "masks_in_range masks \<longleftrightarrow> wf_masks masks \<and> (\<forall>k < 16. \<forall>i < 482. unat (masks ! i ! k) < 4096)"

definition picked :: "u8 list \<Rightarrow> secret_key \<Rightarrow> ('a \<times> 'a) list \<Rightarrow> nat \<Rightarrow> 'a" where
  "picked b_bar sk c i = (if b_bar ! i = as_bits sk ! i then fst (c ! i) else snd (c ! i))"

definition evaluation_relation ::
  "'f :: idom backend \<Rightarrow> u8 list \<Rightarrow> secret_key \<Rightarrow> ('f digest, 'f digest) evaluation_statement
     \<Rightarrow> zq list \<Rightarrow> 'f list \<Rightarrow> 'f list list \<Rightarrow> bool" where
  "evaluation_relation be b_bar sk ev z rnd masks_openings \<longleftrightarrow>
     length z = 16 \<and> length rnd = 5 \<and> (\<forall>k < 16. unat (z ! k) < 4096) \<and>
     commit_elements be MaskSum (zq_elements z @ rnd) = es_m ev \<and>
     length masks_openings = 482 \<and>
     (\<forall>i < 482. length (masks_openings ! i) = 21 \<and>
        commit_elements be Masks (masks_openings ! i) = picked b_bar sk (es_c ev) i) \<and>
     (\<forall>masks. masks_in_range masks \<and> (\<forall>i < 482. take 16 (masks_openings ! i) = zq_elements (masks ! i)) \<longrightarrow>
        (\<forall>k < 16. r_sigma_sum sk (column k masks) = Some (z ! k)))"

text \<open>The key of every row is the same.\<close>

lemma pre_key_unique:
  fixes be :: "'f :: idom backend"
  assumes bb: "baby_bear TYPE('f)" and be: "backend_ok be" and wf: "wf_pre_public st"
    and sat: "satisfies (pre_air be (pre_circuit_new st)) rows (pre_public (pre_circuit_new st))"
    and bind: "binding be (pre_openings be rows)"
  obtains bs where "length bs = 482" "key_commit be (key_of bs) = ps_pk st"
    "(Key, key_elements (pack_key (key_of bs))) \<in> pre_openings be rows"
    "\<And>r. r < length (ps_evaluations st) * 512 \<Longrightarrow> take 482 (pre_key be (rows ! r)) = map of_bool bs"
proof -
  let ?n = "length (ps_evaluations st) * 512"
  have pk: "length (ps_pk st) = 8" using wf by (simp add: wf_pre_public_def)
  have row: "\<exists>bs. length bs = 482 \<and> take 482 (pre_key be (rows ! r)) = map of_bool bs \<and>
      key_commit be (key_of bs) = ps_pk st \<and> rows ! r \<in> set rows \<and>
      key_opening (rows ! r) = key_elements (pack_key (key_of bs))" if r: "r < ?n" for r
  proof -
    note air = pre_air_row [OF be wf sat r]
    note parts = pre_row_parts [OF air(2)]
    have rules: "key_rules be (pre_key be (rows ! r)) (ps_pk st)"
      using air(4) by (simp add: pre_row_rules_def Let_def)
    have "key_opening (rows ! r) = take 17 (drop 483 (pre_key be (rows ! r)))"
      using arg_cong [OF parts(1), of key_opening] parts(2) wide_room(1) [OF be] by (simp add: key_opening_def)
    moreover have "rows ! r \<in> set rows" using air(1) r by simp
    ultimately show ?thesis
      using key_rules_sound [OF be rules _ pk] parts(2) by (metis order_refl)
  qed
  have "0 < ?n" using wf by (simp add: wf_pre_public_def)
  from row [OF this] obtain bs where bs: "length bs = 482" "key_commit be (key_of bs) = ps_pk st"
    "rows ! 0 \<in> set rows" "key_opening (rows ! 0) = key_elements (pack_key (key_of bs))" by blast
  show ?thesis
  proof (rule that [OF bs(1,2)])
    show "(Key, key_elements (pack_key (key_of bs))) \<in> pre_openings be rows"
      using pre_openingsI(1) [OF bs(3), of be] bs(4) by simp
    fix r assume "r < ?n"
    from row [OF this] obtain cs where cs: "length cs = 482" "take 482 (pre_key be (rows ! r)) = map of_bool cs"
      "key_commit be (key_of cs) = ps_pk st" "rows ! r \<in> set rows"
      "key_opening (rows ! r) = key_elements (pack_key (key_of cs))" by blast
    have "key_opening (rows ! r) = key_opening (rows ! 0)"
      by (rule bindingD [OF bind pre_openingsI(1) [OF cs(4)] pre_openingsI(1) [OF bs(3)]])
        (use bs cs in \<open>simp add: key_commit_def\<close>)
    then have "cs = bs" using key_elements_inj [OF bb cs(1) bs(1)] cs(5) bs(4) by simp
    with cs(2) show "take 482 (pre_key be (rows ! r)) = map of_bool bs" by simp
  qed
qed

lemma bit_at: "b \<le> (1 :: u8) \<Longrightarrow> of_nat (unat b) = (of_bool (b = 1) :: 'f :: idom)"
  using u8_bit [of b] by auto

text \<open>What the rules say of the rows of one evaluation, in which row \<open>i\<close> is that of block \<open>i\<close>.\<close>

definition evaluation_rows ::
  "'f :: idom backend \<Rightarrow> 'f pre_statement \<Rightarrow> bool list \<Rightarrow> nat \<Rightarrow> (nat \<Rightarrow> 'f list) \<Rightarrow> bool" where
  "evaluation_rows be st bs v R \<longleftrightarrow> (let ev = ps_evaluations st ! v in \<forall>i < 482.
     length (R i) = pre_num_cols be \<and> mask_sum_rules be (pre_mask be (R i)) (es_m ev) \<and>
     masks_rules be (pre_s be (R i)) (of_bool (ps_b_bar st ! i = 1)) (fst (es_c ev ! i)) (snd (es_c ev ! i)) \<and>
     sums_rules (pre_t be (R i)) (pre_t be (R (Suc i))) (of_bool (i = 0)) (of_bool (i < 481)) (of_bool (i = 481)) \<and>
     pre_t be (R i) ! 0 = of_bool (bs ! i) \<and> pre_s be (R i) ! 0 = of_bool (bs ! i) \<and>
     (\<forall>k < 16. pre_s be (R i) ! (2 + k) = pre_t be (R i) ! (1 + k)) \<and>
     (\<forall>k < 16. pack_bits_le (r_sigma_columns (pre_t be (R i)) k) = pre_mask be (R i) ! Suc k))"

lemma evaluation_rowsD:
  assumes "evaluation_rows be st bs v R" and "i < 482"
  shows "length (R i) = pre_num_cols be" and "mask_sum_rules be (pre_mask be (R i)) (es_m (ps_evaluations st ! v))"
    and "masks_rules be (pre_s be (R i)) (of_bool (ps_b_bar st ! i = 1))
      (fst (es_c (ps_evaluations st ! v) ! i)) (snd (es_c (ps_evaluations st ! v) ! i))"
    and "sums_rules (pre_t be (R i)) (pre_t be (R (Suc i))) (of_bool (i = 0)) (of_bool (i < 481)) (of_bool (i = 481))"
    and "pre_t be (R i) ! 0 = of_bool (bs ! i)" and "pre_s be (R i) ! 0 = of_bool (bs ! i)"
    and "k < 16 \<Longrightarrow> pre_s be (R i) ! (2 + k) = pre_t be (R i) ! (1 + k)"
    and "k < 16 \<Longrightarrow> pack_bits_le (r_sigma_columns (pre_t be (R i)) k) = pre_mask be (R i) ! Suc k"
  using assms unfolding evaluation_rows_def Let_def by blast+

lemma evaluation_rowsI:
  fixes be :: "'f :: idom backend"
  assumes be: "backend_ok be" and wf: "wf_pre_public st"
    and sat: "satisfies (pre_air be (pre_circuit_new st)) rows (pre_public (pre_circuit_new st))"
    and bs: "length bs = 482"
    and keys: "\<And>r. r < length (ps_evaluations st) * 512 \<Longrightarrow> take 482 (pre_key be (rows ! r)) = map of_bool bs"
    and v: "v < length (ps_evaluations st)"
  shows "evaluation_rows be st bs v (\<lambda>i. rows ! (v * 512 + i))"
  unfolding evaluation_rows_def Let_def
proof (intro allI impI)
  let ?E = "length (ps_evaluations st)"
  fix i :: nat assume i: "i < 482"
  have r: "v * 512 + j < ?E * 512" if "j < 512" for j
  proof -
    have "v * 512 + 512 \<le> ?E * 512" using v by simp
    with that show ?thesis by linarith
  qed
  have at: "evaluation_at (v * 512 + i) ?E = v" "block_at (v * 512 + i) = i" "(v * 512 + i) mod 512 = i"
    using v i by (simp_all add: evaluation_at_def block_at_def par_N_def)
  note air = pre_air_row [OF be wf sat r [of i]]
  have "v * 512 + Suc i < length rows" using air(1) r [of "Suc i"] i by simp
  then have nxt: "rows ! (Suc (v * 512 + i) mod length rows) = rows ! (v * 512 + Suc i)" by simp
  have "ps_b_bar st ! i \<le> 1" using wf i by (simp add: wf_pre_public_def par_N_def)
  note b_bar = bit_at [OF this, where 'f = 'f]
  have "pre_key be (rows ! (v * 512 + i)) ! i = take 482 (pre_key be (rows ! (v * 512 + i))) ! i" using i by simp
  then have "pre_key be (rows ! (v * 512 + i)) ! i = of_bool (bs ! i)" using keys [OF r [of i]] i bs by simp
  then show "length (rows ! (v * 512 + i)) = pre_num_cols be \<and>
     mask_sum_rules be (pre_mask be (rows ! (v * 512 + i))) (es_m (ps_evaluations st ! v)) \<and>
     masks_rules be (pre_s be (rows ! (v * 512 + i))) (of_bool (ps_b_bar st ! i = 1))
       (fst (es_c (ps_evaluations st ! v) ! i)) (snd (es_c (ps_evaluations st ! v) ! i)) \<and>
     sums_rules (pre_t be (rows ! (v * 512 + i))) (pre_t be (rows ! (v * 512 + Suc i)))
       (of_bool (i = 0)) (of_bool (i < 481)) (of_bool (i = 481)) \<and>
     pre_t be (rows ! (v * 512 + i)) ! 0 = of_bool (bs ! i) \<and> pre_s be (rows ! (v * 512 + i)) ! 0 = of_bool (bs ! i) \<and>
     (\<forall>k < 16. pre_s be (rows ! (v * 512 + i)) ! (2 + k) = pre_t be (rows ! (v * 512 + i)) ! (1 + k)) \<and>
     (\<forall>k < 16. pack_bits_le (r_sigma_columns (pre_t be (rows ! (v * 512 + i))) k) = pre_mask be (rows ! (v * 512 + i)) ! Suc k)"
    using air(2,4) i unfolding pre_row_rules_def Let_def at nxt b_bar by simp
qed

text \<open>The sums that the last row packs are what \<open>m\<close> commits to, in range.\<close>

lemma evaluation_mask_sum:
  fixes be :: "'f :: idom backend"
  assumes be: "backend_ok be" and wf: "wf_pre_public st" and v: "v < length (ps_evaluations st)"
    and R: "evaluation_rows be st bs v R"
  obtains z :: "zq list" where "length z = 16" "\<forall>k < 16. unat (z ! k) < 4096"
    "\<forall>k < 16. pack_bits_le (r_sigma_columns (pre_t be (R 481)) k) = of_nat (unat (z ! k))"
    "mask_sum_opening be (R 481) = zq_elements z @ drop 16 (mask_sum_opening be (R 481))"
    "length (mask_sum_opening be (R 481)) = 21"
    "commit_elements be MaskSum (mask_sum_opening be (R 481)) = es_m (ps_evaluations st ! v)"
proof -
  note row = evaluation_rowsD [OF R, of 481, simplified] and parts = pre_row_parts [OF evaluation_rowsD(1) [OF R, of 481, simplified]]
  let ?r = "\<lambda>k. pack_bits_le (r_sigma_columns (pre_t be (R 481)) k)"
  have "\<exists>z. ?r k = of_nat (unat z) \<and> unat (z :: zq) < 4096" if k: "k < 16" for k
  proof -
    from sums_bits [OF row(4) _ k] parts(5) obtain rs where "?r k = of_nat (bits_nat rs)" "bits_nat rs < 4096" by auto
    then show ?thesis by (intro exI [of _ "of_nat (bits_nat rs)"]) (simp add: unat_of_nat_u16)
  qed
  then obtain zf where zf: "\<And>k. k < 16 \<Longrightarrow> ?r k = of_nat (unat (zf k)) \<and> unat (zf k :: zq) < 4096" by metis
  let ?z = "map zf [0..<16]" and ?M = "mask_sum_opening be (R 481)"
  have M: "?M = take 21 (drop 1 (pre_mask be (R 481)))"
    using arg_cong [OF parts(1), of "mask_sum_opening be"] parts(2,3) wide_room(2) [OF be] by (simp add: mask_sum_opening_def)
  have length_M: "length ?M = 21" using parts(3) wide_room(2) [OF be] by (simp add: M)
  have "take 16 ?M = zq_elements ?z"
  proof (rule nth_equalityI)
    show "length (take 16 ?M) = length (zq_elements ?z :: 'f list)" using length_M by simp
    fix k assume "k < length (take 16 ?M)"
    then have k: "k < 16" by simp
    have "take 16 ?M ! k = pre_mask be (R 481) ! Suc k" using k parts(3) wide_room(2) [OF be] by (simp add: M)
    also have "\<dots> = of_nat (unat (zf k))" using row(8) [OF k] zf [OF k] by simp
    finally show "take 16 ?M ! k = zq_elements ?z ! k" using k by (simp add: zq_elements_def)
  qed
  then have split: "?M = zq_elements ?z @ drop 16 ?M" by (metis append_take_drop_id)
  have "commit_elements be MaskSum ?M = es_m (ps_evaluations st ! v)"
    unfolding M by (rule mask_sum_rules_sound [OF be row(2)]) (use parts(3) wf_pre_evaluation(1) [OF wf v] in simp_all)
  from that [OF _ _ _ split length_M this] zf show ?thesis by simp
qed

text \<open>The masks of block \<open>i\<close> are the ones that the key's bit picks.\<close>

lemma evaluation_masks:
  fixes be :: "'f :: idom backend"
  assumes be: "backend_ok be" and wf: "wf_pre_public st" and v: "v < length (ps_evaluations st)"
    and R: "evaluation_rows be st bs v R" and bs: "length bs = 482" and i: "i < 482"
  shows "length (masks_opening be (R i)) = 21"
    and "commit_elements be Masks (masks_opening be (R i)) = picked (ps_b_bar st) (key_of bs) (es_c (ps_evaluations st ! v)) i"
proof -
  let ?s = "pre_s be (R i)" and ?ev = "ps_evaluations st ! v"
  note row = evaluation_rowsD [OF R i] and parts = pre_row_parts [OF evaluation_rowsD(1) [OF R i]]
  have room: "23 \<le> length ?s"
    using parts(4) backend_okD(1) [OF be] by (simp add: masks_num_cols_def masks_SPONGE_def masks_SK_I_def poseidon2_ok_def)
  then show "length (masks_opening be (R i)) = 21" by (simp add: masks_opening_def)
  obtain sb where sb: "?s ! 0 = of_bool sb"
    "commit_elements be Masks (take 21 (drop 2 ?s)) = (if (ps_b_bar st ! i = 1) = sb then fst (es_c ?ev ! i) else snd (es_c ?ev ! i))"
    by (rule masks_rules_sound [OF be row(3)]) (use parts(4) wf_pre_evaluation(3,4) [OF wf v i] in simp_all)
  have "(of_bool sb :: 'f) = of_bool (bs ! i)" using sb(1) row(6) by simp
  then have "sb = bs ! i" by (cases sb; cases "bs ! i") simp_all
  moreover have "ps_b_bar st ! i \<le> 1" using wf i by (simp add: wf_pre_public_def par_N_def)
  then have "ps_b_bar st ! i = as_bits (key_of bs) ! i \<longleftrightarrow> (ps_b_bar st ! i = 1) = bs ! i"
    using u8_bit [of "ps_b_bar st ! i"] i bs by (auto simp: key_of_def)
  ultimately show "commit_elements be Masks (masks_opening be (R i)) = picked (ps_b_bar st) (key_of bs) (es_c ?ev) i"
    using sb(2) by (simp add: masks_opening_def picked_def)
qed

text \<open>The last row packs the signed sum of the masks that were opened.\<close>

lemma evaluation_sums:
  fixes be :: "'f :: idom backend"
  assumes bb: "baby_bear TYPE('f)" and R: "evaluation_rows be st bs v R" and bs: "length bs = 482"
    and len: "\<And>i. i < 482 \<Longrightarrow> length (masks_opening be (R i)) = 21"
    and masks: "masks_in_range masks" and eq: "\<forall>i < 482. take 16 (masks_opening be (R i)) = zq_elements (masks ! i)"
    and k: "k < 16"
  shows "\<exists>z. r_sigma_sum (key_of bs) (column k masks) = Some z \<and>
    pack_bits_le (r_sigma_columns (pre_t be (R 481)) k) = of_nat (unat z)"
proof (rule sums_rules_sound [OF bb, of "\<lambda>i. pre_t be (R i)" bs masks k])
  note row = evaluation_rowsD [OF R]
  show "\<forall>i < 482. unat (masks ! i ! k) < 4096" "wf_masks masks" using masks k by (auto simp: masks_in_range_def)
  then have sixteen: "length (masks ! i) = 16" if "i < 482" for i using that by (simp add: wf_masks_def par_N_def)
  show "pre_t be (R i) ! (1 + k) = of_nat (unat (masks ! i ! k))" if i: "i < 482" for i
  proof -
    have "pre_t be (R i) ! (1 + k) = pre_s be (R i) ! (2 + k)" using row(7) [OF i k] by simp
    also have "\<dots> = take 16 (masks_opening be (R i)) ! k"
      using k len [OF i] by (simp add: masks_opening_def min_def split: if_splits)
    also have "\<dots> = of_nat (unat (masks ! i ! k))" using eq i k sixteen [OF i] by (simp add: zq_elements_def)
    finally show ?thesis .
  qed
  show "369 \<le> length (pre_t be (R i))" if "i < 482" for i using pre_row_parts(5) [OF row(1) [OF that]] by simp
qed (use evaluation_rowsD [OF R] bs k in blast)+

lemma evaluation_sound:
  fixes be :: "'f :: idom backend"
  assumes bb: "baby_bear TYPE('f)" and be: "backend_ok be" and wf: "wf_pre_public st" and v: "v < length (ps_evaluations st)"
    and R: "evaluation_rows be st bs v R" and bs: "length bs = 482"
  shows "\<exists>z rnd. evaluation_relation be (ps_b_bar st) (key_of bs) (ps_evaluations st ! v) z rnd
      (map (\<lambda>i. masks_opening be (R i)) [0..<482])
    \<and> zq_elements z @ rnd = mask_sum_opening be (R 481)"
proof -
  note masks = evaluation_masks [OF be wf v R bs]
  obtain z :: "zq list" where z: "length z = 16" "\<forall>k < 16. unat (z ! k) < 4096"
    "\<forall>k < 16. pack_bits_le (r_sigma_columns (pre_t be (R 481)) k) = of_nat (unat (z ! k))"
    "mask_sum_opening be (R 481) = zq_elements z @ drop 16 (mask_sum_opening be (R 481))"
    "length (mask_sum_opening be (R 481)) = 21"
    "commit_elements be MaskSum (mask_sum_opening be (R 481)) = es_m (ps_evaluations st ! v)"
    by (rule evaluation_mask_sum [OF be wf v R])
  have sums: "r_sigma_sum (key_of bs) (column k ms) = Some (z ! k)"
    if ms: "masks_in_range ms" "\<forall>i < 482. take 16 (masks_opening be (R i)) = zq_elements (ms ! i)" and k: "k < 16" for ms k
  proof -
    obtain x where x: "r_sigma_sum (key_of bs) (column k ms) = Some x"
      "pack_bits_le (r_sigma_columns (pre_t be (R 481)) k) = of_nat (unat x)"
      using evaluation_sums [OF bb R bs masks(1) ms k] by blast
    then have "unat x = unat (z ! k)"
      using z(2,3) k of_nat_eq [OF bb, of "unat x" "unat (z ! k)"] unat_u16_less [of x] unat_u16_less [of "z ! k"] by (simp add: ORDER_U32)
    with x(1) show ?thesis by (simp add: word_unat_eq_iff)
  qed
  let ?rnd = "drop 16 (mask_sum_opening be (R 481))"
  have "evaluation_relation be (ps_b_bar st) (key_of bs) (ps_evaluations st ! v) z ?rnd
      (map (\<lambda>i. masks_opening be (R i)) [0..<482])"
    unfolding evaluation_relation_def z(4) [symmetric]
    using z(1,2,5,6) masks sums by (simp del: upt_Suc)
  with z(4) show ?thesis by metis
qed

section \<open>The table\<close>

definition pre_relation ::
  "'f :: idom backend \<Rightarrow> (domain \<times> 'f list) set \<Rightarrow> 'f pre_statement \<Rightarrow> secret_key \<Rightarrow> bool" where
  "pre_relation be openings st sk \<longleftrightarrow> wf_key sk \<and> (Key, key_elements (pack_key sk)) \<in> openings \<and>
     key_commit be sk = ps_pk st \<and>
     (\<forall>v < length (ps_evaluations st). \<exists>z rnd masks_openings.
        evaluation_relation be (ps_b_bar st) sk (ps_evaluations st ! v) z rnd masks_openings \<and>
        (MaskSum, zq_elements z @ rnd) \<in> openings \<and> (\<forall>i < 482. (Masks, masks_openings ! i) \<in> openings))"

text \<open>The key in a table.\<close>

definition table_key :: "'f :: idom list list \<Rightarrow> secret_key" where
  "table_key rows = key_of (map (\<lambda>x. x = 1) (take 482 (rows ! 0)))"

lemma pre_air_sound:
  fixes be :: "'f :: idom backend"
  assumes bb: "baby_bear TYPE('f)" and be: "backend_ok be" and wf: "wf_pre_public st"
    and sat: "satisfies (pre_air be (pre_circuit_new st)) rows (pre_public (pre_circuit_new st))"
    and bind: "binding be (pre_openings be rows)"
  shows "pre_relation be (pre_openings be rows) st (table_key rows)"
proof -
  let ?E = "length (ps_evaluations st)"
  have E: "0 < ?E" using wf by (simp add: wf_pre_public_def)
  obtain bs where bs: "length bs = 482" "key_commit be (key_of bs) = ps_pk st"
    "(Key, key_elements (pack_key (key_of bs))) \<in> pre_openings be rows"
    "\<And>r. r < ?E * 512 \<Longrightarrow> take 482 (pre_key be (rows ! r)) = map of_bool bs"
    by (rule pre_key_unique [OF bb be wf sat bind]) (rule that)
  have row0: "take 482 (rows ! 0) = map of_bool bs"
    using bs(4) [of 0] E wide_room(1) [OF be] by (simp add: pre_key_def min_absorb1)
  have "map (\<lambda>x. x = 1) (map of_bool bs :: 'f list) = bs" by (induction bs) auto
  with row0 have key: "table_key rows = key_of bs" by (simp add: table_key_def)
  have "\<exists>z rnd os. evaluation_relation be (ps_b_bar st) (key_of bs) (ps_evaluations st ! v) z rnd os \<and>
      (MaskSum, zq_elements z @ rnd) \<in> pre_openings be rows \<and> (\<forall>i < 482. (Masks, os ! i) \<in> pre_openings be rows)"
    if v: "v < ?E" for v
  proof -
    let ?os = "map (\<lambda>i. masks_opening be (rows ! (v * 512 + i))) [0..<482]"
    obtain z rnd where z: "evaluation_relation be (ps_b_bar st) (key_of bs) (ps_evaluations st ! v) z rnd ?os"
      "zq_elements z @ rnd = mask_sum_opening be (rows ! (v * 512 + 481))"
      using evaluation_sound [OF bb be wf v evaluation_rowsI [OF be wf sat bs(1,4) v] bs(1)] by blast
    have mem: "rows ! (v * 512 + i) \<in> set rows" if "i < 482" for i
    proof -
      have "v * 512 + 512 \<le> ?E * 512" using v by simp
      moreover have "?E * 512 \<le> length rows" using pre_air_row(1) [OF be wf sat, of 0] E by simp
      ultimately have "v * 512 + i < length rows" using that by linarith
      then show ?thesis by simp
    qed
    have "(MaskSum, zq_elements z @ rnd) \<in> pre_openings be rows"
      unfolding z(2) by (rule pre_openingsI(2) [OF mem]) simp
    moreover have "(Masks, ?os ! i) \<in> pre_openings be rows" if "i < 482" for i
      using pre_openingsI(3) [OF mem [OF that], of be] that by simp
    ultimately show ?thesis using z(1) by blast
  qed
  with bs(1-3) key wf_key_of [OF bs(1)] show ?thesis by (simp add: pre_relation_def)
qed

end
