(* ===== verification/PreprocessingComplete.thy ===== *)
theory PreprocessingComplete
  imports PreprocessingSound
begin

text \<open>
  Completeness of the circuit of the preprocessing statement: the table of a prover whose witness the
  statement holds for satisfies it.
\<close>

declare of_nat_unat [simp del]

section \<open>The rows of one evaluation\<close>

lemma picked_bit:
  assumes "b_bar \<le> (1 :: u8)" and "sk \<le> (1 :: u8)"
  shows "(if b_bar XOR sk = 0 then x = z else b_bar XOR sk = 1 \<and> y = z)
    \<longleftrightarrow> (if (b_bar = 1) = (sk = 1) then x else y) = z"
  using u8_bit [OF assms(1)] u8_bit [OF assms(2)] by auto

text \<open>What the columns of a prover hold whose witness the statement holds for: those of \<open>m\<close>, and those of
  the server's masks in the row of a block.\<close>

definition honest_mask_sum ::
  "'f :: idom backend \<Rightarrow> ('f digest, 'f digest) evaluation_statement \<Rightarrow> evaluation_witness \<Rightarrow> 'f list \<Rightarrow> bool" where
  "honest_mask_sum be ev ew m \<longleftrightarrow> length m = mask_sum_num_cols be \<and> mask_sum_rules be m (es_m ev) \<and>
     (\<forall>k < 16. m ! Suc k = of_nat (unat (ew_r_sigma_sums ew ! k))) \<and>
     take 21 (drop 1 m) = mask_sum_elements (ew_r_sigma_sums ew) (ew_m_randomness ew)"

definition honest_masks ::
  "'f :: idom backend \<Rightarrow> u8 list \<Rightarrow> secret_key \<Rightarrow> commitment_randomness list
     \<Rightarrow> ('f digest, 'f digest) evaluation_statement \<Rightarrow> evaluation_witness \<Rightarrow> nat \<Rightarrow> 'f list \<Rightarrow> bool" where
  "honest_masks be b_bar sk ot_blocks ev ew i row \<longleftrightarrow> length row = masks_num_cols be \<and> row ! 0 = of_bool (key_bits sk ! i) \<and>
     (\<forall>k < 16. row ! (2 + k) = of_nat (unat (ew_masks ew ! i ! k))) \<and>
     masks_rules be row (of_nat (unat (b_bar ! i))) (fst (es_c ev ! i)) (snd (es_c ev ! i)) \<and>
     take 21 (drop 2 row) = masks_elements (ew_masks ew ! i) (ot_blocks ! i)"

lemma honest_mask_sum_row:
  fixes be :: "'f :: idom backend"
  assumes be: "backend_ok be" and w: "wf_evaluation_witness ew"
    and m: "mask_sum_holds (mask_sum_commit be) (es_m ev) (ew_r_sigma_sums ew) (ew_m_randomness ew)"
  shows "\<exists>m. mask_sum_row be (ew_r_sigma_sums ew) (ew_m_randomness ew) = Some m \<and> honest_mask_sum be ev ew m"
proof -
  let ?sums = "ew_r_sigma_sums ew"
  have len: "length ?sums = 16" using w by (simp add: wf_evaluation_witness_def)
  obtain m where m': "mask_sum_row be ?sums (ew_m_randomness ew) = Some m" "length m = mask_sum_num_cols be"
    "take 21 (drop 1 m) = mask_sum_elements ?sums (ew_m_randomness ew)"
    "\<And>rest. mask_sum_rules be (m @ rest)
       (mask_sum_commit be \<lparr> msi_r_sigma_sums = ?sums, msi_randomness = ew_m_randomness ew \<rparr>)"
    by (rule mask_sum_row_complete [OF be len]) (rule that)
  have "m ! Suc k = of_nat (unat (?sums ! k))" if k: "k < 16" for k
  proof -
    have "m ! Suc k = take 21 (drop 1 m) ! k" using k m'(2) wide_room(2) [OF be] by simp
    also have "\<dots> = of_nat (unat (?sums ! k))"
      using k len unfolding m'(3) by (simp add: mask_sum_elements_def zq_elements_def nth_append)
    finally show ?thesis .
  qed
  then show ?thesis
    using m' m'(4) [of "[]"] m by (simp add: honest_mask_sum_def mask_sum_holds_def)
qed

lemma honest_masks_row:
  fixes be :: "'f :: idom backend"
  assumes be: "backend_ok be" and sk: "wf_key sk" and wf: "wf_pre_public st" and v: "v < length (ps_evaluations st)"
    and w: "wf_masks (ew_masks ew)" and i: "i < 482"
    and holds: "server_masks_holds (masks_commit be) (es_c (ps_evaluations st ! v)) (ps_b_bar st) sk (ew_masks ew) ot_blocks"
  shows "\<exists>row. masks_row be (as_bits sk ! i) (ew_masks ew ! i) (ot_blocks ! i) = Some row \<and>
    honest_masks be (ps_b_bar st) sk ot_blocks (ps_evaluations st ! v) ew i row"
proof -
  let ?ev = "ps_evaluations st ! v" and ?masks = "ew_masks ew ! i" and ?b = "ps_b_bar st ! i" and ?s = "as_bits sk ! i"
  have len: "length ?masks = 16" using w i by (simp add: wf_masks_def par_N_def)
  have b: "?b \<le> 1" using wf i by (simp add: wf_pre_public_def par_N_def)
  have s: "?s \<le> 1" and length_sk: "length (as_bits sk) = 482" using sk i by (simp_all add: wf_key_def par_N_def)
  have "(if ?b XOR ?s = 0 then fst (es_c ?ev ! i) = masks_commit be \<lparr> mi_masks = ?masks, mi_randomness = ot_blocks ! i \<rparr>
      else ?b XOR ?s = 1 \<and> snd (es_c ?ev ! i) = masks_commit be \<lparr> mi_masks = ?masks, mi_randomness = ot_blocks ! i \<rparr>)"
    using holds i by (simp add: server_masks_holds_def list_all_iff Let_def par_N_def)
  then have pick: "(if (?b = 1) = (?s = 1) then fst (es_c ?ev ! i) else snd (es_c ?ev ! i))
      = masks_commit be \<lparr> mi_masks = ?masks, mi_randomness = ot_blocks ! i \<rparr>"
    by (simp only: picked_bit [OF b s])
  obtain row where row: "masks_row be (of_bool (?s = 1)) ?masks (ot_blocks ! i) = Some row"
    "length row = masks_num_cols be" "row ! 0 = of_bool (?s = 1)"
    "take 21 (drop 2 row) = masks_elements ?masks (ot_blocks ! i)"
    "\<And>rest. masks_rules be (row @ rest) (of_bool (?b = 1)) (fst (es_c ?ev ! i)) (snd (es_c ?ev ! i))"
    by (rule masks_row_complete [OF be len wf_pre_evaluation(3,4) [OF wf v i] pick]) (rule that)
  have "row ! (2 + k) = of_nat (unat (?masks ! k))" if k: "k < 16" for k
  proof -
    have "23 \<le> length row"
      using row(2) backend_okD(1) [OF be] by (simp add: masks_num_cols_def masks_SPONGE_def masks_SK_I_def poseidon2_ok_def)
    then have "row ! (2 + k) = take 21 (drop 2 row) ! k" using k by simp
    also have "\<dots> = of_nat (unat (?masks ! k))"
      using k len unfolding row(4) by (simp add: masks_elements_def zq_elements_def nth_append)
    finally show ?thesis .
  qed
  then have masks: "\<forall>k < 16. row ! (2 + k) = of_nat (unat (?masks ! k))" by blast
  have "of_bool (?s = 1) = ?s" using u8_bit [OF s] by auto
  with row(1) have trace: "masks_row be ?s ?masks (ot_blocks ! i) = Some row" by (simp only:)
  have bit: "key_bits sk ! i = (?s = 1)" using length_sk i by (simp add: key_bits_def)
  have rules: "masks_rules be row (of_nat (unat ?b)) (fst (es_c ?ev ! i)) (snd (es_c ?ev ! i))"
    using row(5) [of "[]"] by (simp only: bit_at [OF b] append_Nil2)
  show ?thesis
    unfolding honest_masks_def using trace row(2-4) masks rules by (intro exI [of _ row]) (simp only: bit simp_thms)
qed

lemma honest_masks_table:
  fixes be :: "'f :: idom backend"
  assumes "backend_ok be" and "wf_key sk" and "wf_pre_public st" and "v < length (ps_evaluations st)"
    and "wf_masks (ew_masks ew)"
    and "server_masks_holds (masks_commit be) (es_c (ps_evaluations st ! v)) (ps_b_bar st) sk (ew_masks ew) ot_blocks"
  shows "\<exists>s. masks_trace be sk (ew_masks ew) ot_blocks = Some s \<and>
    (\<forall>r < 512. honest_masks be (ps_b_bar st) sk ot_blocks (ps_evaluations st ! v) ew (min r 481) (s ! r))"
proof -
  let ?f = "\<lambda>row. let i = min row (par_N - 1) in masks_row be (as_bits sk ! i) (ew_masks ew ! i) (ot_blocks ! i)"
  let ?P = "\<lambda>r. honest_masks be (ps_b_bar st) sk ot_blocks (ps_evaluations st ! v) ew (min r 481)"
  have "\<exists>row. ?f r = Some row \<and> ?P r row" for r
    using honest_masks_row [OF assms(1-5) min.strict_coboundedI2 assms(6), of 481 r] by (simp add: par_N_def Let_def)
  from opt_map_upt [of 512 ?f ?P, OF this] obtain s where "opt_map ?f [0..<512] = Some s" "\<forall>r < 512. ?P r (s ! r)" by blast
  then show ?thesis by (intro exI [of _ s]) (simp only: masks_trace_def table_constants simp_thms)
qed

text \<open>The masks of such a witness are in range, and the sums are theirs.\<close>

lemma honest_sums:
  assumes w: "wf_masks (ew_masks ew)" and holds: "sum_of_masks_holds sk (ew_masks ew) (ew_r_sigma_sums ew)"
  shows "\<forall>k < 16. \<forall>i < 482. unat (ew_masks ew ! i ! k) < 4096"
    and "k < 16 \<Longrightarrow> r_sigma_sum sk (column k (ew_masks ew)) = Some (ew_r_sigma_sums ew ! k)"
proof -
  have sums: "\<forall>row \<in> set (ew_masks ew). \<forall>r \<in> set row. unat r < 4096"
    "\<forall>k < 16. r_sigma_sum sk (column k (ew_masks ew)) = Some (ew_r_sigma_sums ew ! k)"
    using holds by (auto simp: sum_of_masks_holds_def list_all_iff less_par_Q)
  then show "k < 16 \<Longrightarrow> r_sigma_sum sk (column k (ew_masks ew)) = Some (ew_r_sigma_sums ew ! k)" by blast
  show "\<forall>k < 16. \<forall>i < 482. unat (ew_masks ew ! i ! k) < 4096"
    using sums(1) w unfolding wf_masks_def par_N_def by (metis RUNS_16 nth_mem)
qed

section \<open>The table\<close>

lemma opt_map_nth:
  assumes "length xs = n" and "\<And>v. v < n \<Longrightarrow> \<exists>y. f (xs ! v) = Some y \<and> P v y"
  shows "\<exists>ys. opt_map f xs = Some ys \<and> length ys = n \<and> (\<forall>v < n. P v (ys ! v))"
proof -
  have "opt_map f xs = opt_map (\<lambda>v. f (xs ! v)) [0..<n]"
    using opt_map_map [of f "\<lambda>v. xs ! v" "[0..<n]"] map_nth [of xs] assms(1) by (simp add: comp_def)
  then show ?thesis using opt_map_upt [of n "\<lambda>v. f (xs ! v)" P] assms(2) by simp
qed

text \<open>A row and the one after it are in the same evaluation, where a rule reads both.\<close>

lemma next_row:
  assumes "r < T" and "512 dvd T" and "r mod 512 < 481"
  shows "Suc r < T" and "Suc r mod 512 = Suc (r mod 512)" and "Suc r div 512 = r div 512"
proof -
  show mod: "Suc r mod 512 = Suc (r mod 512)" using assms(3) by (simp add: mod_Suc)
  have "Suc r \<noteq> T" using mod assms(2) by (auto simp: dvd_eq_mod_eq_0)
  with assms(1) show "Suc r < T" by simp
  show "Suc r div 512 = r div 512" using mod by (simp add: div_Suc)
qed

text \<open>The openings in the table of an honest prover are its witness.\<close>

definition pre_honest_openings :: "preprocessing_witness \<Rightarrow> (domain \<times> 'f :: idom list) set" where
  "pre_honest_openings w = {(Key, key_elements (pack_key (pw_sk w)))}
     \<union> (\<Union>ew \<in> set (pw_evaluations w). {(MaskSum, mask_sum_elements (ew_r_sigma_sums ew) (ew_m_randomness ew))}
         \<union> (\<Union>i < 482. {(Masks, masks_elements (ew_masks ew ! i) (pw_ot_blocks w ! i))}))"

text \<open>A row of an honest prover, from the columns of the key, of every evaluation's \<open>m\<close> and of every block's masks,
  and what these hold.\<close>

definition honest_pre_row ::
  "preprocessing_witness \<Rightarrow> nat \<Rightarrow> 'f :: idom list \<Rightarrow> 'f list list \<Rightarrow> 'f list list list \<Rightarrow> nat \<Rightarrow> 'f list" where
  "honest_pre_row w E key ms ss r = (let v = evaluation_at r E; i = r mod 512
     in key @ ms ! v @ ss ! v ! i @ sums_rows (pw_sk w) (ew_masks (pw_evaluations w ! v)) ! i)"

definition honest_pre_columns ::
  "'f :: idom backend \<Rightarrow> 'f pre_statement \<Rightarrow> preprocessing_witness \<Rightarrow> 'f list \<Rightarrow> 'f list list \<Rightarrow> 'f list list list \<Rightarrow> bool" where
  "honest_pre_columns be st w key ms ss \<longleftrightarrow>
     length key = key_num_cols be \<and> key_rules be key (ps_pk st) \<and> take 482 key = map of_bool (key_bits (pw_sk w)) \<and>
     take 17 (drop 483 key) = key_elements (pack_key (pw_sk w)) \<and>
     (\<forall>v < length (ps_evaluations st). honest_mask_sum be (ps_evaluations st ! v) (pw_evaluations w ! v) (ms ! v) \<and>
        (\<forall>i < 512. honest_masks be (ps_b_bar st) (pw_sk w) (pw_ot_blocks w) (ps_evaluations st ! v) (pw_evaluations w ! v)
           (min i 481) (ss ! v ! i)))"

text \<open>The setting of the lemmas that follow.\<close>

definition honest_pre :: "'f :: idom backend \<Rightarrow> 'f pre_statement \<Rightarrow> preprocessing_witness \<Rightarrow> bool" where
  "honest_pre be st w \<longleftrightarrow> backend_ok be \<and> wf_pre_public st \<and> wf_preprocessing_witness w \<and>
     preprocessing_holds_for (key_commit be) (masks_commit be) (mask_sum_commit be) st w"

lemma honest_preD:
  assumes "honest_pre be st w"
  shows "0 < length (ps_evaluations st)" and "length (pw_evaluations w) = length (ps_evaluations st)"
    and "length (key_bits (pw_sk w)) = 482" and "key_of (key_bits (pw_sk w)) = pw_sk w"
    and "evaluation_at r (length (ps_evaluations st)) < length (ps_evaluations st)"
proof -
  show "0 < length (ps_evaluations st)" using assms by (simp add: honest_pre_def wf_pre_public_def)
  then show "evaluation_at r (length (ps_evaluations st)) < length (ps_evaluations st)"
    by (simp add: evaluation_at_def min_less_iff_disj)
  show "length (pw_evaluations w) = length (ps_evaluations st)" using assms by (simp add: honest_pre_def preprocessing_holds_for_def)
  show "length (key_bits (pw_sk w)) = 482" "key_of (key_bits (pw_sk w)) = pw_sk w"
    using assms key_of_bits by (simp_all add: honest_pre_def wf_preprocessing_witness_def)
qed

lemma honest_evaluation:
  assumes honest: "honest_pre be st w" and v: "v < length (ps_evaluations st)"
  shows "wf_masks (ew_masks (pw_evaluations w ! v))" and "wf_evaluation_witness (pw_evaluations w ! v)"
    and "mask_sum_holds (mask_sum_commit be) (es_m (ps_evaluations st ! v)) (ew_r_sigma_sums (pw_evaluations w ! v)) (ew_m_randomness (pw_evaluations w ! v))"
    and "server_masks_holds (masks_commit be) (es_c (ps_evaluations st ! v)) (ps_b_bar st) (pw_sk w) (ew_masks (pw_evaluations w ! v)) (pw_ot_blocks w)"
    and "sum_of_masks_holds (pw_sk w) (ew_masks (pw_evaluations w ! v)) (ew_r_sigma_sums (pw_evaluations w ! v))"
  using assms honest_preD(2) [OF honest]
  by (simp_all add: honest_pre_def wf_preprocessing_witness_def wf_evaluation_witness_def preprocessing_holds_for_def list_all_length
      evaluation_holds_for_def)

lemma honest_pre_trace:
  fixes be :: "'f :: idom backend"
  assumes honest: "honest_pre be st w"
  obtains key ms ss where "honest_pre_columns be st w key ms ss"
    "pre_trace be w = Some (map (honest_pre_row w (length (ps_evaluations st)) key ms ss) [0..<table_rows (length (ps_evaluations st))])"
proof -
  let ?sk = "pw_sk w" and ?E = "length (ps_evaluations st)" and ?ew = "\<lambda>v. pw_evaluations w ! v"
  have be: "backend_ok be" and wf: "wf_pre_public st" and sk: "wf_key ?sk"
    using honest by (simp_all add: honest_pre_def wf_preprocessing_witness_def)
  note E = honest_preD(1,2) [OF honest] and each = honest_evaluation [OF honest]
  obtain key where key: "key_row be ?sk = Some key" "length key = key_num_cols be"
    "take 482 key = map of_bool (key_bits ?sk)" "\<And>rest. key_rules be (key @ rest) (key_commit be ?sk)"
    "take 17 (drop 483 key) = key_elements (pack_key ?sk)"
    by (rule key_row_complete [OF be sk]) (rule that)
  have "ps_pk st = key_commit be ?sk" using honest by (simp add: honest_pre_def preprocessing_holds_for_def key_holds_def)
  then have key_rules: "key_rules be key (ps_pk st)" using key(4) [of "[]"] by simp
  let ?M = "\<lambda>v. honest_mask_sum be (ps_evaluations st ! v) (?ew v)"
  let ?S = "\<lambda>v s. \<forall>i < 512. honest_masks be (ps_b_bar st) ?sk (pw_ot_blocks w) (ps_evaluations st ! v) (?ew v) (min i 481) (s ! i)"
  obtain ms where ms: "opt_map (\<lambda>ew. mask_sum_row be (ew_r_sigma_sums ew) (ew_m_randomness ew)) (pw_evaluations w) = Some ms"
    "length ms = ?E" "\<forall>v < ?E. ?M v (ms ! v)"
    using opt_map_nth [OF E(2), of "\<lambda>ew. mask_sum_row be (ew_r_sigma_sums ew) (ew_m_randomness ew)" ?M]
      honest_mask_sum_row [OF be each(2,3)] by blast
  obtain ss where ss: "opt_map (\<lambda>ew. masks_trace be ?sk (ew_masks ew) (pw_ot_blocks w)) (pw_evaluations w) = Some ss"
    "length ss = ?E" "\<forall>v < ?E. ?S v (ss ! v)"
    using opt_map_nth [OF E(2), of "\<lambda>ew. masks_trace be ?sk (ew_masks ew) (pw_ot_blocks w)" ?S]
      honest_masks_table [OF be sk wf _ each(1,4)] by blast
  have "pre_trace be w = Some (map (honest_pre_row w ?E key ms ss) [0..<table_rows ?E])"
    using key(1) ms(1) ss(1) E(2) honest_preD(5) [OF honest]
    by (simp add: pre_trace_def pre_table_def honest_pre_row_def Let_def del: upt_Suc)
  moreover have "honest_pre_columns be st w key ms ss"
    using key(2,3,5) key_rules ms(3) ss(3) by (simp add: honest_pre_columns_def)
  ultimately show ?thesis by (rule that [rotated])
qed

text \<open>The rules hold in every row.\<close>

lemma honest_sums_row:
  fixes be :: "'f :: idom backend"
  assumes honest: "honest_pre be st w" and v: "v < length (ps_evaluations st)" and i: "i < 512"
    and m: "honest_mask_sum be (ps_evaluations st ! v) (pw_evaluations w ! v) m"
  defines "row \<equiv> sums_rows (pw_sk w) (ew_masks (pw_evaluations w ! v)) ! i :: 'f list"
  shows "length row = 369" and "row ! 0 = of_bool (key_bits (pw_sk w) ! min i 481)"
    and "k < 16 \<Longrightarrow> row ! (1 + k) = of_nat (unat (ew_masks (pw_evaluations w ! v) ! min i 481 ! k))"
    and "k < 16 \<Longrightarrow> pack_bits_le (r_sigma_columns row k) = m ! Suc k"
proof -
  let ?ew = "pw_evaluations w ! v" and ?bs = "key_bits (pw_sk w)"
  note bs = honest_preD(3,4) [OF honest] and each = honest_evaluation [OF honest v]
  note sums = honest_sums [OF each(1,5)]
  note t = sums_row [OF bs(1) each(1) sums(1) i, where 'f = 'f, unfolded bs(2), folded row_def]
  show "length row = 369" "row ! 0 = of_bool (?bs ! min i 481)" by (rule t(1,2))+
  show "row ! (1 + k) = of_nat (unat (ew_masks ?ew ! min i 481 ! k))" if k: "k < 16"
  proof -
    have "row ! (1 + k) = take 16 (drop 1 row) ! k" using t(1) k by simp
    also have "\<dots> = of_nat (unat (ew_masks ?ew ! min i 481 ! k))"
      using each(1) k unfolding t(3) by (simp add: zq_elements_def wf_masks_def par_N_def)
    finally show ?thesis .
  qed
  show "pack_bits_le (r_sigma_columns row k) = m ! Suc k" if k: "k < 16"
  proof -
    have range: "\<forall>i < 482. unat (ew_masks ?ew ! i ! k) < 4096" using sums(1) k by blast
    from r_sigma_block_sum [OF bs(1) each(1) range k] sums(2) [OF k]
    have "unat (ew_r_sigma_sums ?ew ! k) = prover_sum ?bs (ew_masks ?ew) k mod 4096"
      by (auto simp: bs(2) prover_sum_def)
    then show ?thesis using t(5) [OF k] m k by (simp add: honest_mask_sum_def)
  qed
qed

lemma honest_pre_rules:
  fixes be :: "'f :: idom backend"
  assumes honest: "honest_pre be st w" and columns: "honest_pre_columns be st w key ms ss"
    and r: "r < table_rows (length (ps_evaluations st))"
  defines "row \<equiv> honest_pre_row w (length (ps_evaluations st)) key ms ss"
  shows "length (row r) = pre_num_cols be"
    and "pre_rules be (row r) (row (Suc r mod table_rows (length (ps_evaluations st))))
      (pre_public (pre_circuit_new st)) (periodic_at (pre_periodic (pre_circuit_new st)) r)"
proof -
  let ?E = "length (ps_evaluations st)" and ?T = "table_rows (length (ps_evaluations st))" and ?sk = "pw_sk w"
  let ?v = "evaluation_at r ?E" and ?i = "r mod 512" and ?r' = "Suc r mod ?T"
  let ?v' = "evaluation_at ?r' ?E" and ?i' = "?r' mod 512"
  let ?t = "\<lambda>v. sums_rows ?sk (ew_masks (pw_evaluations w ! v)) :: 'f list list"
  have be: "backend_ok be" and wf: "wf_pre_public st" using honest by (simp_all add: honest_pre_def)
  have v: "?v < ?E" "?v' < ?E" and i: "?i < 512" "?i' < 512" using honest_preD(5) [OF honest] by simp_all
  have key: "length key = key_num_cols be" "key_rules be key (ps_pk st)" "take 482 key = map of_bool (key_bits ?sk)"
    using columns by (simp_all add: honest_pre_columns_def)
  have M: "honest_mask_sum be (ps_evaluations st ! ?v) (pw_evaluations w ! ?v) (ms ! ?v)"
    "honest_mask_sum be (ps_evaluations st ! ?v') (pw_evaluations w ! ?v') (ms ! ?v')"
    and S: "honest_masks be (ps_b_bar st) ?sk (pw_ot_blocks w) (ps_evaluations st ! ?v) (pw_evaluations w ! ?v) (min ?i 481) (ss ! ?v ! ?i)"
    "honest_masks be (ps_b_bar st) ?sk (pw_ot_blocks w) (ps_evaluations st ! ?v') (pw_evaluations w ! ?v') (min ?i' 481) (ss ! ?v' ! ?i')"
    using columns v i unfolding honest_pre_columns_def by blast+
  note lens = M [unfolded honest_mask_sum_def, THEN conjunct1] S [unfolded honest_masks_def, THEN conjunct1]
  note t = honest_sums_row [OF honest v(1) i(1) M(1)] and t' = honest_sums_row(1) [OF honest v(2) i(2) M(2)]
  have "sums_rules (?t ?v ! ?i) (?t ?v' ! ?i') (of_bool (?i = 0)) (of_bool (?i < 481)) (of_bool (?i = 481))"
  proof (rule sums_rules_complete [OF honest_preD(3) [OF honest] _ _ i(1), unfolded honest_preD(4) [OF honest]])
    show "wf_masks (ew_masks (pw_evaluations w ! ?v))" by (rule honest_evaluation(1) [OF honest v(1)])
    show "\<forall>k < 16. \<forall>i < 482. unat (ew_masks (pw_evaluations w ! ?v) ! i ! k) < 4096"
      by (rule honest_sums(1) [OF honest_evaluation(1,5) [OF honest v(1)]])
    assume "?i < 481"
    note nxt = next_row [OF r table_rows(2) [OF honest_preD(1) [OF honest]] this]
    then show "?t ?v' ! ?i' = ?t ?v ! Suc ?i" by (simp add: evaluation_at_def)
  qed
  moreover have "key ! n = of_bool (key_bits ?sk ! n)" if "n < 482" for n
    using arg_cong [OF key(3), of "\<lambda>xs. xs ! n"] that honest_preD(3) [OF honest] by simp
  moreover have "block_at r = min ?i 481" by (simp add: block_at_def par_N_def)
  ultimately have "pre_row_rules be st r key (ms ! ?v) (ss ! ?v ! ?i) (?t ?v ! ?i) (?t ?v' ! ?i')"
    unfolding pre_row_rules_def Let_def
    using key(2) M(1) S(1) t(2-4) by (simp add: honest_mask_sum_def honest_masks_def)
  then show "pre_rules be (row r) (row ?r') (pre_public (pre_circuit_new st)) (periodic_at (pre_periodic (pre_circuit_new st)) r)"
    unfolding row_def honest_pre_row_def Let_def
    using pre_rules_at [OF wf r refl refl key(1) lens(1,3) t(1) key(1) lens(2,4) t'] wide_room [OF be] by simp
  show "length (row r) = pre_num_cols be"
    unfolding row_def honest_pre_row_def Let_def
    using key(1) lens t(1) by (simp add: pre_num_cols_def pre_SUM_OF_MASKS_def pre_SERVER_MASKS_def pre_MASK_SUM_def)
qed

lemma honest_pre_satisfies:
  assumes honest: "honest_pre be st w" and columns: "honest_pre_columns be st w key ms ss"
  shows "satisfies (pre_air be (pre_circuit_new st))
    (map (honest_pre_row w (length (ps_evaluations st)) key ms ss) [0..<table_rows (length (ps_evaluations st))])
    (pre_public (pre_circuit_new st))"
proof -
  let ?E = "length (ps_evaluations st)"
  note T = table_rows [OF honest_preD(1) [OF honest]]
  have "0 < ?E * 512" using honest_preD(1) [OF honest] by simp
  with T(1) have T0: "0 < table_rows ?E" by linarith
  have "column \<noteq> [] \<and> length column dvd table_rows ?E" if "column \<in> set (pre_periodic (pre_circuit_new st))" for column
    using that T T0 by (auto simp: pre_periodic_def pre_circuit_new_def Let_def sums_periodic_def par_N_def simp del: upt_Suc)
  moreover have "Suc r mod table_rows ?E < table_rows ?E" for r using T0 by simp
  ultimately show ?thesis
    using honest_pre_rules [OF honest columns] T0 by (simp add: satisfies_def pre_air_def list_all_iff del: upt_Suc)
qed

text \<open>What is opened, and the key.\<close>

lemma honest_pre_opens:
  fixes be :: "'f :: idom backend"
  assumes honest: "honest_pre be st w" and columns: "honest_pre_columns be st w key ms ss"
  defines "row \<equiv> honest_pre_row w (length (ps_evaluations st)) key ms ss"
  shows "(Key, key_opening (row r)) \<in> (pre_honest_openings w :: (domain \<times> 'f list) set)"
    and "(MaskSum, mask_sum_opening be (row r)) \<in> (pre_honest_openings w :: (domain \<times> 'f list) set)"
    and "(Masks, masks_opening be (row r)) \<in> (pre_honest_openings w :: (domain \<times> 'f list) set)"
proof -
  let ?v = "evaluation_at r (length (ps_evaluations st))" and ?i = "r mod 512" and ?sk = "pw_sk w"
  let ?ew = "pw_evaluations w ! ?v"
  have be: "backend_ok be" using honest by (simp add: honest_pre_def)
  note v = honest_preD(5) [OF honest, of r]
  have key: "length key = key_num_cols be" "take 17 (drop 483 key) = key_elements (pack_key ?sk)"
    and M: "honest_mask_sum be (ps_evaluations st ! ?v) ?ew (ms ! ?v)"
    and S: "honest_masks be (ps_b_bar st) ?sk (pw_ot_blocks w) (ps_evaluations st ! ?v) ?ew (min ?i 481) (ss ! ?v ! ?i)"
    using columns v unfolding honest_pre_columns_def by simp_all
  have mem: "?ew \<in> set (pw_evaluations w)" using v honest_preD(2) [OF honest] by simp
  have "key_opening (row r) = key_elements (pack_key ?sk)"
    using wide_room(1) [OF be] key by (simp add: row_def honest_pre_row_def Let_def key_opening_def)
  then show "(Key, key_opening (row r)) \<in> (pre_honest_openings w :: (domain \<times> 'f list) set)"
    by (simp add: pre_honest_openings_def)
  have "mask_sum_opening be (row r) = mask_sum_elements (ew_r_sigma_sums ?ew) (ew_m_randomness ?ew)"
    using wide_room(2) [OF be] M key(1) by (simp add: row_def honest_pre_row_def Let_def mask_sum_opening_def honest_mask_sum_def)
  then show "(MaskSum, mask_sum_opening be (row r)) \<in> (pre_honest_openings w :: (domain \<times> 'f list) set)"
    using mem by (auto simp: pre_honest_openings_def)
  have "masks_opening be (row r) = masks_elements (ew_masks ?ew ! min ?i 481) (pw_ot_blocks w ! min ?i 481)"
    using S M key(1) by (simp add: row_def honest_pre_row_def Let_def masks_opening_def pre_s_def honest_mask_sum_def honest_masks_def)
  moreover have "min ?i 481 < 482" by simp
  ultimately show "(Masks, masks_opening be (row r)) \<in> (pre_honest_openings w :: (domain \<times> 'f list) set)"
    using mem unfolding pre_honest_openings_def by blast
qed

lemma honest_pre_key:
  assumes honest: "honest_pre be st w" and columns: "honest_pre_columns be st w key ms ss"
  shows "table_key (map (honest_pre_row w (length (ps_evaluations st)) key ms ss) [0..<table_rows (length (ps_evaluations st))]) = pw_sk w"
proof -
  let ?bs = "key_bits (pw_sk w)" and ?E = "length (ps_evaluations st)"
  have "0 < ?E * 512" using honest_preD(1) [OF honest] by simp
  with table_rows(1) [OF honest_preD(1) [OF honest]] have "0 < table_rows ?E" by linarith
  moreover have "482 \<le> length key" "take 482 key = map of_bool ?bs"
    using columns honest wide_room(1) [of be] by (simp_all add: honest_pre_columns_def honest_pre_def)
  moreover have "map (\<lambda>x. x = 1) (map of_bool ?bs :: 'a list) = ?bs" by (rule nth_equalityI) auto
  ultimately show ?thesis
    using honest_preD(4) [OF honest] by (simp add: table_key_def honest_pre_row_def Let_def)
qed

lemma pre_air_complete:
  fixes be :: "'f :: idom backend"
  assumes "backend_ok be" and "wf_pre_public st" and "wf_preprocessing_witness w"
    and "preprocessing_holds_for (key_commit be) (masks_commit be) (mask_sum_commit be) st w"
  obtains rows where "pre_trace be w = Some rows" "length rows = table_rows (length (ps_evaluations st))"
    "satisfies (pre_air be (pre_circuit_new st)) rows (pre_public (pre_circuit_new st))"
    "pre_openings be rows \<subseteq> pre_honest_openings w" "table_key rows = pw_sk w"
proof -
  have honest: "honest_pre be st w" using assms by (simp add: honest_pre_def)
  obtain key ms ss where columns: "honest_pre_columns be st w key ms ss"
    and trace: "pre_trace be w = Some (map (honest_pre_row w (length (ps_evaluations st)) key ms ss) [0..<table_rows (length (ps_evaluations st))])"
    by (rule honest_pre_trace [OF honest])
  show ?thesis
  proof (rule that [OF trace])
    show "pre_openings be (map (honest_pre_row w (length (ps_evaluations st)) key ms ss) [0..<table_rows (length (ps_evaluations st))])
        \<subseteq> pre_honest_openings w"
      using honest_pre_opens [OF honest columns] by (auto simp: pre_openings_def shared_openings_def simp del: upt_Suc)
  qed (simp_all add: honest_pre_satisfies [OF honest columns] honest_pre_key [OF honest columns] del: upt_Suc)
qed

end
