(* ===== verification/Plonky3System.thy ===== *)
theory Plonky3System
  imports OnlineComplete OnlineSound PreprocessingComplete PreprocessingSound OnlineEnd ProtocolProof
begin

text \<open>
  \<open>pool-voprf/src/plonky3.rs\<close> and the implementations of \<open>ProofSystem\<close> in \<open>plonky3/statements\<close>: the
  Plonky3 backend as the protocol uses it. \<open>p3_uni_stark\<close>'s \<open>prove\<close> and \<open>verify\<close> are arguments, with
  the parameters of the proof system in them; \<open>Panic\<close> is a result of theirs too.

  \<open>stark_complete\<close> and \<open>stark_extracts\<close> are what is relied on of Plonky3: a table with a power of two
  of rows that satisfies the circuit has a proof that verifies, and a proof that verifies is one of
  knowledge: a table that satisfies the circuit can be extracted.
\<close>

declare of_nat_unat [simp del]

section \<open>Proving and verifying (plonky3.rs)\<close>

record ('f, 'proof, 'pe, 've) stark =
  stark_prove :: "'f air \<Rightarrow> 'f list list \<Rightarrow> 'f list \<Rightarrow> ('pe, 'proof) res"
  stark_verify :: "'f air \<Rightarrow> 'proof \<Rightarrow> 'f list \<Rightarrow> ('ve, unit) res"

datatype 'pe prove_error = WrongWitness | Prover 'pe
datatype 've verify_error = Invalid 've | Malformed | NoEvaluation

definition proved :: "('pe, 'proof) res \<Rightarrow> ('pe prove_error, 'proof) res" where
  "proved result = map_err Prover result"

text \<open>A panic of the verifier is caught: the proof is malformed.\<close>

definition verified :: "('ve, unit) res \<Rightarrow> ('ve verify_error, unit) res" where
  "verified result = (case result of Panic \<Rightarrow> Err Malformed | Err e \<Rightarrow> Err (Invalid e) | Ok u \<Rightarrow> Ok u)"

section \<open>The three statements\<close>

definition plonky3_prove_setup ::
  "'f :: idom backend \<Rightarrow> ('f, 'proof, 'pe, 've) stark \<Rightarrow> 'f digest setup_statement \<Rightarrow> secret_key
     \<Rightarrow> ('pe prove_error, 'proof) res" where
  "plonky3_prove_setup be stark st sk =
     (if \<not> setup_holds_for (key_commit be) st sk then Err WrongWitness
      else proved (res_bind (expect (key_trace be sk)) (\<lambda>trace. stark_prove stark (key_air be) trace (ss_pk st))))"

definition plonky3_verify_setup ::
  "'f :: idom backend \<Rightarrow> ('f, 'proof, 'pe, 've) stark \<Rightarrow> 'f digest setup_statement \<Rightarrow> 'proof
     \<Rightarrow> ('ve verify_error, unit) res" where
  "plonky3_verify_setup be stark st proof = verified (stark_verify stark (key_air be) proof (ss_pk st))"

definition plonky3_prove_preprocessing ::
  "'f :: idom backend \<Rightarrow> ('f, 'proof, 'pe, 've) stark \<Rightarrow> 'f pre_statement \<Rightarrow> preprocessing_witness
     \<Rightarrow> ('pe prove_error, 'proof) res" where
  "plonky3_prove_preprocessing be stark st w =
     (if \<not> preprocessing_holds_for (key_commit be) (masks_commit be) (mask_sum_commit be) st w then Err WrongWitness
      else let air = pre_circuit_new st
           in proved (res_bind (expect (pre_trace be w)) (\<lambda>trace.
                stark_prove stark (pre_air be air) trace (pre_public air))))"

definition plonky3_verify_preprocessing ::
  "'f :: idom backend \<Rightarrow> ('f, 'proof, 'pe, 've) stark \<Rightarrow> 'f pre_statement \<Rightarrow> 'proof
     \<Rightarrow> ('ve verify_error, unit) res" where
  "plonky3_verify_preprocessing be stark st proof =
     (if ps_evaluations st = [] then Err NoEvaluation
      else let air = pre_circuit_new st
           in verified (stark_verify stark (pre_air be air) proof (pre_public air)))"

definition plonky3_prove_online ::
  "'f :: idom backend \<Rightarrow> ('f, 'proof, 'pe, 've) stark \<Rightarrow> ('f digest, 'f digest, 'f digest) online_statement
     \<Rightarrow> online_witness \<Rightarrow> ('pe prove_error, 'proof) res" where
  "plonky3_prove_online be stark st w =
     (if \<not> online_holds_for (key_commit be) (mask_sum_commit be) (pad_commit be) st w then Err WrongWitness
      else proved (res_bind (expect (online_trace be st w)) (\<lambda>trace.
             res_bind (expect (online_public_values st)) (\<lambda>public.
               stark_prove stark (online_air be) trace public))))"

definition plonky3_verify_online ::
  "'f :: idom backend \<Rightarrow> ('f, 'proof, 'pe, 've) stark \<Rightarrow> ('f digest, 'f digest, 'f digest) online_statement
     \<Rightarrow> 'proof \<Rightarrow> ('ve verify_error, unit) res" where
  "plonky3_verify_online be stark st proof =
     verified (res_bind (expect (online_public_values st)) (\<lambda>public.
       stark_verify stark (online_air be) proof public))"

text \<open>The backend of the protocol.\<close>

definition plonky3_crypto ::
  "'f :: idom backend \<Rightarrow> ('f, 'proof, 'pe, 've) stark \<Rightarrow> xof \<Rightarrow> hash \<Rightarrow> nat
     \<Rightarrow> ('f digest, 'proof, 'pe prove_error, 've verify_error) crypto" where
  "plonky3_crypto be stark xof blake3 count = \<lparr>
     cr_xof = xof, cr_hash = blake3, cr_base_ot_count = count,
     commit_key = key_commit be, commit_masks = masks_commit be, commit_mask_sum = mask_sum_commit be,
     commit_pad = pad_commit be,
     prove_setup = plonky3_prove_setup be stark, verify_setup = plonky3_verify_setup be stark,
     prove_preprocessing = plonky3_prove_preprocessing be stark,
     verify_preprocessing = plonky3_verify_preprocessing be stark,
     prove_online_st = plonky3_prove_online be stark, verify_online_st = plonky3_verify_online be stark \<rparr>"

section \<open>What is relied on\<close>

definition stark_complete :: "('f, 'proof, 'pe, 've) stark \<Rightarrow> bool" where
  "stark_complete stark \<longleftrightarrow> (\<forall>air rows public. satisfies air rows public \<and> (\<exists>n. length rows = 2 ^ n) \<longrightarrow>
     (\<exists>proof. stark_prove stark air rows public = Ok proof \<and> stark_verify stark air proof public = Ok ()))"

type_synonym ('f, 'proof) extractor = "'f air \<Rightarrow> 'proof \<Rightarrow> 'f list \<Rightarrow> 'f list list"

definition stark_extracts :: "('f, 'proof, 'pe, 've) stark \<Rightarrow> ('f, 'proof) extractor \<Rightarrow> bool" where
  "stark_extracts stark table \<longleftrightarrow> (\<forall>air proof public. stark_verify stark air proof public = Ok () \<longrightarrow>
     satisfies air (table air proof public) public)"

lemma verified_Ok: "verified r = Ok u \<longleftrightarrow> r = Ok u"
  by (cases r) (simp_all add: verified_def)

lemma verified_not_Panic: "verified r \<noteq> Panic"
  by (cases r) (simp_all add: verified_def)

section \<open>Completeness\<close>

lemma length_commit:
  assumes be: "backend_ok be"
  shows "wf_key sk \<Longrightarrow> length (key_commit be sk) = 8"
    and "length (mi_masks input) = 16 \<Longrightarrow> length (masks_commit be input) = 8"
    and "length (msi_r_sigma_sums sums) = 16 \<Longrightarrow> length (mask_sum_commit be sums) = 8"
    and "length (pad_commit be inp) = 8"
proof -
  have wide: "length (commit_elements be d elems) = 8" if "8 \<le> length elems" "length elems < 24" for d elems
    using length_hash_iter [OF backend_okD(1) [OF be], of "domain_element d # elems"] that
    by (simp add: commit_elements_wide)
  have narrow: "length (commit_elements be d elems) = 8" if "length elems < 8" for d elems
    using length_hash_iter [OF backend_okD(2) [OF be], of "domain_element d # elems"] that
    by (simp add: commit_elements_narrow)
  show "length (key_commit be sk) = 8" if "wf_key sk"
    using length_key_elements [of "key_bits sk", where 'f = 'a] key_of_bits [OF that] wide by (simp add: key_commit_def)
  show "length (masks_commit be input) = 8" if "length (mi_masks input) = 16"
    unfolding masks_commit_def by (rule wide) (use that in \<open>simp_all add: masks_elements_def\<close>)
  show "length (mask_sum_commit be sums) = 8" if "length (msi_r_sigma_sums sums) = 16"
    unfolding mask_sum_commit_def by (rule wide) (use that in \<open>simp_all add: mask_sum_elements_def\<close>)
  show "length (pad_commit be inp) = 8"
    unfolding pad_commit_def by (rule narrow) (simp add: pad_elements_def)
qed

text \<open>A statement that holds has digests of the right lengths and values in range.\<close>

lemma online_holds_public:
  assumes be: "backend_ok be" and st: "wf_online_statement st" and w: "wf_online_witness w"
    and holds: "online_holds_for (key_commit be) (mask_sum_commit be) (pad_commit be) st w"
  shows "wf_online_public st"
proof -
  have len: "length (os_runs st) = 16" "length (ow_runs w) = 16"
    using st w by (simp_all add: wf_online_statement_def wf_online_witness_def)
  have "length (os_pk st) = 8" "length (os_m st) = 8"
  proof -
    have "os_pk st = key_commit be (ow_sk w)" "wf_key (ow_sk w)"
      "os_m st = mask_sum_commit be \<lparr> msi_r_sigma_sums = ow_r_sigma_sums w, msi_randomness = ow_m_randomness w \<rparr>"
      using holds w by (simp_all add: online_holds_for_def key_holds_def mask_sum_holds_def wf_online_witness_def)
    then show "length (os_pk st) = 8" "length (os_m st) = 8"
      using length_commit(1,3) [OF be] len by (simp_all add: ow_r_sigma_sums_def)
  qed
  moreover have "(\<forall>d \<in> set (run_d run). length d = 8) \<and> unat (run_b_bar_prime run) < 16 \<and> (\<forall>x \<in> set (run_e run). x < par_Q)"
    if run: "run \<in> set (os_runs st)" for run
  proof -
    obtain k where k: "k < 16" "run = os_runs st ! k" using run len by (auto simp: in_set_conv_nth)
    have "run_holds_for (pad_commit be) (ow_sk w) run (ow_runs w ! k)"
      using holds k len by (simp add: online_holds_for_def list_all_length)
    then have parts: "pads_holds (pad_commit be) (run_d run) (rw_pads (ow_runs w ! k)) (rw_d_randomness (ow_runs w ! k))"
      "\<forall>x \<in> set (run_e run). x < par_Q" "unat (run_b_bar_prime run) < 16"
      by (simp_all add: run_holds_for_def sum_holds_def response_holds_def list_all_iff)
    have "length (run_d run) = 16" using st run by (simp add: wf_online_statement_def wf_run_statement_def)
    moreover have "length (run_d run ! j) = 8" if "j < 16" for j
    proof -
      have "pad_commit be \<lparr> pi_pad = rw_pads (ow_runs w ! k) ! j, pi_randomness = rw_d_randomness (ow_runs w ! k) ! j \<rparr>
          = run_d run ! j" using parts(1) that by (simp add: pads_holds_def list_all_iff)
      then show ?thesis using length_commit(4) [OF be] by metis
    qed
    ultimately show ?thesis using parts(2,3) by (auto simp: in_set_conv_nth)
  qed
  ultimately show ?thesis using st by (simp add: wf_online_public_def)
qed

lemma plonky3_online_complete:
  fixes be :: "'f :: idom backend" and stark :: "('f, 'proof, 'pe, 've) stark"
  assumes be: "backend_ok be" and stark: "stark_complete stark"
    and st: "wf_online_statement st" and w: "wf_online_witness w"
    and holds: "online_holds_for (key_commit be) (mask_sum_commit be) (pad_commit be) st w"
  shows "\<exists>proof. plonky3_prove_online be stark st w = Ok proof \<and> plonky3_verify_online be stark st proof = Ok ()"
proof -
  have wf: "wf_online_public st" by (rule online_holds_public [OF be st w holds])
  obtain public where public: "online_public_values st = Some public"
    using online_public_values_Some [OF wf] by blast
  obtain rows where rows: "online_trace be st w = Some rows" "length rows = ROWS" "satisfies (online_air be) rows public"
    by (rule online_air_complete [OF be wf w holds public]) (rule that)
  have "\<exists>n. length rows = 2 ^ n" using rows(2) by (intro exI [of _ 8]) simp
  with stark rows(3) obtain p where "stark_prove stark (online_air be) rows public = Ok p"
    "stark_verify stark (online_air be) p public = Ok ()" unfolding stark_complete_def by blast
  then show ?thesis
    using holds rows(1) public
    by (simp add: plonky3_prove_online_def plonky3_verify_online_def proved_def verified_def)
qed

lemma plonky3_setup_complete:
  fixes be :: "'f :: idom backend" and stark :: "('f, 'proof, 'pe, 've) stark"
  assumes be: "backend_ok be" and stark: "stark_complete stark" and sk: "wf_key sk"
  shows "\<exists>proof. plonky3_prove_setup be stark (setup_for_key (key_commit be) sk) sk = Ok proof \<and>
    plonky3_verify_setup be stark (setup_for_key (key_commit be) sk) proof = Ok ()"
proof -
  obtain key where key: "key_row be sk = Some key" "length key = key_num_cols be"
    "take 482 key = map of_bool (key_bits sk)" "\<And>rest. key_rules be (key @ rest) (key_commit be sk)"
    by (rule key_row_complete [OF be sk]) (rule that)
  have "length (key_commit be sk) = 8" by (rule length_commit(1) [OF be sk])
  then have "satisfies (key_air be) (replicate 256 key) (key_commit be sk)"
    using key(2) key(4) [of "[]"] by (simp add: satisfies_def key_air_def list_all_iff)
  moreover have "\<exists>n. length (replicate 256 key) = 2 ^ n" by (intro exI [of _ 8]) simp
  ultimately obtain p where "stark_prove stark (key_air be) (replicate 256 key) (key_commit be sk) = Ok p"
    "stark_verify stark (key_air be) p (key_commit be sk) = Ok ()"
    using stark unfolding stark_complete_def by blast
  then show ?thesis
    using key(1) by (simp add: plonky3_prove_setup_def plonky3_verify_setup_def setup_for_key_def
        setup_holds_for_def key_holds_def key_trace_def proved_def verified_def)
qed

text \<open>The same for the preprocessing, where an honest client made the commitments to masks.\<close>

lemma preprocessing_holds_public:
  assumes be: "backend_ok be" and holds: "cr_preprocessing_holds (plonky3_crypto be stark xof blake3 count) st w"
  shows "wf_pre_public st"
proof -
  from holds have w: "wf_preprocessing_witness w" and b: "length (ps_b_bar st) = 482"
    and cs: "\<And>ev c. ev \<in> set (ps_evaluations st) \<Longrightarrow> length (es_c ev) = par_N \<and>
        (\<forall>(c_0, c_1) \<in> set (es_c ev). masks_committed (plonky3_crypto be stark xof blake3 count) c_0 \<and>
           masks_committed (plonky3_crypto be stark xof blake3 count) c_1)"
    and st: "preprocessing_holds_for (key_commit be) (masks_commit be) (mask_sum_commit be) st w"
    by (simp_all add: cr_preprocessing_holds_def plonky3_crypto_def par_N_def)
  have sk: "wf_key (pw_sk w)" using w by (simp add: wf_preprocessing_witness_def)
  from st have pk: "key_commit be (pw_sk w) = ps_pk st" and E: "ps_evaluations st \<noteq> []"
    "length (ps_evaluations st) = length (pw_evaluations w)"
    and each: "\<And>v. v < length (ps_evaluations st) \<Longrightarrow> evaluation_holds_for (masks_commit be) (mask_sum_commit be)
        (ps_b_bar st) (pw_sk w) (pw_ot_blocks w) (ps_evaluations st ! v) (pw_evaluations w ! v)"
    by (simp_all add: preprocessing_holds_for_def key_holds_def list_all_length)
  have digest: "length c = 8" if "masks_committed (plonky3_crypto be stark xof blake3 count) c" for c
    using that length_commit(2) [OF be] by (auto simp: masks_committed_def plonky3_crypto_def)
  have bits: "\<forall>b \<in> set (ps_b_bar st). b \<le> 1"
  proof -
    have "ps_b_bar st ! i \<le> 1" if "i < 482" for i
    proof -
      have "0 < length (ps_evaluations st)" using E(1) by simp
      from each [OF this] that show ?thesis
        by (simp add: evaluation_holds_for_def server_masks_holds_def Let_def list_all_iff par_N_def)
    qed
    then show ?thesis using b by (auto simp: in_set_conv_nth)
  qed
  have "length (es_m ev) = 8" if ev: "ev \<in> set (ps_evaluations st)" for ev
  proof -
    obtain v where v: "v < length (ps_evaluations st)" "ev = ps_evaluations st ! v" using ev by (auto simp: in_set_conv_nth)
    then have "pw_evaluations w ! v \<in> set (pw_evaluations w)" using E(2) by simp
    then have "length (ew_r_sigma_sums (pw_evaluations w ! v)) = 16"
      using w by (simp add: wf_preprocessing_witness_def wf_evaluation_witness_def)
    moreover have "es_m ev = mask_sum_commit be \<lparr> msi_r_sigma_sums = ew_r_sigma_sums (pw_evaluations w ! v),
        msi_randomness = ew_m_randomness (pw_evaluations w ! v) \<rparr>"
      using each [OF v(1)] v(2) by (simp add: evaluation_holds_for_def mask_sum_holds_def)
    ultimately show ?thesis using length_commit(3) [OF be] by simp
  qed
  moreover have "length (ps_pk st) = 8" using pk length_commit(1) [OF be sk] by metis
  moreover have "length (es_c ev) = par_N" "\<forall>(c_0, c_1) \<in> set (es_c ev). length c_0 = 8 \<and> length c_1 = 8"
    if "ev \<in> set (ps_evaluations st)" for ev
    using cs [OF that] digest by (fast, fast)
  ultimately show ?thesis using b bits E(1) by (simp add: wf_pre_public_def par_N_def)
qed

lemma plonky3_preprocessing_complete:
  fixes be :: "'f :: idom backend" and stark :: "('f, 'proof, 'pe, 've) stark"
  assumes be: "backend_ok be" and stark: "stark_complete stark"
    and holds: "cr_preprocessing_holds (plonky3_crypto be stark xof blake3 count) st w"
  shows "\<exists>proof. plonky3_prove_preprocessing be stark st w = Ok proof
    \<and> plonky3_verify_preprocessing be stark st proof = Ok ()"
proof -
  let ?air = "pre_circuit_new st"
  have wf: "wf_pre_public st" by (rule preprocessing_holds_public [OF be holds])
  have w: "wf_preprocessing_witness w"
    and st: "preprocessing_holds_for (key_commit be) (masks_commit be) (mask_sum_commit be) st w"
    using holds by (simp_all add: cr_preprocessing_holds_def plonky3_crypto_def)
  obtain rows where rows: "pre_trace be w = Some rows" "length rows = table_rows (length (ps_evaluations st))"
    "satisfies (pre_air be ?air) rows (pre_public ?air)"
    by (rule pre_air_complete [OF be wf w st]) (rule that)
  have "\<exists>n. length rows = 2 ^ n"
    unfolding rows(2) table_rows_def next_power_of_two_def by (metis power_0)
  with stark rows(3) obtain p where "stark_prove stark (pre_air be ?air) rows (pre_public ?air) = Ok p"
    "stark_verify stark (pre_air be ?air) p (pre_public ?air) = Ok ()" unfolding stark_complete_def by blast
  moreover have "ps_evaluations st \<noteq> []" using wf by (simp add: wf_pre_public_def)
  ultimately show ?thesis
    using st rows(1)
    by (simp add: plonky3_prove_preprocessing_def plonky3_verify_preprocessing_def proved_def verified_def Let_def)
qed

text \<open>The backend of the source is the complete one that the protocol needs.\<close>

lemma plonky3_complete:
  assumes "backend_ok be" and "stark_complete stark"
  shows "complete_online (plonky3_crypto be stark xof blake3 count)"
    and "complete_preprocessing (plonky3_crypto be stark xof blake3 count)"
proof -
  let ?cr = "plonky3_crypto be stark xof blake3 count"
  show "complete_online ?cr"
    unfolding complete_online_def cr_online_holds_def
    using plonky3_online_complete [OF assms] by (simp add: plonky3_crypto_def)
  show "complete_preprocessing ?cr"
    unfolding complete_preprocessing_def
  proof (intro allI impI)
    fix st w
    assume "cr_preprocessing_holds ?cr st w"
    from plonky3_preprocessing_complete [OF assms this]
    show "\<exists>p. prove_preprocessing ?cr st w = Ok p \<and> verify_preprocessing ?cr st p = Ok ()"
      by (simp add: plonky3_crypto_def)
  qed
qed

section \<open>Soundness\<close>

lemma plonky3_setup_sound:
  fixes be :: "'f :: idom backend"
  assumes be: "backend_ok be" and stark: "stark_extracts stark table" and pk: "length (ss_pk st) = 8"
    and "plonky3_verify_setup be stark st proof = Ok ()"
  shows "\<exists>sk. wf_key sk \<and> setup_holds_for (key_commit be) st sk"
proof -
  have "stark_verify stark (key_air be) proof (ss_pk st) = Ok ()"
    using assms(4) by (simp add: plonky3_verify_setup_def verified_Ok)
  then obtain rows where sat: "satisfies (key_air be) rows (ss_pk st)" using stark unfolding stark_extracts_def by blast
  then have "rows \<noteq> []" by (simp add: satisfies_def)
  then have "key_rules be (rows ! 0) (ss_pk st)" "length (rows ! 0) = key_num_cols be"
    using sat by (simp_all add: satisfies_def key_air_def list_all_iff)
  then obtain bs where "length bs = 482" "key_commit be (key_of bs) = ss_pk st"
    using key_rules_sound [OF be _ _ pk] by (metis order_refl)
  then show ?thesis using wf_key_of by (auto simp: setup_holds_for_def key_holds_def)
qed

lemma plonky3_online_sound:
  assumes "stark_extracts stark table" and "plonky3_verify_online be stark st proof = Ok ()"
  shows "\<exists>public. online_public_values st = Some public \<and>
    satisfies (online_air be) (table (online_air be) proof public) public"
proof -
  obtain public where public: "online_public_values st = Some public"
    using assms(2) by (cases "online_public_values st") (simp_all add: plonky3_verify_online_def verified_def)
  then have "stark_verify stark (online_air be) proof public = Ok ()"
    using assms(2) by (simp add: plonky3_verify_online_def verified_Ok)
  with assms(1) public show ?thesis unfolding stark_extracts_def by blast
qed

lemma plonky3_preprocessing_sound:
  assumes "stark_extracts stark table" and "plonky3_verify_preprocessing be stark st proof = Ok ()"
  shows "ps_evaluations st \<noteq> []"
    and "satisfies (pre_air be (pre_circuit_new st))
      (table (pre_air be (pre_circuit_new st)) proof (pre_public (pre_circuit_new st))) (pre_public (pre_circuit_new st))"
proof -
  show E: "ps_evaluations st \<noteq> []"
    using assms(2) by (auto simp: plonky3_verify_preprocessing_def)
  then have "stark_verify stark (pre_air be (pre_circuit_new st)) proof (pre_public (pre_circuit_new st)) = Ok ()"
    using assms(2) by (simp add: plonky3_verify_preprocessing_def verified_Ok Let_def)
  with assms(1) show "satisfies (pre_air be (pre_circuit_new st))
      (table (pre_air be (pre_circuit_new st)) proof (pre_public (pre_circuit_new st))) (pre_public (pre_circuit_new st))"
    unfolding stark_extracts_def by blast
qed

end
