(* ===== verification/BabyBear.thy ===== *)
theory BabyBear
  imports Air
begin

text \<open>
  The field BabyBear itself, the whole numbers modulo \<open>ORDER_U32\<close>: the instance at which the
  properties of the circuits are witnessed. That the order is prime is proved by Pocklington's
  criterion: its smallest divisor is 1 modulo \<open>2 ^ 27\<close>, so the divisor's square is above the order.
\<close>

declare of_nat_unat [simp del]

section \<open>The order is prime\<close>

abbreviation bb_order :: nat where "bb_order \<equiv> 2013265921"

text \<open>Fermat's little theorem, for a number coprime to all numbers below it.\<close>

lemma binomial_dvd:
  assumes q: "\<And>a. 0 < a \<Longrightarrow> a < q \<Longrightarrow> coprime a q" and k: "0 < k" "k < q"
  shows "q dvd (q choose k)"
proof -
  have "k * (q choose k) = q * ((q - 1) choose (k - 1))"
    using k times_binomial_minus1_eq [of k q] by simp
  then have "q dvd k * (q choose k)" by simp
  moreover have "coprime q k" using q [OF k] by (simp add: coprime_commute)
  ultimately show ?thesis by (simp add: coprime_dvd_mult_right_iff)
qed

lemma fermat_power:
  assumes q: "\<And>a. 0 < a \<Longrightarrow> a < q \<Longrightarrow> coprime a q" and "1 < q"
  shows "(a :: nat) ^ q mod q = a mod q"
proof (induction a)
  case 0
  then show ?case using \<open>1 < q\<close> by (simp add: power_0_left)
next
  case (Suc a)
  have "Suc a ^ q = (a + 1) ^ q" by simp
  also have "\<dots> = (\<Sum>k\<le>q. of_nat (q choose k) * a ^ k * 1 ^ (q - k))" by (rule binomial_ring)
  also have "\<dots> = (\<Sum>k\<in>{0, q}. (q choose k) * a ^ k) + (\<Sum>k\<in>{..q} - {0, q}. (q choose k) * a ^ k)"
    by (subst sum.subset_diff [of "{0, q}"]) (simp_all add: add.commute)
  also have "(\<Sum>k\<in>{0, q}. (q choose k) * a ^ k) = 1 + a ^ q" using \<open>1 < q\<close> by simp
  finally have "Suc a ^ q = 1 + a ^ q + (\<Sum>k\<in>{..q} - {0, q}. (q choose k) * a ^ k)" .
  moreover have "q dvd (\<Sum>k\<in>{..q} - {0, q}. (q choose k) * a ^ k)"
    using binomial_dvd [OF q] by (intro dvd_sum) auto
  ultimately have "Suc a ^ q mod q = (1 + a ^ q) mod q"
    by (metis add.right_neutral dvd_imp_mod_0 mod_add_right_eq)
  also have "\<dots> = (1 + a mod q) mod q" by (simp only: mod_add_right_eq flip: Suc)
  also have "\<dots> = Suc a mod q" by (simp add: mod_Suc_eq)
  finally show ?case .
qed

lemma fermat_little:
  assumes q: "\<And>a. 0 < a \<Longrightarrow> a < q \<Longrightarrow> coprime a q" and "1 < q" and a: "coprime a q"
  shows "(a :: nat) ^ (q - 1) mod q = 1"
proof -
  have "a ^ q = a * a ^ (q - 1)" using \<open>1 < q\<close> by (cases q) simp_all
  then have "(a * a ^ (q - 1)) mod q = (a * 1) mod q" using fermat_power [OF q \<open>1 < q\<close>, of a] by simp
  then have "int q dvd int (a * a ^ (q - 1)) - int (a * 1)"
    by (metis mod_eq_dvd_iff of_nat_mod)
  then have "int q dvd int a * (int (a ^ (q - 1)) - 1)" by (simp add: algebra_simps)
  moreover have "coprime (int q) (int a)" using a by (simp add: coprime_commute)
  ultimately have "int q dvd int (a ^ (q - 1)) - 1" by (simp only: coprime_dvd_mult_right_iff)
  then have "int (a ^ (q - 1)) mod int q = 1 mod int q" by (simp only: mod_eq_dvd_iff)
  then have "int (a ^ (q - 1) mod q) = int (1 mod q)" by (simp only: of_nat_mod of_nat_1)
  then have "a ^ (q - 1) mod q = 1 mod q" by (simp only: of_nat_eq_iff)
  also have "1 mod q = 1" using \<open>1 < q\<close> by simp
  finally show ?thesis .
qed

lemma dvd_power_Suc:
  assumes "x dvd (2 :: nat) ^ Suc n"
  shows "x = 2 ^ Suc n \<or> x dvd 2 ^ n"
proof -
  obtain c where c: "2 ^ Suc n = x * c" using assms by (elim dvdE)
  show ?thesis
  proof (cases "even c")
    case True
    then obtain d where "c = 2 * d" by (elim evenE)
    with c have "2 ^ n = x * d" by simp
    then show ?thesis by simp
  next
    case False
    then have "coprime c (2 ^ Suc n)" by simp
    then have "c dvd 1" using c by (metis coprime_common_divisor dvd_refl dvd_triv_right)
    with c show ?thesis by simp
  qed
qed

lemma power_mod_1: "a mod q = 1 mod q \<Longrightarrow> a ^ n mod q = (1 :: nat) mod q"
  by (metis power_mod power_one)

text \<open>A number whose power \<open>2 ^ 26\<close> is -1 has an order that is a multiple of \<open>2 ^ 27\<close>.\<close>

lemma order_dvd:
  assumes h: "(h :: nat) ^ 2 ^ 26 mod q = q - 1" and e: "h ^ e mod q = 1" and "0 < e" and "2 < q"
  shows "2 ^ 27 dvd e"
proof -
  have "(h ^ 2 ^ 26) ^ 2 mod q = (q - 1) ^ 2 mod q" by (metis h power_mod)
  also have "(q - 1) ^ 2 = 1 + q * (q - 2)"
  proof -
    obtain r where "q = r + 2" using \<open>2 < q\<close> by (metis add.commute less_imp_add_positive)
    then show ?thesis by (simp add: power2_eq_square)
  qed
  also have "(1 + q * (q - 2)) mod q = 1 mod q" by (rule mod_mult_self2)
  finally have full: "h ^ 2 ^ 27 mod q = 1 mod q" by (simp flip: power_mult)
  obtain x y where xy: "e * x = 2 ^ 27 * y + gcd e (2 ^ 27)" using bezout_nat [of e "2 ^ 27"] \<open>0 < e\<close> by auto
  have "h ^ (e * x) mod q = 1 mod q" unfolding power_mult by (rule power_mod_1) (use e \<open>2 < q\<close> in simp)
  moreover have "h ^ (2 ^ 27 * y) mod q = 1 mod q" unfolding power_mult by (rule power_mod_1 [OF full])
  ultimately have g: "h ^ gcd e (2 ^ 27) mod q = 1 mod q"
    unfolding xy power_add by (metis mod_mult_left_eq mult_1)
  show ?thesis
  proof (rule ccontr)
    assume "\<not> 2 ^ 27 dvd e"
    then have "gcd e (2 ^ 27) \<noteq> 2 ^ Suc 26" by (metis eval_nat_numeral(3) gcd_dvd1 numeral_eq_Suc pred_numeral_simps(3) semiring_norm(26-28))
    with dvd_power_Suc [of "gcd e (2 ^ 27)" 26] have "gcd e (2 ^ 27) dvd 2 ^ 26" by simp
    then obtain c where "2 ^ 26 = gcd e (2 ^ 27) * c" by (elim dvdE)
    then have "h ^ 2 ^ 26 mod q = 1 mod q" by (simp only: power_mult power_mod_1 [OF g])
    with h \<open>2 < q\<close> show False by simp
  qed
qed

text \<open>Squaring again and again.\<close>

fun squares :: "unit list \<Rightarrow> nat \<Rightarrow> nat" where
  "squares [] x = x mod bb_order"
| "squares (u # us) x = squares us (x * x mod bb_order)"

lemma squares: "squares us x = x ^ 2 ^ length us mod bb_order"
proof (induction us arbitrary: x)
  case Nil
  then show ?case by simp
next
  case (Cons u us)
  have "squares (u # us) x = (x * x mod bb_order) ^ 2 ^ length us mod bb_order" by (simp add: Cons)
  also have "\<dots> = (x * x) ^ 2 ^ length us mod bb_order" by (rule power_mod)
  also have "(x * x) ^ 2 ^ length us = x ^ 2 ^ length (u # us)"
    by (simp add: power2_eq_square flip: power_mult)
      (metis power2_eq_square power_mult)
  finally show ?case .
qed

lemma bb_power: "(31 ^ 15) ^ 2 ^ 26 mod bb_order = bb_order - 1"
proof -
  let ?us = "[(), (), (), (), (), (), (), (), (), (), (), (), (), (), (), (), (), (), (), (), (), (), (), (), (), ()]"
  have "squares ?us (31 ^ 15) = bb_order - 1" by simp
  moreover have "length ?us = 26" by simp
  ultimately show ?thesis using squares [of ?us "31 ^ 15"] by (simp only:)
qed

lemma bb_prime:
  assumes "0 < a" and "a < bb_order"
  shows "coprime a bb_order"
proof -
  define q where "q = (LEAST d. 1 < d \<and> d dvd bb_order)"
  have "1 < bb_order \<and> bb_order dvd bb_order" by simp
  then have q: "1 < q" "q dvd bb_order" and least: "\<And>d. 1 < d \<Longrightarrow> d dvd bb_order \<Longrightarrow> q \<le> d"
    unfolding q_def by (metis (mono_tags, lifting) LeastI, metis (mono_tags, lifting) LeastI, simp add: Least_le)
  have cop: "coprime b q" if "0 < b" "b < q" for b
  proof (rule ccontr)
    assume "\<not> coprime b q"
    then have "gcd b q \<noteq> 1" by (simp add: coprime_iff_gcd_eq_1)
    moreover have "0 < gcd b q" using that by simp
    ultimately have "1 < gcd b q" by linarith
    moreover have "gcd b q dvd bb_order" using q(2) by (meson dvd_trans gcd_dvd2)
    ultimately have "q \<le> gcd b q" by (rule least)
    moreover have "gcd b q \<le> b" using that by (simp add: gcd_le1_nat)
    ultimately show False using that by simp
  qed
  have "q \<noteq> 2" using q(2) by auto
  then have "2 < q" using q(1) by linarith
  define h :: nat where "h = 31 ^ 15"
  obtain c where c: "bb_order = q * c" using q(2) by (elim dvdE)
  have power: "h ^ 2 ^ 26 mod q = q - 1"
  proof -
    have "h ^ 2 ^ 26 mod q = (h ^ 2 ^ 26 mod bb_order) mod q" unfolding c by (simp only: mod_mod_cancel dvd_triv_left)
    also have "\<dots> = (bb_order - 1) mod q" by (simp only: h_def bb_power)
    also have "\<dots> = q - 1"
    proof -
      have "0 < c" using c by (cases c) simp_all
      then obtain d where "c = Suc d" by (cases c) simp_all
      then have "bb_order - 1 = (q - 1) + q * d" using c q(1) by simp
      then have "(bb_order - 1) mod q = (q - 1) mod q" by (simp only: mod_mult_self2)
      also have "\<dots> = q - 1" using q(1) by simp
      finally show ?thesis .
    qed
    finally show ?thesis .
  qed
  have "coprime h q"
  proof -
    have "coprime (h ^ 2 ^ 26) q"
    proof (rule coprimeI)
      fix d assume "d dvd h ^ 2 ^ 26" "d dvd q"
      then have "d dvd h ^ 2 ^ 26 mod q" by (simp only: dvd_mod)
      with power have "d dvd q - 1" by (simp only:)
      with \<open>d dvd q\<close> q(1) show "is_unit d" by (metis dvd_diffD1 less_imp_le_nat)
    qed
    then show ?thesis by simp
  qed
  from fermat_little [OF cop q(1) this] have "h ^ (q - 1) mod q = 1" by blast
  then have "2 ^ 27 dvd q - 1" by (rule order_dvd [OF power _ _ \<open>2 < q\<close>]) (use q(1) in simp)
  then have big: "2 ^ 27 < q" using q(1) dvd_imp_le [of "2 ^ 27" "q - 1"] by simp
  have "c = 1"
  proof (rule ccontr)
    assume "c \<noteq> 1"
    moreover have "0 < c" using c by (cases c) simp_all
    ultimately have "q \<le> c" using least [of c] c by (simp add: dvd_triv_right)
    then have "2 ^ 27 * 2 ^ 27 < q * c" using big by (intro mult_strict_mono') simp_all
    with c show False by simp
  qed
  then have "q = bb_order" using c by simp
  with cop assms show ?thesis by simp
qed

section \<open>The field\<close>

typedef bb = "{n :: nat. n < bb_order}" morphisms bb_nat BB
  by (rule exI [of _ 0]) simp

setup_lifting type_definition_bb

instantiation bb :: "{zero, one, plus, times, uminus, minus}"
begin

lift_definition zero_bb :: bb is 0 by simp
lift_definition one_bb :: bb is 1 by simp
lift_definition plus_bb :: "bb \<Rightarrow> bb \<Rightarrow> bb" is "\<lambda>x y. (x + y) mod bb_order" by simp
lift_definition times_bb :: "bb \<Rightarrow> bb \<Rightarrow> bb" is "\<lambda>x y. (x * y) mod bb_order" by simp
lift_definition uminus_bb :: "bb \<Rightarrow> bb" is "\<lambda>x. (bb_order - x) mod bb_order" by simp
lift_definition minus_bb :: "bb \<Rightarrow> bb \<Rightarrow> bb" is "\<lambda>x y. (x + (bb_order - y)) mod bb_order" by simp

instance ..

end

instance bb :: idom
proof
  fix a b c :: bb
  show "a + b + c = a + (b + c)" by transfer (simp only: mod_add_left_eq mod_add_right_eq add.assoc)
  show "a + b = b + a" by transfer (simp only: add.commute)
  show "0 + a = a" by transfer simp
  show "- a + a = 0"
    by transfer (simp only: mod_add_left_eq le_add_diff_inverse2 less_imp_le mod_self)
  show "a - b = a + - b" by transfer (simp only: mod_add_right_eq)
  show "a * b * c = a * (b * c)" by transfer (simp only: mod_mult_left_eq mod_mult_right_eq mult.assoc)
  show "a * b = b * a" by transfer (simp only: mult.commute)
  show "1 * a = a" by transfer simp
  show "(a + b) * c = a * c + b * c"
    by transfer (simp only: mod_mult_left_eq mod_add_left_eq mod_add_right_eq add_mult_distrib)
  show "a * (b + c) = a * b + a * c"
    by transfer (simp only: mod_mult_right_eq mod_add_left_eq mod_add_right_eq add_mult_distrib2)
  show "0 * a = 0" by transfer simp
  show "a * 0 = 0" by transfer simp
  show "(0 :: bb) \<noteq> 1" by transfer simp
  show "a * b \<noteq> 0" if "a \<noteq> 0" "b \<noteq> 0"
    using that
  proof transfer
    fix a b :: nat
    assume *: "a < bb_order" "b < bb_order" "a \<noteq> 0" "b \<noteq> 0"
    show "a * b mod bb_order \<noteq> 0"
    proof
      assume "a * b mod bb_order = 0"
      then have "bb_order dvd a * b" by (rule mod_0_imp_dvd)
      moreover have "coprime bb_order a" using bb_prime [of a] * by (simp add: coprime_commute)
      ultimately have "bb_order dvd b" by (simp only: coprime_dvd_mult_right_iff)
      with * show False by (auto dest: dvd_imp_le)
    qed
  qed
qed

lemma bb_of_nat: "bb_nat (of_nat n) = n mod bb_order"
proof (induction n)
  case 0
  then show ?case by (simp add: zero_bb.rep_eq)
next
  case (Suc n)
  then show ?case by (simp add: plus_bb.rep_eq one_bb.rep_eq mod_simps)
qed

lemma baby_bear_bb: "baby_bear TYPE(bb)"
proof -
  have "(of_nat n :: bb) = 0 \<longleftrightarrow> bb_nat (of_nat n) = bb_nat 0" for n by (simp only: bb_nat_inject)
  then show ?thesis
    by (simp add: baby_bear_def bb_of_nat zero_bb.rep_eq ORDER_U32 dvd_eq_mod_eq_0)
qed

end
