(* ===== verification/IdealBackend.thy ===== *)
theory IdealBackend
  imports Plonky3System BabyBear Examples
begin

text \<open>
  Concrete crates for the Plonky3 backend, at which what the development relies on of them holds: a
  permutation that leaves its input as it is, with no columns but its input, and a proof system
  whose proof is the table, checked rule by rule when it is verified.
\<close>

section \<open>Poseidon2\<close>

definition ideal_poseidon2 :: "nat \<Rightarrow> bb poseidon2" where
  "ideal_poseidon2 width = \<lparr> p2_width = width, p2_permute = (\<lambda>s. s),
     p2_hash_iter = (\<lambda>input. take DIGEST_ELEMENTS (padded width input)), p2_num_cols = width,
     p2_rules = (\<lambda>columns. True), p2_last_post = (\<lambda>columns. columns), p2_generate = (\<lambda>s. s) \<rparr>"

definition ideal_backend :: "bb backend" where
  "ideal_backend = \<lparr> be_wide = ideal_poseidon2 WIDTH, be_narrow = ideal_poseidon2 NARROW_WIDTH \<rparr>"

lemma ideal_poseidon2_ok: "poseidon2_ok width (ideal_poseidon2 width)"
  by (simp add: poseidon2_ok_def ideal_poseidon2_def)

lemma ideal_backend_ok: "backend_ok ideal_backend"
  by (simp add: backend_ok_def ideal_backend_def ideal_poseidon2_ok)

section \<open>The proof system\<close>

definition ideal_stark :: "(bb, bb list list, unit, unit) stark" where
  "ideal_stark = \<lparr> stark_prove = (\<lambda>air rows public. if satisfies air rows public then Ok rows else Err ()),
     stark_verify = (\<lambda>air rows public. if satisfies air rows public then Ok () else Err ()) \<rparr>"

definition ideal_table :: "(bb, bb list list) extractor" where
  "ideal_table air rows public = rows"

lemma ideal_stark_complete: "stark_complete ideal_stark"
  by (simp add: stark_complete_def ideal_stark_def)

lemma ideal_stark_extracts: "stark_extracts ideal_stark ideal_table"
  by (simp add: stark_extracts_def ideal_stark_def ideal_table_def)

text \<open>The backend, with streams of zero bytes for BLAKE3.\<close>

definition ideal_crypto :: "(bb digest, bb list list, unit prove_error, unit verify_error) crypto" where
  "ideal_crypto = plonky3_crypto ideal_backend ideal_stark (\<lambda>ctx msg i. 0) (\<lambda>msg i. 0) 128"

lemma ideal_crypto_xof: "cr_xof ideal_crypto = (\<lambda>ctx msg i. 0)"
  by (simp add: ideal_crypto_def plonky3_crypto_def)

end
