(* ===== verification/VerifiedRow.thy ===== *)
theory VerifiedRow
  imports Plonky3System ClientChecks
begin

text \<open>
  What a client of the Plonky3 backend gets for checking: whatever the server does, once the proof of
  the preprocessing and the proof of an evaluation verify, the evaluation unblinds to the PRF of the
  input under the one key the preprocessing proved. This is the VOPRF's point, and where the two
  circuits, the client's own checks and the algebra of a row meet. Here: one evaluation.
\<close>

declare of_nat_unat [simp del]

section \<open>What the preprocessing leaves the client\<close>

text \<open>Digests have eight elements, by their type.\<close>

definition wf_digests :: "'f digest client_voprf \<Rightarrow> bool" where
  "wf_digests cv \<longleftrightarrow> length (verified_pk (cv_pk cv)) = DIGEST_ELEMENTS \<and>
     (\<forall>m \<in> set (cv_m cv). length m = DIGEST_ELEMENTS) \<and>
     (\<forall>d \<in> set (cv_d cv). \<forall>x \<in> set d. length x = DIGEST_ELEMENTS)"

text \<open>The openings the client itself made commitments with, or compared some with.\<close>

definition own_openings ::
  "xof \<Rightarrow> 'c client_state \<Rightarrow> 'c client_voprf \<Rightarrow> block list \<Rightarrow> (domain \<times> 'f :: idom list) set" where
  "own_openings xof cs cv blocks =
     (\<Union>i < par_N. \<Union>v < length (cv_m cv). \<Union>b \<in> {fst (cs_ot_blocks cs ! i), snd (cs_ot_blocks cs ! i)}.
        {(Masks, masks_elements (expand xof b (16 * v)) (randomness b))})
     \<union> (\<Union>j < length (cv_d cv). {(Pad, pad_elements (rc_r_prime (cs_r_c cs ! j)) (randomness (blocks ! j)))})"

lemma own_openingsI:
  "i < par_N \<Longrightarrow> v < length (cv_m cv) \<Longrightarrow> b = fst (cs_ot_blocks cs ! i) \<or> b = snd (cs_ot_blocks cs ! i) \<Longrightarrow>
     (Masks, masks_elements (expand xof b (16 * v)) (randomness b)) \<in> own_openings xof cs cv blocks"
  "j < length (cv_d cv) \<Longrightarrow>
     (Pad, pad_elements (rc_r_prime (cs_r_c cs ! j)) (randomness (blocks ! j))) \<in> own_openings xof cs cv blocks"
  by (auto simp: own_openings_def)

lemma plonky3_crypto_simps [simp]:
  "cr_xof (plonky3_crypto be stark xof blake3 count) = xof"
  "cr_hash (plonky3_crypto be stark xof blake3 count) = blake3"
  "cr_base_ot_count (plonky3_crypto be stark xof blake3 count) = count"
  "commit_key (plonky3_crypto be stark xof blake3 count) = key_commit be"
  "commit_masks (plonky3_crypto be stark xof blake3 count) = masks_commit be"
  "commit_mask_sum (plonky3_crypto be stark xof blake3 count) = mask_sum_commit be"
  "commit_pad (plonky3_crypto be stark xof blake3 count) = pad_commit be"
  "verify_preprocessing (plonky3_crypto be stark xof blake3 count) = plonky3_verify_preprocessing be stark"
  "verify_online_st (plonky3_crypto be stark xof blake3 count) = plonky3_verify_online be stark"
  by (simp_all add: plonky3_crypto_def)

lemma checked_statement_evaluation:
  assumes wf: "wf_client cs" and v: "v < length (cv_m cv)"
  shows "length (ps_evaluations (checked_statement cr cs cv)) = length (cv_m cv)"
    and "es_m (ps_evaluations (checked_statement cr cs cv) ! v) = cv_m cv ! v"
    and "es_c (ps_evaluations (checked_statement cr cs cv) ! v) = map (masks_pair cr v) (cs_ot_blocks cs)"
  using v by (simp_all add: checked_statement_def client_statement_def all_masks_def)

lemma checked_statement_public:
  fixes be :: "'f :: idom backend"
  assumes be: "backend_ok be" and wf: "wf_client cs" and cv: "wf_digests cv" and E: "cv_m cv \<noteq> []"
  shows "wf_pre_public (checked_statement (plonky3_crypto be stark xof blake3 count) cs cv)"
proof -
  let ?cr = "plonky3_crypto be stark xof blake3 count" and ?E = "length (cv_m cv)"
  let ?c = "all_masks ?cr (cs_ot_blocks cs) ?E"
  have digest: "length (masks_commitment ?cr v b) = 8" for v b
    by (simp add: masks_commitment_def length_commit(2) [OF be])
  have bits: "b \<le> 1" if "b \<in> set (cs_bhat cs)" for b
    using wf that by (auto simp: wf_client_def word_le_nat_alt)
  have "length (es_m ev) = 8 \<and> length (es_c ev) = par_N \<and>
      (\<forall>(c_0, c_1) \<in> set (es_c ev). length c_0 = 8 \<and> length c_1 = 8)"
    if ev: "ev \<in> set (ps_evaluations (checked_statement ?cr cs cv))" for ev
  proof -
    obtain v where v: "v < ?E" "ev = ps_evaluations (checked_statement ?cr cs cv) ! v"
      using ev by (auto simp: in_set_conv_nth checked_statement_def client_statement_def)
    show ?thesis
      using v wf cv digest
      by (auto simp: checked_statement_evaluation [OF wf v(1)] masks_pair_def wf_client_def wf_digests_def)
  qed
  moreover have "ps_evaluations (checked_statement ?cr cs cv) \<noteq> []"
    using E by (simp add: checked_statement_def client_statement_def all_masks_def)
  ultimately show ?thesis
    using wf cv bits by (simp add: wf_pre_public_def checked_statement_def client_statement_def wf_client_def wf_digests_def)
qed

section \<open>What the proof of the preprocessing gives\<close>

text \<open>The block of a pair whose masks the circuit picks is the one the algebra of a row needs.\<close>

definition picked_block :: "'c client_state \<Rightarrow> secret_key \<Rightarrow> nat \<Rightarrow> block" where
  "picked_block cs sk i = (if as_bits sk ! i = 0 then client_block cs i else client_other_block cs i)"

lemma picked_masks:
  assumes wf: "wf_client cs" and sk: "wf_key sk" and i: "i < par_N"
  shows "picked (cs_bhat cs) sk (map (masks_pair cr v) (cs_ot_blocks cs)) i
      = masks_commitment cr v (picked_block cs sk i)"
    and "picked_block cs sk i = fst (cs_ot_blocks cs ! i) \<or> picked_block cs sk i = snd (cs_ot_blocks cs ! i)"
proof -
  have "unat (as_bits sk ! i) = 0 \<or> unat (as_bits sk ! i) = 1"
    using wf_key_bound [OF sk, of "as_bits sk ! i"] i sk by (simp add: wf_key_def le_Suc_eq)
  then have "as_bits sk ! i = 0 \<or> as_bits sk ! i = 1" by (simp add: word_unat_eq_iff)
  moreover have "cs_bhat cs ! i = 0 \<or> cs_bhat cs ! i = 1"
    using wf_client_bhat [OF wf i] by (simp add: word_unat_eq_iff)
  moreover have "i < length (cs_ot_blocks cs)" using wf i by (simp add: wf_client_def)
  ultimately show "picked (cs_bhat cs) sk (map (masks_pair cr v) (cs_ot_blocks cs)) i
      = masks_commitment cr v (picked_block cs sk i)"
    by (elim disjE) (simp_all add: picked_def picked_block_def client_block_def client_other_block_def masks_pair_def)
  show "picked_block cs sk i = fst (cs_ot_blocks cs ! i) \<or> picked_block cs sk i = snd (cs_ot_blocks cs ! i)"
    by (simp add: picked_block_def client_block_def client_other_block_def)
qed

definition picked_mask_rows :: "xof \<Rightarrow> 'c client_state \<Rightarrow> secret_key \<Rightarrow> nat \<Rightarrow> zq list list" where
  "picked_mask_rows xof cs sk v = map (\<lambda>i. expand xof (picked_block cs sk i) (16 * v)) [0..<par_N]"

lemma picked_mask_rows_in_range: "masks_in_range (picked_mask_rows xof cs sk v)"
proof -
  have "wf_masks (picked_mask_rows xof cs sk v)" by (auto simp: wf_masks_def picked_mask_rows_def)
  moreover have "unat (picked_mask_rows xof cs sk v ! i ! k) < 4096" if "k < 16" "i < 482" for k i
    using that by (simp add: picked_mask_rows_def par_N_def unat_expand mask_at_less del: upt_Suc)
  ultimately show ?thesis by (simp add: masks_in_range_def)
qed

lemma checked_mask_sums:
  fixes be :: "'f :: idom backend"
  assumes wf: "wf_client cs" and v: "v < length (cv_m cv)"
    and rel: "pre_relation be X (checked_statement (plonky3_crypto be stark xof blake3 count) cs cv) sk"
    and bind: "binding be X" and own: "own_openings xof cs cv blocks \<subseteq> X"
  obtains z rnd where "length z = 16" "length rnd = 5" "(MaskSum, zq_elements z @ rnd) \<in> X"
    "commit_elements be MaskSum (zq_elements z @ rnd) = cv_m cv ! v" "\<And>k. k < 16 \<Longrightarrow> unat (z ! k) < 4096"
    "\<And>k. k < 16 \<Longrightarrow> r_sigma_sum sk (column k (picked_mask_rows xof cs sk v)) = Some (z ! k)"
proof -
  let ?cr = "plonky3_crypto be stark xof blake3 count"
  let ?st = "checked_statement ?cr cs cv" and ?masks = "picked_mask_rows xof cs sk v"
  have sk: "wf_key sk" using rel by (simp add: pre_relation_def)
  note ev = checked_statement_evaluation [OF wf v, of ?cr]
  have bhat: "ps_b_bar ?st = cs_bhat cs" by (simp add: checked_statement_def client_statement_def)
  from rel v obtain z rnd os where r: "evaluation_relation be (cs_bhat cs) sk (ps_evaluations ?st ! v) z rnd os"
    "(MaskSum, zq_elements z @ rnd) \<in> X" "\<And>i. i < 482 \<Longrightarrow> (Masks, os ! i) \<in> X"
    unfolding pre_relation_def ev(1) bhat by blast
  have opened: "os ! i = masks_elements (?masks ! i) (randomness (picked_block cs sk i))" if i: "i < 482" for i
  proof -
    let ?b = "picked_block cs sk i"
    have iN: "i < par_N" using i by (simp add: par_N_def)
    have "commit_elements be Masks (os ! i) = masks_commitment ?cr v ?b"
      using r(1) i picked_masks(1) [OF wf sk iN] by (simp add: evaluation_relation_def ev(3))
    also have "\<dots> = commit_elements be Masks (masks_elements (expand xof ?b (16 * v)) (randomness ?b))"
      by (simp add: masks_commitment_def masks_commit_def first_run_def mult.commute)
    finally have "os ! i = masks_elements (expand xof ?b (16 * v)) (randomness ?b)"
      by (rule bindingD [OF bind r(3) [OF i] subsetD [OF own own_openingsI(1) [OF iN v picked_masks(2) [OF wf sk iN]]]])
    then show ?thesis using iN by (simp add: picked_mask_rows_def)
  qed
  have "length (?masks ! i) = 16" if "i < 482" for i
    using that by (simp add: picked_mask_rows_def par_N_def)
  with opened have "\<forall>i < 482. take 16 (os ! i) = zq_elements (?masks ! i)"
    by (simp add: masks_elements_def zq_elements_def)
  with r(1) picked_mask_rows_in_range [of xof cs sk v]
  have "\<forall>k < 16. r_sigma_sum sk (column k ?masks) = Some (z ! k)"
    by (simp add: evaluation_relation_def)
  with r(1,2) ev(2) show ?thesis by (intro that [of z rnd]) (simp_all add: evaluation_relation_def)
qed

section \<open>Where the two proofs meet\<close>

lemma binding_mono: "binding be X \<Longrightarrow> Y \<subseteq> X \<Longrightarrow> binding be Y"
  unfolding binding_def by blast

lemma entry_relation_mono: "entry_relation be Y run sk r j \<Longrightarrow> Y \<subseteq> X \<Longrightarrow> entry_relation be X run sk r j"
  unfolding entry_relation_def by blast

lemma pre_relation_mono: "pre_relation be Y st sk \<Longrightarrow> Y \<subseteq> X \<Longrightarrow> pre_relation be X st sk"
  unfolding pre_relation_def by blast

lemma online_relation_mono: "online_relation be Y st sk r rnd \<Longrightarrow> Y \<subseteq> X \<Longrightarrow> online_relation be X st sk r rnd"
  unfolding online_relation_def using entry_relation_mono by blast

lemma key_unique:
  fixes be :: "'f :: idom backend"
  assumes bb: "baby_bear TYPE('f)" and bind: "binding be X" and keys: "wf_key sk" "wf_key sk'"
    and opened: "(Key, key_elements (pack_key sk)) \<in> X" "(Key, key_elements (pack_key sk')) \<in> X"
    and eq: "key_commit be sk = key_commit be sk'"
  shows "sk = sk'"
proof -
  have "(key_elements (pack_key sk) :: 'f list) = key_elements (pack_key sk')"
    by (rule bindingD [OF bind opened]) (use eq in \<open>simp add: key_commit_def\<close>)
  then have "key_bits sk = key_bits sk'"
    using key_elements_inj [OF bb key_of_bits(2) [OF keys(1)] key_of_bits(2) [OF keys(2)]]
    by (simp add: key_of_bits(1) keys)
  then show ?thesis by (metis key_of_bits(1) keys)
qed

text \<open>The statement of an evaluation, as the client fills it in before it verifies.\<close>

definition filled_statement ::
  "'f digest client_voprf \<Rightarrow> nat \<Rightarrow> row_request list \<Rightarrow> row_response list
     \<Rightarrow> ('f digest, 'f digest, 'f digest) online_statement \<Rightarrow> bool" where
  "filled_statement cv v rqs reps st \<longleftrightarrow> os_pk st = verified_pk (cv_pk cv) \<and> os_m st = cv_m cv ! v \<and>
     length (os_runs st) = 16 \<and>
     (\<forall>k < 16. os_runs st ! k = \<lparr> run_d = cv_d cv ! (16 * v + k), run_e = row_e (rqs ! k),
        run_b_bar_prime = row_b_bar_prime (rqs ! k), run_y = resp_y (reps ! k) \<rparr>)"

lemma checked_row:
  fixes be :: "'f :: idom backend"
  assumes bb: "baby_bear TYPE('f)" and wf: "wf_client cs" and v: "v < length (cv_m cv)"
    and check: "checked_preprocessing (plonky3_crypto be stark xof blake3 count) cs cv blocks p"
    and pre: "pre_relation be X (checked_statement (plonky3_crypto be stark xof blake3 count) cs cv) sk"
    and online: "online_relation be X st sk' r rnd" and st: "filled_statement cv v rqs reps st"
    and bind: "binding be X" and own: "own_openings xof cs cv blocks \<subseteq> X"
    and mx: "wf_matrix mx" and k: "k < 16"
    and rq: "request_row_ok xof cs (16 * v) mx k (rqs ! k) (fins ! k)" and y: "length (resp_y (reps ! k)) = 16"
    and d: "16 * v + k < length (cv_d cv)" and b': "unat (rc_b_prime (cs_r_c cs ! (16 * v + k))) < 16"
  shows "\<exists>out. finalize_row (fins ! k) (reps ! k) = Some out
    \<and> evaluate_single_row sk (matrix_rows mx ! k) = Some out"
proof -
  let ?cr = "plonky3_crypto be stark xof blake3 count" and ?R = "fin_r_sigma (fins ! k)"
  let ?rc = "cs_r_c cs ! (16 * v + k)" and ?masks = "picked_mask_rows xof cs sk v"
  let ?j = "unat ?R mod 16" and ?d = "cv_d cv ! (16 * v + k)"
  obtain z zr where z: "length z = 16" "length zr = 5" "(MaskSum, zq_elements z @ zr) \<in> X"
    "commit_elements be MaskSum (zq_elements z @ zr) = cv_m cv ! v" "\<And>k. k < 16 \<Longrightarrow> unat (z ! k) < 4096"
    "\<And>k. k < 16 \<Longrightarrow> r_sigma_sum sk (column k ?masks) = Some (z ! k)"
    by (rule checked_mask_sums [OF wf v pre bind own]) (rule that)
  have sk: "wf_key sk" and pk: "key_commit be sk = verified_pk (cv_pk cv)"
    "(Key, key_elements (pack_key sk)) \<in> X"
    using pre by (simp_all add: pre_relation_def checked_statement_def client_statement_def)
  have on: "wf_key sk'" "length r = 16" "(Key, key_elements (pack_key sk')) \<in> X" "(MaskSum, r @ rnd) \<in> X"
    "key_commit be sk' = os_pk st" "commit_elements be MaskSum (r @ rnd) = os_m st"
    "entry_relation be X (os_runs st ! k) sk' (r ! k) ?j"
    using online k by (simp_all add: online_relation_def)
  have key: "sk' = sk"
    by (rule key_unique [OF bb bind on(1) sk on(3) pk(2)]) (use on(5) pk(1) st in \<open>simp add: filled_statement_def\<close>)
  have "r @ rnd = zq_elements z @ zr"
    by (rule bindingD [OF bind on(4) z(3)]) (use on(6) z(4) st in \<open>simp add: filled_statement_def\<close>)
  then have r: "r ! k = of_nat (unat (z ! k))" using on(2) z(1) k by (simp add: zq_elements_def)
  have run: "os_runs st ! k = \<lparr> run_d = ?d, run_e = row_e (rqs ! k),
      run_b_bar_prime = row_b_bar_prime (rqs ! k), run_y = resp_y (reps ! k) \<rparr>"
    using st k by (simp add: filled_statement_def)
  have order: "order_of (row_b_bar_prime (rqs ! k)) ?j = unat (rc_b_prime ?rc)"
    using request_row_index [OF rq b'] by (simp add: order_of_def)
  have opened: "?d ! unat (rc_b_prime ?rc) = commit_pad ?cr
      \<lparr> pi_pad = rc_r_prime ?rc, pi_randomness = randomness (blocks ! (16 * v + k)) \<rparr>"
    using check d by (simp add: checked_preprocessing_def)
  from on(7) obtain q qr where q: "(Pad, q # qr) \<in> X"
    "commit_elements be Pad (q # qr) = ?d ! unat (rc_b_prime ?rc)"
    "\<And>r_sigma pad_j. r ! k = of_nat (unat r_sigma) \<Longrightarrow> unat r_sigma < 4096 \<Longrightarrow> q = of_nat (unat pad_j) \<Longrightarrow>
       unat (resp_y (reps ! k) ! ?j) = entry_value (unat (a_sigma_sum sk r_sigma (row_e (rqs ! k)))) ?j (unat (pad_j :: zp))"
    unfolding entry_relation_def run key by (auto simp: order)
  have "q # qr = pad_elements (rc_r_prime ?rc) (randomness (blocks ! (16 * v + k)))"
    by (rule bindingD [OF bind q(1) subsetD [OF own own_openingsI(2) [OF d]]])
      (use q(2) opened in \<open>simp add: pad_commit_def\<close>)
  then have "q = of_nat (unat (rc_r_prime ?rc))" by (simp add: pad_elements_def)
  from q(3) [OF r z(5) [OF k] this]
  have entry: "unat (resp_y (reps ! k) ! ?j)
      = entry_value (unat (a_sigma_sum sk (z ! k) (row_e (rqs ! k)))) ?j (unat (fin_r_prime (fins ! k)))"
    using rq by (simp add: request_row_ok_def)
  have col: "column k ?masks = map (\<lambda>i. expand xof (picked_block cs sk i) (16 * v) ! k) [0..<par_N]"
    by (simp add: column_def picked_mask_rows_def)
  show ?thesis
    by (rule entry_unblinds [OF sk mx k rq _ _ z(6) [OF k] z(5) [OF k] y])
      (use entry in \<open>simp_all add: entry_value_def col unat_expand k picked_block_def [symmetric] del: upt_Suc\<close>)
qed

end
