(* ===== verification/VerifiedOutput.thy ===== *)
theory VerifiedOutput
  imports VerifiedRow OnlineTheorems
begin

text \<open>
  Verified evaluations, batch by batch: whatever response the server makes up, if \<open>finalize_batch\<close>
  accepts it, every output is the PRF of its input under the key of the preprocessing.
\<close>

declare of_nat_unat [simp del]

section \<open>What it takes for an operation to return \<open>Ok\<close>\<close>

lemma finalize_rows_OkD:
  "finalize_rows n ps = Ok outs \<Longrightarrow> opt_map (\<lambda>(fin, rep). finalize_row fin rep) ps = Some outs"
proof (induction n ps arbitrary: outs rule: finalize_rows.induct)
  case (2 row fin resp rest)
  then show ?case
    by (cases "finalize_row fin resp") (auto simp: res_bind_Ok_iff split: if_splits)
qed simp

lemma finalize_evaluations_OkD:
  "finalize_evaluations n ps = Ok outs \<Longrightarrow> length outs = length ps \<and> (\<forall>v < length ps.
     opt_map (\<lambda>(fin, rep). finalize_row fin rep) (zip (fst (ps ! v)) (snd (ps ! v))) = Some (elements (outs ! v)))"
proof (induction n ps arbitrary: outs rule: finalize_evaluations.induct)
  case (2 eval fins reps rest)
  from "2.prems" obtain out outs' where
    "finalize_rows (eval * H_ROWS) (zip fins reps) = (Ok out :: ('a finalize_error, zp list) res)"
    "finalize_evaluations (Suc eval) rest = (Ok outs' :: ('a finalize_error, prf_output list) res)"
    "outs = PrfOutput out # outs'"
    by (auto simp: res_bind_Ok_iff)
  with "2.IH" [of outs'] finalize_rows_OkD show ?case by (auto simp: nth_Cons split: nat.splits)
qed simp

lemma verify_all_OkD:
  assumes "length sts = n" and "length reps = n" and "length proofs = n"
    and "verify_all cr (zip sts (zip reps proofs)) = Ok ()" and "v < n"
  shows "verify_online cr (sts ! v) (reps ! v) (proofs ! v) = Ok ()"
  using assms
proof (induction sts arbitrary: n reps proofs v)
  case Nil
  then show ?case by simp
next
  case (Cons st sts)
  then obtain rep reps' proof1 proofs' where l: "reps = rep # reps'" "proofs = proof1 # proofs'"
    by (cases reps; cases proofs) auto
  have ok: "verify_online cr st rep proof1 = Ok ()" "verify_all cr (zip sts (zip reps' proofs')) = Ok ()"
    using Cons.prems(4) by (auto simp: l res_bind_Ok_iff map_err_Ok_iff)
  show ?case
  proof (cases v)
    case 0
    with ok l show ?thesis by simp
  next
    case (Suc w)
    with Cons.IH [of "length sts" reps' proofs' w] Cons.prems ok(2) l show ?thesis by simp
  qed
qed

section \<open>The tables behind the proofs\<close>

definition preprocessing_table ::
  "'f :: idom backend \<Rightarrow> ('f, 'proof) extractor \<Rightarrow> 'f pre_statement \<Rightarrow> 'proof \<Rightarrow> 'f list list" where
  "preprocessing_table be table st p =
     (let air = pre_circuit_new st in table (pre_air be air) p (pre_public air))"

definition online_table_of ::
  "'f :: idom backend \<Rightarrow> ('f, 'proof) extractor \<Rightarrow> ('f digest, 'f digest, 'f digest) online_statement
     \<Rightarrow> 'proof \<Rightarrow> 'f list list" where
  "online_table_of be table st p = table (online_air be) p (the (online_public_values st))"

definition response_openings ::
  "'f :: idom backend \<Rightarrow> ('f, 'proof) extractor \<Rightarrow> 'f digest finalize_state \<Rightarrow> 'proof response_message
     \<Rightarrow> (domain \<times> 'f list) set" where
  "response_openings be table fin rep = (\<Union>v < length (the (fs_voprf fin)).
     let st = the (fs_voprf fin) ! v; rows = chunks_exact 16 (rep_rows rep) ! v
     in online_openings be
          (online_table_of be table (st\<lparr> os_runs := set_ys (os_runs st) rows \<rparr>) (rep_proofs rep ! v)))"

text \<open>Every opening of a commitment that an evaluation involves.\<close>

definition verified_openings ::
  "'f :: idom backend \<Rightarrow> ('f, 'proof) extractor \<Rightarrow> ('f digest, 'proof, 'pe, 've) crypto
     \<Rightarrow> 'f digest client_state \<Rightarrow> 'f digest client_voprf \<Rightarrow> block list \<Rightarrow> 'proof
     \<Rightarrow> 'f digest finalize_state \<Rightarrow> 'proof response_message \<Rightarrow> (domain \<times> 'f list) set" where
  "verified_openings be table cr cs cv blocks p fin rep =
     pre_openings be (preprocessing_table be table (checked_statement cr cs cv) p)
     \<union> own_openings (cr_xof cr) cs cv blocks \<union> response_openings be table fin rep"

text \<open>The key that the preprocessing proved.\<close>

definition committed_key ::
  "'f :: idom backend \<Rightarrow> ('f, 'proof) extractor \<Rightarrow> ('f digest, 'proof, 'pe, 've) crypto
     \<Rightarrow> 'f digest client_state \<Rightarrow> 'f digest client_voprf \<Rightarrow> 'proof \<Rightarrow> secret_key" where
  "committed_key be table cr cs cv p = table_key (preprocessing_table be table (checked_statement cr cs cv) p)"

lemma committed_relation:
  fixes be :: "'f :: idom backend"
  assumes bb: "baby_bear TYPE('f)" and be: "backend_ok be" and stark: "stark_extracts stark table"
    and check: "checked_preprocessing (plonky3_crypto be stark xof blake3 count) cs cv blocks p"
    and digests: "wf_digests cv" and bind: "binding be X"
    and X: "pre_openings be (preprocessing_table be table
       (checked_statement (plonky3_crypto be stark xof blake3 count) cs cv) p) \<subseteq> X"
  shows "pre_relation be X (checked_statement (plonky3_crypto be stark xof blake3 count) cs cv)
    (committed_key be table (plonky3_crypto be stark xof blake3 count) cs cv p)"
proof -
  let ?cr = "plonky3_crypto be stark xof blake3 count"
  let ?st = "checked_statement ?cr cs cv"
  have wf: "wf_client cs" and p: "plonky3_verify_preprocessing be stark ?st p = Ok ()"
    using check by (simp_all add: checked_preprocessing_def)
  note sound = plonky3_preprocessing_sound [OF stark p]
  have "cv_m cv \<noteq> []"
    using sound(1) by (auto simp: checked_statement_def client_statement_def)
  then have public: "wf_pre_public ?st" by (rule checked_statement_public [OF be wf digests])
  have "pre_relation be (pre_openings be (preprocessing_table be table ?st p)) ?st (committed_key be table ?cr cs cv p)"
    unfolding committed_key_def
    by (rule pre_air_sound [OF bb be public]) (use sound(2) binding_mono [OF bind X] in \<open>simp_all add: preprocessing_table_def Let_def\<close>)
  then show ?thesis by (rule pre_relation_mono [OF _ X])
qed

section \<open>One evaluation\<close>

lemma filled_statementI:
  assumes "statement_ok cv (16 * e) rqs st" and "e < length (cv_m cv)" and "16 * e + 16 \<le> length (cv_d cv)"
    and "length rqs = 16" and "length reps = 16"
  shows "filled_statement cv e rqs reps (st\<lparr> os_runs := set_ys (os_runs st) reps \<rparr>)"
  using online_statement_of_Some [of "16 * e" cv rqs] assms
  by (auto simp: filled_statement_def statement_ok_def nth_set_ys)

lemma filled_statement_public:
  fixes cv :: "'f digest client_voprf"
  assumes st: "filled_statement cv e rqs reps st" and cv: "wf_digests cv" "\<forall>d \<in> set (cv_d cv). length d = 16"
    and e: "e < length (cv_m cv)" "16 * e + 16 \<le> length (cv_d cv)"
    and rqs: "length rqs = 16" "\<forall>rq \<in> set rqs. wf_row_request rq"
    and reps: "length reps = 16" "\<forall>rep \<in> set reps. length (resp_y rep) = 16"
  shows "wf_online_public st"
proof -
  have "wf_run_statement run \<and> (\<forall>d \<in> set (run_d run). length d = 8) \<and> unat (run_b_bar_prime run) < 16
      \<and> (\<forall>x \<in> set (run_e run). x < par_Q)" if run: "run \<in> set (os_runs st)" for run
  proof -
    obtain k where k: "k < 16" "run = os_runs st ! k"
      using run st by (auto simp: in_set_conv_nth filled_statement_def)
    have "cv_d cv ! (16 * e + k) \<in> set (cv_d cv)" "rqs ! k \<in> set rqs" "reps ! k \<in> set reps"
      using k(1) e(2) rqs(1) reps(1) by simp_all
    then show ?thesis
      using k st cv rqs(2) reps(2)
      by (auto simp: filled_statement_def wf_digests_def wf_row_request_def wf_run_statement_def less_par_Q)
  qed
  moreover have "cv_m cv ! e \<in> set (cv_m cv)" using e(1) by simp
  ultimately show ?thesis
    using st cv(1) by (auto simp: wf_online_public_def wf_online_statement_def filled_statement_def wf_digests_def)
qed

lemma checked_evaluation:
  fixes be :: "'f :: idom backend" and stark :: "('f, 'proof, 'pe, 've) stark"
  assumes cr: "cr = plonky3_crypto be stark xof blake3 count"
    and bb: "baby_bear TYPE('f)" and be: "backend_ok be" and stark: "stark_extracts stark table"
    and check: "checked_preprocessing cr cs cv blocks p" and digests: "wf_digests cv"
    and pre: "pre_relation be X (checked_statement cr cs cv) sk"
    and e: "16 * e + 16 \<le> length (cs_r_c cs)"
    and rq: "request_block_ok xof cs (16 * e) (hash_to_zq_matrix xof tag x) rqs fins"
    and st: "statement_ok cv (16 * e) rqs st"
    and reps: "length reps = 16" "\<forall>rep \<in> set reps. length (resp_y rep) = 16"
    and verified: "verify_online cr st reps q = Ok ()"
    and bind: "binding be X" and own: "own_openings xof cs cv blocks \<subseteq> X"
    and X: "online_openings be (online_table_of be table (st\<lparr> os_runs := set_ys (os_runs st) reps \<rparr>) q) \<subseteq> X"
  shows "\<exists>out. evaluate xof sk tag x = Some out
    \<and> opt_map (\<lambda>(fin, rep). finalize_row fin rep) (zip fins reps) = Some (elements out)"
proof -
  let ?st = "st\<lparr> os_runs := set_ys (os_runs st) reps \<rparr>"
  have wf: "wf_client cs" and cv: "cs_voprf cs = Some cv" using check by (simp_all add: checked_preprocessing_def)
  then have lens: "length (cv_m cv) = length (cs_r_c cs) div 16" "length (cv_d cv) = length (cs_r_c cs) div 16 * 16"
    "\<forall>d \<in> set (cv_d cv). length d = 16" by (simp_all add: wf_client_def evaluations_for_def)
  have le: "Suc e \<le> length (cs_r_c cs) div 16" using e by (simp add: less_eq_div_iff_mult_less_eq)
  then have ev: "e < length (cv_m cv)" "16 * e + 16 \<le> length (cv_d cv)"
    using lens mult_le_mono1 [OF le, of 16] by simp_all
  have rqs: "length rqs = 16" "\<forall>rq \<in> set rqs. wf_row_request rq" "length fins = 16"
    using request_block_wf [OF rq] rq by (simp_all add: request_block_ok_def)
  have filled: "filled_statement cv e rqs reps ?st" by (rule filled_statementI [OF st ev rqs(1) reps(1)])
  have public: "wf_online_public ?st" by (rule filled_statement_public [OF filled digests lens(3) ev rqs(1,2) reps])
  from verified have "plonky3_verify_online be stark ?st q = Ok ()" by (simp add: cr verify_online_def)
  from plonky3_online_sound [OF stark this] obtain vals where
    vals: "online_public_values ?st = Some vals" "satisfies (online_air be) (online_table_of be table ?st q) vals"
    by (auto simp: online_table_of_def)
  obtain sk' r rnd where "online_relation be (online_openings be (online_table_of be table ?st q)) ?st sk' r rnd"
    using online_air_sound [OF bb be public vals binding_mono [OF bind X]] by blast
  then have online: "online_relation be X ?st sk' r rnd" by (rule online_relation_mono [OF _ X])
  have row: "\<exists>out. finalize_row (fins ! k) (reps ! k) = Some out
      \<and> evaluate_single_row sk (matrix_rows (hash_to_zq_matrix xof tag x) ! k) = Some out" if k: "k < 16" for k
  proof (rule checked_row [OF bb wf ev(1) check [unfolded cr] pre [unfolded cr] online filled bind own wf_hash k])
    show "request_row_ok xof cs (16 * e) (hash_to_zq_matrix xof tag x) k (rqs ! k) (fins ! k)"
      using rq k by (simp add: request_block_ok_def)
    show "unat (rc_b_prime (cs_r_c cs ! (16 * e + k))) < 16" using wf e k by (simp add: wf_client_def)
  qed (use k reps ev in simp_all)
  have "wf_key sk" using pre by (simp add: pre_relation_def)
  from block_outputs [OF this rqs(3) reps(1) row] show ?thesis .
qed

section \<open>A batch\<close>

text \<open>What \<open>finalize_batch\<close> accepted, evaluation by evaluation.\<close>

lemma finalize_batch_OkD:
  fixes cr :: "('c, 'proof, 'pe, 've) crypto"
  assumes ok: "finalize_batch cr fin rep = Ok outs" and fin: "fs_rows fin = concat fss" "fs_voprf fin = Some sts"
    and lens: "\<And>f. f \<in> set fss \<Longrightarrow> length f = 16" "length sts = length fss"
  defines "reps \<equiv> chunks_exact 16 (rep_rows rep)"
  shows "length reps = length fss" and "length outs = length fss"
    and "v < length fss \<Longrightarrow> length (reps ! v) = 16"
    and "v < length fss \<Longrightarrow> verify_online cr (sts ! v) (reps ! v) (rep_proofs rep ! v) = Ok ()"
    and "v < length fss \<Longrightarrow> opt_map (\<lambda>(fin, rep). finalize_row fin rep) (zip (fss ! v) (reps ! v))
           = Some (elements (outs ! v))"
    and "length (rep_proofs rep) = length fss"
proof -
  have "\<forall>f \<in> set fss. length f = 16" using lens(1) by blast
  then have chunks: "chunks_exact 16 (concat fss) = fss" and rows: "length (concat fss) = 16 * length fss"
    using length_concat_const [of fss 16] by (simp_all only: chunks_exact_concat zero_less_numeral mult.commute)
  from ok have parts: "length (rep_rows rep) = 16 * length fss" "length (rep_proofs rep) = length sts"
    "verify_all cr (zip sts (zip reps (rep_proofs rep))) = Ok ()" "finalize_evaluations 0 (zip fss reps) = (Ok outs :: ('ve finalize_error, prf_output list) res)"
    using rows by (auto simp: finalize_batch_def fin chunks reps_def res_bind_Ok_iff split: if_splits)
  show len: "length reps = length fss" using parts(1) by (simp add: reps_def length_chunks_exact)
  show "length (reps ! v) = 16" if "v < length fss"
    using that len chunks_exact_lengths [of "reps ! v" 16 "rep_rows rep"] by (simp add: reps_def)
  show "verify_online cr (sts ! v) (reps ! v) (rep_proofs rep ! v) = Ok ()" if "v < length fss"
    by (rule verify_all_OkD [OF lens(2) len _ parts(3) that]) (simp add: parts(2) lens(2))
  show "length outs = length fss" using finalize_evaluations_OkD [OF parts(4)] len by simp
  show "opt_map (\<lambda>(fin, rep). finalize_row fin rep) (zip (fss ! v) (reps ! v)) = Some (elements (outs ! v))"
    if "v < length fss" using finalize_evaluations_OkD [OF parts(4)] len that by simp
  show "length (rep_proofs rep) = length fss" by (simp add: parts(2) lens(2))
qed

text \<open>Evaluations are counted from the first run of the batch.\<close>

lemma verified_batch_run:
  assumes "wf_client cs" and "cs_voprf cs = Some cv" and "16 * n \<le> client_remaining_runs cs" and "v < n"
  obtains e where "client_spent cs + 16 * v = 16 * e" "16 * e + 16 \<le> length (cs_r_c cs)"
proof
  have mod: "client_spent cs mod 16 = 0" using assms(1,2) by (simp add: wf_client_def budget_defs)
  show e: "client_spent cs + 16 * v = 16 * (client_spent cs div 16 + v)"
    using mod by (metis add_0_right distrib_left mult_div_mod_eq)
  have "16 * v + 16 \<le> client_total cs - client_spent cs"
    using assms(3,4) by (simp add: client_remaining)
  then show "16 * (client_spent cs div 16 + v) + 16 \<le> length (cs_r_c cs)"
    using wf_client_spent [OF assms(1)] unfolding e [symmetric] wf_client_total [OF assms(1)] by linarith
qed

lemma response_openings_at:
  assumes "fs_voprf fin = Some sts" and "v < length sts"
  shows "online_openings be (online_table_of be table ((sts ! v)\<lparr> os_runs :=
      set_ys (os_runs (sts ! v)) (chunks_exact 16 (rep_rows rep) ! v) \<rparr>) (rep_proofs rep ! v))
    \<subseteq> response_openings be table fin rep"
  using assms by (auto simp: response_openings_def Let_def)

lemma verified_batch:
  fixes be :: "'f :: idom backend" and stark :: "('f, 'proof, 'pe, 've) stark"
  assumes cr: "cr = plonky3_crypto be stark xof blake3 count"
    and bb: "baby_bear TYPE('f)" and be: "backend_ok be" and stark: "stark_extracts stark table"
    and check: "checked_preprocessing cr cs cv blocks p" and digests: "wf_digests cv"
    and request: "request_batch xof cs tag xs = (cs', Ok (req, fin))"
    and rows: "\<forall>row \<in> set (rep_rows rep). length (resp_y row) = 16"
    and ok: "finalize_batch cr fin rep = Ok outs"
    and bind: "binding be (verified_openings be table cr cs cv blocks p fin rep)"
  shows "map (evaluate xof (committed_key be table cr cs cv p) tag) xs = map Some outs"
proof -
  let ?X = "verified_openings be table cr cs cv blocks p fin rep"
  let ?sk = "committed_key be table cr cs cv p" and ?reps = "chunks_exact 16 (rep_rows rep)"
  have wf: "wf_client cs" and cv: "cs_voprf cs = Some cv" using check by (simp_all add: checked_preprocessing_def)
  have "pre_openings be (preprocessing_table be table (checked_statement cr cs cv) p) \<subseteq> ?X"
    by (auto simp: verified_openings_def)
  then have pre: "pre_relation be ?X (checked_statement cr cs cv) ?sk"
    using committed_relation [OF bb be stark check [unfolded cr] digests bind] cr by simp
  have own: "own_openings xof cs cv blocks \<subseteq> ?X" by (auto simp: verified_openings_def cr)
  obtain rss fss sts where r: "fin = \<lparr> fs_uid = cs_uid cs, fs_rows = concat fss, fs_voprf = Some sts \<rparr>"
    "length rss = length xs" "length fss = length xs" "16 * length xs \<le> client_remaining_runs cs"
    and block: "\<And>v. v < length xs \<Longrightarrow> request_block_ok xof cs (client_spent cs + 16 * v)
        (hash_to_zq_matrix xof tag (xs ! v)) (rss ! v) (fss ! v)"
    and sts: "length sts = length xs" "\<And>v. v < length xs \<Longrightarrow> statement_ok cv (client_spent cs + 16 * v) (rss ! v) (sts ! v)"
    by (rule request_batch_OkD [OF request wf]) (use cv in auto)
  have fss: "length f = 16" if "f \<in> set fss" for f
    using that block r(3) by (auto simp: in_set_conv_nth request_block_ok_def)
  note fin = finalize_batch_OkD [OF ok, of fss sts, OF _ _ fss]
  have out: "evaluate xof ?sk tag (xs ! v) = Some (outs ! v)" if v: "v < length xs" for v
  proof -
    obtain e where e: "client_spent cs + 16 * v = 16 * e" "16 * e + 16 \<le> length (cs_r_c cs)"
      by (rule verified_batch_run [OF wf cv r(4) v])
    have reps: "length (?reps ! v) = 16" "\<forall>rep \<in> set (?reps ! v). length (resp_y rep) = 16"
      using fin(1,3) v r sts(1) rows chunks_exact_subset [of "?reps ! v" 16 "rep_rows rep"] by auto
    have X: "online_openings be (online_table_of be table ((sts ! v)\<lparr> os_runs :=
        set_ys (os_runs (sts ! v)) (?reps ! v) \<rparr>) (rep_proofs rep ! v)) \<subseteq> ?X"
      using response_openings_at [of fin sts v be table rep] v sts(1) r(1) by (auto simp: verified_openings_def)
    obtain u where "evaluate xof ?sk tag (xs ! v) = Some u"
      "opt_map (\<lambda>(fin, rep). finalize_row fin rep) (zip (fss ! v) (?reps ! v)) = Some (elements u)"
      using checked_evaluation [OF cr bb be stark check digests pre e(2) block [OF v, unfolded e(1)]
          sts(2) [OF v, unfolded e(1)] reps _ bind own X] fin(4) v r sts(1) by auto
    moreover have "opt_map (\<lambda>(fin, rep). finalize_row fin rep) (zip (fss ! v) (?reps ! v)) = Some (elements (outs ! v))"
      using fin(5) v r sts(1) by simp
    ultimately show ?thesis by (cases u; cases "outs ! v") simp
  qed
  have "length outs = length xs" using fin(2) r sts(1) by simp
  with out show ?thesis by (intro nth_equalityI) simp_all
qed

section \<open>A session of batches\<close>

text \<open>The client's state after some requests, answered or not.\<close>

primrec after_requests :: "xof \<Rightarrow> 'c client_state \<Rightarrow> (bytes \<times> bytes list) list \<Rightarrow> 'c client_state" where
  "after_requests xof cs [] = cs"
| "after_requests xof cs (call # calls) =
     after_requests xof (fst (request_batch xof cs (fst call) (snd call))) calls"

lemma after_requests_spend:
  assumes "wf_client cs"
  shows "\<exists>n. after_requests xof cs calls = client_spend n cs \<and> wf_client (client_spend n cs)"
  using assms
proof (induction calls arbitrary: cs)
  case Nil
  then show ?case by (intro exI [of _ 0]) simp
next
  case (Cons call calls)
  let ?cs = "fst (request_batch xof cs (fst call) (snd call))"
  obtain n where n: "?cs = client_spend n cs"
    using request_batch_outcome [OF Cons.prems, of xof "fst call" "snd call"] client_spend_0 [of cs]
    by (elim disjE exE conjE) (metis fst_conv)+
  have "wf_client ?cs" by (rule request_batch_wf [OF Cons.prems])
  from Cons.IH [OF this] obtain m where "after_requests xof ?cs calls = client_spend m ?cs" "wf_client (client_spend m ?cs)"
    by blast
  then show ?case by (intro exI [of _ "n + m"])
      (use \<open>after_requests xof ?cs calls = _\<close> \<open>wf_client (client_spend m ?cs)\<close> in \<open>simp add: n\<close>)
qed

text \<open>Spending runs changes nothing of what the preprocessing established.\<close>

lemma checked_preprocessing_spend:
  assumes "checked_preprocessing cr cs cv blocks p" and "wf_client (client_spend n cs)"
  shows "checked_preprocessing cr (client_spend n cs) cv blocks p"
    and "checked_statement cr (client_spend n cs) cv = checked_statement cr cs cv"
    and "(own_openings xof (client_spend n cs) cv blocks :: (domain \<times> 'f :: idom list) set) = own_openings xof cs cv blocks"
proof -
  show st: "checked_statement cr (client_spend n cs) cv = checked_statement cr cs cv"
    by (simp add: checked_statement_def client_spend_def)
  show "checked_preprocessing cr (client_spend n cs) cv blocks p"
    using assms st by (auto simp: checked_preprocessing_def client_spend_def)
  show "(own_openings xof (client_spend n cs) cv blocks :: (domain \<times> 'f list) set) = own_openings xof cs cv blocks"
    by (simp add: own_openings_def client_spend_def)
qed

lemma checked_preprocessing_requests:
  assumes "checked_preprocessing cr cs cv blocks p"
  shows "checked_preprocessing cr (after_requests xof cs calls) cv blocks p"
    and "committed_key be table cr (after_requests xof cs calls) cv p = committed_key be table cr cs cv p"
    and "verified_openings be table cr (after_requests xof cs calls) cv blocks p fin rep
      = verified_openings be table cr cs cv blocks p fin rep"
proof -
  have "wf_client cs" using assms by (simp add: checked_preprocessing_def)
  from after_requests_spend [OF this] obtain n where n: "after_requests xof cs calls = client_spend n cs"
    "wf_client (client_spend n cs)" by blast
  note spend = checked_preprocessing_spend [OF assms n(2)]
  show "checked_preprocessing cr (after_requests xof cs calls) cv blocks p" unfolding n(1) by (rule spend)
  show "committed_key be table cr (after_requests xof cs calls) cv p = committed_key be table cr cs cv p"
    by (simp add: committed_key_def n spend)
  show "verified_openings be table cr (after_requests xof cs calls) cv blocks p fin rep
      = verified_openings be table cr cs cv blocks p fin rep"
    by (simp add: verified_openings_def n spend)
qed

end
