(* ===== verification/IdealRun.thy ===== *)
theory IdealRun
  imports IdealBackend VerifiedOutput
begin

text \<open>
  A batch with the concrete Plonky3 backend of \<open>IdealBackend\<close>: the states of 32 runs with every mask
  and pad zero, an honest server, and the few openings its proofs contain, on which the identity is
  binding.
\<close>

section \<open>Openings\<close>

definition ideal_openings :: "(domain \<times> bb list) set" where
  "ideal_openings = {(Key, key_elements (pack_key ex_sk)),
     (MaskSum, mask_sum_elements (replicate 16 0) (mask_sum_randomness (\<lambda>msg i. 0) ex_blocks)),
     (Masks, masks_elements (replicate 16 0) (randomness ex_block)),
     (Pad, pad_elements 0 (randomness ex_block))}"

lemma ideal_binding: "binding ideal_backend ideal_openings"
  by (auto simp: binding_def ideal_openings_def)

lemma ideal_online_proof:
  assumes "plonky3_prove_online ideal_backend ideal_stark st w = Ok p"
    and st: "wf_online_statement st" and w: "wf_online_witness w"
  shows "online_openings ideal_backend p \<subseteq> online_honest_openings w"
proof -
  have holds: "online_holds_for (key_commit ideal_backend) (mask_sum_commit ideal_backend) (pad_commit ideal_backend) st w"
    using assms(1) by (auto simp: plonky3_prove_online_def split: if_splits)
  note wf = online_holds_public [OF ideal_backend_ok st w holds]
  obtain public where public: "online_public_values st = Some public"
    using online_public_values_Some [OF wf] by blast
  obtain rows where rows: "online_trace ideal_backend st w = Some rows"
    "online_openings ideal_backend rows \<subseteq> online_honest_openings w"
    by (rule online_air_complete [OF ideal_backend_ok wf w holds public]) (rule that)
  have "p = rows"
    using assms(1) holds rows(1) public
    by (auto simp: plonky3_prove_online_def proved_def ideal_stark_def split: if_splits)
  with rows(2) show ?thesis by simp
qed

lemma ideal_preprocessing_proof:
  assumes "cr_preprocessing_holds ideal_crypto st w"
  obtains p where "plonky3_verify_preprocessing ideal_backend ideal_stark st p = Ok ()"
    "pre_openings ideal_backend p \<subseteq> pre_honest_openings w" "table_key p = pw_sk w"
proof -
  note wf = preprocessing_holds_public [OF ideal_backend_ok assms [unfolded ideal_crypto_def]]
  have w: "wf_preprocessing_witness w" and holds: "preprocessing_holds_for (key_commit ideal_backend)
      (masks_commit ideal_backend) (mask_sum_commit ideal_backend) st w"
    using assms by (simp_all add: cr_preprocessing_holds_def ideal_crypto_def)
  obtain rows where rows: "pre_openings ideal_backend rows \<subseteq> pre_honest_openings w" "table_key rows = pw_sk w"
    and sat: "satisfies (pre_air ideal_backend (pre_circuit_new st)) rows (pre_public (pre_circuit_new st))"
    by (rule pre_air_complete [OF ideal_backend_ok wf w holds]) (rule that)
  have "plonky3_verify_preprocessing ideal_backend ideal_stark st rows = Ok ()"
    using sat wf by (simp add: plonky3_verify_preprocessing_def ideal_stark_def verified_def wf_pre_public_def Let_def)
  from this rows show ?thesis by (rule that)
qed

section \<open>The preprocessing\<close>

definition ideal_witness :: preprocessing_witness where
  "ideal_witness = \<lparr> pw_sk = ex_sk, pw_ot_blocks = replicate par_N (randomness ex_block),
     pw_evaluations = replicate 2 \<lparr> ew_masks = replicate par_N (replicate 16 0), ew_r_sigma_sums = replicate 16 0,
        ew_m_randomness = mask_sum_randomness (\<lambda>msg i. 0) ex_blocks \<rparr> \<rparr>"

abbreviation "ideal_client \<equiv> client_for ideal_crypto True"
abbreviation "ideal_client_voprf \<equiv> client_voprf_for ideal_crypto"

lemma ideal_masks: "masks_commitment ideal_crypto v ex_block
    = masks_commit ideal_backend \<lparr> mi_masks = replicate 16 0, mi_randomness = randomness ex_block \<rparr>"
  by (simp add: masks_commitment_def ideal_crypto_xof expand_zeros) (simp add: ideal_crypto_def)

lemma ideal_witness_holds: "cr_preprocessing_holds ideal_crypto (checked_statement ideal_crypto ideal_client ideal_client_voprf) ideal_witness"
proof -
  let ?c = "masks_commit ideal_backend \<lparr> mi_masks = replicate 16 0, mi_randomness = randomness ex_block \<rparr>"
  let ?m = "mask_sum_commit ideal_backend \<lparr> msi_r_sigma_sums = replicate 16 0,
      msi_randomness = mask_sum_randomness (\<lambda>msg i. 0) ex_blocks \<rparr>"
  have st: "checked_statement ideal_crypto ideal_client ideal_client_voprf
      = \<lparr> ps_pk = key_commit ideal_backend ex_sk, ps_b_bar = replicate par_N 1,
          ps_evaluations = replicate 2 \<lparr> es_c = replicate par_N (?c, ?c), es_m = ?m \<rparr> \<rparr>"
    by (simp add: checked_statement_def client_statement_def client_for_def client_voprf_for_def all_masks_def
        masks_pair_def ideal_masks numeral_2_eq_2 upt_rec)
      (simp add: ideal_crypto_def)
  have "masks_committed ideal_crypto ?c"
    unfolding masks_committed_def by (rule exI [of _ "\<lparr> mi_masks = replicate 16 0, mi_randomness = randomness ex_block \<rparr>"])
      (simp add: ideal_crypto_def)
  moreover have "evaluation_holds_for (masks_commit ideal_backend) (mask_sum_commit ideal_backend) (replicate par_N 1)
      (pw_sk ideal_witness) (pw_ot_blocks ideal_witness) \<lparr> es_c = replicate par_N (?c, ?c), es_m = ?m \<rparr>
      \<lparr> ew_masks = replicate par_N (replicate 16 0), ew_r_sigma_sums = replicate 16 0,
        ew_m_randomness = mask_sum_randomness (\<lambda>msg i. 0) ex_blocks \<rparr>"
  proof -
    have "r_sigma_sum ex_sk (column k (replicate par_N (replicate 16 0))) = Some (replicate 16 0 ! k)" if "k < 16" for k
      using that r_sigma_sum_zeros [of par_N ex_sk] by (simp add: column_def par_N_def)
    moreover have "list_all (\<lambda>r. r < par_Q) (concat (replicate par_N (replicate 16 0)))"
      by (simp add: list_all_iff less_par_Q)
    ultimately show ?thesis
      by (simp add: evaluation_holds_for_def server_masks_holds_def sum_of_masks_holds_def mask_sum_holds_def
          ideal_witness_def list_all_iff ex_sk_def Let_def)
  qed
  moreover have "key_holds (key_commit ideal_backend) (key_commit ideal_backend ex_sk) (pw_sk ideal_witness)"
    by (simp add: key_holds_def ideal_witness_def)
  moreover have "wf_preprocessing_witness ideal_witness"
    using ex_wf_sk by (auto simp: wf_preprocessing_witness_def ideal_witness_def wf_evaluation_witness_def wf_masks_def)
  ultimately show ?thesis
    unfolding cr_preprocessing_holds_def st preprocessing_holds_for_def
    by (simp add: list_all_iff ideal_crypto_def zip_replicate) (simp add: ideal_witness_def)
qed

text \<open>The OT blocks the client received, and a proof of the preprocessing.\<close>

definition ideal_blocks :: "block list" where
  "ideal_blocks = replicate 32 ex_block"

lemma ideal_checked:
  obtains p where "checked_preprocessing ideal_crypto ideal_client ideal_client_voprf ideal_blocks p"
    "pre_openings ideal_backend p \<subseteq> ideal_openings" "table_key p = ex_sk"
proof -
  obtain p where p: "plonky3_verify_preprocessing ideal_backend ideal_stark
      (checked_statement ideal_crypto ideal_client ideal_client_voprf) p = Ok ()"
    "pre_openings ideal_backend p \<subseteq> pre_honest_openings ideal_witness" "table_key p = pw_sk ideal_witness"
    by (rule ideal_preprocessing_proof [OF ideal_witness_holds]) (rule that)
  have "r_prime_from_block ex_block = Some 0" by (simp add: r_prime_Some ex_block_def)
  then have "checked_preprocessing ideal_crypto ideal_client ideal_client_voprf ideal_blocks p"
    using p(1) ex_wf_client [of ideal_crypto True]
    by (simp add: checked_preprocessing_def client_for_def client_voprf_for_def ideal_blocks_def
        block_pad_commitments_def ex_blocks_def ex_block_def ideal_crypto_def del: replicate.simps)
  moreover have "pre_honest_openings ideal_witness \<subseteq> ideal_openings"
    by (auto simp: pre_honest_openings_def ideal_witness_def ideal_openings_def par_N_def)
  then have "pre_openings ideal_backend p \<subseteq> ideal_openings" using p(2) by simp
  moreover have "table_key p = ex_sk" using p(3) by (simp add: ideal_witness_def)
  ultimately show ?thesis by (rule that)
qed

lemma ideal_digests: "wf_digests ideal_client_voprf"
  using length_commit [OF ideal_backend_ok] ex_wf_sk
  by (auto simp: wf_digests_def client_voprf_for_def block_pad_commitments_def ideal_crypto_def)

lemma ideal_own_openings: "own_openings (cr_xof ideal_crypto) ideal_client ideal_client_voprf ideal_blocks \<subseteq> ideal_openings"
proof -
  have "(Masks, masks_elements (expand (cr_xof ideal_crypto) ex_block (16 * v)) (randomness ex_block)) \<in> (ideal_openings)"
    for v by (simp add: ideal_crypto_xof expand_zeros ideal_openings_def)
  then show ?thesis
    by (auto simp: own_openings_def client_for_def client_voprf_for_def ideal_blocks_def ideal_openings_def
        simp del: replicate.simps)
qed

section \<open>The answer of the server\<close>

lemma blind_eval_OkD:
  assumes wf: "wf_server ss" "wf_key sk" "pads_consistent ss" "wf_request req" "prover_total cr"
    and ok: "blind_eval cr ss sk req = (ss', Ok rep)"
  obtains reps sums proofs where "rep = \<lparr> rep_uid = ss_uid ss, rep_rows = concat reps, rep_proofs = proofs \<rparr>"
    "responses_ok cr ss sk (server_spent ss) (chunks_exact 16 (req_rows req)) reps sums proofs"
    "server_spent ss + 16 * length (chunks_exact 16 (req_rows req)) \<le> server_total ss"
proof -
  have acc: "acceptable ss req"
    using ok blind_eval_refuses [of ss req cr sk] by fastforce
  have "server_spent ss + 16 * length (chunks_exact 16 (req_rows req)) \<le> server_total ss"
    using acc wf(1) acceptable_evals(2) [OF acc wf(4)]
    by (auto simp: acceptable_def server_remaining wf_server_def budget_defs wf_runs_def)
  with blind_eval_accepts [OF wf(1-4) acc wf(5)] ok show ?thesis by (auto intro: that)
qed

lemma request_message_wf:
  assumes "request_batch xof cs tag xs = (cs', Ok (req, fin))" and "wf_client cs"
  shows "wf_request req"
proof -
  obtain rss fss and sts :: "('a, 'a, 'a) online_statement list" where r: "req = \<lparr> req_uid = cs_uid cs, req_tag = tag, req_rows = concat rss \<rparr>"
    "length rss = length xs" "\<And>v. v < length xs \<Longrightarrow> request_block_ok xof cs (client_spent cs + 16 * v)
        (hash_to_zq_matrix xof tag (xs ! v)) (rss ! v) (fss ! v)"
    by (rule request_batch_OkD [OF assms]) auto
  have "\<forall>rq \<in> set rows. wf_row_request rq" if "rows \<in> set rss" for rows
    using that r(2,3) request_block_wf by (metis in_set_conv_nth)
  then show ?thesis by (auto simp: r(1) wf_request_def wf_row_request_def)
qed

lemma ideal_prover_total: "prover_total ideal_crypto"
  by (rule complete_prover_total) (simp add: ideal_crypto_def plonky3_complete ideal_backend_ok ideal_stark_complete)

lemma ideal_sums:
  assumes "response_block_ok (cr_xof ideal_crypto) (ex_server True) ex_sk first rqs reps sums"
  shows "sums = replicate 16 0"
proof (rule nth_equalityI)
  show len: "length sums = length (replicate 16 (0 :: zq))" using assms by (simp add: response_block_ok_def)
  fix k assume "k < length sums"
  then have k: "k < 16" using len by simp
  have "map (\<lambda>i. expand (cr_xof ideal_crypto) (rs_ot_block (ss_r_s (ex_server True) ! i)) first ! k) [0..<par_N]
      = replicate par_N 0"
    using k by (intro nth_equalityI) (simp_all add: ideal_crypto_xof expand_zeros)
  then show "sums ! k = replicate 16 0 ! k"
    using assms k r_sigma_sum_zeros [of par_N ex_sk]
    by (auto simp: response_block_ok_def response_row_ok_def par_N_def)
qed

lemma ideal_witness_openings:
  assumes "first + 16 \<le> 32"
  shows "online_honest_openings (online_witness_for (cr_hash ideal_crypto) (replicate 32 ex_blocks) ex_sk first (replicate 16 0))
    \<subseteq> ideal_openings"
proof -
  have "map ((!) (replicate 16 (0 :: zq))) [0..<16] = replicate 16 0" by (intro nth_equalityI) simp_all
  with assms show ?thesis
    by (auto simp: online_honest_openings_def online_witness_for_def ow_r_sigma_sums_def ideal_openings_def ideal_crypto_def
        block_pads_def ex_blocks_def ex_block_def comp_def map_replicate_trivial simp del: replicate.simps upt_Suc)
qed

section \<open>A batch\<close>

text \<open>An honest run of a first batch.\<close>

definition ideal_run ::
  "bytes \<Rightarrow> bytes list \<Rightarrow> request_message \<Rightarrow> bb digest finalize_state \<Rightarrow> bb list list response_message
     \<Rightarrow> prf_output list \<Rightarrow> bool" where
  "ideal_run tag xs req fin rep outs \<longleftrightarrow>
     request_batch (\<lambda>ctx msg i. 0) ideal_client tag xs = (client_spend (16 * length xs) ideal_client, Ok (req, fin)) \<and>
     blind_eval ideal_crypto (ex_server True) ex_sk req = (server_spend (16 * length xs) (ex_server True), Ok rep) \<and>
     finalize_batch ideal_crypto fin rep = Ok outs"

lemma ideal_run_exists:
  assumes "length tag \<le> MAX_TAG_LEN" and "xs \<noteq> []" and "length xs \<le> 2"
  shows "\<exists>req fin rep outs. ideal_run tag xs req fin rep outs \<and> map (evaluate (\<lambda>ctx msg i. 0) ex_sk tag) xs = map Some outs"
proof -
  have complete: "complete_online ideal_crypto"
    by (simp add: ideal_crypto_def plonky3_complete ideal_backend_ok ideal_stark_complete)
  have "\<exists>req fin rep outs. request_batch (cr_xof ideal_crypto) ideal_client tag xs = (client_spend (16 * length xs) ideal_client, Ok (req, fin))
    \<and> blind_eval ideal_crypto (ex_server True) ex_sk req = (server_spend (16 * length xs) (ex_server True), Ok rep)
    \<and> finalize_batch ideal_crypto fin rep = Ok outs \<and> map (evaluate (cr_xof ideal_crypto) ex_sk tag) xs = map Some outs"
    by (rule oprf_run [OF ex_wf_client ex_wf_server ex_wf_sk ex_pads ex_matched ex_matched_voprf [OF ideal_crypto_xof] complete])
      (use assms in \<open>simp_all add: ex_runs max_batch_def MAX_BATCH_EVALUATIONS_def MAX_VOPRF_BATCH_EVALUATIONS_def\<close>)
  then show ?thesis unfolding ideal_run_def ideal_crypto_xof by blast
qed

text \<open>The statement and the table of every proof in the answer.\<close>

lemma ideal_answer:
  assumes run: "ideal_run tag xs req fin rep outs" and two: "length xs \<le> 2"
  shows "length (rep_proofs rep) = length xs" and "length (the (fs_voprf fin)) = length xs"
    and "\<forall>row \<in> set (rep_rows rep). length (resp_y row) = 16"
    and "v < length xs \<Longrightarrow> \<exists>st w. cr_online_holds ideal_crypto st w \<and>
      plonky3_prove_online ideal_backend ideal_stark st w = Ok (rep_proofs rep ! v)"
    and "p \<in> set (rep_proofs rep) \<Longrightarrow> online_openings ideal_backend p \<subseteq> ideal_openings"
proof -
  have req: "request_batch (\<lambda>ctx msg i. 0) ideal_client tag xs = (client_spend (16 * length xs) ideal_client, Ok (req, fin))"
    and rep: "blind_eval ideal_crypto (ex_server True) ex_sk req = (server_spend (16 * length xs) (ex_server True), Ok rep)"
    using run by (simp_all add: ideal_run_def)
  obtain rss sts where rows: "req_rows req = concat rss" "length rss = length xs"
      "\<And>v. v < length xs \<Longrightarrow> length (rss ! v) = 16"
    and sts: "fs_voprf fin = Some sts" "length sts = length xs"
    by (rule request_batch_OkD [OF req ex_wf_client]) (fastforce simp: client_for_def request_block_ok_def)
  have "\<forall>r \<in> set rss. length r = 16" using rows(2,3) by (auto simp: in_set_conv_nth)
  then have evals: "chunks_exact 16 (req_rows req) = rss" by (simp add: rows(1) chunks_exact_concat)
  obtain reps sums proofs where r: "rep = \<lparr> rep_uid = ss_uid (ex_server True), rep_rows = concat reps, rep_proofs = proofs \<rparr>"
    "responses_ok ideal_crypto (ex_server True) ex_sk (server_spent (ex_server True)) (chunks_exact 16 (req_rows req)) reps sums proofs"
    by (rule blind_eval_OkD [OF ex_wf_server ex_wf_sk ex_pads request_message_wf [OF req ex_wf_client] ideal_prover_total rep])
  have "server_spent (ex_server True) = 0" "ss_voprf (ex_server True) = Some \<lparr> sv_delta_ot_blocks = replicate 32 ex_blocks \<rparr>"
    by (simp_all add: ex_server_def budget_defs runs_new_def)
  then have lens: "length reps = length xs" "length proofs = length xs"
    and block: "\<And>v. v < length xs \<Longrightarrow> response_block_ok (cr_xof ideal_crypto) (ex_server True) ex_sk (16 * v) (rss ! v) (reps ! v) (sums ! v)"
    and proof_ok: "\<And>v. v < length xs \<Longrightarrow> proof_ok ideal_crypto \<lparr> sv_delta_ot_blocks = replicate 32 ex_blocks \<rparr> ex_sk (16 * v)
       (rss ! v) (reps ! v) (sums ! v) (proofs ! v)"
    using r(2) rows(2) unfolding responses_ok_def evals by auto
  show "length (rep_proofs rep) = length xs" "length (the (fs_voprf fin)) = length xs"
    by (simp_all add: r(1) lens sts)
  show "\<exists>st w. cr_online_holds ideal_crypto st w \<and> plonky3_prove_online ideal_backend ideal_stark st w = Ok (rep_proofs rep ! v)"
    if "v < length xs" using proof_ok [OF that] by (auto simp: r(1) proof_ok_def ideal_crypto_def plonky3_crypto_def)
  show "online_openings ideal_backend p \<subseteq> ideal_openings" if p: "p \<in> set (rep_proofs rep)"
  proof -
    obtain v where v: "v < length xs" "p = proofs ! v" using p lens by (auto simp: r(1) in_set_conv_nth)
    have sums: "sums ! v = replicate 16 0" by (rule ideal_sums [OF block [OF v(1)]])
    let ?w = "online_witness_for (cr_hash ideal_crypto) (replicate 32 ex_blocks) ex_sk (16 * v) (sums ! v)"
    have "online_openings ideal_backend p \<subseteq> online_honest_openings ?w"
      using proof_ok [OF v(1)]
      by (intro ideal_online_proof [of "server_statement ideal_crypto (replicate 32 ex_blocks) ex_sk (16 * v) (sums ! v) (rss ! v) (reps ! v)"])
        (simp_all add: v(2) proof_ok_def cr_online_holds_def, simp add: ideal_crypto_def plonky3_crypto_def)
    also have "\<dots> \<subseteq> ideal_openings" unfolding sums by (rule ideal_witness_openings) (use v(1) two in simp)
    finally show ?thesis .
  qed
  show "\<forall>row \<in> set (rep_rows rep). length (resp_y row) = 16"
  proof
    fix row assume "row \<in> set (rep_rows rep)"
    then obtain a where a: "a \<in> set reps" "row \<in> set a" by (auto simp: r(1))
    obtain v where v: "v < length xs" "a = reps ! v" using a(1) lens(1) by (auto simp: in_set_conv_nth)
    obtain k where k: "k < 16" "row = reps ! v ! k"
      using a(2) block [OF v(1)] by (auto simp: v(2) response_block_ok_def in_set_conv_nth)
    have "respond (a_sigma_sum ex_sk (sums ! v ! k) (row_e (rss ! v ! k))) (ss_s_s (ex_server True) ! (16 * v + k))
        (row_b_bar_prime (rss ! v ! k)) = Some (resp_y row)"
      using block [OF v(1)] k by (simp add: response_block_ok_def response_row_ok_def)
    from opt_map_length [OF this [unfolded respond_def]] show "length (resp_y row) = 16" by simp
  qed
qed

lemma ideal_tag: "length [1 :: u8] \<le> MAX_TAG_LEN" by (simp add: MAX_TAG_LEN_def)

lemma ideal_batch:
  obtains p rep cs' req fin outs where
    "checked_preprocessing ideal_crypto ideal_client ideal_client_voprf ideal_blocks p"
    "request_batch (\<lambda>ctx msg i. 0) ideal_client [1] [[2]] = (cs', Ok (req, fin))"
    "\<forall>row \<in> set (rep_rows rep). length (resp_y row) = 16" "finalize_batch ideal_crypto fin rep = Ok outs"
    "binding ideal_backend (verified_openings ideal_backend ideal_table ideal_crypto ideal_client
       ideal_client_voprf ideal_blocks p fin rep)"
proof -
  obtain p where p: "checked_preprocessing ideal_crypto ideal_client ideal_client_voprf ideal_blocks p"
    "pre_openings ideal_backend p \<subseteq> ideal_openings" by (rule ideal_checked)
  obtain req fin rep outs where run: "ideal_run [1] [[2]] req fin rep outs"
    using ideal_run_exists [OF ideal_tag, of "[[2]]"] by auto
  note answer = ideal_answer [OF run]
  have "online_openings ideal_backend (rep_proofs rep ! 0) \<subseteq> ideal_openings"
    by (rule answer(5)) (simp_all add: answer(1))
  then have "response_openings ideal_backend ideal_table fin rep \<subseteq> ideal_openings"
    using answer(1,2) by (auto simp: response_openings_def online_table_of_def ideal_table_def Let_def)
  then have "verified_openings ideal_backend ideal_table ideal_crypto ideal_client ideal_client_voprf ideal_blocks p fin rep
      \<subseteq> ideal_openings"
    using p(2) ideal_own_openings by (simp add: verified_openings_def preprocessing_table_def ideal_table_def Let_def)
  from p(1) _ _ _ binding_mono [OF ideal_binding this] show ?thesis
    using run answer(3) unfolding ideal_run_def by (elim conjE) (rule that, simp_all)
qed

end
