(* ===== verification/TextFiles.thy ===== *)
theory TextFiles
  imports Prelude
begin

text \<open>
  What \<open>pool-psi-cli/src/main.rs\<close> uses of Rust's text: UTF-8, the lines of a string and of a reader,
  \<open>trim\<close>, and the parser of unsigned numbers. A \<open>str\<close> is the list of its Unicode scalar values.
\<close>

section \<open>UTF-8\<close>

definition continues :: "u8 \<Rightarrow> bool" where
  "continues b \<longleftrightarrow> 128 \<le> unat b \<and> unat b < 192"

fun continuation :: "nat \<Rightarrow> nat \<Rightarrow> bytes \<Rightarrow> (nat \<times> bytes) option" where
  "continuation 0 acc bs = Some (acc, bs)"
| "continuation (Suc k) acc [] = None"
| "continuation (Suc k) acc (b # bs) =
     (if continues b then continuation k (acc * 64 + (unat b - 128)) bs else None)"

text \<open>A scalar value of \<open>k\<close> bytes after the first: no overlong encoding, no surrogate.\<close>

definition scalar_of :: "nat \<Rightarrow> nat \<Rightarrow> bool" where
  "scalar_of k c \<longleftrightarrow>
     (if k = 1 then 128 \<le> c else if k = 2 then 2048 \<le> c \<and> (c < 55296 \<or> 57344 \<le> c)
      else 65536 \<le> c \<and> c \<le> 1114111)"

definition scalar_after :: "nat \<Rightarrow> nat \<Rightarrow> bytes \<Rightarrow> (nat \<times> bytes) option" where
  "scalar_after k acc bs = do {
     (c, rest) \<leftarrow> continuation k acc bs;
     if scalar_of k c then Some (c, rest) else None }"

text \<open>The first character of a string and what follows it, \<open>None\<close> when the bytes start with none.\<close>

fun utf8_char :: "bytes \<Rightarrow> (nat \<times> bytes) option" where
  "utf8_char [] = None"
| "utf8_char (b # bs) =
     (let n = unat b in
      if n < 128 then Some (n, bs)
      else if n < 192 then None
      else if n < 224 then scalar_after 1 (n - 192) bs
      else if n < 240 then scalar_after 2 (n - 224) bs
      else if n < 248 then scalar_after 3 (n - 240) bs
      else None)"

lemma continuation_in:
  "continuation k acc bs = Some (c, rest) \<Longrightarrow>
     \<exists>pre. bs = pre @ rest \<and> length pre = k \<and> (\<forall>b \<in> set pre. 128 \<le> unat b)"
proof (induction k acc bs rule: continuation.induct)
  case (3 k acc b bs)
  then obtain pre where "bs = pre @ rest" "length pre = k" "\<forall>b \<in> set pre. 128 \<le> unat b" "continues b"
    by (auto split: if_splits)
  then show ?case by (intro exI [of _ "b # pre"]) (simp add: continues_def)
qed auto

text \<open>Either the character is one byte, or no byte of it is ASCII.\<close>

lemma utf8_char_in:
  assumes "utf8_char bs = Some (c, rest)"
  obtains (ascii) b where "bs = b # rest" "unat b = c" "c < 128"
    | (other) b pre where "bs = b # pre @ rest" "128 \<le> c" "\<forall>x \<in> set (b # pre). 128 \<le> unat x"
proof -
  obtain b bs' where bs: "bs = b # bs'" using assms by (cases bs) auto
  show ?thesis
  proof (cases "unat b < 128")
    case True
    with assms bs show ?thesis by (intro ascii [of b]) auto
  next
    case False
    then obtain k acc where k: "scalar_after k acc bs' = Some (c, rest)" "k = 1 \<or> k = 2 \<or> k = 3"
      using assms bs by (auto simp: Let_def split: if_splits)
    then have "continuation k acc bs' = Some (c, rest)" and c: "scalar_of k c"
      by (auto simp: scalar_after_def split: bind_splits if_splits prod.splits)
    from continuation_in [OF this(1)] obtain pre where "bs' = pre @ rest" "\<forall>x \<in> set pre. 128 \<le> unat x" by blast
    moreover have "128 \<le> c" using c k(2) by (auto simp: scalar_of_def split: if_splits)
    ultimately show ?thesis using False bs by (intro other [of b pre]) auto
  qed
qed

lemma utf8_char_shorter: "utf8_char bs = Some (c, rest) \<Longrightarrow> length rest < length bs"
  by (auto elim!: utf8_char_in)

function utf8_decode :: "bytes \<Rightarrow> nat list option" where
  "utf8_decode bs =
     (if bs = [] then Some []
      else case utf8_char bs of None \<Rightarrow> None | Some (c, rest) \<Rightarrow> map_option ((#) c) (utf8_decode rest))"
  by pat_completeness auto
termination by (relation "measure length") (auto dest: utf8_char_shorter)

declare utf8_decode.simps [simp del]

definition utf8_bytes :: "nat \<Rightarrow> bytes" where
  "utf8_bytes c =
     (if c < 128 then [of_nat c]
      else if c < 2048 then [of_nat (192 + c div 64), of_nat (128 + c mod 64)]
      else if c < 65536 then [of_nat (224 + c div 4096), of_nat (128 + c div 64 mod 64), of_nat (128 + c mod 64)]
      else [of_nat (240 + c div 262144), of_nat (128 + c div 4096 mod 64), of_nat (128 + c div 64 mod 64),
            of_nat (128 + c mod 64)])"

definition utf8_encode :: "nat list \<Rightarrow> bytes" where
  "utf8_encode cs = concat (map utf8_bytes cs)"

section \<open>Lines\<close>

text \<open>The terminated lines, and what follows the last terminator.\<close>

fun split_lines :: "'a \<Rightarrow> 'a list \<Rightarrow> 'a list list \<times> 'a list" where
  "split_lines nl [] = ([], [])"
| "split_lines nl (x # xs) =
     (let (ls, rest) = split_lines nl xs
      in if x = nl then ([] # ls, rest)
         else case ls of [] \<Rightarrow> ([], x # rest) | l # ls \<Rightarrow> ((x # l) # ls, rest))"

text \<open>A line that ended in \<open>\r\n\<close>.\<close>

definition chomp :: "'a \<Rightarrow> 'a list \<Rightarrow> 'a list" where
  "chomp cr l = (if l \<noteq> [] \<and> last l = cr then butlast l else l)"

text \<open>\<open>str::lines\<close>.\<close>

definition text_lines :: "nat list \<Rightarrow> nat list list" where
  "text_lines cs =
     (let (ls, rest) = split_lines 10 cs in map (chomp 13) ls @ (if rest = [] then [] else [rest]))"

text \<open>\<open>BufRead::lines\<close> on a reader that yields some bytes and then ends or fails: a line that is not
  UTF-8 is an error, \<open>None\<close>, and so is a line that the reader fails in.\<close>

definition reader_lines :: "bytes \<Rightarrow> bool \<Rightarrow> nat list option list" where
  "reader_lines bs fails =
     (let (ls, rest) = split_lines 10 bs
      in map (\<lambda>l. utf8_decode (chomp 13 l)) ls
         @ (if fails then [None] else if rest = [] then [] else [utf8_decode rest]))"

section \<open>Trimming\<close>

definition white_space :: "nat \<Rightarrow> bool" where
  "white_space c \<longleftrightarrow> 9 \<le> c \<and> c \<le> 13 \<or> c = 32 \<or> c = 133 \<or> c = 160 \<or> c = 5760 \<or> 8192 \<le> c \<and> c \<le> 8202
     \<or> c = 8232 \<or> c = 8233 \<or> c = 8239 \<or> c = 8287 \<or> c = 12288"

definition trim :: "nat list \<Rightarrow> nat list" where
  "trim cs = rev (dropWhile white_space (rev (dropWhile white_space cs)))"

section \<open>Numbers\<close>

text \<open>\<open>u64::from_str\<close> and \<open>usize::from_str\<close>: an optional plus, then digits, within the type.\<close>

fun digits_value :: "nat \<Rightarrow> nat list \<Rightarrow> nat option" where
  "digits_value acc [] = Some acc"
| "digits_value acc (c # cs) =
     (if 48 \<le> c \<and> c \<le> 57 then digits_value (acc * 10 + (c - 48)) cs else None)"

definition parse_unsigned :: "nat \<Rightarrow> nat list \<Rightarrow> nat option" where
  "parse_unsigned limit arg =
     (let digits = (case arg of c # d # ds \<Rightarrow> if c = 43 then d # ds else arg | _ \<Rightarrow> arg)
      in if digits = [] then None
         else do { n \<leftarrow> digits_value 0 digits; if n \<le> limit then Some n else None })"

section \<open>Decoding line by line\<close>

lemma continuation_ascii:
  "unat x < 128 \<Longrightarrow>
     continuation k acc (a @ x # b) = map_option (\<lambda>(c, rest). (c, rest @ x # b)) (continuation k acc a)"
  by (induction k acc a rule: continuation.induct) (simp_all add: continues_def)

lemma scalar_after_ascii:
  "unat x < 128 \<Longrightarrow>
     scalar_after k acc (a @ x # b) = map_option (\<lambda>(c, rest). (c, rest @ x # b)) (scalar_after k acc a)"
  by (cases "continuation k acc a") (auto simp: scalar_after_def continuation_ascii)

lemma utf8_char_ascii:
  assumes "unat x < 128" and "a \<noteq> []"
  shows "utf8_char (a @ x # b) = map_option (\<lambda>(c, rest). (c, rest @ x # b)) (utf8_char a)"
  using assms by (cases a) (simp_all add: Let_def scalar_after_ascii)

lemma utf8_decode_step:
  "utf8_decode [] = Some []"
  "utf8_char bs = Some (c, rest) \<Longrightarrow> utf8_decode bs = map_option ((#) c) (utf8_decode rest)"
  "utf8_char bs = None \<Longrightarrow> bs \<noteq> [] \<Longrightarrow> utf8_decode bs = None"
  by (subst utf8_decode.simps; auto)+

lemma utf8_decode_ascii:
  assumes "unat x < 128"
  shows "utf8_decode (a @ x # b) = do { cs \<leftarrow> utf8_decode a; ds \<leftarrow> utf8_decode b; Some (cs @ unat x # ds) }"
proof (induction a rule: utf8_decode.induct)
  case (1 a)
  show ?case
  proof (cases "a = []")
    case True
    have "utf8_char (x # b) = Some (unat x, b)" using assms by simp
    with True show ?thesis by (simp add: utf8_decode_step map_option_case split: option.splits)
  next
    case False
    show ?thesis
    proof (cases "utf8_char a")
      case None
      then show ?thesis using False utf8_char_ascii [OF assms False, of b] by (simp add: utf8_decode_step(3))
    next
      case (Some p)
      obtain c rest where p: "p = (c, rest)" by (cases p)
      have "utf8_char (a @ x # b) = Some (c, rest @ x # b)"
        using utf8_char_ascii [OF assms False, of b] Some p by simp
      with 1 [OF False Some p [symmetric]] Some p show ?thesis
        by (cases "utf8_decode rest"; cases "utf8_decode b") (simp_all add: utf8_decode_step(2))
    qed
  qed
qed

lemma utf8_decode_newline:
  "utf8_decode (a @ 10 # b) = do { cs \<leftarrow> utf8_decode a; ds \<leftarrow> utf8_decode b; Some (cs @ 10 # ds) }"
  using utf8_decode_ascii [of 10 a b] by simp

section \<open>Lines of text are lines of bytes\<close>

lemma split_lines_join: "split_lines nl (concat (map (\<lambda>l. l @ [nl]) ls) @ rest) = (ls, rest)"
  if "\<forall>l \<in> set (rest # ls). nl \<notin> set l"
proof -
  have line: "split_lines nl (l @ nl # xs) = (l # fst (split_lines nl xs), snd (split_lines nl xs))"
    if "nl \<notin> set l" for l xs
    using that by (induction l) (auto simp: Let_def case_prod_unfold)
  have last: "split_lines nl l = ([], l)" if "nl \<notin> set l" for l
    using that by (induction l) (auto simp: Let_def)
  show ?thesis using that by (induction ls) (simp_all add: line last)
qed

lemma split_lines_spec:
  assumes "split_lines nl xs = (ls, rest)"
  shows "xs = concat (map (\<lambda>l. l @ [nl]) ls) @ rest" and "\<forall>l \<in> set (rest # ls). nl \<notin> set l"
  using assms by (induction xs arbitrary: ls rest) (auto simp: Let_def split: prod.splits if_splits list.splits)

lemma utf8_decode_has:
  assumes "unat x < 128" and "utf8_decode bs = Some cs"
  shows "unat x \<in> set cs \<longleftrightarrow> x \<in> set bs"
  using assms(2)
proof (induction bs arbitrary: cs rule: utf8_decode.induct)
  case (1 bs)
  show ?case
  proof (cases "bs = []")
    case False
    with "1.prems" obtain c rest ds where step: "utf8_char bs = Some (c, rest)" "utf8_decode rest = Some ds" "cs = c # ds"
      by (cases "utf8_char bs") (auto simp: utf8_decode_step)
    from "1.IH" [OF False step(1) refl step(2)] have ih: "unat x \<in> set ds \<longleftrightarrow> x \<in> set rest" .
    show ?thesis
      by (cases rule: utf8_char_in [OF step(1)]) (use assms(1) ih step(3) in \<open>auto simp: word_unat_eq_iff\<close>)
  qed (use "1.prems" in \<open>simp add: utf8_decode_step\<close>)
qed

lemma utf8_decode_lines:
  "utf8_decode (concat (map (\<lambda>l. l @ [10]) ls) @ rest) = do {
     xs \<leftarrow> opt_map utf8_decode ls; r \<leftarrow> utf8_decode rest; Some (concat (map (\<lambda>l. l @ [10]) xs) @ r) }"
proof (induction ls)
  case (Cons l ls)
  then show ?case
    by (simp add: utf8_decode_newline)
      (cases "utf8_decode l"; cases "opt_map utf8_decode ls"; cases "utf8_decode rest"; simp)
qed (cases "utf8_decode rest"; simp)

lemma utf8_decode_last:
  "utf8_decode bs = Some cs \<Longrightarrow> cs \<noteq> [] \<Longrightarrow> last cs < 128 \<Longrightarrow> bs \<noteq> [] \<and> unat (last bs) = last cs"
proof (induction bs arbitrary: cs rule: utf8_decode.induct)
  case (1 bs)
  have "bs \<noteq> []" using "1.prems" by (auto simp: utf8_decode_step)
  with "1.prems" obtain c rest ds where step: "utf8_char bs = Some (c, rest)" "utf8_decode rest = Some ds" "cs = c # ds"
    by (cases "utf8_char bs") (auto simp: utf8_decode_step)
  show ?case
  proof (cases "ds = []")
    case True
    then have "c < 128" using step(3) "1.prems" by simp
    moreover have "rest = []" using True step(2) by (cases "rest = []"; cases "utf8_char rest") (auto simp: utf8_decode_step)
    ultimately show ?thesis by (cases rule: utf8_char_in [OF step(1)]) (simp_all add: step(3) True)
  next
    case False
    have "rest \<noteq> [] \<and> unat (last rest) = last ds"
      using "1.IH" [OF \<open>bs \<noteq> []\<close> step(1) refl step(2) False] "1.prems"(3) False step(3) by simp
    moreover have "last bs = last rest" using calculation by (cases rule: utf8_char_in [OF step(1)]) simp_all
    ultimately show ?thesis using False \<open>bs \<noteq> []\<close> step(3) by simp
  qed
qed

lemma chomp_decode: "utf8_decode (chomp 13 l) = map_option (chomp 13) (utf8_decode l)"
proof (cases "l \<noteq> [] \<and> last l = 13")
  case True
  then have l: "l = butlast l @ 13 # []" by (metis append_butlast_last_id)
  have "utf8_decode l = map_option (\<lambda>cs. cs @ [13]) (utf8_decode (butlast l))"
    by (subst l, subst utf8_decode_ascii) (simp, cases "utf8_decode (butlast l)", simp_all add: utf8_decode_step)
  with True show ?thesis by (simp add: chomp_def option.map_comp comp_def option.map_ident)
next
  case False
  show ?thesis
  proof (cases "utf8_decode l")
    case (Some cs)
    have "chomp 13 cs = cs"
    proof (cases "cs \<noteq> [] \<and> last cs = 13")
      case True
      then have "l \<noteq> [] \<and> unat (last l) = 13" using utf8_decode_last [OF Some] by auto
      then show ?thesis using False by (simp add: word_unat_eq_iff)
    qed (auto simp: chomp_def)
    with False Some show ?thesis by (auto simp: chomp_def)
  qed (use False in \<open>auto simp: chomp_def\<close>)
qed

text \<open>The lines that a reader decodes one by one are those of the decoded text.\<close>

lemma reader_lines_decode:
  "utf8_decode bs = Some cs \<Longrightarrow> reader_lines bs False = map Some (text_lines cs)"
  "utf8_decode bs = None \<Longrightarrow> None \<in> set (reader_lines bs False)"
proof -
  obtain ls rest where split: "split_lines 10 bs = (ls, rest)" by fastforce
  note bs = split_lines_spec [OF split]
  have dec: "utf8_decode bs = do {
     xs \<leftarrow> opt_map utf8_decode ls; r \<leftarrow> utf8_decode rest; Some (concat (map (\<lambda>l. l @ [10]) xs) @ r) }"
    by (subst bs(1)) (rule utf8_decode_lines)
  have lines: "reader_lines bs False = map (\<lambda>l. map_option (chomp 13) (utf8_decode l)) ls
      @ (if rest = [] then [] else [utf8_decode rest])"
    by (simp add: reader_lines_def split chomp_decode)
  show "reader_lines bs False = map Some (text_lines cs)" if ok: "utf8_decode bs = Some cs"
  proof -
    obtain xs r where xs: "opt_map utf8_decode ls = Some xs" "utf8_decode rest = Some r"
      "cs = concat (map (\<lambda>l. l @ [10]) xs) @ r"
      using ok dec by (cases "opt_map utf8_decode ls"; cases "utf8_decode rest") auto
    note nth = opt_map_SomeD [OF xs(1)]
    have "10 \<notin> set x" if x: "x \<in> set (r # xs)" for x
    proof -
      obtain l where l: "l \<in> set (rest # ls)" "utf8_decode l = Some x"
        using x nth xs(2) by (auto simp: in_set_conv_nth)
      then have "10 \<notin> set l" using bs(2) by blast
      with utf8_decode_has [of 10 l x] l show ?thesis by simp
    qed
    then have "split_lines 10 cs = (xs, r)" unfolding xs(3) by (intro split_lines_join) blast
    moreover have "rest = [] \<longleftrightarrow> r = []"
      using xs(2) by (cases "rest = []"; cases "utf8_char rest") (auto simp: utf8_decode_step)
    moreover have "map (\<lambda>l. map_option (chomp 13) (utf8_decode l)) ls = map Some (map (chomp 13) xs)"
      using nth by (intro nth_equalityI) simp_all
    ultimately show ?thesis using xs(2) by (simp add: lines text_lines_def)
  qed
  show "None \<in> set (reader_lines bs False)" if "utf8_decode bs = None"
  proof (cases "opt_map utf8_decode ls")
    case None
    then have "\<exists>l \<in> set ls. utf8_decode l = None" using opt_map_Some_iff [of utf8_decode ls] by auto
    then show ?thesis by (force simp: lines)
  next
    case (Some xs)
    with that dec have "utf8_decode rest = None" by (cases "utf8_decode rest") simp_all
    moreover from this have "rest \<noteq> []" by (auto simp: utf8_decode_step)
    ultimately show ?thesis by (simp add: lines)
  qed
qed

section \<open>Encoding\<close>

lemma unat_bytes: "n < 256 \<Longrightarrow> unat (of_nat n :: u8) = n"
  by (simp add: unat_of_nat)

lemma continuation_encodes:
  "continuation k acc bs = Some (c, rest) \<Longrightarrow>
     c div 64 ^ k = acc \<and> bs = map (\<lambda>i. of_nat (128 + c div 64 ^ i mod 64)) (rev [0..<k]) @ rest"
proof (induction k acc bs rule: continuation.induct)
  case (3 k acc b bs)
  then have b: "128 \<le> unat b" "unat b < 192" and k: "continuation k (acc * 64 + (unat b - 128)) bs = Some (c, rest)"
    by (auto simp: continues_def split: if_splits)
  have ih: "c div 64 ^ k = acc * 64 + (unat b - 128)"
    "bs = map (\<lambda>i. of_nat (128 + c div 64 ^ i mod 64)) (rev [0..<k]) @ rest"
    using "3.IH" [OF _ k] b by (auto simp: continues_def)
  have "c div 64 ^ Suc k = acc" using b ih(1) by (simp add: div_mult2_eq mult.commute [of 64])
  moreover have "b = of_nat (128 + c div 64 ^ k mod 64)"
  proof -
    have "unat b - 128 < 64" using b by simp
    then have "c div 64 ^ k mod 64 = unat b - 128" unfolding ih(1) by simp
    then show ?thesis using b by (simp add: word_unat_eq_iff unat_bytes)
  qed
  ultimately show ?case using ih(2) by simp
qed simp_all

lemma utf8_char_bytes:
  assumes "utf8_char bs = Some (c, rest)"
  shows "bs = utf8_bytes c @ rest"
proof -
  obtain b bs' where bs: "bs = b # bs'" using assms by (cases bs) auto
  show ?thesis
  proof (cases "unat b < 128")
    case True
    with assms bs show ?thesis by (auto simp: utf8_bytes_def Let_def)
  next
    case False
    then consider "192 \<le> unat b" "unat b < 224" "scalar_after 1 (unat b - 192) bs' = Some (c, rest)"
      | "224 \<le> unat b" "unat b < 240" "scalar_after 2 (unat b - 224) bs' = Some (c, rest)"
      | "240 \<le> unat b" "unat b < 248" "scalar_after 3 (unat b - 240) bs' = Some (c, rest)"
      using assms bs by (force simp: Let_def split: if_splits)
    moreover have parts: "continuation k (unat b - m) bs' = Some (c, rest) \<and> scalar_of k c"
      if "scalar_after k (unat b - m) bs' = Some (c, rest)" for k m
      using that by (auto simp: scalar_after_def split: bind_splits if_splits prod.splits)
    moreover have lead: "b = of_nat (m + c div 64 ^ k)" if "c div 64 ^ k = unat b - m" "m \<le> unat b" for k m
      using that unsigned_less [of b, where 'a = nat] by (simp add: word_unat_eq_iff unat_bytes)
    ultimately show ?thesis
    proof cases
      case 1
      with parts [OF 1(3)] continuation_encodes [of 1 "unat b - 192" bs' c rest] have c: "c div 64 = unat b - 192"
        "bs' = [of_nat (128 + c mod 64)] @ rest" "128 \<le> c" by (simp_all add: scalar_of_def)
      moreover have "c < 2048" using c(1) 1 by linarith
      ultimately show ?thesis using lead [of 1 192] 1(1) by (simp add: bs utf8_bytes_def)
    next
      case 2
      with parts [OF 2(3)] continuation_encodes [of 2 "unat b - 224" bs' c rest] have c: "c div 4096 = unat b - 224"
        "bs' = [of_nat (128 + c div 64 mod 64), of_nat (128 + c mod 64)] @ rest" "2048 \<le> c"
        by (simp_all add: scalar_of_def upt_rec numeral_2_eq_2)
      moreover have "c < 65536" using c(1) 2 by linarith
      ultimately show ?thesis using lead [of 2 224] 2(1) by (simp add: bs utf8_bytes_def)
    next
      case 3
      with parts [OF 3(3)] continuation_encodes [of 3 "unat b - 240" bs' c rest] have c: "c div 262144 = unat b - 240"
        "bs' = [of_nat (128 + c div 4096 mod 64), of_nat (128 + c div 64 mod 64), of_nat (128 + c mod 64)] @ rest" "65536 \<le> c"
        by (simp_all add: scalar_of_def upt_rec numeral_3_eq_3)
      then show ?thesis using lead [of 3 240] 3(1) by (simp add: bs utf8_bytes_def)
    qed
  qed
qed

lemma utf8_encode_decode: "utf8_decode bs = Some cs \<Longrightarrow> utf8_encode cs = bs"
proof (induction bs arbitrary: cs rule: utf8_decode.induct)
  case (1 bs)
  show ?case
  proof (cases "bs = []")
    case False
    with "1.prems" obtain c rest ds where step: "utf8_char bs = Some (c, rest)" "utf8_decode rest = Some ds" "cs = c # ds"
      by (cases "utf8_char bs") (auto simp: utf8_decode_step)
    with "1.IH" [OF False step(1) refl step(2)] utf8_char_bytes [OF step(1)] show ?thesis
      by (simp add: utf8_encode_def)
  qed (use "1.prems" in \<open>simp add: utf8_decode_step utf8_encode_def\<close>)
qed

section \<open>Text is UTF-8\<close>

text \<open>The Unicode scalar values.\<close>

definition scalar :: "nat \<Rightarrow> bool" where
  "scalar c \<longleftrightarrow> c < 55296 \<or> 57344 \<le> c \<and> c \<le> 1114111"

lemma continuation_reads:
  assumes "c div 64 ^ k = acc"
  shows "continuation k acc (map (\<lambda>i. of_nat (128 + c div 64 ^ i mod 64)) (rev [0..<k]) @ rest) = Some (c, rest)"
  using assms
proof (induction k arbitrary: acc)
  case (Suc k)
  have digit: "c div 64 ^ k mod 64 < 64" by simp
  have "c div 64 ^ k div 64 = acc" using Suc.prems by (simp add: div_mult2_eq mult.commute [of 64])
  then have "acc * 64 + c div 64 ^ k mod 64 = c div 64 ^ k" using div_mult_mod_eq [of "c div 64 ^ k" 64] by simp
  moreover have "unat (of_nat (128 + c div 64 ^ k mod 64) :: u8) = 128 + c div 64 ^ k mod 64"
    by (rule unat_bytes) (use digit in linarith)
  ultimately show ?case using Suc.IH [OF refl] digit by (simp add: continues_def)
qed simp

lemma scalar_after_reads:
  assumes "scalar_of k c" and "acc = c div 64 ^ k"
  shows "scalar_after k acc (map (\<lambda>i. of_nat (128 + c div 64 ^ i mod 64)) (rev [0..<k]) @ rest) = Some (c, rest)"
  unfolding scalar_after_def assms(2) continuation_reads [OF refl] using assms(1) by simp

lemma utf8_char_reads:
  assumes "scalar c"
  shows "utf8_char (utf8_bytes c @ rest) = Some (c, rest)"
proof -
  have lead: "unat (of_nat (m + c div n) :: u8) = m + c div n" if "m + c div n < 256" for m n
    by (rule unat_bytes [OF that])
  consider "c < 128" | "128 \<le> c" "c < 2048" | "2048 \<le> c" "c < 65536" | "65536 \<le> c" by linarith
  then show ?thesis
  proof cases
    case 1
    then show ?thesis by (simp add: utf8_bytes_def unat_bytes)
  next
    case 2
    then have "c div 64 < 32" by linarith
    moreover have "scalar_of 1 c" using 2 by (simp add: scalar_of_def)
    ultimately show ?thesis
      using 2 lead [of 192 64] scalar_after_reads [of 1 c "c div 64" rest] by (simp add: utf8_bytes_def Let_def)
  next
    case 3
    then have "c div 4096 < 16" by linarith
    moreover have "scalar_of 2 c" using 3 assms by (auto simp: scalar_of_def scalar_def)
    ultimately show ?thesis
      using 3 lead [of 224 4096] scalar_after_reads [of 2 c "c div 4096" rest]
      by (simp add: utf8_bytes_def Let_def upt_rec numeral_2_eq_2)
  next
    case 4
    then have "c \<le> 1114111" using assms by (auto simp: scalar_def)
    then have "c div 262144 < 5" by linarith
    moreover have "scalar_of 3 c" using 4 assms by (auto simp: scalar_of_def scalar_def)
    ultimately show ?thesis
      using 4 lead [of 240 262144] scalar_after_reads [of 3 c "c div 262144" rest]
      by (simp add: utf8_bytes_def Let_def upt_rec numeral_3_eq_3)
  qed
qed

lemma utf8_char_scalar: "utf8_char bs = Some (c, rest) \<Longrightarrow> scalar c"
proof -
  assume char: "utf8_char bs = Some (c, rest)"
  have small: "c < 2048" if "continuation (Suc 0) (unat b - 192) bs' = Some (c, rest)" "unat b < 224" for b :: u8 and bs'
  proof -
    have "c div 64 < 32" using continuation_encodes [OF that(1)] that(2) by simp
    then show ?thesis by linarith
  qed
  have medium: "c < 65536" if "continuation 2 (unat b - 224) bs' = Some (c, rest)" "unat b < 240" for b :: u8 and bs'
  proof -
    have "c div 4096 < 16" using continuation_encodes [OF that(1)] that(2) by simp
    then show ?thesis by linarith
  qed
  show ?thesis
    using char by (cases bs) (auto simp: Let_def scalar_def scalar_after_def scalar_of_def split: if_splits bind_splits
        dest!: small medium)
qed

lemma utf8_decode_scalar: "utf8_decode bs = Some cs \<Longrightarrow> list_all scalar cs"
proof (induction bs arbitrary: cs rule: utf8_decode.induct)
  case (1 bs)
  show ?case
  proof (cases "bs = []")
    case False
    with "1.prems" obtain c rest ds where step: "utf8_char bs = Some (c, rest)" "utf8_decode rest = Some ds" "cs = c # ds"
      by (cases "utf8_char bs") (auto simp: utf8_decode_step)
    with "1.IH" [OF False step(1) refl step(2)] utf8_char_scalar show ?thesis by simp
  qed (use "1.prems" in \<open>simp add: utf8_decode_step\<close>)
qed

lemma utf8_bytes_nonempty: "utf8_bytes c \<noteq> []"
  by (simp add: utf8_bytes_def)

lemma utf8_decode_encode: "list_all scalar cs \<Longrightarrow> utf8_decode (utf8_encode cs) = Some cs"
proof (induction cs)
  case (Cons c cs)
  have "utf8_encode (c # cs) = utf8_bytes c @ utf8_encode cs" by (simp add: utf8_encode_def)
  with Cons show ?case by (subst utf8_decode.simps) (simp add: utf8_char_reads utf8_bytes_nonempty)
qed (simp add: utf8_encode_def utf8_decode_step)

interpretation utf8_text: codec "list_all scalar" utf8_encode "\<lambda>bs. ok_or e (utf8_decode bs)"
proof
  fix bs cs
  have "ok_or e (utf8_decode bs) = Ok cs \<longleftrightarrow> utf8_decode bs = Some cs" by (cases "utf8_decode bs") simp_all
  then show "ok_or e (utf8_decode bs) = Ok cs \<longleftrightarrow> list_all scalar cs \<and> utf8_encode cs = bs"
    using utf8_decode_encode [of cs] utf8_decode_scalar utf8_encode_decode by metis
qed

section \<open>Parts of a text\<close>

lemma split_lines_in:
  "split_lines nl xs = (ls, rest) \<Longrightarrow> set rest \<subseteq> set xs \<and> (\<forall>l \<in> set ls. set l \<subseteq> set xs)"
proof (induction xs arbitrary: ls rest)
  case (Cons x xs)
  obtain ls' rest' where split: "split_lines nl xs = (ls', rest')" by (cases "split_lines nl xs")
  from Cons.IH [OF split] Cons.prems show ?case
    by (cases ls') (auto simp: split split: if_splits, blast+)
qed simp

lemma set_chomp: "set (chomp cr l) \<subseteq> set l"
  by (auto simp: chomp_def dest: in_set_butlastD)

lemma text_lines_in: "l \<in> set (text_lines cs) \<Longrightarrow> set l \<subseteq> set cs"
proof -
  assume l: "l \<in> set (text_lines cs)"
  obtain ls rest where split: "split_lines 10 cs = (ls, rest)" by (cases "split_lines 10 cs")
  then have "(\<exists>l' \<in> set ls. l = chomp 13 l') \<or> l = rest"
    using l by (auto simp: text_lines_def split: if_splits)
  then obtain l' where "set l \<subseteq> set l'" "l' \<in> set ls \<or> l' = rest"
    using set_chomp [of "13 :: nat"] by blast
  with split_lines_in [OF split] show ?thesis by blast
qed

lemma set_trim: "set (trim cs) \<subseteq> set cs"
  by (auto simp: trim_def dest!: set_dropWhileD)

end
