(* ===== verification/Cli.thy ===== *)
theory Cli
  imports PsiSession TextFiles
begin

text \<open>
  \<open>pool-psi-cli/src/main.rs\<close>: the command line client and server of a set intersection.

  The disk is a map of files, of which some fail to be read and some have no room for all that is
  written. Drawn bits, the codec of a public key (\<open>bincode\<close>) and the connection are arguments; an
  error is named by the context the code gives it. What is printed is what a command returns, and
  QUIC, TLS, the clock and the parser of the arguments are not modelled. The loop that accepts
  connections is in \<open>CliServe\<close>.
\<close>

type_synonym path = string
type_synonym chars = "nat list"

datatype ('pe, 've) cli_error =
    NotSeconds chars | BelowOneSecond | NotANumber chars | BelowOne
  | Reading path | NoEntries path | KeyBytes path nat | NotAKey path | NotAPublicKey path
  | ProofDoesNotVerify path 've | Writing path | ProvingKey 'pe | EncodingKey
  | Session "('pe, 've) psi_error"

section \<open>Arguments\<close>

definition U64_MAX :: nat where "U64_MAX = 2 ^ 64 - 1"

definition seconds :: "chars \<Rightarrow> (('pe, 've) cli_error, nat) res" where
  "seconds arg = (case parse_unsigned U64_MAX arg of
       None \<Rightarrow> Err (NotSeconds arg)
     | Some n \<Rightarrow> if n = 0 then Err BelowOneSecond else Ok n)"

definition at_least_one :: "chars \<Rightarrow> (('pe, 've) cli_error, nat) res" where
  "at_least_one arg = (case parse_unsigned USIZE_MAX arg of
       None \<Rightarrow> Err (NotANumber arg)
     | Some n \<Rightarrow> if n = 0 then Err BelowOne else Ok n)"

section \<open>The disk\<close>

text \<open>A file may fail to be read after some of its bytes. A path that cannot be opened for writing has
  no room; another has room for some bytes, and \<open>write_all\<close> leaves what fits.\<close>

record disk =
  d_files :: "path \<Rightarrow> bytes option"
  d_fails :: "path \<Rightarrow> nat option"
  d_room :: "path \<Rightarrow> nat option"

definition read_file :: "disk \<Rightarrow> path \<Rightarrow> (('pe, 've) cli_error, bytes) res" where
  "read_file d p = (case (d_files d p, d_fails d p) of (Some bs, None) \<Rightarrow> Ok bs | _ \<Rightarrow> Err (Reading p))"

definition read_to_string :: "disk \<Rightarrow> path \<Rightarrow> (('pe, 've) cli_error, chars) res" where
  "read_to_string d p = res_bind (read_file d p) (\<lambda>bs. ok_or (Reading p) (utf8_decode bs))"

definition write_file :: "disk \<Rightarrow> path \<Rightarrow> bytes \<Rightarrow> disk \<times> (('pe, 've) cli_error, unit) res" where
  "write_file d p bs = (case d_room d p of
       None \<Rightarrow> (d, Err (Writing p))
     | Some room \<Rightarrow> (d\<lparr> d_files := (d_files d)(p \<mapsto> take room bs) \<rparr>,
         if length bs \<le> room then Ok () else Err (Writing p)))"

section \<open>Sets\<close>

text \<open>\<open>#\<close> starts a comment.\<close>

definition entry :: "chars \<Rightarrow> chars option" where
  "entry line = (let e = trim line in if e \<noteq> [] \<and> hd e \<noteq> 35 then Some e else None)"

definition read_set :: "disk \<Rightarrow> path \<Rightarrow> (('pe, 've) cli_error, chars list) res" where
  "read_set d p =
     res_bind (read_to_string d p) (\<lambda>content.
     let elems = List.map_filter entry (text_lines content) in
     if elems = [] then Err (NoEntries p) else Ok elems)"

text \<open>Masking consumes the lines up to the first error, which is raised once it returns.\<close>

fun lines_until_error :: "'a option list \<Rightarrow> 'a list \<times> bool" where
  "lines_until_error [] = ([], False)"
| "lines_until_error (None # ls) = ([], True)"
| "lines_until_error (Some l # ls) = (let (xs, failed) = lines_until_error ls in (l # xs, failed))"

definition mask_set_file ::
  "xof \<Rightarrow> psi_server \<Rightarrow> bytes \<Rightarrow> disk \<Rightarrow> path \<Rightarrow> (('pe, 've) cli_error, masked_element list) res" where
  "mask_set_file xof srv tag d p = (case d_files d p of
       None \<Rightarrow> Err (Reading p)
     | Some bs \<Rightarrow>
         let (seen, fails) = (case d_fails d p of None \<Rightarrow> (bs, False) | Some n \<Rightarrow> (take n bs, True));
             (lines, failed) = lines_until_error (reader_lines seen fails)
         in res_bind (expect (psi_mask xof srv tag (map utf8_encode (List.map_filter entry lines)))) (\<lambda>masked.
            if failed then Err (Reading p)
            else if masked = [] then Err (NoEntries p) else Ok masked))"

section \<open>Keys\<close>

definition keygen :: "disk \<Rightarrow> path \<Rightarrow> u8 list \<Rightarrow> disk \<times> (('pe, 've) cli_error, unit) res" where
  "keygen d out drawn =
     (let key = random_key drawn in
      if d_files d out \<noteq> None then (d, Err (Writing out)) else write_file d out (as_bits key))"

definition read_key :: "disk \<Rightarrow> path \<Rightarrow> (('pe, 've) cli_error, secret_key) res" where
  "read_key d p =
     res_bind (read_file d p) (\<lambda>bs.
     if length bs \<noteq> par_N then Err (KeyBytes p (length bs)) else ok_or (NotAKey p) (from_bits bs))"

text \<open>The key file is read before anything is written.\<close>

definition public_key ::
  "('c, 'proof, 'pe, 've) crypto \<Rightarrow> ('c \<times> 'proof \<Rightarrow> bytes option) \<Rightarrow> disk \<Rightarrow> path \<Rightarrow> path
     \<Rightarrow> disk \<times> (('pe, 've) cli_error, unit) res" where
  "public_key cr serialize d psi_key out =
     (case res_bind (read_key d psi_key) (\<lambda>sk.
           res_bind (map_err ProvingKey (psi_public_key cr \<lparr> ps_oprf = \<lparr> os_sk = sk \<rparr> \<rparr>)) (\<lambda>pk_and_proof.
           ok_or EncodingKey (serialize pk_and_proof))) of
        Ok bs \<Rightarrow> write_file d out bs
      | Err e \<Rightarrow> (d, Err e)
      | Panic \<Rightarrow> (d, Panic))"

definition read_pk ::
  "('c, 'proof, 'pe, 've) crypto \<Rightarrow> (bytes \<Rightarrow> ('c \<times> 'proof) option) \<Rightarrow> disk \<Rightarrow> path
     \<Rightarrow> (('pe, 've) cli_error, 'c verified_key) res" where
  "read_pk cr deserialize d p =
     res_bind (read_file d p) (\<lambda>bs.
     res_bind (ok_or (NotAPublicKey p) (deserialize bs)) (\<lambda>(pk, proof).
     map_err (ProofDoesNotVerify p) (verified_key_verify cr pk proof)))"

section \<open>The client\<close>

type_synonym ('c, 'proof, 'pe, 've, 'a) cli_proc =
  "(('c, 'proof) pmsg, (('pe, 've) cli_error, 'a) res) proc"

text \<open>What \<open>lookup\<close> reads before it connects: the set, the certificate, the key of a VOPRF.\<close>

definition lookup_inputs ::
  "('c, 'proof, 'pe, 've) crypto \<Rightarrow> (bytes \<Rightarrow> ('c \<times> 'proof) option) \<Rightarrow> disk \<Rightarrow> path \<Rightarrow> path \<Rightarrow> path option
     \<Rightarrow> (('pe, 've) cli_error, chars list \<times> chars \<times> 'c verified_key option) res" where
  "lookup_inputs cr deserialize d set_path cert_path pk_path =
     res_bind (read_set d set_path) (\<lambda>elems.
     res_bind (read_to_string d cert_path) (\<lambda>cert.
     res_bind (case pk_path of None \<Rightarrow> Ok None | Some p \<Rightarrow> res_bind (read_pk cr deserialize d p) (\<lambda>pk. Ok (Some pk)))
       (\<lambda>pk. Ok (elems, cert, pk))))"

text \<open>Its session, and the entries it prints.\<close>

definition lookup_run ::
  "('c, 'proof, 'pe, 've) crypto \<Rightarrow> (nat \<Rightarrow> nat) \<Rightarrow> 'c verified_key option \<Rightarrow> uid \<Rightarrow> chars list
     \<Rightarrow> ('c, 'proof, 'pe, 've, nat list) cli_proc" where
  "lookup_run cr frame pk uid elems =
     attempt_as Session (case pk of
         Some pk \<Rightarrow> psi_client_new_voprf cr frame pk (length elems) uid
       | None \<Rightarrow> psi_client_new cr frame (length elems) uid) (\<lambda>psi.
     attempt_as Session (psi_intersect cr psi (map utf8_encode elems)) (\<lambda>found. Ret (Ok found)))"

definition lookup_prints :: "chars list \<Rightarrow> nat list \<Rightarrow> (('pe, 've) cli_error, chars list) res" where
  "lookup_prints elems found = expect (opt_map (idx elems) found)"

definition lookup ::
  "('c, 'proof, 'pe, 've) crypto \<Rightarrow> (bytes \<Rightarrow> ('c \<times> 'proof) option) \<Rightarrow> (nat \<Rightarrow> nat) \<Rightarrow> uid \<Rightarrow> disk \<Rightarrow> path \<Rightarrow> path
     \<Rightarrow> path option \<Rightarrow> ('c, 'proof, 'pe, 've, chars list) cli_proc" where
  "lookup cr deserialize frame uid d set_path cert_path pk_path =
     attempt (Ret (lookup_inputs cr deserialize d set_path cert_path pk_path)) (\<lambda>(elems, cert, pk).
     attempt (lookup_run cr frame pk uid elems) (\<lambda>found. Ret (lookup_prints elems found)))"

section \<open>The server\<close>

text \<open>What \<open>serve\<close> reads before it listens: the certificate, the keys, and the set, masked.\<close>

definition serve_inputs ::
  "xof \<Rightarrow> disk \<Rightarrow> path \<Rightarrow> path \<Rightarrow> path \<Rightarrow> bytes \<Rightarrow> path
     \<Rightarrow> (('pe, 've) cli_error, chars \<times> chars \<times> psi_server \<times> masked_element list) res" where
  "serve_inputs xof d cert_path key_path psi_key tag set_path =
     res_bind (read_to_string d cert_path) (\<lambda>cert.
     res_bind (read_to_string d key_path) (\<lambda>key.
     res_bind (read_key d psi_key) (\<lambda>sk.
     let server = \<lparr> ps_oprf = \<lparr> os_sk = sk \<rparr> \<rparr> in
     res_bind (mask_set_file xof server tag d set_path) (\<lambda>masked. Ok (cert, key, server, masked)))))"

text \<open>\<open>session\<close>: one client, from its announcement to its last request.\<close>

definition cli_session ::
  "('c, 'proof, 'pe, 've) crypto \<Rightarrow> (nat \<Rightarrow> nat) \<Rightarrow> psi_server \<Rightarrow> bytes \<Rightarrow> masked_element list
     \<Rightarrow> ('c, 'proof, 'pe, 've, nat) cli_proc" where
  "cli_session cr frame server tag masked =
     attempt_as Session (psi_server_session cr frame server) (\<lambda>ps.
     let set_size = pss_set_size ps in
     proc_bind (serve_masked cr ps tag masked) (\<lambda>(ps, r).
     attempt_as Session (Ret r) (\<lambda>_. Ret (Ok set_size))))"

end
