(* ===== verification/Plonky3Properties.thy ===== *)
theory Plonky3Properties
  imports IdealRun Cli
begin

text \<open>The properties of the Plonky3 backend, each with a witness where it has hypotheses.\<close>

declare of_nat_unat [simp del]

section \<open>Checked outputs\<close>

text \<open>
  C3: what a VOPRF is for. Take a client that finished its preprocessing with the Plonky3 backend, made
  any requests since and now makes one more. Whatever the server answers, if the client accepts the
  answer then its outputs are the PRF of its inputs under the one key that the preprocessing proved.
  It rests on the extraction of Plonky3's proofs, on the hash being binding on the openings at hand
  and on the shape of messages that their types give them.
\<close>

theorem verified_outputs:
  fixes be :: "'f :: idom backend" and stark :: "('f, 'proof, 'pe, 've) stark"
  assumes "cr = plonky3_crypto be stark xof blake3 count" and "baby_bear TYPE('f)" and "backend_ok be"
    and "stark_extracts stark table" and "checked_preprocessing cr cs cv blocks p" and "wf_digests cv"
    and "request_batch xof (after_requests xof cs calls) tag xs = (cs', Ok (req, fin))"
    and "\<forall>row \<in> set (rep_rows rep). length (resp_y row) = 16"
    and "finalize_batch cr fin rep = Ok outs"
    and "binding be (verified_openings be table cr cs cv blocks p fin rep)"
  shows "map (evaluate xof (committed_key be table cr cs cv p) tag) xs = map Some outs"
proof -
  note kept = checked_preprocessing_requests [OF assms(5)]
  have "binding be (verified_openings be table cr (after_requests xof cs calls) cv blocks p fin rep)"
    unfolding kept(3) by (rule assms(10))
  from verified_batch [OF assms(1-4) kept(1) assms(6-9) this] show ?thesis by (simp only: kept(2))
qed

lemma verified_outputs_witness:
  "\<exists>p outs. checked_preprocessing ideal_crypto ideal_client ideal_client_voprf ideal_blocks p \<and>
     map (evaluate (\<lambda>ctx msg i. 0) (committed_key ideal_backend ideal_table ideal_crypto ideal_client ideal_client_voprf p) [1])
       [[2]] = map Some outs"
proof -
  obtain p rep cs' req fin outs where
    p: "checked_preprocessing ideal_crypto ideal_client ideal_client_voprf ideal_blocks p"
    and run: "request_batch (\<lambda>ctx msg i. 0) ideal_client [1] [[2]] = (cs', Ok (req, fin))"
    "\<forall>row \<in> set (rep_rows rep). length (resp_y row) = 16" "finalize_batch ideal_crypto fin rep = Ok outs"
    "binding ideal_backend (verified_openings ideal_backend ideal_table ideal_crypto ideal_client
       ideal_client_voprf ideal_blocks p fin rep)"
    by (rule ideal_batch)
  have "map (evaluate (\<lambda>ctx msg i. 0) (committed_key ideal_backend ideal_table ideal_crypto ideal_client ideal_client_voprf p) [1])
       [[2]] = map Some outs"
    by (rule verified_outputs [OF ideal_crypto_def baby_bear_bb ideal_backend_ok ideal_stark_extracts p ideal_digests
          _ run(2-4), where calls = "[]"]) (simp add: run(1))
  with p show ?thesis by blast
qed

text \<open>
  C16: a proof of an evaluation is one. If a proof of the online statement verifies, there are a key and
  mask sums behind the public commitments, and every entry of every response that the statement names
  is computed from them, the request and the committed pad, whichever table the server had.
\<close>

theorem online_proof_sound:
  fixes be :: "'f :: idom backend" and stark :: "('f, 'proof, 'pe, 've) stark"
  assumes "baby_bear TYPE('f)" and "backend_ok be" and "stark_extracts stark table" and "wf_online_public st"
    and "plonky3_verify_online be stark st p = Ok ()"
    and "binding be (online_openings be (online_table_of be table st p))"
  shows "\<exists>sk r rnd. online_relation be (online_openings be (online_table_of be table st p)) st sk r rnd"
proof -
  obtain public where "online_public_values st = Some public"
    "satisfies (online_air be) (table (online_air be) p public) public"
    using plonky3_online_sound [OF assms(3,5)] by blast
  then show ?thesis
    using online_air_sound [OF assms(1,2,4) _ _] assms(6) by (simp add: online_table_of_def)
qed

lemma online_proof_sound_witness:
  "\<exists>st p sk r rnd. plonky3_verify_online ideal_backend ideal_stark st p = Ok () \<and>
     online_relation ideal_backend (online_openings ideal_backend (online_table_of ideal_backend ideal_table st p)) st sk r rnd"
proof -
  obtain req fin rep outs where run: "ideal_run [1] [[2]] req fin rep outs"
    using ideal_run_exists [OF ideal_tag, of "[[2]]"] by auto
  obtain p where rep: "rep_proofs rep = [p]" using ideal_answer(1) [OF run] by (auto simp: length_Suc_conv)
  obtain st w where holds: "cr_online_holds ideal_crypto st w"
    and prove: "plonky3_prove_online ideal_backend ideal_stark st w = Ok p"
    using ideal_answer(4) [OF run, of 0] by (auto simp: rep)
  have openings: "online_openings ideal_backend p \<subseteq> ideal_openings"
    using ideal_answer(5) [OF run] by (simp add: rep)
  have wf: "wf_online_statement st" "wf_online_witness w" and rel: "online_holds_for (key_commit ideal_backend)
      (mask_sum_commit ideal_backend) (pad_commit ideal_backend) st w"
    using holds by (simp_all add: cr_online_holds_def ideal_crypto_def)
  have verify: "plonky3_verify_online ideal_backend ideal_stark st p = Ok ()"
    using plonky3_online_complete [OF ideal_backend_ok ideal_stark_complete wf rel] prove by auto
  have "\<exists>sk r rnd. online_relation ideal_backend
      (online_openings ideal_backend (online_table_of ideal_backend ideal_table st p)) st sk r rnd"
    by (rule online_proof_sound [OF baby_bear_bb ideal_backend_ok ideal_stark_extracts
          online_holds_public [OF ideal_backend_ok wf rel] verify])
      (rule binding_mono [OF ideal_binding], simp add: online_table_of_def ideal_table_def openings)
  with verify show ?thesis by blast
qed

text \<open>
  C17: a proof of a preprocessing is one. If it verifies, there is one key behind the public key, and for
  every evaluation the mask sums behind \<open>m\<close> are the signed sums, under that key, of the masks behind
  the commitments that the key and \<open>b_bar\<close> pick.
\<close>

theorem preprocessing_proof_sound:
  fixes be :: "'f :: idom backend" and stark :: "('f, 'proof, 'pe, 've) stark"
  assumes "baby_bear TYPE('f)" and "backend_ok be" and "stark_extracts stark table" and "wf_pre_public st"
    and "plonky3_verify_preprocessing be stark st p = Ok ()"
    and "binding be (pre_openings be (preprocessing_table be table st p))"
  shows "pre_relation be (pre_openings be (preprocessing_table be table st p)) st
    (table_key (preprocessing_table be table st p))"
  using pre_air_sound [OF assms(1,2,4)] plonky3_preprocessing_sound [OF assms(3,5)] assms(6)
  by (simp add: preprocessing_table_def Let_def)

lemma preprocessing_proof_sound_witness:
  "\<exists>p. pre_relation ideal_backend
     (pre_openings ideal_backend (preprocessing_table ideal_backend ideal_table
        (checked_statement ideal_crypto ideal_client ideal_client_voprf) p))
     (checked_statement ideal_crypto ideal_client ideal_client_voprf)
     (table_key (preprocessing_table ideal_backend ideal_table
        (checked_statement ideal_crypto ideal_client ideal_client_voprf) p))"
proof -
  obtain p where p: "checked_preprocessing ideal_crypto ideal_client ideal_client_voprf ideal_blocks p"
    "pre_openings ideal_backend p \<subseteq> ideal_openings" by (rule ideal_checked)
  note wf = preprocessing_holds_public [OF ideal_backend_ok ideal_witness_holds [unfolded ideal_crypto_def],
      folded ideal_crypto_def]
  show ?thesis
    by (rule exI, rule preprocessing_proof_sound [OF baby_bear_bb ideal_backend_ok ideal_stark_extracts wf, of p])
      (use p in \<open>simp_all add: checked_preprocessing_def ideal_crypto_def preprocessing_table_def ideal_table_def
         Let_def binding_mono [OF ideal_binding]\<close>)
qed

text \<open>
  C33: what a client gets from a key file. Whatever the file holds, if \<open>read_pk\<close> accepts it then the key
  it returns is the commitment of some key of \<open>N\<close> bits, so that a session under it has a PRF to prove.
\<close>

theorem accepted_key_is_committed:
  fixes be :: "'f :: idom backend" and stark :: "('f, 'proof, 'pe, 've) stark"
  assumes "backend_ok be" and "stark_extracts stark table" and "length (verified_pk pk) = DIGEST_ELEMENTS"
    and "read_pk (plonky3_crypto be stark xof blake3 count) deserialize d path = Ok pk"
  shows "\<exists>sk. wf_key sk \<and> key_commit be sk = verified_pk pk"
proof -
  obtain p where "plonky3_verify_setup be stark \<lparr> ss_pk = verified_pk pk \<rparr> p = Ok ()"
    using assms(4) by (auto simp: read_pk_def verified_key_verify_def res_bind_Ok_iff map_err_Ok_iff plonky3_crypto_def
      split: prod.splits)
  from plonky3_setup_sound [OF assms(1,2) _ this] assms(3) show ?thesis
    by (auto simp: setup_holds_for_def key_holds_def)
qed

lemma accepted_key_is_committed_witness:
  "\<exists>sk. wf_key sk \<and> key_commit ideal_backend sk = key_commit ideal_backend ex_sk"
proof -
  let ?pk = "key_commit ideal_backend ex_sk"
  obtain p where p: "plonky3_verify_setup ideal_backend ideal_stark (setup_for_key (key_commit ideal_backend) ex_sk) p = Ok ()"
    using plonky3_setup_complete [OF ideal_backend_ok ideal_stark_complete ex_wf_sk] by blast
  let ?d = "\<lparr> d_files = [''pk'' \<mapsto> []], d_fails = (\<lambda>_. None), d_room = (\<lambda>_. None) \<rparr>"
  have "read_pk (plonky3_crypto ideal_backend ideal_stark (\<lambda>ctx msg i. 0) (\<lambda>msg i. 0) 128) (\<lambda>bs. Some (?pk, p)) ?d ''pk''
    = Ok (VerifiedKey ?pk)"
    using p by (simp add: read_pk_def read_file_def verified_key_verify_def plonky3_crypto_def setup_for_key_def)
  from accepted_key_is_committed [OF ideal_backend_ok ideal_stark_extracts _ this] show ?thesis
    using length_commit(1) [OF ideal_backend_ok ex_wf_sk] by simp
qed

section \<open>Proofs of what holds\<close>

text \<open>
  C19: the backend is the one the protocol needs. Every statement that holds for a witness of the right
  shape, of any of the three circuits, is proved, and its proof verifies.
\<close>

theorem plonky3_proves_what_holds:
  assumes "backend_ok be" and "stark_complete stark"
  shows "complete_setup (plonky3_crypto be stark xof blake3 count)
    \<and> complete_preprocessing (plonky3_crypto be stark xof blake3 count)
    \<and> complete_online (plonky3_crypto be stark xof blake3 count)"
  using plonky3_complete [OF assms] plonky3_setup_complete [OF assms]
  by (simp add: complete_setup_def plonky3_crypto_def)

lemma plonky3_proves_what_holds_witness:
  "complete_setup (plonky3_crypto ideal_backend ideal_stark (\<lambda>ctx msg i. 0) (\<lambda>msg i. 0) 128)
    \<and> complete_preprocessing (plonky3_crypto ideal_backend ideal_stark (\<lambda>ctx msg i. 0) (\<lambda>msg i. 0) 128)
    \<and> complete_online (plonky3_crypto ideal_backend ideal_stark (\<lambda>ctx msg i. 0) (\<lambda>msg i. 0) 128)"
  by (rule plonky3_proves_what_holds [OF ideal_backend_ok ideal_stark_complete])

end
