(* ===== verification/CliServe.thy ===== *)
theory CliServe
  imports Cli
begin

text \<open>
  The accept loop of \<open>serve\<close> in \<open>pool-psi-cli/src/main.rs\<close>: connections and sessions as steps, in any
  order. A connection that gets no permit of the semaphore is refused; a session holds its permit
  until its task ends, with a result, an error or a panic, or because its time is over. Time is in
  seconds. The clock may tick at any moment; of the runtime the model has that a tick wakes the tasks
  whose timer is due, and that a poll of \<open>tokio::time::timeout\<close> polls the session first and looks
  at the timer when that is not ready.
\<close>

section \<open>The loop\<close>

record serving =
  sv_permits :: nat
  sv_running :: "(nat \<times> nat) list"
  sv_accepted :: nat
  sv_time :: nat

text \<open>One poll of the task of a session: it is through, its time is over, or it waits on.\<close>

datatype polled = Through | GaveUp | Waiting

datatype serve_event = Admitted nat | Refused nat | Polled nat polled | Second

definition serving_start :: "nat \<Rightarrow> serving" where
  "serving_start max_sessions = \<lparr> sv_permits = max_sessions, sv_running = [], sv_accepted = 0, sv_time = 0 \<rparr>"

text \<open>\<open>try_acquire_owned\<close>, and the task that takes the permit with it.\<close>

definition accept :: "nat \<Rightarrow> serving \<Rightarrow> serving \<times> serve_event" where
  "accept timeout st =
     (let peer = sv_accepted st; st = st\<lparr> sv_accepted := Suc peer \<rparr>
      in if sv_permits st = 0 then (st, Refused peer)
         else (st\<lparr> sv_permits := sv_permits st - 1, sv_running := sv_running st @ [(peer, sv_time st + timeout)] \<rparr>,
               Admitted peer))"

text \<open>The task ends and drops its permit.\<close>

definition end_session :: "nat \<Rightarrow> serving \<Rightarrow> serving" where
  "end_session peer st =
     st\<lparr> sv_permits := Suc (sv_permits st), sv_running := filter (\<lambda>(p, d). p \<noteq> peer) (sv_running st) \<rparr>"

text \<open>\<open>tokio::time::timeout(timeout, session(...)).await\<close> is polled; \<open>ready\<close> is whether the session is
  through by itself.\<close>

definition poll_timeout :: "nat \<Rightarrow> nat \<Rightarrow> bool \<Rightarrow> polled" where
  "poll_timeout now deadline ready = (if ready then Through else if deadline \<le> now then GaveUp else Waiting)"

definition poll_session :: "(nat \<Rightarrow> bool) \<Rightarrow> nat \<Rightarrow> serving \<Rightarrow> serving \<times> polled" where
  "poll_session ready peer st =
     (case map_of (sv_running st) peer of
        None \<Rightarrow> (st, Waiting)
      | Some deadline \<Rightarrow> (case poll_timeout (sv_time st) deadline (ready peer) of
          Through \<Rightarrow> (end_session peer st, Through)
        | GaveUp \<Rightarrow> (end_session peer st, GaveUp)
        | Waiting \<Rightarrow> (st, Waiting)))"

text \<open>The clock advances by one second, and the tasks whose timer is due are polled.\<close>

definition due_sessions :: "serving \<Rightarrow> nat list" where
  "due_sessions st = map fst (filter (\<lambda>(peer, deadline). deadline \<le> sv_time st) (sv_running st))"

definition clock_tick :: "(nat \<Rightarrow> bool) \<Rightarrow> serving \<Rightarrow> serving" where
  "clock_tick ready st =
     (let st = st\<lparr> sv_time := Suc (sv_time st) \<rparr>
      in fold (\<lambda>peer st. fst (poll_session ready peer st)) (due_sessions st) st)"

inductive serve_step :: "nat \<Rightarrow> serving \<Rightarrow> serve_event \<Rightarrow> serving \<Rightarrow> bool" for timeout where
  connection: "accept timeout st = (st', e) \<Longrightarrow> serve_step timeout st e st'"
| polled: "poll_session ready peer st = (st', outcome) \<Longrightarrow> serve_step timeout st (Polled peer outcome) st'"
| second: "serve_step timeout st Second (clock_tick ready st)"

inductive_cases serve_stepE: "serve_step timeout st e st'"
inductive_simps serve_step_refused: "serve_step timeout st (Refused peer) st'"

inductive serve_run :: "nat \<Rightarrow> serving \<Rightarrow> serve_event list \<Rightarrow> serving \<Rightarrow> bool" for timeout where
  start: "serve_run timeout st [] st"
| step: "serve_run timeout st es st' \<Longrightarrow> serve_step timeout st' e st'' \<Longrightarrow> serve_run timeout st (es @ [e]) st''"

section \<open>What every step keeps\<close>

definition serving_ok :: "nat \<Rightarrow> nat \<Rightarrow> serving \<Rightarrow> bool" where
  "serving_ok max_sessions timeout st \<longleftrightarrow>
     sv_permits st + length (sv_running st) = max_sessions \<and> distinct (map fst (sv_running st)) \<and>
     (\<forall>(peer, deadline) \<in> set (sv_running st). peer < sv_accepted st \<and> deadline \<le> sv_time st + timeout)"

lemma length_drop_peer:
  "distinct (map fst xs) \<Longrightarrow> (peer, d) \<in> set xs \<Longrightarrow> Suc (length (filter (\<lambda>(p, d). p \<noteq> peer) xs)) = length xs"
proof (induction xs)
  case (Cons x xs)
  show ?case
  proof (cases "fst x = peer")
    case True
    then have "filter (\<lambda>(p, d). p \<noteq> peer) xs = xs"
      using Cons.prems(1) by (intro filter_True) (force simp: image_iff)
    with True show ?thesis by (simp add: case_prod_unfold)
  next
    case False
    with Cons show ?thesis by (auto simp: case_prod_unfold)
  qed
qed simp

lemma end_session_ok:
  assumes "serving_ok max_sessions timeout st" and "(peer, d) \<in> set (sv_running st)"
  shows "serving_ok max_sessions timeout (end_session peer st)"
  using assms length_drop_peer [of "sv_running st" peer d]
  by (auto simp: serving_ok_def end_session_def distinct_map_filter)

lemma accept_ok:
  assumes "serving_ok max_sessions timeout st"
  shows "serving_ok max_sessions timeout (fst (accept timeout st))"
  using assms by (auto simp: serving_ok_def accept_def Let_def image_iff split: prod.splits)

lemma poll_session_ok:
  assumes "serving_ok max_sessions timeout st"
  shows "serving_ok max_sessions timeout (fst (poll_session ready peer st))"
  using assms end_session_ok [OF assms]
  by (auto simp: poll_session_def dest: map_of_SomeD split: option.splits polled.splits)

lemma clock_tick_ok:
  assumes "serving_ok max_sessions timeout st"
  shows "serving_ok max_sessions timeout (clock_tick ready st)"
proof -
  have "serving_ok max_sessions timeout (fold (\<lambda>peer st. fst (poll_session ready peer st)) peers st)"
    if "serving_ok max_sessions timeout st" for peers st
    using that by (induction peers arbitrary: st) (simp_all add: poll_session_ok)
  moreover have "serving_ok max_sessions timeout (st\<lparr> sv_time := Suc (sv_time st) \<rparr>)"
    using assms by (auto simp: serving_ok_def)
  ultimately show ?thesis by (simp add: clock_tick_def Let_def)
qed

lemma serve_step_ok:
  assumes "serve_step timeout st e st'" and "serving_ok max_sessions timeout st"
  shows "serving_ok max_sessions timeout st'"
  using assms(1)
proof cases
  case connection
  then show ?thesis using accept_ok [OF assms(2)] by simp
next
  case polled
  then show ?thesis using poll_session_ok [OF assms(2)] by (metis fst_conv)
next
  case second
  then show ?thesis using clock_tick_ok [OF assms(2)] by simp
qed

lemma serve_run_ok:
  "serve_run timeout st es st' \<Longrightarrow> serving_ok max_sessions timeout st \<Longrightarrow> serving_ok max_sessions timeout st'"
  by (induction rule: serve_run.induct) (auto intro: serve_step_ok)

lemma serving_start_ok: "serving_ok max_sessions timeout (serving_start max_sessions)"
  by (simp add: serving_ok_def serving_start_def)

section \<open>A tick ends what is due\<close>

lemma poll_session_frame:
  "sv_time (fst (poll_session ready peer st)) = sv_time st"
  "sv_accepted (fst (poll_session ready peer st)) = sv_accepted st"
  "set (sv_running (fst (poll_session ready peer st))) \<subseteq> set (sv_running st)"
  by (auto simp: poll_session_def end_session_def split: option.splits polled.splits)

text \<open>A poll after the deadline ends the session, whether it is through or not.\<close>

lemma poll_session_due:
  assumes "map_of (sv_running st) peer = Some deadline" and "deadline \<le> sv_time st"
  shows "peer \<notin> fst ` set (sv_running (fst (poll_session ready peer st)))"
  using assms by (auto simp: poll_session_def poll_timeout_def end_session_def)

lemma poll_due_sessions:
  assumes "distinct (map fst (sv_running st))"
  shows "let st' = fold (\<lambda>peer st. fst (poll_session ready peer st)) peers st in
    sv_time st' = sv_time st \<and> sv_accepted st' = sv_accepted st \<and> set (sv_running st') \<subseteq> set (sv_running st) \<and>
    (\<forall>(peer, deadline) \<in> set (sv_running st'). peer \<in> set peers \<longrightarrow> sv_time st < deadline)"
  using assms
proof (induction peers arbitrary: st)
  case (Cons peer peers)
  let ?one = "fst (poll_session ready peer st)"
  let ?all = "fold (\<lambda>peer st. fst (poll_session ready peer st)) peers ?one"
  have "distinct (map fst (sv_running ?one))"
    using Cons.prems by (auto simp: poll_session_def end_session_def distinct_map_filter split: option.splits polled.splits)
  note IH = Cons.IH [OF this, unfolded Let_def poll_session_frame]
  have "sv_time st < deadline" if "(peer, deadline) \<in> set (sv_running ?all)" for deadline
  proof (rule ccontr)
    assume "\<not> sv_time st < deadline"
    moreover have running: "(peer, deadline) \<in> set (sv_running ?one)" using that IH by blast
    then have "map_of (sv_running st) peer = Some deadline"
      using Cons.prems poll_session_frame(3) by (metis map_of_is_SomeI subsetD)
    ultimately show False using poll_session_due [of st peer deadline ready] running by force
  qed
  with IH poll_session_frame(3) [of ready peer st] show ?case by (fastforce simp: Let_def)
qed simp

lemma clock_tick_running:
  assumes "distinct (map fst (sv_running st))"
  shows "sv_time (clock_tick ready st) = Suc (sv_time st)" and "sv_accepted (clock_tick ready st) = sv_accepted st"
    and "set (sv_running (clock_tick ready st)) \<subseteq> set (sv_running st)"
    and "(peer, deadline) \<in> set (sv_running (clock_tick ready st)) \<Longrightarrow> Suc (sv_time st) < deadline"
proof -
  let ?st = "st\<lparr> sv_time := Suc (sv_time st) \<rparr>"
  have tick: "sv_time (clock_tick ready st) = Suc (sv_time st) \<and> sv_accepted (clock_tick ready st) = sv_accepted st \<and>
      set (sv_running (clock_tick ready st)) \<subseteq> set (sv_running st) \<and>
      (\<forall>(peer, deadline) \<in> set (sv_running (clock_tick ready st)).
         peer \<in> set (due_sessions ?st) \<longrightarrow> Suc (sv_time st) < deadline)"
    using poll_due_sessions [of ?st ready "due_sessions ?st"] assms by (simp add: clock_tick_def Let_def)
  then show "sv_time (clock_tick ready st) = Suc (sv_time st)" "sv_accepted (clock_tick ready st) = sv_accepted st"
    and sub: "set (sv_running (clock_tick ready st)) \<subseteq> set (sv_running st)" by blast+
  assume running: "(peer, deadline) \<in> set (sv_running (clock_tick ready st))"
  show "Suc (sv_time st) < deadline"
  proof (cases "deadline \<le> Suc (sv_time st)")
    case True
    with running sub have "peer \<in> set (due_sessions ?st)" by (force simp: due_sessions_def)
    with tick running show ?thesis by blast
  qed simp
qed

section \<open>Running sessions are in time\<close>

text \<open>A session has the deadline it was admitted with, and is never admitted again.\<close>

definition in_time :: "serving \<Rightarrow> bool" where
  "in_time st \<longleftrightarrow> (\<forall>(peer, deadline) \<in> set (sv_running st). sv_time st < deadline)"

lemma serve_step_running:
  assumes "serve_step timeout st e st'" and "serving_ok max_sessions timeout st"
  shows "sv_accepted st \<le> sv_accepted st'"
    and "(peer, d) \<in> set (sv_running st') \<Longrightarrow> peer < sv_accepted st \<Longrightarrow> (peer, d) \<in> set (sv_running st)"
    and "sv_time st' = sv_time st + count_list [e] Second"
    and "0 < timeout \<Longrightarrow> in_time st \<Longrightarrow> in_time st'"
proof -
  have dist: "distinct (map fst (sv_running st))" using assms(2) by (simp add: serving_ok_def)
  have "sv_accepted st \<le> sv_accepted st' \<and>
     ((peer, d) \<in> set (sv_running st') \<longrightarrow> peer < sv_accepted st \<longrightarrow> (peer, d) \<in> set (sv_running st)) \<and>
     sv_time st' = sv_time st + count_list [e] Second \<and> (0 < timeout \<longrightarrow> in_time st \<longrightarrow> in_time st')"
    using assms(1)
  proof cases
    case connection
    then show ?thesis by (auto simp: accept_def Let_def in_time_def split: if_splits)
  next
    case polled
    then obtain ready peer' outcome where "e = Polled peer' outcome" "st' = fst (poll_session ready peer' st)"
      by (metis fst_conv)
    with poll_session_frame [of ready peer' st] show ?thesis by (auto simp: in_time_def)
  next
    case (second ready)
    with clock_tick_running [OF dist, where ready = ready] show ?thesis by (auto simp: in_time_def)
  qed
  then show "sv_accepted st \<le> sv_accepted st'"
    "(peer, d) \<in> set (sv_running st') \<Longrightarrow> peer < sv_accepted st \<Longrightarrow> (peer, d) \<in> set (sv_running st)"
    "sv_time st' = sv_time st + count_list [e] Second" "0 < timeout \<Longrightarrow> in_time st \<Longrightarrow> in_time st'"
    by blast+
qed

lemma serve_run_running:
  assumes "serve_run timeout st es st'" and "serving_ok max_sessions timeout st"
  shows "sv_accepted st \<le> sv_accepted st'"
    and "(peer, d) \<in> set (sv_running st') \<Longrightarrow> peer < sv_accepted st \<Longrightarrow> (peer, d) \<in> set (sv_running st)"
    and "sv_time st' = sv_time st + count_list es Second"
    and "0 < timeout \<Longrightarrow> in_time st \<Longrightarrow> in_time st'"
proof -
  have "sv_accepted st \<le> sv_accepted st' \<and>
     ((peer, d) \<in> set (sv_running st') \<longrightarrow> peer < sv_accepted st \<longrightarrow> (peer, d) \<in> set (sv_running st)) \<and>
     sv_time st' = sv_time st + count_list es Second \<and> (0 < timeout \<longrightarrow> in_time st \<longrightarrow> in_time st')"
    using assms
  proof (induction rule: serve_run.induct)
    case (step st es st' e st'')
    note run = step.IH [OF step.prems]
    note ok = serve_run_ok [OF step.hyps(1) step.prems]
    note one = serve_step_running [OF step.hyps(2) ok]
    have "(peer, d) \<in> set (sv_running st)" if "(peer, d) \<in> set (sv_running st'')" "peer < sv_accepted st"
      using one(2) [OF that(1)] run that(2) by auto
    with run one(1,3,4) show ?case by auto
  qed simp
  then show "sv_accepted st \<le> sv_accepted st'"
    "(peer, d) \<in> set (sv_running st') \<Longrightarrow> peer < sv_accepted st \<Longrightarrow> (peer, d) \<in> set (sv_running st)"
    "sv_time st' = sv_time st + count_list es Second" "0 < timeout \<Longrightarrow> in_time st \<Longrightarrow> in_time st'"
    by blast+
qed

end
