(* ===== verification/CliFiles.thy ===== *)
theory CliFiles
  imports CliServe PsiProperties
begin

text \<open>
  What the commands of the command line make of their files, and one lookup against one session.
\<close>

section \<open>Sets\<close>

lemma lines_until_error_map: "lines_until_error (map Some xs) = (xs, False)"
  by (induction xs) simp_all

lemma lines_until_error_None: "None \<in> set ls \<Longrightarrow> snd (lines_until_error ls)"
  by (induction ls rule: lines_until_error.induct) (simp_all add: case_prod_unfold Let_def)

lemma psi_mask_Some:
  assumes "wf_key (os_sk (ps_oprf srv))"
  shows "\<exists>masked. psi_mask xof srv tag ys = Some masked \<and> (masked = [] \<longleftrightarrow> ys = [])"
proof -
  obtain masked where masked: "mask_server_set xof (os_sk (ps_oprf srv)) tag ys = Some masked"
    "set masked = {elements out |out y. y \<in> set ys \<and> evaluate xof (os_sk (ps_oprf srv)) tag y = Some out}"
    using mask_server_set_Some [OF assms] by blast
  have "\<exists>out. evaluate xof (os_sk (ps_oprf srv)) tag y = Some out" for y using evaluate_row [OF assms] by blast
  then have "set masked = {} \<longleftrightarrow> ys = []" unfolding masked(2) by (cases ys) (simp, force)
  with masked(1) show ?thesis by (simp add: psi_mask_def)
qed

text \<open>The server masks the entries that a client reads from the same file, and fails where it does.\<close>

lemma mask_set_file_reads:
  fixes d :: disk
  assumes "wf_key (os_sk (ps_oprf srv))"
  shows "(mask_set_file xof srv tag d p :: (('pe, 've) cli_error, _) res) =
    res_bind (read_set d p) (\<lambda>elems. expect (psi_mask xof srv tag (map utf8_encode elems)))"
proof -
  note mask = psi_mask_Some [OF assms, of xof tag]
  show ?thesis
  proof (cases "d_files d p")
    case None
    then show ?thesis by (simp add: mask_set_file_def read_set_def read_to_string_def read_file_def)
  next
    case (Some bs)
    have failing: "res_bind (expect (psi_mask xof srv tag ys)) (\<lambda>masked.
        if True then Err (Reading p) else rest masked) = (Err (Reading p) :: (('pe, 've) cli_error, masked_element list) res)"
      for ys rest using mask [of ys] by auto
    show ?thesis
    proof (cases "d_fails d p")
      case (Some n)
      have "None \<in> set (reader_lines (take n bs) True)" by (simp add: reader_lines_def case_prod_unfold Let_def)
      from lines_until_error_None [OF this] show ?thesis
        using Some \<open>d_files d p = Some bs\<close> failing
        by (simp add: mask_set_file_def read_set_def read_to_string_def read_file_def case_prod_unfold Let_def)
    next
      case None
      show ?thesis
      proof (cases "utf8_decode bs")
        case undecodable: None
        from lines_until_error_None [OF reader_lines_decode(2) [OF undecodable]] show ?thesis
          using None \<open>d_files d p = Some bs\<close> failing undecodable
          by (simp add: mask_set_file_def read_set_def read_to_string_def read_file_def case_prod_unfold Let_def)
      next
        case (Some cs)
        let ?elems = "List.map_filter entry (text_lines cs)"
        obtain masked where "psi_mask xof srv tag (map utf8_encode ?elems) = Some masked" "masked = [] \<longleftrightarrow> ?elems = []"
          using mask [of "map utf8_encode ?elems"] by auto
        then show ?thesis
          using None \<open>d_files d p = Some bs\<close> Some
          by (simp add: mask_set_file_def read_set_def read_to_string_def read_file_def reader_lines_decode(1) [OF Some]
              lines_until_error_map Let_def)
      qed
    qed
  qed
qed

lemma trim_ends:
  assumes "trim cs \<noteq> []"
  shows "\<not> white_space (hd (trim cs))" and "\<not> white_space (last (trim cs))" and "set (trim cs) \<subseteq> set cs"
proof -
  let ?a = "dropWhile white_space cs"
  have t: "trim cs = rev (dropWhile white_space (rev ?a))" by (simp add: trim_def)
  then have ne: "dropWhile white_space (rev ?a) \<noteq> []" using assms by simp
  show "\<not> white_space (last (trim cs))" using hd_dropWhile [OF ne] ne by (simp add: t last_rev)
  have a: "?a = trim cs @ rev (takeWhile white_space (rev ?a))"
    unfolding t by (metis rev_append rev_rev_ident takeWhile_dropWhile_id)
  have "hd ?a = hd (trim cs)" using assms by (subst a) simp
  moreover have "?a \<noteq> []" using assms by (subst a) simp
  ultimately show "\<not> white_space (hd (trim cs))" using hd_dropWhile [of white_space cs] by simp
  show "set (trim cs) \<subseteq> set cs" using a set_dropWhileD by (metis Un_iff set_append subsetI)
qed

lemma text_lines_no_newline: "l \<in> set (text_lines cs) \<Longrightarrow> 10 \<notin> set l"
proof -
  assume l: "l \<in> set (text_lines cs)"
  obtain ls rest where split: "split_lines 10 cs = (ls, rest)" by fastforce
  note lines = split_lines_spec(2) [OF split]
  have "set (chomp 13 x) \<subseteq> set x" for x :: "nat list" by (auto simp: chomp_def dest: in_set_butlastD)
  then show ?thesis using l lines by (fastforce simp: text_lines_def split split: if_splits)
qed

definition clean_entry :: "chars \<Rightarrow> bool" where
  "clean_entry e \<longleftrightarrow> e \<noteq> [] \<and> hd e \<noteq> 35 \<and> \<not> white_space (hd e) \<and> \<not> white_space (last e) \<and> 10 \<notin> set e"

lemma read_set_clean:
  assumes "read_set d p = Ok elems"
  shows "elems \<noteq> [] \<and> list_all clean_entry elems"
proof -
  obtain cs where elems: "elems = List.map_filter entry (text_lines cs)" "elems \<noteq> []"
    using assms by (auto simp: read_set_def res_bind_Ok_iff Let_def split: if_splits)
  have "clean_entry e" if "l \<in> set (text_lines cs)" "entry l = Some e" for l e
  proof -
    have e: "e = trim l" "e \<noteq> []" "hd e \<noteq> 35" using that(2) by (auto simp: entry_def Let_def split: if_splits)
    with trim_ends [of l] text_lines_no_newline [OF that(1)] show ?thesis by (auto simp: clean_entry_def)
  qed
  with elems show ?thesis by (auto simp: list_all_iff map_filter_def)
qed

section \<open>Keys\<close>

lemma read_key_written:
  assumes "d_files d p = Some (as_bits sk)" and "d_fails d p = None" and "wf_key sk"
  shows "read_key d p = Ok sk"
  using assms by (cases sk) (simp add: read_key_def read_file_def wf_key_def from_bits_def)

lemma read_key_wf: "read_key d p = Ok sk \<Longrightarrow> wf_key sk"
  by (auto simp: read_key_def res_bind_Ok_iff wf_key_def from_bits_def split: if_splits elim!: ok_or.elims)

section \<open>A lookup against a session\<close>

text \<open>The entries of a file are text, so their bytes tell them apart.\<close>

lemma read_set_text:
  assumes "read_set d p = Ok elems" and "e \<in> set elems"
  shows "list_all scalar e"
proof -
  obtain content where content: "read_to_string d p = (Ok content :: (('a, 'b) cli_error, chars) res)"
    and elems: "elems = List.map_filter entry (text_lines content)"
    using assms(1) by (auto simp: read_set_def res_bind_Ok_iff Let_def split: if_splits)
  obtain line where line: "line \<in> set (text_lines content)" "entry line = Some e"
    using assms(2) by (auto simp: elems List.map_filter_def)
  have "set e \<subseteq> set content"
    using line(2) text_lines_in [OF line(1)] set_trim [of line] by (auto simp: entry_def Let_def split: if_splits)
  moreover have "list_all scalar content"
    using content utf8_text.decoded_valid by (auto simp: read_to_string_def res_bind_Ok_iff)
  ultimately show ?thesis by (auto simp: list_all_iff)
qed

lemma attempt_as_id: "attempt_as id p f = attempt p f"
  unfolding attempt_as_def attempt_def id_apply by (rule refl)

lemma lookup_prints_filter:
  "lookup_prints elems (filter (\<lambda>i. P (elems ! i)) [0..<length elems]) = Ok (filter P elems)"
proof -
  let ?is = "filter (\<lambda>i. P (elems ! i)) [0..<length elems]"
  have "opt_map (idx elems) ?is = Some (map ((!) elems) ?is)"
    by (rule opt_map_total) auto
  moreover have "map ((!) elems) ?is = filter P elems"
    using filter_map [of P "(!) elems" "[0..<length elems]"] by (simp add: map_nth comp_def)
  ultimately show ?thesis by (simp add: lookup_prints_def)
qed

lemma lookup_prints_common:
  "lookup_prints elems (common_indices alike (map utf8_encode elems) ys)
     = Ok (filter (\<lambda>e. list_ex (alike (utf8_encode e)) ys) elems)"
proof -
  have "common_indices alike (map utf8_encode elems) ys
      = filter (\<lambda>i. list_ex (alike (utf8_encode (elems ! i))) ys) [0..<length elems]"
    unfolding common_indices_def by (intro filter_cong) simp_all
  then show ?thesis
    using lookup_prints_filter [of elems "\<lambda>e. list_ex (alike (utf8_encode e)) ys"] by (simp only:)
qed

lemma lookup_session_run:
  fixes cr :: "('c, 'proof, 'pe, 've) crypto"
  assumes setting: "honest_setting cr frame ot (os_sk (ps_oprf srv)) pk (length elems) uid"
    and inputs: "lookup_inputs cr deserialize d set_path cert_path pk_path = Ok (elems, cert, pk)"
    and masked: "psi_mask (cr_xof cr) srv tag ys = Some masked"
    and sizes: "length elems \<le> MAX_CLIENT_SET" "length ys \<le> MAX_SERVER_SET" "length tag \<le> MAX_TAG_LEN"
  shows "live ot (Net (lookup cr deserialize frame uid d set_path cert_path pk_path)
       (cli_session cr frame srv tag masked) quiet quiet)
    (Net (Ret (Ok (filter (\<lambda>e. list_ex (masked_alike (cr_xof cr) (os_sk (ps_oprf srv)) tag (utf8_encode e)) ys) elems)))
       (Ret (Ok (length elems))) quiet quiet)"
proof -
  let ?sk = "os_sk (ps_oprf srv)" and ?xs = "map utf8_encode elems"
  have sk: "wf_key ?sk" and complete: "complete_online cr" using setting by (simp_all add: honest_setting_def)
  have masked': "mask_server_set (cr_xof cr) ?sk tag ys = Some masked" using masked by (simp add: psi_mask_def)
  obtain cl se where open_run:
    "live ot (Net (psi_client_with cr frame pk (length elems) uid) (psi_server_session cr frame srv) quiet quiet)
       (Net (Ret (Ok \<lparr> pc_oprf = cl, pc_set_size = length elems \<rparr>)) (Ret (Ok \<lparr> pss_oprf = se, pss_set_size = length elems \<rparr>)) quiet quiet)"
    and linked: "linked cr ?sk cl se" and runs: "client_remaining_runs (oc_state cl) = length ?xs * 16"
    by (rule psi_opens [OF setting refl sizes(1)]) simp
  let ?pc = "\<lparr> pc_oprf = cl, pc_set_size = length ?xs \<rparr>" and ?ps = "\<lparr> pss_oprf = se, pss_set_size = length ?xs \<rparr>"
  obtain ps' outs where inter:
    "live ot (Net (psi_intersect cr ?pc ?xs :: ('c, 'proof, 'pe, 've, nat list) psi_proc) (psi_serve cr ?ps tag ys) quiet quiet)
       (Net (Ret (Ok (intersect outs masked))) (Ret (ps', Ok ())) quiet quiet)"
    and outs: "map (evaluate (cr_xof cr) ?sk tag) ?xs = map Some outs"
    by (rule intersection_run [OF linked sk complete runs sizes(3,2) masked'])
  have serve: "psi_serve cr ?ps tag ys = serve_masked cr ?ps tag masked"
    using linked masked' by (simp add: psi_serve_def linked_def)
  have "lookup_run cr frame pk uid elems = attempt_as Session (psi_client_with cr frame pk (length elems) uid)
      (\<lambda>psi. attempt_as Session (psi_intersect cr psi ?xs) (\<lambda>found. Ret (Ok found)))"
    by (cases pk) (simp_all add: lookup_run_def psi_client_new_def psi_client_new_voprf_def)
  then have "live ot (Net (lookup_run cr frame pk uid elems) (cli_session cr frame srv tag masked) quiet quiet)
      (Net (attempt_as Session (psi_intersect cr ?pc ?xs) (\<lambda>found. Ret (Ok found)))
        (proc_bind (serve_masked cr ?ps tag masked) (\<lambda>(ps, r). attempt_as Session (Ret r) (\<lambda>_. Ret (Ok (length elems))))) quiet quiet)"
    using live_then_attempt [OF open_run, of Session "\<lambda>psi. attempt_as Session (psi_intersect cr psi ?xs) (\<lambda>found. Ret (Ok found))" Session
        "\<lambda>ps. proc_bind (serve_masked cr ps tag masked) (\<lambda>(_, r). attempt_as Session (Ret r) (\<lambda>_. Ret (Ok (pss_set_size ps))))"]
    by (simp add: cli_session_def Let_def)
  also have "live ot \<dots> (Net (Ret (Ok (intersect outs masked))) (Ret (Ok (length elems))) quiet quiet)"
    using live_then [OF inter [unfolded serve], of "\<lambda>r. case r of Ok found \<Rightarrow> Ret (Ok found) | Err e \<Rightarrow> Ret (Err (Session e)) | Panic \<Rightarrow> Ret Panic"
        "\<lambda>(ps, r). attempt_as Session (Ret r) (\<lambda>_. Ret (Ok (length elems)))"]
    by (simp add: attempt_as_def)
  finally have "live ot (Net (lookup_run cr frame pk uid elems) (cli_session cr frame srv tag masked) quiet quiet)
      (Net (Ret (Ok (common_indices (masked_alike (cr_xof cr) ?sk tag) ?xs ys))) (Ret (Ok (length elems))) quiet quiet)"
    unfolding intersect_common [OF sk masked' outs] .
  from live_then_attempt [OF this, of id "\<lambda>found. Ret (lookup_prints elems found)" id "\<lambda>n. Ret (Ok n)"] show ?thesis
    by (simp add: lookup_def inputs attempt_as_id attempt_Ok lookup_prints_common)
qed

text \<open>What \<open>serve\<close> has when it listens: the masked entries of its file, under a key.\<close>

lemma serve_inputs_OkD:
  assumes "serve_inputs xof d cert_path key_path psi_key tag set_path
    = (Ok (cert, key, srv, masked) :: (('pe, 've) cli_error, _) res)"
  obtains theirs where "read_set d set_path = (Ok theirs :: (('pe, 've) cli_error, _) res)"
    "psi_mask xof srv tag (map utf8_encode theirs) = Some masked" "wf_key (os_sk (ps_oprf srv))"
proof -
  obtain sk where sk: "read_key d psi_key = (Ok sk :: (('pe, 've) cli_error, _) res)" "srv = \<lparr> ps_oprf = \<lparr> os_sk = sk \<rparr> \<rparr>"
    and mask: "mask_set_file xof srv tag d set_path = (Ok masked :: (('pe, 've) cli_error, _) res)"
    using assms by (auto simp: serve_inputs_def res_bind_Ok_iff Let_def)
  have wf: "wf_key (os_sk (ps_oprf srv))" using read_key_wf [OF sk(1)] by (simp add: sk(2))
  from mask show ?thesis
    unfolding mask_set_file_reads [OF wf] using wf by (auto simp: res_bind_Ok_iff elim!: expect.elims intro: that)
qed

text \<open>Without collisions, what matches is what is common.\<close>

lemma matches_are_common:
  assumes "\<forall>e \<in> set elems. list_all scalar e" and "\<forall>e \<in> set theirs. list_all scalar e"
    and "\<forall>e \<in> set elems. \<forall>f \<in> set theirs. masked_alike xof sk tag (utf8_encode e) (utf8_encode f) \<longrightarrow> utf8_encode e = utf8_encode f"
  shows "filter (\<lambda>e. list_ex (masked_alike xof sk tag (utf8_encode e)) (map utf8_encode theirs)) elems
    = filter (\<lambda>e. e \<in> set theirs) elems"
proof (rule filter_cong [OF refl])
  fix e assume e: "e \<in> set elems"
  have "list_ex (masked_alike xof sk tag (utf8_encode e)) (map utf8_encode theirs) \<longleftrightarrow> utf8_encode e \<in> utf8_encode ` set theirs"
    using e assms(3) by (auto simp: list_ex_iff masked_alike_def)
  also have "\<dots> \<longleftrightarrow> e \<in> set theirs" by (rule utf8_text.encoded_in) (use e assms(1,2) in auto)
  finally show "list_ex (masked_alike xof sk tag (utf8_encode e)) (map utf8_encode theirs) \<longleftrightarrow> e \<in> set theirs" .
qed

end
