(* ===== verification/CliProperties.thy ===== *)
theory CliProperties
  imports CliFiles
begin

text \<open>The properties of the command line, each with a witness where it has hypotheses.\<close>

section \<open>A disk\<close>

text \<open>Three sets, the second line of the first between blanks and carriage returns, a key, and a file for
  everything else.\<close>

definition ex_disk :: disk where
  "ex_disk = \<lparr> d_files = [''mine'' \<mapsto> [35, 120, 10, 32, 97, 98, 32, 13, 10, 10, 99], ''theirs'' \<mapsto> [99, 10],
       ''twice'' \<mapsto> [99, 10, 99],
       ''cert'' \<mapsto> [45], ''key'' \<mapsto> as_bits ex_sk],
     d_fails = (\<lambda>_. None), d_room = (\<lambda>_. Some 1000) \<rparr>"

lemma ex_decode:
  "utf8_decode [35, 120, 10, 32, 97, 98, 32, 13, 10, 10, 99] = Some [35, 120, 10, 32, 97, 98, 32, 13, 10, 10, 99]"
  "utf8_decode [99, 10, 99] = Some [99, 10, 99]" "utf8_decode [99, 10] = Some [99, 10]" "utf8_decode [45] = Some [45]"
  by (simp_all add: utf8_decode.simps)

lemma ex_read_set:
  "read_set ex_disk ''mine'' = Ok [[97, 98], [99]]"
  "read_set ex_disk ''theirs'' = Ok [[99]]"
  "read_set ex_disk ''twice'' = Ok [[99], [99]]"
  by (simp_all add: read_set_def read_to_string_def read_file_def ex_disk_def ex_decode text_lines_def chomp_def
      List.map_filter_def entry_def trim_def white_space_def Let_def)

definition ex_deserialize :: "bytes \<Rightarrow> (ex_commitment \<times> ex_proof) option" where
  "ex_deserialize bs = (if bs = [45] then Some (commit_key ex_crypto ex_sk, ProofSetup ex_sk) else None)"

definition ex_serialize :: "ex_commitment \<times> ex_proof \<Rightarrow> bytes option" where
  "ex_serialize x = (if x = (commit_key ex_crypto ex_sk, ProofSetup ex_sk) then Some [45] else None)"

lemma ex_read_pk: "read_pk ex_crypto ex_deserialize ex_disk ''cert'' = Ok ex_pk"
  by (simp add: read_pk_def read_file_def ex_disk_def ex_deserialize_def verified_key_verify_def ex_crypto_def
      setup_holds_for_def key_holds_def ex_pk_def)

section \<open>Lookups\<close>

text \<open>
  C11: the two commands together, from file to file. When \<open>serve\<close> has read its key and masked its set, and
  \<open>lookup\<close> has read its own files, then in every interleaving of the two sessions the client ends by
  printing exactly the entries of its file that the server's file has too, in the order of its file, and
  the server has counted as many evaluations as the client has entries. Only entries that collide
  under the PRF, as bytes, are ruled out.
\<close>

theorem lookup_finds_common:
  fixes cr :: "('c, 'proof, 'pe, 've) crypto"
  assumes "serve_inputs (cr_xof cr) d' cert_path' key_path' psi_key tag set_path'
      = (Ok (cert', key', srv, masked) :: (('pe, 've) cli_error, _) res)"
    and "read_set d' set_path' = (Ok theirs :: (('pe, 've) cli_error, _) res)"
    and "lookup_inputs cr deserialize d set_path cert_path pk_path = Ok (elems, cert, pk)"
    and "honest_setting cr frame ot (os_sk (ps_oprf srv)) pk (length elems) uid"
    and "length elems \<le> MAX_CLIENT_SET" and "length theirs \<le> MAX_SERVER_SET" and "length tag \<le> MAX_TAG_LEN"
    and "\<forall>e \<in> set elems. \<forall>f \<in> set theirs. masked_alike (cr_xof cr) (os_sk (ps_oprf srv)) tag (utf8_encode e) (utf8_encode f)
      \<longrightarrow> utf8_encode e = utf8_encode f"
    and "net_steps ot j (Net (lookup cr deserialize frame uid d set_path cert_path pk_path)
       (cli_session cr frame srv tag masked) quiet quiet) m"
  shows "reach ot m (Net (Ret (Ok (filter (\<lambda>e. e \<in> set theirs) elems))) (Ret (Ok (length elems))) quiet quiet)"
proof -
  obtain theirs' where "read_set d' set_path' = (Ok theirs' :: (('pe, 've) cli_error, _) res)"
    and masked: "psi_mask (cr_xof cr) srv tag (map utf8_encode theirs') = Some masked"
    by (rule serve_inputs_OkD [OF assms(1)])
  then have theirs: "theirs' = theirs" using assms(2) by simp
  have mine: "read_set d set_path = (Ok elems :: (('pe, 've) cli_error, _) res)"
    using assms(3) by (auto simp: lookup_inputs_def res_bind_Ok_iff)
  have scalars: "\<forall>e \<in> set elems. list_all scalar e" "\<forall>e \<in> set theirs. list_all scalar e"
    using read_set_text [OF mine] read_set_text [OF assms(2)] by blast+
  have "length (map utf8_encode theirs) \<le> MAX_SERVER_SET" using assms(6) by simp
  from lookup_session_run [OF assms(4,3) masked [unfolded theirs] assms(5) this assms(7)]
  show ?thesis unfolding matches_are_common [OF scalars assms(8)]
    by (rule reach_every_schedule [OF live_reach _ assms(9)]) (simp add: net_done_def)
qed

lemma lookup_finds_common_witness:
  "\<exists>masked. reach ex_ots (Net (lookup ex_crypto ex_deserialize (\<lambda>n. n + 9) (replicate 16 7) ex_disk ''twice'' ''cert'' (Some ''cert''))
       (cli_session ex_crypto (\<lambda>n. n + 9) \<lparr> ps_oprf = \<lparr> os_sk = ex_sk \<rparr> \<rparr> [1] masked) quiet quiet)
     (Net (Ret (Ok (filter (\<lambda>e. e \<in> set [[99]]) [[99], [99]]))) (Ret (Ok (length [[99 :: nat], [99]]))) quiet quiet)"
proof -
  let ?srv = "\<lparr> ps_oprf = \<lparr> os_sk = ex_sk \<rparr> \<rparr>"
  have key: "read_key ex_disk ''key'' = Ok ex_sk" by (rule read_key_written [OF _ _ ex_wf_sk]) (simp_all add: ex_disk_def)
  have cert: "read_to_string ex_disk ''cert'' = Ok [45]" by (simp add: read_to_string_def read_file_def ex_disk_def ex_decode)
  obtain masked where "psi_mask (cr_xof ex_crypto) ?srv [1] (map utf8_encode [[99]]) = Some masked"
    using psi_mask_Some [of ?srv "cr_xof ex_crypto" "[1]"] ex_wf_sk by auto
  then have "mask_set_file (cr_xof ex_crypto) ?srv [1] ex_disk ''theirs'' = (Ok masked :: ((unit, unit) cli_error, _) res)"
    by (subst mask_set_file_reads) (simp_all add: ex_wf_sk ex_read_set del: list.map)
  then have serve: "serve_inputs (cr_xof ex_crypto) ex_disk ''cert'' ''cert'' ''key'' [1] ''theirs''
      = (Ok ([45], [45], ?srv, masked) :: ((unit, unit) cli_error, _) res)"
    by (simp add: serve_inputs_def cert key Let_def)
  have "lookup_inputs ex_crypto ex_deserialize ex_disk ''twice'' ''cert'' (Some ''cert'')
      = (Ok ([[99], [99]], [45], Some ex_pk) :: ((unit, unit) cli_error, _) res)"
    by (simp add: lookup_inputs_def ex_read_set ex_read_pk cert)
  moreover have "honest_setting ex_crypto (\<lambda>n. n + 9) ex_ots (os_sk (ps_oprf ?srv)) (Some ex_pk) (length [[99 :: nat], [99]])
      (replicate 16 7)" using ex_honest_setting by (simp add: numeral_2_eq_2)
  ultimately show ?thesis
    by (intro exI) (rule lookup_finds_common [OF serve ex_read_set(2) _ _ _ _ _ _ net_steps.none],
      simp_all add: MAX_CLIENT_SET_def MAX_SERVER_SET_def MAX_TAG_LEN_def)
qed

text \<open>
  C39: the server masks a set straight off the disk, line by line, the client reads its file whole; yet
  the masked set is that of the very entries a client would read from the file, and the server fails
  with the client's error where a client would fail: an unreadable file, one that is not UTF-8 anywhere
  in it, one that fails half-way, one without entries.
\<close>

theorem mask_set_file_is_read_set:
  assumes "wf_key (os_sk (ps_oprf srv))"
  shows "(mask_set_file xof srv tag d p :: (('pe, 've) cli_error, masked_element list) res) =
    res_bind (read_set d p) (\<lambda>elems. expect (psi_mask xof srv tag (map utf8_encode elems)))"
  by (rule mask_set_file_reads [OF assms])

lemma mask_set_file_is_read_set_witness:
  "(mask_set_file (cr_xof ex_crypto) \<lparr> ps_oprf = \<lparr> os_sk = ex_sk \<rparr> \<rparr> [1] ex_disk ''mine'' :: ((unit, unit) cli_error, masked_element list) res)
     = expect (psi_mask (cr_xof ex_crypto) \<lparr> ps_oprf = \<lparr> os_sk = ex_sk \<rparr> \<rparr> [1] (map utf8_encode [[97, 98], [99]]))"
  by (subst mask_set_file_is_read_set) (simp_all add: ex_wf_sk ex_read_set del: list.map)

section \<open>Keys\<close>

text \<open>
  C36: a key that \<open>keygen\<close> wrote is the key that \<open>serve\<close> and \<open>public-key\<close> load, and it is a key; no
  other file changes.
\<close>

theorem keygen_then_read_key:
  assumes "length drawn = par_N" and "d_files d out = None" and "d_fails d out = None"
    and "d_room d out = Some room" and "par_N \<le> room"
  shows "\<exists>d'. keygen d out drawn = (d', Ok ()) \<and> read_key d' out = Ok (random_key drawn) \<and>
    wf_key (random_key drawn) \<and> d_files d' = (d_files d)(out \<mapsto> as_bits (random_key drawn))"
proof -
  have wf: "wf_key (random_key drawn)" by (rule wf_random_key [OF assms(1)])
  then have "length (as_bits (random_key drawn)) \<le> room" using assms(5) by (simp add: wf_key_def)
  then show ?thesis
    using wf assms(2-4)
    by (intro exI [of _ "d\<lparr> d_files := (d_files d)(out \<mapsto> as_bits (random_key drawn)) \<rparr>"])
      (simp add: keygen_def write_file_def Let_def read_key_written)
qed

lemma keygen_then_read_key_witness:
  "\<exists>d'. keygen ex_disk ''new'' (replicate par_N 3) = (d', Ok ()) \<and>
    read_key d' ''new'' = Ok (random_key (replicate par_N 3)) \<and> wf_key (random_key (replicate par_N 3)) \<and>
    d_files d' = (d_files ex_disk)(''new'' \<mapsto> as_bits (random_key (replicate par_N 3)))"
  by (rule keygen_then_read_key [where room = 1000]) (simp_all add: ex_disk_def par_N_def)

text \<open>
  C37: \<open>keygen\<close> never touches a file that exists, whatever is in it, and what it leaves behind when the
  disk runs out of room half-way is not a key that loads.
\<close>

theorem keygen_never_overwrites:
  assumes "length drawn = par_N"
  shows "d_files d \<subseteq>\<^sub>m d_files (fst (keygen d out drawn)) \<and>
    (snd (keygen d out drawn) = Ok () \<or> d_files d out \<noteq> None \<or>
     (\<exists>e. read_key (fst (keygen d out drawn)) out = Err e))"
proof -
  have len: "length (as_bits (random_key drawn)) = par_N" using assms by (simp add: random_key_def)
  show ?thesis
    by (auto simp: keygen_def write_file_def Let_def map_le_def read_key_def read_file_def len min_def
        split: option.splits if_splits)
qed

lemma keygen_never_overwrites_witness:
  "d_files ex_disk \<subseteq>\<^sub>m d_files (fst (keygen ex_disk ''key'' (replicate par_N 3))) \<and>
    (snd (keygen ex_disk ''key'' (replicate par_N 3)) = Ok () \<or> d_files ex_disk ''key'' \<noteq> None \<or>
     (\<exists>e. read_key (fst (keygen ex_disk ''key'' (replicate par_N 3))) ''key'' = Err e))"
  by (rule keygen_never_overwrites) simp

text \<open>
  C38: the file that \<open>public-key\<close> writes is one that \<open>lookup\<close> accepts, and the verified key in it is the
  commitment of the server's key, given a proof system that proves what holds and a codec that decodes
  what it encoded.
\<close>

theorem public_key_then_read_pk:
  fixes cr :: "('c, 'proof, 'pe, 've) crypto"
  assumes "complete_setup cr" and "read_key d psi_key = (Ok sk :: (('pe, 've) cli_error, secret_key) res)" and "d_fails d out = None" and "d_room d out = Some room"
    and "\<forall>x. prove_setup cr (setup_for_key (commit_key cr) sk) sk = Ok x \<longrightarrow>
      (\<exists>bs. serialize (commit_key cr sk, x) = Some bs \<and> deserialize bs = Some (commit_key cr sk, x) \<and> length bs \<le> room)"
  shows "\<exists>d'. public_key cr serialize d psi_key out = (d', Ok ()) \<and>
    read_pk cr deserialize d' out = Ok (VerifiedKey (commit_key cr sk))"
proof -
  obtain x where x: "prove_setup cr (setup_for_key (commit_key cr) sk) sk = Ok x"
    "verify_setup cr (setup_for_key (commit_key cr) sk) x = Ok ()"
    using assms(1) read_key_wf [OF assms(2)] unfolding complete_setup_def by blast
  then obtain bs where bs: "serialize (commit_key cr sk, x) = Some bs" "deserialize bs = Some (commit_key cr sk, x)" "length bs \<le> room"
    using assms(5) by blast
  have "psi_public_key cr \<lparr> ps_oprf = \<lparr> os_sk = sk \<rparr> \<rparr> = Ok (commit_key cr sk, x)"
    using x(1) by (simp add: psi_public_key_def server_public_key_def voprf_setup_def setup_for_key_def Let_def)
  then have "public_key cr serialize d psi_key out = (d\<lparr> d_files := (d_files d)(out \<mapsto> bs) \<rparr>, Ok ())"
    using assms(2,4) bs(1,3) by (simp add: public_key_def write_file_def)
  moreover have "read_pk cr deserialize (d\<lparr> d_files := (d_files d)(out \<mapsto> bs) \<rparr>) out = Ok (VerifiedKey (commit_key cr sk))"
    using assms(3) bs(2) x(2) by (simp add: read_pk_def read_file_def verified_key_verify_def setup_for_key_def)
  ultimately show ?thesis by blast
qed

lemma public_key_then_read_pk_witness:
  "\<exists>d'. public_key ex_crypto ex_serialize ex_disk ''key'' ''pk'' = (d', Ok ()) \<and>
    read_pk ex_crypto ex_deserialize d' ''pk'' = Ok (VerifiedKey (commit_key ex_crypto ex_sk))"
proof (rule public_key_then_read_pk [where room = 1000])
  show "complete_setup ex_crypto"
    by (simp add: complete_setup_def ex_crypto_def setup_holds_for_def setup_for_key_def key_holds_def)
  show "read_key ex_disk ''key'' = Ok ex_sk" by (rule read_key_written [OF _ _ ex_wf_sk]) (simp_all add: ex_disk_def)
qed (auto simp: ex_disk_def ex_crypto_def ex_serialize_def ex_deserialize_def split: if_splits)

section \<open>Accepting connections\<close>

text \<open>
  C34: whatever connects and whenever sessions end, the server never runs more than \<open>max_sessions\<close>
  sessions at once, permits and running sessions always add up to it, and it refuses a connection
  exactly when \<open>max_sessions\<close> are in flight; a refusal leaves the sessions as they are.
\<close>

theorem sessions_bounded:
  assumes "serve_run timeout (serving_start max_sessions) es st"
  shows "length (sv_running st) \<le> max_sessions \<and> sv_permits st + length (sv_running st) = max_sessions \<and>
    ((\<exists>st'. serve_step timeout st (Refused peer) st') \<longleftrightarrow> length (sv_running st) = max_sessions \<and> peer = sv_accepted st) \<and>
    (serve_step timeout st (Refused peer) st' \<longleftrightarrow>
       length (sv_running st) = max_sessions \<and> peer = sv_accepted st \<and> st' = st\<lparr> sv_accepted := Suc peer \<rparr>)"
proof -
  have "serving_ok max_sessions timeout st" by (rule serve_run_ok [OF assms serving_start_ok])
  then have sum: "sv_permits st + length (sv_running st) = max_sessions" by (simp add: serving_ok_def)
  then have "sv_permits st = 0 \<longleftrightarrow> length (sv_running st) = max_sessions" by auto
  with sum show ?thesis by (auto simp: serve_step_refused accept_def Let_def)
qed

lemma ex_serve_run:
  "serve_run 60 (serving_start 1) [Admitted 0]
     \<lparr> sv_permits = 0, sv_running = [(0, 60)], sv_accepted = 1, sv_time = 0 \<rparr>"
  using serve_run.step [OF serve_run.start [of 60 "serving_start 1"] serve_step.connection]
  by (simp add: accept_def serving_start_def)

lemma sessions_bounded_witness:
  "length (sv_running \<lparr> sv_permits = 0, sv_running = [(0, 60)], sv_accepted = 1, sv_time = 0 \<rparr>) \<le> 1 \<and>
   sv_permits \<lparr> sv_permits = 0, sv_running = [(0, 60)], sv_accepted = 1, sv_time = 0 \<rparr> + length [(0 :: nat, 60 :: nat)] = 1"
  using sessions_bounded [OF ex_serve_run, of 1] by simp




end
