(* ===== verification/VerifiedSession.thy ===== *)
theory VerifiedSession
  imports VerifiedOutput SessionProperties
begin

text \<open>
  A whole session with the Plonky3 backend against any server: from the first byte of the
  preprocessing to the last batch, what a client that was never told an error has computed. The
  commitments it relies on are those of \<open>session_openings\<close>, which the events of the execution determine.
\<close>

declare of_nat_unat [simp del]

section \<open>Postconditions of any result\<close>

text \<open>As \<open>returns\<close>, for a process that returns the new value of its session with the result.\<close>

definition finishes :: "('m event \<Rightarrow> bool) \<Rightarrow> ('m, 'r) proc \<Rightarrow> ('r \<Rightarrow> bool) \<Rightarrow> bool" where
  "finishes seen p Q \<longleftrightarrow> (\<forall>es r. list_all seen es \<longrightarrow> after p es = Some (Ret r) \<longrightarrow> Q r)"

lemma finishesD: "finishes seen p Q \<Longrightarrow> list_all seen es \<Longrightarrow> after p es = Some (Ret r) \<Longrightarrow> Q r"
  by (simp add: finishes_def)

lemma finishes_Ret: "Q r \<Longrightarrow> finishes seen (Ret r) Q"
  by (auto simp: finishes_def dest: after_Ret)

lemma finishes_bind:
  assumes "finishes seen p R" and "\<And>r. R r \<Longrightarrow> finishes seen (f r) Q"
  shows "finishes seen (proc_bind p f) Q"
  unfolding finishes_def
proof (intro allI impI)
  fix es r assume seen: "list_all seen es" and run: "after (proc_bind p f) es = Some (Ret r)"
  from after_bind_RetD [OF run] obtain es1 es2 a where parts: "es = es1 @ es2"
    "after p es1 = Some (Ret a)" "after (f a) es2 = Some (Ret r)" by blast
  then show "Q r"
    using seen finishesD [OF assms(2) [OF finishesD [OF assms(1) _ parts(2)]] _ parts(3)] by simp
qed

lemma finishes_returns: "finishes seen p (\<lambda>r. \<forall>a. r = Ok a \<longrightarrow> Q a) \<longleftrightarrow> returns seen p Q"
  unfolding finishes_def returns_def by blast

lemma returns_attempt_as:
  assumes "returns seen p R" and "\<And>a. R a \<Longrightarrow> returns seen (f a) Q"
  shows "returns seen (attempt_as g p f) Q"
  unfolding attempt_as_def finishes_returns [symmetric]
proof (rule finishes_bind)
  show "finishes seen p (\<lambda>r. \<forall>a. r = Ok a \<longrightarrow> R a)" using assms(1) by (simp add: finishes_returns)
  show "finishes seen (case r of Ok a \<Rightarrow> f a | Err e \<Rightarrow> Ret (Err (g e)) | Panic \<Rightarrow> Ret Panic) (\<lambda>r. \<forall>a. r = Ok a \<longrightarrow> Q a)"
    if "\<forall>a. r = Ok a \<longrightarrow> R a" for r
    using that assms(2) by (cases r) (auto simp: finishes_returns intro!: returns_Ret)
qed

section \<open>The openings of a session\<close>

text \<open>
  The commitments of which an event gives the client an opening: of the blocks that its OTs gave it, the
  masks and the pads it derives from them; of a proof that verifies, those in the table behind it.
\<close>

fun event_openings ::
  "'f :: idom backend \<Rightarrow> ('f, 'proof) extractor \<Rightarrow> ('f digest, 'proof, 'pe, 've) crypto \<Rightarrow> nat
     \<Rightarrow> ('f digest, 'proof) pmsg event \<Rightarrow> (domain \<times> 'f list) set" where
  "event_openings be table cr tau (EOtSend conn n (Some pairs)) =
     (\<Union>v < evaluations_for tau. \<Union>b \<in> fst ` set pairs \<union> snd ` set pairs.
        {(Masks, masks_elements (expand (cr_xof cr) b (16 * v)) (randomness b))})"
| "event_openings be table cr tau (EOtRecv conn n (Some out)) =
     {(Pad, pad_elements r (randomness b)) | r b blocks choices.
        delta_ot_receive (cr_hash cr) (cr_base_ot_count cr) (\<lambda>_. Ok out) tau
          = (Ok (blocks, choices) :: (('pe, 've) preproc_error, _) res) \<and>
        b \<in> set blocks \<and> r_prime_from_block b = Some r}"
| "event_openings be table cr tau (ERecv ch (Msg (MProof message))) =
     (\<Union>st \<in> {st. verify_preprocessing cr st (pp_proof message) = Ok ()}.
        pre_openings be (preprocessing_table be table st (pp_proof message)))"
| "event_openings be table cr tau (ERecv ch (Msg (MResponse rep))) =
     (\<Union>p \<in> set (rep_proofs rep). \<Union>st \<in> {st. verify_online_st cr st p = Ok ()}.
        online_openings be (online_table_of be table st p))"
| "event_openings be table cr tau _ = {}"

definition session_openings ::
  "'f :: idom backend \<Rightarrow> ('f, 'proof) extractor \<Rightarrow> ('f digest, 'proof, 'pe, 've) crypto \<Rightarrow> nat
     \<Rightarrow> ('f digest, 'proof) pmsg event list \<Rightarrow> (domain \<times> 'f list) set" where
  "session_openings be table cr tau es = (\<Union>e \<in> set es. event_openings be table cr tau e)"

text \<open>Events of which both are known: the shapes of their messages, and that \<open>X\<close> has their openings.\<close>

definition opened_in ::
  "'f :: idom backend \<Rightarrow> ('f, 'proof) extractor \<Rightarrow> ('f digest, 'proof, 'pe, 've) crypto \<Rightarrow> nat
     \<Rightarrow> (domain \<times> 'f list) set \<Rightarrow> ('f digest, 'proof) pmsg event \<Rightarrow> bool" where
  "opened_in be table cr tau X e \<longleftrightarrow>
     event_ok (\<lambda>d. length d = DIGEST_ELEMENTS) e \<and> event_openings be table cr tau e \<subseteq> X"

section \<open>After the preprocessing\<close>

text \<open>What stays true of the client from batch to batch.\<close>

definition proven ::
  "'f :: idom backend \<Rightarrow> ('f, 'proof) extractor \<Rightarrow> ('f digest, 'proof, 'pe, 've) crypto
     \<Rightarrow> (domain \<times> 'f list) set \<Rightarrow> secret_key \<Rightarrow> 'f digest client_state \<Rightarrow> bool" where
  "proven be table cr X sk cs \<longleftrightarrow> (\<exists>cv blocks p. checked_preprocessing cr cs cv blocks p \<and> wf_digests cv \<and>
     committed_key be table cr cs cv p = sk \<and> own_openings (cr_xof cr) cs cv blocks \<subseteq> X \<and>
     pre_openings be (preprocessing_table be table (checked_statement cr cs cv) p) \<subseteq> X)"

lemma proven_spend:
  assumes "proven be table cr X sk cs" and "wf_client (client_spend n cs)"
  shows "proven be table cr X sk (client_spend n cs)"
proof -
  obtain cv blocks p where check: "checked_preprocessing cr cs cv blocks p"
    and rest: "wf_digests cv" "committed_key be table cr cs cv p = sk" "own_openings (cr_xof cr) cs cv blocks \<subseteq> X"
      "pre_openings be (preprocessing_table be table (checked_statement cr cs cv) p) \<subseteq> X"
    using assms(1) unfolding proven_def by blast
  note spend = checked_preprocessing_spend [OF check assms(2)]
  show ?thesis unfolding proven_def committed_key_def
    by (intro exI conjI, rule spend(1), rule rest(1)) (use rest in \<open>simp_all add: spend committed_key_def\<close>)
qed

lemma proven_request:
  assumes "proven be table cr X sk cs"
  shows "proven be table cr X sk (fst (request_batch xof cs tag xs))"
proof -
  have wf: "wf_client cs" using assms by (auto simp: proven_def checked_preprocessing_def)
  have spent: "\<exists>n. fst (request_batch xof cs tag xs) = client_spend n cs"
    using request_batch_outcome [OF wf, of xof tag xs] client_spend_0 [of cs] by (metis fst_conv)
  moreover have "wf_client (fst (request_batch xof cs tag xs))" by (rule request_batch_wf [OF wf])
  ultimately show ?thesis using proven_spend [OF assms] by metis
qed

text \<open>The state that \<open>preproc_client_voprf\<close> returns, under a key that its proof determines.\<close>

lemma received_blocks_opened:
  fixes cr :: "('f :: idom digest, 'proof, 'pe, 've) crypto"
  assumes "received_blocks cr seen tau blocks choices" and "\<And>e. seen e \<Longrightarrow> opened_in be table cr tau X e"
    and "b \<in> set blocks" and "r_prime_from_block b = Some r"
  shows "(Pad, pad_elements r (randomness b)) \<in> X"
proof -
  obtain n out where out: "seen (EOtRecv DeltaOt n (Some out))"
    "delta_ot_receive (cr_hash cr) (cr_base_ot_count cr) (\<lambda>_. Ok out) tau
       = (Ok (blocks, choices) :: (('pe, 've) preproc_error, _) res)"
    using assms(1) unfolding received_blocks_def by (elim exE conjE) (rule that)
  from assms(2) [OF out(1)] out(2) assms(3,4) show ?thesis by (auto simp: opened_in_def)
qed

lemma client_checked_proven:
  fixes be :: "'f :: idom backend" and stark :: "('f, 'proof, 'pe, 've) stark"
  assumes cr: "cr = plonky3_crypto be stark xof blake3 count"
    and crates: "baby_bear TYPE('f)" "backend_ok be" "stark_extracts stark table"
    and pk: "length (verified_pk pk) = DIGEST_ELEMENTS"
    and events: "\<And>e. seen e \<Longrightarrow> opened_in be table cr tau X e" and bind: "binding be X"
    and checked: "client_checked cr (\<lambda>d. length d = DIGEST_ELEMENTS) seen pk tau uid cs"
  shows "\<exists>sk. wf_key sk \<and> key_commit be sk = verified_pk pk \<and> proven be table cr X sk cs"
proof -
  obtain cv blocks choices message n pairs where
    check: "checked_preprocessing cr cs cv blocks (pp_proof message)" and key: "cv_pk cv = pk"
    and digests: "\<forall>m \<in> set (cv_m cv). length m = DIGEST_ELEMENTS" "\<forall>d \<in> set (cv_d cv). \<forall>x \<in> set d. length x = DIGEST_ELEMENTS"
    and message: "seen (ERecv ProofChan (Msg (MProof message)))" and blocks: "received_blocks cr seen tau blocks choices"
    and pairs: "seen (EOtSend BinaryOt n (Some pairs))" "cs_ot_blocks cs = take par_N pairs"
    and runs: "cs_runs cs = runs_new tau"
    using checked unfolding client_checked_def by (elim exE conjE) (rule that)
  let ?sk = "committed_key be table cr cs cv (pp_proof message)"
  have wf: "wf_client cs" and voprf: "cs_voprf cs = Some cv" using check by (simp_all add: checked_preprocessing_def)
  have tau: "length (cs_r_c cs) = tau" using wf runs by (simp add: wf_client_def runs_new_def)
  have lens: "length (cv_m cv) = evaluations_for tau" "length (cv_d cv) \<le> tau" "par_N \<le> length pairs"
    using wf voprf pairs(2) tau by (auto simp: wf_client_def evaluations_for_def)
  have received: "length blocks = tau"
    using wf_received_blocks [OF blocks, of "\<lambda>d. length d = DIGEST_ELEMENTS"] events
    by (auto simp: wf_received_def opened_in_def)
  have own: "own_openings (cr_xof cr) cs cv blocks \<subseteq> X"
  proof -
    have "(Masks, masks_elements (expand (cr_xof cr) b (16 * v)) (randomness b)) \<in> X"
      if "i < par_N" "v < length (cv_m cv)" "b = fst (cs_ot_blocks cs ! i) \<or> b = snd (cs_ot_blocks cs ! i)" for i v b
    proof -
      have "pairs ! i \<in> set pairs" using that(1) lens(3) by simp
      then have "b \<in> fst ` set pairs \<union> snd ` set pairs" using that(1,3) by (auto simp: pairs(2))
      moreover have "event_openings be table cr tau (EOtSend BinaryOt n (Some pairs)) \<subseteq> X"
        using events [OF pairs(1)] by (simp only: opened_in_def)
      ultimately show ?thesis using that(2) lens(1) by auto
    qed
    moreover have "(Pad, pad_elements (rc_r_prime (cs_r_c cs ! j)) (randomness (blocks ! j))) \<in> X"
      if "j < length (cv_d cv)" for j
    proof (rule received_blocks_opened [OF blocks events])
      show "blocks ! j \<in> set blocks" using that lens(2) received by simp
      show "r_prime_from_block (blocks ! j) = Some (rc_r_prime (cs_r_c cs ! j))"
        using check that by (simp add: checked_preprocessing_def)
    qed
    ultimately show ?thesis by (auto simp: own_openings_def)
  qed
  have "verify_preprocessing cr (checked_statement cr cs cv) (pp_proof message) = Ok ()"
    using check by (simp add: checked_preprocessing_def)
  then have pre: "pre_openings be (preprocessing_table be table (checked_statement cr cs cv) (pp_proof message)) \<subseteq> X"
    using events [OF message] by (auto simp: opened_in_def)
  have wfd: "wf_digests cv" using digests pk key by (simp add: wf_digests_def)
  have "pre_relation be X (checked_statement cr cs cv) ?sk"
    unfolding cr by (rule committed_relation [OF crates]) (use check wfd bind pre in \<open>simp_all add: cr\<close>)
  then have "wf_key ?sk" "key_commit be ?sk = verified_pk pk"
    by (simp_all add: pre_relation_def checked_statement_def client_statement_def key)
  with check wfd own pre show ?thesis by (auto simp: proven_def)
qed

section \<open>Batch by batch\<close>

lemma proven_batch:
  fixes be :: "'f :: idom backend" and stark :: "('f, 'proof, 'pe, 've) stark"
  assumes cr: "cr = plonky3_crypto be stark xof blake3 count"
    and crates: "baby_bear TYPE('f)" "backend_ok be" "stark_extracts stark table"
    and bind: "binding be X" and proven: "proven be table cr X sk cs"
    and request: "request_batch xof cs tag xs = (cs', Ok (req, fin))"
    and rep: "opened_in be table cr tau X (ERecv OnlineChan (Msg (MResponse rep)))"
    and ok: "finalize_batch cr fin rep = Ok outs"
  shows "map (evaluate xof sk tag) xs = map Some outs"
proof -
  obtain cv blocks p where check: "checked_preprocessing cr cs cv blocks p" and digests: "wf_digests cv"
    and sk: "committed_key be table cr cs cv p = sk" and own: "own_openings (cr_xof cr) cs cv blocks \<subseteq> X"
    and pre: "pre_openings be (preprocessing_table be table (checked_statement cr cs cv) p) \<subseteq> X"
    using proven unfolding proven_def by blast
  have wf: "wf_client cs" and cv: "cs_voprf cs = Some cv" using check by (simp_all add: checked_preprocessing_def)
  have rows: "\<forall>row \<in> set (rep_rows rep). length (resp_y row) = 16" using rep by (simp add: opened_in_def)
  obtain rss fss sts where fin: "fin = \<lparr> fs_uid = cs_uid cs, fs_rows = concat fss, fs_voprf = Some sts \<rparr>"
    "length fss = length xs" "length sts = length xs"
    and block: "\<And>v. v < length xs \<Longrightarrow> request_block_ok xof cs (client_spent cs + 16 * v)
        (hash_to_zq_matrix xof tag (xs ! v)) (rss ! v) (fss ! v)"
    by (rule request_batch_OkD [OF request wf]) (use cv in auto)
  have fss: "length f = 16" if "f \<in> set fss" for f
    using that block fin(2) by (auto simp: in_set_conv_nth request_block_ok_def)
  note D = finalize_batch_OkD [OF ok, of fss sts, OF _ _ fss]
  have "response_openings be table fin rep \<subseteq> X"
  proof -
    have "online_openings be (online_table_of be table ((sts ! v)\<lparr> os_runs :=
        set_ys (os_runs (sts ! v)) (chunks_exact 16 (rep_rows rep) ! v) \<rparr>) (rep_proofs rep ! v)) \<subseteq> X" if v: "v < length sts" for v
    proof -
      have "rep_proofs rep ! v \<in> set (rep_proofs rep)" using D(6) v fin by simp
      moreover have "verify_online_st cr ((sts ! v)\<lparr> os_runs :=
          set_ys (os_runs (sts ! v)) (chunks_exact 16 (rep_rows rep) ! v) \<rparr>) (rep_proofs rep ! v) = Ok ()"
        using D(4) v fin by (simp add: verify_online_def)
      ultimately show ?thesis using rep by (auto simp: opened_in_def)
    qed
    then show ?thesis by (auto simp: response_openings_def fin(1) Let_def)
  qed
  then have "binding be (verified_openings be table cr cs cv blocks p fin rep)"
    using own pre by (intro binding_mono [OF bind]) (simp add: verified_openings_def)
  from verified_batch [OF cr crates check digests request rows ok this] show ?thesis by (simp only: sk)
qed

end
