(* ===== verification/VerifiedRuns.thy ===== *)
theory VerifiedRuns
  imports VerifiedSession CliFiles
begin

text \<open>
  Sessions, set intersections and lookups of a client with the Plonky3 backend against any server: what
  a run that ended in \<open>Ok\<close> has computed, put together from the preprocessing and the batches of
  \<open>VerifiedSession\<close>.
\<close>

declare of_nat_unat [simp del]

section \<open>Runs whose openings are known\<close>

definition sound_run ::
  "'f :: idom backend \<Rightarrow> ('f, 'proof, 'e, 'v) stark \<Rightarrow> ('f, 'proof) extractor
     \<Rightarrow> ('f digest, 'proof, 'e prove_error, 'v verify_error) crypto
     \<Rightarrow> nat \<Rightarrow> (domain \<times> 'f list) set \<Rightarrow> (('f digest, 'proof) pmsg event \<Rightarrow> bool) \<Rightarrow> bool" where
  "sound_run be stark table cr tau X seen \<longleftrightarrow> (\<exists>xof blake3 count. cr = plonky3_crypto be stark xof blake3 count) \<and>
     baby_bear TYPE('f) \<and> backend_ok be \<and> stark_extracts stark table \<and> binding be X \<and>
     (\<forall>e. seen e \<longrightarrow> opened_in be table cr tau X e)"

lemma sound_runI:
  fixes be :: "'f :: idom backend" and stark :: "('f, 'proof, 'e, 'v) stark"
  assumes "cr = plonky3_crypto be stark xof blake3 count" and "baby_bear TYPE('f)" and "backend_ok be"
    and "stark_extracts stark table" and "list_all (event_ok (\<lambda>d. length d = DIGEST_ELEMENTS)) es"
    and "binding be (session_openings be table cr tau es)"
  shows "sound_run be stark table cr tau (session_openings be table cr tau es) (\<lambda>e. e \<in> set es)"
  using assms by (auto simp: sound_run_def opened_in_def session_openings_def list_all_iff)

lemma plonky3_crypto_xof: "cr = plonky3_crypto be stark xof blake3 count \<Longrightarrow> cr_xof cr = xof"
  by (simp add: plonky3_crypto_def)

text \<open>The session and the result of an operation, as it is bound.\<close>

lemma finishes_bind_pair:
  assumes "finishes seen p (\<lambda>(cl, r). A cl \<and> (\<forall>a. r = Ok a \<longrightarrow> B a))"
    and "\<And>cl r. A cl \<Longrightarrow> (\<And>a. r = Ok a \<Longrightarrow> B a) \<Longrightarrow> finishes seen (f (cl, r)) Q"
  shows "finishes seen (proc_bind p f) Q"
  by (rule finishes_bind [OF assms(1)]) (use assms(2) in auto)

section \<open>Batches\<close>

lemma returns_exchange: "returns seen (exchange req) (\<lambda>rep. seen (ERecv OnlineChan (Msg (MResponse rep))))"
  unfolding exchange_def recv_msg_def
  by (rule returns_then, rule returns_call) (auto intro!: returns_Ret split: incoming.splits elim!: ok_or.elims response_of.elims)

lemma finishes_evaluate_batch:
  fixes be :: "'f :: idom backend"
  assumes run: "sound_run be stark table cr tau X seen" and proven: "proven be table cr X sk (oc_state cl)"
  shows "finishes seen (evaluate_batch cr cl tag xs) (\<lambda>(cl', r). proven be table cr X sk (oc_state cl') \<and>
     (\<forall>outs. r = Ok outs \<longrightarrow> map (evaluate (cr_xof cr) sk tag) xs = map Some outs))"
proof (cases "request_batch (cr_xof cr) (oc_state cl) tag xs")
  case (Pair cs' r)
  have kept: "proven be table cr X sk cs'" using proven_request [OF proven, of "cr_xof cr" tag xs] by (simp add: Pair)
  show ?thesis
  proof (cases r)
    case (Ok ans)
    obtain req fin where ans: "ans = (req, fin)" by (cases ans)
    have request: "request_batch (cr_xof cr) (oc_state cl) tag xs = (cs', Ok (req, fin))" by (simp add: Pair Ok ans)
    have batch: "map (evaluate (cr_xof cr) sk tag) xs = map Some outs"
      if rep: "seen (ERecv OnlineChan (Msg (MResponse rep)))" and ok: "finalize_batch cr fin rep = Ok outs" for rep outs
    proof -
      obtain xof blake3 count where cr: "cr = plonky3_crypto be stark xof blake3 count"
        and crates: "baby_bear TYPE('f)" "backend_ok be" "stark_extracts stark table" and bind: "binding be X"
        and open_rep: "opened_in be table cr tau X (ERecv OnlineChan (Msg (MResponse rep)))"
        using run rep unfolding sound_run_def by blast
      show ?thesis unfolding plonky3_crypto_xof [OF cr]
        by (rule proven_batch [OF cr crates bind proven _ open_rep ok])
          (use request in \<open>simp only: plonky3_crypto_xof [OF cr]\<close>)
    qed
    show ?thesis
      unfolding evaluate_batch_def Let_def Pair prod.case Ok ans res.case
      by (rule finishes_bind [OF iffD2 [OF finishes_returns returns_exchange]])
        (use kept batch in \<open>auto intro!: finishes_Ret simp: map_err_Ok_iff split: res.split\<close>)
  qed (use kept in \<open>simp_all add: evaluate_batch_def Pair finishes_Ret\<close>)
qed

section \<open>Sessions\<close>

lemma returns_proven_client:
  fixes be :: "'f :: idom backend"
  assumes run: "sound_run be stark table cr tau X seen" and tau: "tau_for evaluations = Some tau"
    and pk: "length (verified_pk pk) = DIGEST_ELEMENTS"
  shows "returns seen (oprf_client_new_voprf cr frame pk evaluations uid)
    (\<lambda>cl. \<exists>sk. wf_key sk \<and> key_commit be sk = verified_pk pk \<and> proven be table cr X sk (oc_state cl))"
proof -
  obtain xof blake3 count where cr: "cr = plonky3_crypto be stark xof blake3 count"
    and crates: "baby_bear TYPE('f)" "backend_ok be" "stark_extracts stark table" and bind: "binding be X"
    and events: "\<And>e. seen e \<Longrightarrow> opened_in be table cr tau X e"
    using run unfolding sound_run_def by blast
  have "event_ok (\<lambda>d. length d = DIGEST_ELEMENTS) e" if "seen e" for e using events [OF that] by (simp add: opened_in_def)
  then have "returns seen (preproc_client_voprf cr frame pk tau uid)
      (client_checked cr (\<lambda>d. length d = DIGEST_ELEMENTS) seen pk tau uid)"
    unfolding preproc_client_voprf_def by (rule returns_preproc_client)
  then have "returns seen (preproc_client_voprf cr frame pk tau uid)
      (\<lambda>cs. \<exists>sk. wf_key sk \<and> key_commit be sk = verified_pk pk \<and> proven be table cr X sk cs)"
    by (rule returns_weaken) (rule client_checked_proven [OF cr crates pk events bind])
  then show ?thesis
    unfolding oprf_client_new_voprf_def tau expect.simps attempt_Ret
    by (rule returns_attempt_as, intro returns_attempt_as [OF returns_any] returns_Ret) auto
qed

lemma finishes_run_calls:
  fixes be :: "'f :: idom backend"
  assumes run: "sound_run be stark table cr tau X seen" and "proven be table cr X sk (oc_state cl)"
  shows "finishes seen (run_calls cr cl calls) (\<lambda>(cl', r). \<forall>outss. r = Ok outss \<longrightarrow> outputs_of (cr_xof cr) sk calls outss)"
  using assms(2)
proof (induction calls arbitrary: cl)
  case (Cons call calls)
  show ?case
    unfolding run_calls.simps
  proof (rule finishes_bind_pair [OF finishes_evaluate_batch [OF run Cons.prems]], unfold prod.case, goal_cases)
    case (1 cl' r)
    show ?case
    proof (cases r)
      case (Ok outs)
      show ?thesis
        unfolding Ok res.case
        by (rule finishes_bind [OF Cons.IH [OF 1(1)]])
          (use 1(2) [OF Ok] in \<open>auto intro!: finishes_Ret simp: outputs_of_def res_bind_Ok_iff case_prod_unfold\<close>)
    qed (simp_all add: finishes_Ret)
  qed
qed (simp add: finishes_Ret outputs_of_def)

text \<open>A session whose every call was answered.\<close>

lemma returns_session_client:
  fixes be :: "'f :: idom backend"
  assumes run: "sound_run be stark table cr tau X seen" and tau: "tau_for evaluations = Some tau"
    and pk: "length (verified_pk pk) = DIGEST_ELEMENTS"
  shows "returns seen (session_client cr frame (Some pk) evaluations uid calls)
    (\<lambda>outss. \<exists>sk. wf_key sk \<and> key_commit be sk = verified_pk pk \<and> outputs_of (cr_xof cr) sk calls outss)"
  unfolding session_client_def oprf_client_with_def option.case
proof (rule returns_attempt_as [OF returns_proven_client [OF assms]], elim exE conjE)
  fix cl :: "'f digest oprf_client" and sk
  assume sk: "wf_key sk" "key_commit be sk = verified_pk pk" and cl: "proven be table cr X sk (oc_state cl)"
  show "returns seen (proc_bind (run_calls cr cl calls) (\<lambda>(cl, r). Ret r))
    (\<lambda>outss. \<exists>sk. wf_key sk \<and> key_commit be sk = verified_pk pk \<and> outputs_of (cr_xof cr) sk calls outss)"
    unfolding finishes_returns [symmetric]
    by (rule finishes_bind [OF finishes_run_calls [OF run cl]]) (use sk in \<open>auto intro!: finishes_Ret\<close>)
qed

section \<open>Set intersections\<close>

lemma returns_evaluate_chunks:
  fixes be :: "'f :: idom backend"
  assumes run: "sound_run be stark table cr tau X seen" and "proven be table cr X sk (oc_state cl)"
  shows "returns seen (evaluate_chunks cr cl tag outs batches)
    (\<lambda>all. \<exists>new. all = outs @ new \<and> map (evaluate (cr_xof cr) sk tag) (concat batches) = map Some new)"
  using assms(2)
proof (induction batches arbitrary: cl outs)
  case (Cons batch batches)
  show ?case
    unfolding evaluate_chunks.simps finishes_returns [symmetric]
  proof (rule finishes_bind_pair [OF finishes_evaluate_batch [OF run Cons.prems]], unfold prod.case finishes_returns, goal_cases)
    case (1 cl' r)
    show ?case
    proof (rule returns_attempt_as [OF returns_Ret [OF 1(2)]], assumption, goal_cases)
      case (1 new)
      then show ?case by (intro returns_weaken [OF Cons.IH [OF \<open>proven be table cr X sk (oc_state cl')\<close>]]) auto
    qed
  qed
qed (simp, rule returns_Ret, simp)

text \<open>The set that the server sent, and what the client found in it.\<close>

definition listed :: "xof \<Rightarrow> secret_key \<Rightarrow> masked_server_set \<Rightarrow> bytes \<Rightarrow> bool" where
  "listed xof sk masked x \<longleftrightarrow> (case evaluate xof sk (ms_tag masked) x of
     None \<Rightarrow> False | Some out \<Rightarrow> elements out \<in> set (ms_elements masked))"

lemma intersect_listed:
  assumes "map (evaluate xof sk (ms_tag masked)) elems = map Some outs"
  shows "intersect outs (ms_elements masked) = filter (\<lambda>i. listed xof sk masked (elems ! i)) [0..<length elems]"
proof -
  have len: "length elems = length outs" using assms by (metis length_map)
  have "evaluate xof sk (ms_tag masked) (elems ! i) = Some (outs ! i)" if "i < length outs" for i
    using that len assms by (metis nth_map)
  then show ?thesis unfolding listed_def intersect_filter len by (intro filter_cong) auto
qed

lemma returns_psi_intersect:
  fixes be :: "'f :: idom backend"
  assumes run: "sound_run be stark table cr tau X seen" and proven: "proven be table cr X sk (oc_state (pc_oprf pc))"
  shows "returns seen (psi_intersect cr pc elems)
    (\<lambda>found. \<exists>masked. seen (ERecv PsiChan (Msg (MSet masked))) \<and> 
      found = filter (\<lambda>i. listed (cr_xof cr) sk masked (elems ! i)) [0..<length elems])"
  unfolding psi_intersect_def
proof (rule returns_if_Err, rule returns_attempt)
  show "returns seen recv_set (\<lambda>masked. seen (ERecv PsiChan (Msg (MSet masked))))"
    unfolding recv_set_def recv_msg_def
    by (rule returns_call) (auto intro!: returns_Ret split: incoming.splits elim!: ok_or.elims masked_set_of.elims)
  fix masked assume masked: "seen (ERecv PsiChan (Msg (MSet masked)))"
  show "returns seen (if MAX_SERVER_SET < length (ms_elements masked)
       then Ret (Err (ServerSetTooLarge (length (ms_elements masked)) MAX_SERVER_SET))
       else attempt (evaluate_chunks cr (pc_oprf pc) (ms_tag masked) [] (chunks (client_max_batch (pc_oprf pc)) elems))
         (\<lambda>outputs. Ret (Ok (intersect outputs (ms_elements masked)))))
    (\<lambda>found. \<exists>masked. seen (ERecv PsiChan (Msg (MSet masked))) \<and> 
      found = filter (\<lambda>i. listed (cr_xof cr) sk masked (elems ! i)) [0..<length elems])"
    by (rule returns_if_Err, rule returns_attempt [OF returns_evaluate_chunks [OF run proven]], rule returns_Ret)
      (use masked in \<open>auto simp: concat_chunks [OF client_max_batch_pos] intersect_listed\<close>)
qed

lemma returns_psi_client:
  fixes be :: "'f :: idom backend"
  assumes run: "sound_run be stark table cr (16 * n) X seen" and pk: "length (verified_pk pk) = DIGEST_ELEMENTS"
  shows "returns seen (psi_client_new_voprf cr frame pk n uid)
    (\<lambda>pc. \<exists>sk. wf_key sk \<and> key_commit be sk = verified_pk pk \<and> proven be table cr X sk (oc_state (pc_oprf pc)))"
proof (cases "MAX_CLIENT_SET < n")
  case False
  then have tau: "tau_for n = Some (16 * n)" by (simp add: tau_for_def USIZE_MAX_def MAX_CLIENT_SET_def)
  show ?thesis
    unfolding psi_client_new_voprf_def psi_client_with_def option.case
    by (rule returns_if_Err, rule returns_if_Err, rule returns_then, rule returns_then,
        rule returns_attempt_as [OF returns_proven_client [OF run tau pk]], rule returns_Ret) auto
qed (auto simp: psi_client_new_voprf_def psi_client_with_def intro: returns_Err)

section \<open>Lookups\<close>

text \<open>What \<open>lookup\<close> prints, under a verified key.\<close>

lemma returns_lookup:
  fixes be :: "'f :: idom backend"
  assumes inputs: "lookup_inputs cr deserialize d set_path cert_path pk_path = Ok (elems, cert, Some pk)"
    and run: "sound_run be stark table cr (16 * length elems) X seen" and pk: "length (verified_pk pk) = DIGEST_ELEMENTS"
  shows "returns seen (lookup cr deserialize frame uid d set_path cert_path pk_path)
    (\<lambda>printed. \<exists>sk masked. wf_key sk \<and> key_commit be sk = verified_pk pk \<and> seen (ERecv PsiChan (Msg (MSet masked))) \<and>
       printed = filter (\<lambda>e. listed (cr_xof cr) sk masked (utf8_encode e)) elems)"
  unfolding lookup_def inputs attempt_Ret prod.case
proof (rule returns_attempt)
  let ?found = "\<lambda>sk masked. filter (\<lambda>i. listed (cr_xof cr) sk masked (utf8_encode (elems ! i))) [0..<length elems]"
  show "returns seen (lookup_run cr frame (Some pk) uid elems)
    (\<lambda>found. \<exists>sk masked. wf_key sk \<and> key_commit be sk = verified_pk pk \<and> seen (ERecv PsiChan (Msg (MSet masked))) \<and>
       found = ?found sk masked)"
    unfolding lookup_run_def option.case
  proof (rule returns_attempt_as [OF returns_psi_client [OF run pk]], elim exE conjE)
    fix pc :: "'f digest psi_client" and sk
    assume sk: "wf_key sk" "key_commit be sk = verified_pk pk" and pc: "proven be table cr X sk (oc_state (pc_oprf pc))"
    have same: "?found sk masked = filter (\<lambda>i. listed (cr_xof cr) sk masked (map utf8_encode elems ! i)) [0..<length (map utf8_encode elems)]"
      for masked by (intro filter_cong) simp_all
    show "returns seen (attempt_as Session (psi_intersect cr pc (map utf8_encode elems)) (\<lambda>found. Ret (Ok found)))
      (\<lambda>found. \<exists>sk masked. wf_key sk \<and> key_commit be sk = verified_pk pk \<and> seen (ERecv PsiChan (Msg (MSet masked))) \<and>
         found = ?found sk masked)"
    proof (rule returns_attempt_as [OF returns_psi_intersect [OF run pc]], rule returns_Ret, elim exE conjE, goal_cases)
      case (1 found r masked)
      then have "r = ?found sk masked" unfolding same by simp
      with 1 sk show ?case by blast
    qed
  qed
next
  fix found assume "\<exists>sk masked. wf_key sk \<and> key_commit be sk = verified_pk pk \<and> seen (ERecv PsiChan (Msg (MSet masked))) \<and>
       found = filter (\<lambda>i. listed (cr_xof cr) sk masked (utf8_encode (elems ! i))) [0..<length elems]"
  then obtain sk masked where ans: "wf_key sk" "key_commit be sk = verified_pk pk" "seen (ERecv PsiChan (Msg (MSet masked)))"
    and found: "found = filter (\<lambda>i. listed (cr_xof cr) sk masked (utf8_encode (elems ! i))) [0..<length elems]" by blast
  show "returns seen (Ret (lookup_prints elems found))
    (\<lambda>printed. \<exists>sk masked. wf_key sk \<and> key_commit be sk = verified_pk pk \<and> seen (ERecv PsiChan (Msg (MSet masked))) \<and>
       printed = filter (\<lambda>e. listed (cr_xof cr) sk masked (utf8_encode e)) elems)"
    unfolding found lookup_prints_filter [of elems "\<lambda>e. listed (cr_xof cr) sk masked (utf8_encode e)"]
    by (rule returns_Ret) (use ans in blast)
qed

end
