(* ===== verification/IdealSession.thy ===== *)
theory IdealSession
  imports IdealRun VerifiedRuns
begin

text \<open>
  An execution of the client with the concrete Plonky3 backend of \<open>IdealBackend\<close>, from the first byte of
  the preprocessing to the answer of a batch, in which every opening it is given is one of the few of
  \<open>ideal_openings\<close>.
\<close>

declare of_nat_unat [simp del]

abbreviation "ideal_seen \<equiv> opened_in ideal_backend ideal_table ideal_crypto 32 ideal_openings"
abbreviation "ideal_pk \<equiv> VerifiedKey (commit_key ideal_crypto ex_sk)"

section \<open>What the OTs give\<close>

definition ideal_pairs :: "(block \<times> block) list" where
  "ideal_pairs = replicate 512 (ex_block, ex_block)"

definition ideal_received :: "block list \<times> bool list" where
  "ideal_received = (concat (replicate 32 (replicate 4 ex_block)), concat (replicate 32 [True, True, False, False]))"

lemma ideal_receive:
  "delta_ot_receive (cr_hash ideal_crypto) (cr_base_ot_count ideal_crypto) (\<lambda>_. Ok ideal_received) 32
     = (Ok (ideal_blocks, replicate 32 3) :: ('e, _) res)"
proof -
  have chunks: "chunks_exact 4 (concat (replicate 32 xs)) = replicate 32 xs" if "length xs = 4" for xs :: "'x list"
    using chunks_exact_concat [of 4 "replicate 32 xs"] that by (simp del: replicate.simps)
  have choice: "choice_from_bits [True, True, False, False] = 3"
    by (simp add: choice_from_bits_def unwrap_u8_def)
  have derive: "derive_ot_block (\<lambda>msg i. 0) (replicate 4 ex_block) 3 = Some ex_block"
    by (simp add: derive_ot_block_def first_chunk_def map_replicate_trivial ex_block_def BLOCK_BYTES_def)
  have count: "required_binary_ot_count 128 32 = Some 128"
    by (simp add: required_binary_ot_count_def next_multiple_of_def LOG_DELTA_def)
  have "opt_map (\<lambda>(selected, choice). derive_ot_block (\<lambda>msg i. 0) selected choice)
      (zip (replicate 32 (replicate 4 ex_block)) (replicate 32 3)) = Some (replicate 32 ex_block)"
    by (subst opt_map_total [where g = "\<lambda>_. ex_block"]) (auto simp: derive zip_replicate map_replicate_const simp del: replicate.simps dest!: in_set_zipE)
  then show ?thesis
    by (simp add: delta_ot_receive_def ideal_crypto_def plonky3_crypto_def count ideal_received_def chunks choice
        ideal_blocks_def Let_def del: replicate.simps)
qed

lemma ideal_ot_events:
  "ideal_seen (EOtSend conn 512 (Some ideal_pairs))" "ideal_seen (EOtRecv conn' 128 (Some ideal_received))"
proof -
  have "(Masks, masks_elements (expand (cr_xof ideal_crypto) ex_block (16 * v)) (randomness ex_block)) \<in> ideal_openings" for v
    by (simp add: ideal_crypto_xof expand_zeros ideal_openings_def)
  then show "ideal_seen (EOtSend conn 512 (Some ideal_pairs))"
    by (auto simp: opened_in_def ideal_pairs_def simp del: replicate.simps)
  have "event_ok (\<lambda>d. length d = DIGEST_ELEMENTS) (EOtRecv conn' 128 (Some ideal_received) :: (bb digest, bb list list) pmsg event)"
    by (simp add: ideal_received_def length_concat sum_list_replicate)
  moreover have "r_prime_from_block ex_block = Some 0" by (simp add: r_prime_Some ex_block_def)
  ultimately show "ideal_seen (EOtRecv conn' 128 (Some ideal_received))"
    by (auto simp: opened_in_def ideal_receive ideal_blocks_def ideal_openings_def simp del: replicate.simps)
qed

section \<open>The preprocessing\<close>

abbreviation "ideal_pads \<equiv> replicate 16 (block_pad_commitments ideal_crypto ex_blocks)"

lemma ideal_pads_digests: "x \<in> set (block_pad_commitments ideal_crypto ex_blocks) \<Longrightarrow> length x = DIGEST_ELEMENTS"
  using ideal_digests by (auto simp: wf_digests_def client_voprf_for_def)

lemma ideal_pads_pass: "check_pads_all ideal_crypto ideal_blocks (replicate 32 3) (i * 16) ideal_pads = Ok ()" if "i < 2"
proof (rule iffD2 [OF check_pads_all_Ok_iff])
  show "\<forall>k < length ideal_pads. ideal_pads ! k ! unat ((replicate 32 3 :: zdelta list) ! (i * 16 + k)) = commit_pad ideal_crypto
      \<lparr> pi_pad = ideal_blocks ! (i * 16 + k) ! 0, pi_randomness = randomness (ideal_blocks ! (i * 16 + k)) \<rparr>"
    using that by (auto simp: ideal_blocks_def block_pad_commitments_def ex_blocks_def simp del: replicate.simps)
qed (use that in \<open>auto simp: ideal_blocks_def ex_block_def block_pad_commitments_def ex_blocks_def simp del: replicate.simps\<close>)

lemma ideal_client_execution:
  "may_return ideal_seen (preproc_client_voprf ideal_crypto (\<lambda>n. n + 9) ideal_pk 32 (replicate 16 7)) (Ok ideal_client)"
proof -
  let ?cv = ideal_client_voprf and ?pairs = "replicate par_N (ex_block, ex_block)" and ?bhat = "replicate par_N (1 :: u8)"
  obtain p where p: "checked_preprocessing ideal_crypto ideal_client ?cv ideal_blocks p"
    "pre_openings ideal_backend p \<subseteq> ideal_openings" by (rule ideal_checked)
  let ?message = "\<lparr> pp_m = cv_m ?cv, pp_proof = p \<rparr>"
  have finish: "client_finish ideal_crypto ideal_pk ?bhat (all_masks ideal_crypto ?pairs 2) (concat (replicate 2 ideal_pads)) ?message
      = (Ok ?cv :: ((unit prove_error, unit verify_error) preproc_error, _) res)"
  proof -
    have "verify_preprocessing ideal_crypto (client_statement ideal_pk ?bhat (all_masks ideal_crypto ?pairs 2) (cv_m ?cv)) p = Ok ()"
      using p(1) by (simp add: checked_preprocessing_def checked_statement_def client_for_def client_voprf_for_def)
    moreover have "concat (replicate 2 ideal_pads) = cv_d ?cv"
      by (simp add: client_voprf_for_def numeral_eq_Suc)
    ultimately show ?thesis by (simp add: client_finish_def all_masks_def client_voprf_for_def)
  qed
  have proof_event: "ideal_seen (ERecv ProofChan (Msg (MProof ?message)))"
    using p(2) ideal_digests by (auto simp: opened_in_def preprocessing_table_def ideal_table_def Let_def wf_digests_def)
  have pairs_event: "ideal_seen (EOtSend BinaryOt (BINARY_OT_COUNT (cr_base_ot_count ideal_crypto)) (Some ideal_pairs))"
    using ideal_ot_events(1)
    by (simp add: ideal_crypto_def plonky3_crypto_def BINARY_OT_COUNT_def next_multiple_of_def par_N_def)
  have count: "required_binary_ot_count (cr_base_ot_count ideal_crypto) 32 = Some 128"
    by (simp add: ideal_crypto_def plonky3_crypto_def required_binary_ot_count_def next_multiple_of_def LOG_DELTA_def)
  have pads_events: "\<forall>d \<in> set (replicate 2 ideal_pads). length d = 16 \<and> ideal_seen (ERecv VoprfChan (Msg (MPads d)))"
    using ideal_pads_digests
    by (auto simp: opened_in_def block_pad_commitments_def ex_blocks_def simp del: replicate.simps)
  have entries: "rc_entries ideal_blocks (replicate 32 3) = Some (replicate 32 \<lparr> rc_b_prime = 3, rc_r_prime = 0 \<rparr>)"
    by (subst rc_entries_Some) (simp_all add: ideal_blocks_def entries_of_def zip_replicate ex_block_def del: replicate.simps)
  have state: "client_state_new ?pairs ?bhat (replicate 32 \<lparr> rc_b_prime = 3, rc_r_prime = 0 \<rparr>) (replicate 16 7) (Some ?cv)
      = Some ideal_client"
    by (simp add: client_state_new_def into_array_def client_for_def)
  have kept: "?pairs = take par_N ideal_pairs" by (simp add: ideal_pairs_def par_N_def take_replicate del: replicate.simps)
  have pass: "\<forall>i < 2. check_pads_all ideal_crypto ideal_blocks (replicate 32 3) (i * 16) (replicate 2 ideal_pads ! i) = Ok ()"
    using ideal_pads_pass by (simp del: replicate.simps)
  show ?thesis
    by (rule client_execution [where ok = ideal_seen and ev = 2 and all_pairs = ideal_pairs and pairs = ?pairs and n = 128
          and out = ideal_received and blocks = ideal_blocks and choices = "replicate 32 3" and ds = "replicate 2 ideal_pads"
          and bhat = ?bhat and message = ?message and cv = ?cv and r_c = "replicate 32 \<lparr> rc_b_prime = 3, rc_r_prime = 0 \<rparr>"])
      (rule ideal_ot_events(2) ideal_receive finish proof_event pairs_event count pads_events entries state kept pass
        | simp add: evaluations_for_def H_ROWS_def list_all_iff opened_in_def del: replicate.simps)+
qed

section \<open>A batch, and the runs it is part of\<close>

lemma ideal_batch_execution:
  assumes "length tag \<le> MAX_TAG_LEN" and "xs \<noteq> []" and "length xs \<le> 2"
  obtains cl outs where "may_return ideal_seen (evaluate_batch ideal_crypto \<lparr> oc_state = ideal_client \<rparr> tag xs) (cl, Ok outs)"
    "map (evaluate (\<lambda>ctx msg i. 0) ex_sk tag) xs = map Some outs"
proof -
  obtain req fin rep outs where run: "ideal_run tag xs req fin rep outs"
    and outs: "map (evaluate (\<lambda>ctx msg i. 0) ex_sk tag) xs = map Some outs" using ideal_run_exists [OF assms] by blast
  from run have request: "request_batch (cr_xof ideal_crypto) ideal_client tag xs = (client_spend (16 * length xs) ideal_client, Ok (req, fin))"
    and fin: "finalize_batch ideal_crypto fin rep = Ok outs" by (simp_all add: ideal_run_def ideal_crypto_xof)
  note answer = ideal_answer(3,5) [OF run assms(3)]
  have "ideal_seen (ERecv OnlineChan (Msg (MResponse rep)))"
    using answer by (auto simp: opened_in_def online_table_of_def ideal_table_def)
  then have answered: "may_return ideal_seen (recv_msg ChannelUnexpectedClose ChannelIo response_of OnlineChan) (Ok rep)"
    by (rule may_return_stream(3) [where ok = ideal_seen]) simp
  have "may_return ideal_seen (send_msg ChannelIo OnlineChan (MRequest req)) (Ok ())"
    by (rule may_return_stream(2) [where ok = ideal_seen]) (simp add: opened_in_def)
  from may_return_attempt [OF this, of "\<lambda>_. recv_msg ChannelUnexpectedClose ChannelIo response_of OnlineChan", OF answered]
  have sent: "may_return ideal_seen (exchange req) (Ok rep)" by (simp only: exchange_def)
  let ?cl = "\<lparr> oc_state = client_spend (16 * length xs) ideal_client \<rparr>"
  have "may_return ideal_seen (evaluate_batch ideal_crypto \<lparr> oc_state = ideal_client \<rparr> tag xs) (?cl, Ok outs)"
    unfolding evaluate_batch_def Let_def oprf_client.select_convs request prod.case res.case
    by (rule may_return_bind [OF sent]) (simp add: fin may_return_Ret)
  from this outs show ?thesis by (rule that)
qed

lemma ideal_oprf_client:
  "may_return ideal_seen (oprf_client_new_voprf ideal_crypto (\<lambda>n. n + 9) ideal_pk 2 (replicate 16 7)) (Ok \<lparr> oc_state = ideal_client \<rparr>)"
proof -
  have tau: "tau_for 2 = Some 32" by (simp add: tau_for_def USIZE_MAX_def)
  have opened: "may_return ideal_seen (client_channel_new :: (_, (channel_error, unit) res) proc) (Ok ())"
    unfolding client_channel_new_def by (rule may_return_stream(1) [where ok = ideal_seen]) (simp add: opened_in_def)
  show ?thesis
    unfolding oprf_client_new_voprf_def tau expect.simps attempt_Ret
    by (rule may_return_attempt_as [OF ideal_client_execution], rule may_return_attempt_as [OF opened]) (rule may_return_Ret)
qed

lemma ideal_session_openings:
  "list_all ideal_seen es \<Longrightarrow> binding ideal_backend (session_openings ideal_backend ideal_table ideal_crypto 32 es)"
  "list_all ideal_seen es \<Longrightarrow> list_all (event_ok (\<lambda>d. length d = DIGEST_ELEMENTS)) es"
  by (rule binding_mono [OF ideal_binding]) (auto simp: session_openings_def opened_in_def list_all_iff)

section \<open>A set intersection and a lookup\<close>

abbreviation "ideal_psi \<equiv> \<lparr> pc_oprf = \<lparr> oc_state = ideal_client \<rparr>, pc_set_size = 2 \<rparr>"

lemma ideal_psi_client:
  "may_return ideal_seen (psi_client_new_voprf ideal_crypto (\<lambda>n. n + 9) ideal_pk 2 (replicate 16 7)) (Ok ideal_psi)"
proof -
  have "may_return ideal_seen (psi_client_channel :: (_, _, unit prove_error, unit verify_error, _) psi_proc) (Ok ())"
    unfolding psi_client_channel_def by (rule may_return_stream(1) [where ok = ideal_seen]) (simp add: opened_in_def)
  moreover have "may_return ideal_seen (send_client_set_size 2 :: (_, _, unit prove_error, unit verify_error, _) psi_proc) (Ok ())"
    unfolding send_client_set_size_def by (rule may_return_stream(2) [where ok = ideal_seen]) (simp add: opened_in_def)
  ultimately show ?thesis
    unfolding psi_client_new_voprf_def psi_client_with_def
    by (simp add: MAX_CLIENT_SET_def) (rule may_return_attempt, assumption, rule may_return_attempt, assumption,
        rule may_return_attempt_as [OF ideal_oprf_client], rule may_return_Ret)
qed

lemma ideal_intersection:
  assumes tag: "length (ms_tag masked) \<le> MAX_TAG_LEN" and small: "length (ms_elements masked) \<le> MAX_SERVER_SET"
    and two: "length xs = 2"
  shows "may_return ideal_seen (psi_intersect ideal_crypto ideal_psi xs)
    (Ok (filter (\<lambda>i. listed (\<lambda>ctx msg i. 0) ex_sk masked (xs ! i)) [0..<length xs]))"
proof -
  have xs: "xs \<noteq> []" "length xs \<le> 2" using two by auto
  obtain cl outs where batch: "may_return ideal_seen (evaluate_batch ideal_crypto \<lparr> oc_state = ideal_client \<rparr> (ms_tag masked) xs) (cl, Ok outs)"
    and outs: "map (evaluate (\<lambda>ctx msg i. 0) ex_sk (ms_tag masked)) xs = map Some outs"
    by (rule ideal_batch_execution [OF tag xs])
  have set: "may_return ideal_seen (recv_set :: (_, _, unit prove_error, unit verify_error, _) psi_proc) (Ok masked)"
    unfolding recv_set_def by (rule may_return_stream(3) [where ok = ideal_seen, of _ "MSet masked"]) (simp_all add: opened_in_def)
  have one: "chunks (client_max_batch (pc_oprf ideal_psi)) xs = [xs]"
    using two xs by (cases xs) (simp_all add: client_max_batch_def client_for_def MAX_VOPRF_BATCH_EVALUATIONS_def chunks.simps)
  have chunk: "may_return ideal_seen (evaluate_chunks ideal_crypto (pc_oprf ideal_psi) (ms_tag masked) [] [xs]) (Ok outs)"
    unfolding evaluate_chunks.simps psi_client.select_convs
    by (rule may_return_bind [OF batch]) (simp add: attempt_as_def may_return_Ret)
  have sizes: "(length xs \<noteq> pc_set_size ideal_psi) = False" "(MAX_SERVER_SET < length (ms_elements masked)) = False"
    using two small by simp_all
  show ?thesis
    unfolding psi_intersect_def one sizes(1) if_False intersect_listed [OF outs, symmetric]
    by (rule may_return_attempt [OF set], simp only: sizes(2) if_False, rule may_return_attempt [OF chunk]) (rule may_return_Ret)
qed

lemma ideal_lookup:
  assumes inputs: "lookup_inputs ideal_crypto deserialize d set_path cert_path pk_path = Ok (elems, cert, Some ideal_pk)"
    and two: "length elems = 2"
    and masked: "length (ms_tag masked) \<le> MAX_TAG_LEN" "length (ms_elements masked) \<le> MAX_SERVER_SET"
  shows "may_return ideal_seen (lookup ideal_crypto deserialize (\<lambda>n. n + 9) (replicate 16 7) d set_path cert_path pk_path)
    (Ok (filter (\<lambda>e. listed (\<lambda>ctx msg i. 0) ex_sk masked (utf8_encode e)) elems))"
proof -
  let ?found = "filter (\<lambda>i. listed (\<lambda>ctx msg i. 0) ex_sk masked (utf8_encode (elems ! i))) [0..<length elems]"
  have found: "filter (\<lambda>i. listed (\<lambda>ctx msg i. 0) ex_sk masked (map utf8_encode elems ! i)) [0..<length (map utf8_encode elems)] = ?found"
    by (intro filter_cong) simp_all
  have "length (map utf8_encode elems) = 2" using two by simp
  from ideal_intersection [OF masked this]
  have intersected: "may_return ideal_seen (psi_intersect ideal_crypto ideal_psi (map utf8_encode elems)) (Ok ?found)"
    unfolding found .
  have opened: "may_return ideal_seen (psi_client_new_voprf ideal_crypto (\<lambda>n. n + 9) ideal_pk (length elems) (replicate 16 7)) (Ok ideal_psi)"
    unfolding two by (rule ideal_psi_client)
  have "may_return ideal_seen (lookup_run ideal_crypto (\<lambda>n. n + 9) (Some ideal_pk) (replicate 16 7) elems) (Ok ?found)"
    unfolding lookup_run_def option.case
    by (rule may_return_attempt_as [OF opened], rule may_return_attempt_as [OF intersected]) (rule may_return_Ret)
  then show ?thesis
    unfolding lookup_def inputs attempt_Ret prod.case
    by (rule may_return_attempt) (simp only: lookup_prints_filter [of elems "\<lambda>e. listed (\<lambda>ctx msg i. 0) ex_sk masked (utf8_encode e)"] may_return_Ret)
qed

end
