(* ===== verification/NoPanicRuns.thy ===== *)
theory NoPanicRuns
  imports NoPanic OnlineTheorems CliFiles
begin

text \<open>
  Batches, set intersections and lookups of a client against any server, none of which panics: the logic of
  \<open>NoPanic\<close> along the calls of \<open>client.rs\<close>, of \<open>pool-psi\<close> and of \<open>lookup\<close>. What it takes of the
  proof system is that verifying never panics.
\<close>

definition no_verify_panics :: "('c, 'proof, 'pe, 've) crypto \<Rightarrow> bool" where
  "no_verify_panics cr \<longleftrightarrow> (\<forall>st p. verify_setup cr st p \<noteq> Panic) \<and> (\<forall>st p. verify_preprocessing cr st p \<noteq> Panic) \<and>
     (\<forall>st p. verify_online_st cr st p \<noteq> Panic)"

section \<open>Batches\<close>

lemma map_err_not_Panic: "r \<noteq> Panic \<Longrightarrow> map_err g r \<noteq> Panic"
  by (cases r) simp_all

lemma proc_bind_assoc: "proc_bind (proc_bind p f) g = proc_bind p (\<lambda>x. proc_bind (f x) g)"
  by (induction p) simp_all

lemma length_finalize_evaluations: "finalize_evaluations n ps = Ok outs \<Longrightarrow> length outs = length ps"
  by (induction n ps arbitrary: outs rule: finalize_evaluations.induct) (auto simp: res_bind_Ok_iff)

lemma length_finalize_batch:
  assumes "finalize_batch cr fin rep = Ok outs"
  shows "length outs = length (fs_rows fin) div 16"
  using assms
  by (auto simp: finalize_batch_def res_bind_Ok_iff length_chunks_exact H_ROWS_def dest!: length_finalize_evaluations
      split: if_splits)

lemma settles_exchange:
  "settles ok (exchange req) (\<lambda>rep. ok (ERecv OnlineChan (Msg (MResponse rep))))"
  unfolding exchange_def
  by (rule settles_attempt [OF settles_send_msg], rule settles_recv_msg) (auto elim!: response_of.elims)

text \<open>The client a batch leaves behind, and its result.\<close>

lemma settles_evaluate_batch:
  assumes events: "\<And>e. seen e \<Longrightarrow> event_ok digest e" and verify: "no_verify_panics cr" and wf: "wf_client (oc_state cl)"
    and next_calls: "\<And>cl' r. wf_client (oc_state cl') \<Longrightarrow> r \<noteq> Panic \<Longrightarrow>
      (\<And>outs. r = Ok outs \<Longrightarrow> length outs = length xs) \<Longrightarrow> settles seen (f (cl', r)) Q"
  shows "settles seen (proc_bind (evaluate_batch cr cl tag xs) f) Q"
proof -
  let ?r = "request_batch (cr_xof cr) (oc_state cl) tag xs"
  have wf': "wf_client (fst ?r)" by (rule request_batch_wf [OF wf])
  from request_batch_outcome [OF wf, of "cr_xof cr" tag xs] show ?thesis
  proof (elim disjE exE conjE)
    fix e assume r: "?r = (oc_state cl, Err e)"
    show ?thesis unfolding evaluate_batch_def r Let_def by (simp, rule next_calls) (use wf in simp_all)
  next
    fix req fin assume r: "?r = (client_spend (16 * length xs) (oc_state cl), Ok (req, fin))"
      and "map fin_ctr (fs_rows fin) = [client_spent (oc_state cl)..<client_spent (oc_state cl) + 16 * length xs]"
    from this(2) have len: "length (fs_rows fin) = 16 * length xs"
      by (metis length_map length_upt add_diff_cancel_left')
    let ?cl = "cl\<lparr> oc_state := client_spend (16 * length xs) (oc_state cl) \<rparr>"
    have go_on: "settles seen (f (?cl, r)) Q" if "r \<noteq> Panic" "\<And>outs. r = Ok outs \<Longrightarrow> length outs = length xs" for r
      by (rule next_calls) (use that wf' r in simp_all)
    have fin: "settles seen (f (?cl, map_err ClientFinalize (finalize_batch cr fin rep))) Q"
      if "seen (ERecv OnlineChan (Msg (MResponse rep)))" for rep
    proof (rule go_on)
      have "finalize_batch cr fin rep \<noteq> Panic"
        by (rule finalize_batch_total) (use len events [OF that] verify in \<open>auto simp: no_verify_panics_def\<close>)
      then show "map_err ClientFinalize (finalize_batch cr fin rep) \<noteq> Panic"
        by (rule map_err_not_Panic)
    qed (use len in \<open>auto simp: map_err_Ok_iff dest: length_finalize_batch\<close>)
    have bind: "proc_bind (evaluate_batch cr cl tag xs) f = proc_bind (exchange req) (\<lambda>x. case x of
        Err e \<Rightarrow> f (?cl, Err (ClientChannel e)) | Panic \<Rightarrow> f (?cl, Panic)
        | Ok rep \<Rightarrow> f (?cl, map_err ClientFinalize (finalize_batch cr fin rep)))"
      unfolding evaluate_batch_def r Let_def prod.case res.case
      by (subst proc_bind_assoc, rule arg_cong [where f = "proc_bind _"]) (auto split: res.splits)
    show ?thesis
      unfolding bind by (rule settles_bind [OF settles_exchange]) (auto intro: fin go_on split: res.split)
  qed
qed

section \<open>Clients\<close>

lemma settles_client_of:
  assumes "\<And>e. seen e \<Longrightarrow> event_ok digest e" and "no_verify_panics cr" and "tau_for evaluations = Some tau"
  shows "settles seen (oprf_client_with cr frame pk evaluations uid) (\<lambda>cl. wf_client (oc_state cl))"
proof -
  have "settles seen (preproc_client_with cr frame pk tau uid) (client_shape pk tau uid)"
    by (rule settles_preproc_client) (use assms(1,2) in \<open>auto simp: no_verify_panics_def\<close>)
  then have preproc: "settles seen (preproc_client_with cr frame pk tau uid) (\<lambda>cs. wf_client cs)"
    by (rule settles_weaken) (simp add: client_shape_def)
  have new: "settles seen (attempt_as ClientPreproc (preproc_client_with cr frame pk tau uid) (\<lambda>st.
      attempt_as ClientChannel client_channel_new (\<lambda>_. Ret (Ok \<lparr> oc_state = st \<rparr>)))) (\<lambda>cl. wf_client (oc_state cl))"
    unfolding client_channel_new_def
    by (rule settles_attempt_as [OF preproc], rule settles_attempt_as [OF settles_open_stream], rule settles_Ret) auto
  then show ?thesis
    by (cases pk) (simp_all add: oprf_client_with_def oprf_client_new_def oprf_client_new_voprf_def assms(3)
        preproc_client_def preproc_client_voprf_def)
qed

section \<open>Set intersections\<close>

lemma settles_psi_client:
  assumes "\<And>e. seen e \<Longrightarrow> event_ok digest e" and "no_verify_panics cr"
  shows "settles seen (psi_client_with cr frame pk n uid) (\<lambda>pc. wf_client (oc_state (pc_oprf pc)))"
proof (cases "MAX_CLIENT_SET < n")
  case False
  then have "tau_for n = Some (16 * n)" by (simp add: tau_for_def USIZE_MAX_def MAX_CLIENT_SET_def)
  from settles_client_of [OF assms this]
  have client: "settles seen (case pk of Some pk \<Rightarrow> oprf_client_new_voprf cr frame pk n uid
      | None \<Rightarrow> oprf_client_new cr frame n uid) (\<lambda>cl. wf_client (oc_state cl))"
    by (simp add: oprf_client_with_def option.case_eq_if split: if_splits)
  show ?thesis
    unfolding psi_client_with_def psi_client_channel_def send_client_set_size_def
    by (rule settles_if_Err, rule settles_if_Err, rule settles_attempt [OF settles_open_stream],
        rule settles_attempt [OF settles_send_msg], rule settles_attempt_as [OF client], rule settles_Ret) auto
qed (auto simp: psi_client_with_def intro: settles_Err)

lemma settles_evaluate_chunks:
  fixes cr :: "('b, 'proof, 'e, 'f) crypto"
  assumes events: "\<And>e. seen e \<Longrightarrow> event_ok digest e" and verify: "no_verify_panics cr" and "wf_client (oc_state cl)"
  shows "settles seen (evaluate_chunks cr cl tag outs batches) (\<lambda>all. length all = length outs + length (concat batches))"
  using assms(3)
proof (induction batches arbitrary: cl outs)
  case (Cons batch batches)
  show ?case
    unfolding evaluate_chunks.simps
  proof (rule settles_evaluate_batch [OF events verify Cons.prems], assumption, unfold prod.case)
    fix cl' :: "'b oprf_client" and r :: "(('e, 'f) client_error, prf_output list) res"
    assume cl': "wf_client (oc_state cl')" and r: "r \<noteq> Panic" "\<And>new. r = Ok new \<Longrightarrow> length new = length batch"
    show "settles seen (attempt_as PsiOprf (Ret r) (\<lambda>new. evaluate_chunks cr cl' tag (outs @ new) batches))
       (\<lambda>all. length all = length outs + length (concat (batch # batches)))"
      by (rule settles_attempt_as [OF settles_Ret [where Q = "\<lambda>new. length new = length batch"]])
        (use r in \<open>auto intro: settles_weaken [OF Cons.IH [OF cl']]\<close>)
  qed
qed (auto intro: settles_Ret)

lemma settles_psi_intersect:
  assumes events: "\<And>e. seen e \<Longrightarrow> event_ok digest e" and verify: "no_verify_panics cr"
    and wf: "wf_client (oc_state (pc_oprf pc))"
  shows "settles seen (psi_intersect cr pc elems) (\<lambda>found. \<exists>P. found = filter P [0..<length elems])"
proof -
  have set: "settles seen recv_set (\<lambda>_. True)" unfolding recv_set_def by (rule settles_recv_msg) simp
  show ?thesis
    unfolding psi_intersect_def
    by (rule settles_if_Err, rule settles_attempt [OF set], rule settles_if_Err,
        rule settles_attempt [OF settles_evaluate_chunks [OF events verify wf]], assumption, rule settles_Ret)
      (auto simp: concat_chunks [OF client_max_batch_pos] intersect_filter)
qed

section \<open>Lookups\<close>

lemma lookup_inputs_not_Panic:
  assumes "no_verify_panics cr"
  shows "lookup_inputs cr deserialize d set_path cert_path pk_path \<noteq> Panic"
proof -
  have reads: "read_file d p \<noteq> Panic" for p by (simp add: read_file_def split: option.split)
  then have text_of: "read_to_string d p \<noteq> Panic" for p
    unfolding read_to_string_def by (intro res_bind_not_Panic) (simp_all add: ok_or_not_Panic)
  then have set_of: "read_set d p \<noteq> Panic" for p
    unfolding read_set_def Let_def by (intro res_bind_not_Panic) simp_all
  have "verified_key_verify cr pk x \<noteq> Panic" for pk x
    unfolding verified_key_verify_def
    by (rule res_bind_not_Panic) (use assms in \<open>simp_all add: no_verify_panics_def\<close>)
  then have "map_err g (verified_key_verify cr pk x) \<noteq> Panic" for g pk x
    by (rule map_err_not_Panic)
  then have pk_of: "read_pk cr deserialize d p \<noteq> Panic" for p
    unfolding read_pk_def
    by (intro res_bind_not_Panic) (auto simp: reads ok_or_not_Panic split: prod.split)
  have "res_bind (read_pk cr deserialize d p) (\<lambda>pk. Ok (Some pk)) \<noteq> Panic" for p
    by (rule res_bind_not_Panic) (simp_all add: pk_of)
  then show ?thesis
    unfolding lookup_inputs_def by (intro res_bind_not_Panic) (auto simp: text_of set_of split: option.split)
qed

lemma lookup_prints_nths:
  "lookup_prints elems (filter P [0..<length elems]) = Ok (nths elems (Collect P))"
proof -
  have "opt_map (idx elems) (filter P [0..<length elems]) = Some (map ((!) elems) (filter P [0..<length elems]))"
    by (rule opt_map_total) auto
  moreover have "map ((!) elems) (filter P [0..<length elems]) = nths elems (Collect P)"
  proof (induction elems rule: rev_induct)
    case (snoc x xs)
    have "map ((!) (xs @ [x])) (filter P [0..<length xs]) = map ((!) xs) (filter P [0..<length xs])"
      by (rule map_cong) (auto simp: nth_append)
    with snoc show ?case by (simp add: nths_append)
  qed simp
  ultimately show ?thesis by (simp add: lookup_prints_def)
qed

text \<open>What is printed is a selection of the file's entries.\<close>

lemma settles_lookup:
  fixes cr :: "('c, 'proof, 'pe, 've) crypto"
  assumes events: "\<And>e. seen e \<Longrightarrow> event_ok digest e" and verify: "no_verify_panics cr"
  shows "settles seen (lookup cr deserialize frame uid d set_path cert_path pk_path)
    (\<lambda>printed. \<exists>elems S. read_set d set_path = (Ok elems :: (('pe, 've) cli_error, chars list) res) \<and> printed = nths elems S)"
  unfolding lookup_def
proof (rule settles_attempt [OF settles_Ret [OF lookup_inputs_not_Panic [OF verify]]], assumption, clarify)
  fix elems cert pk assume "lookup_inputs cr deserialize d set_path cert_path pk_path = Ok (elems, cert, pk)"
  then have elems: "read_set d set_path = (Ok elems :: (('pe, 've) cli_error, chars list) res)"
    by (auto simp: lookup_inputs_def res_bind_Ok_iff split: option.splits)
  have "settles seen (case pk of Some pk \<Rightarrow> psi_client_new_voprf cr frame pk (length elems) uid
      | None \<Rightarrow> psi_client_new cr frame (length elems) uid) (\<lambda>pc. wf_client (oc_state (pc_oprf pc)))"
    using settles_psi_client [OF events verify]
    by (cases pk) (simp_all add: psi_client_new_def psi_client_new_voprf_def)
  then have run: "settles seen (lookup_run cr frame pk uid elems) (\<lambda>found. \<exists>P. found = filter P [0..<length elems])"
    unfolding lookup_run_def
    by (rule settles_attempt_as, intro settles_attempt_as [OF settles_psi_intersect [OF events verify]] settles_Ret) auto
  show "settles seen (attempt (lookup_run cr frame pk uid elems) (\<lambda>found. Ret (lookup_prints elems found)))
     (\<lambda>printed. \<exists>elems S. read_set d set_path = (Ok elems :: (('pe, 've) cli_error, chars list) res) \<and> printed = nths elems S)"
    by (rule settles_attempt [OF run], rule settles_Ret) (use elems in \<open>auto simp: lookup_prints_nths\<close>)
qed

end
