(* ===== verification/VerifiedProperties.thy ===== *)
theory VerifiedProperties
  imports IdealSession CliProperties NoPanicRuns
begin

text \<open>
  What a client of the VOPRF can rely on, whatever the server does, for a whole session and for the
  \<open>lookup\<close> command, each with a witness.
\<close>

declare of_nat_unat [simp del]

section \<open>A session\<close>

text \<open>
  C2: what a VOPRF is for. Take any execution of a client with the Plonky3 backend that opens a session under
  a verified key and makes any calls. Whatever the server sends, if the client never sees an error then there
  is one key, that the verified key commits to, under which every output of every call is the PRF of its
  input. It rests on the extraction of Plonky3's proofs and on no two openings of one commitment turning
  up in the execution: among the blocks the client's OTs gave it and the tables behind the proofs it received.
\<close>

theorem verified_session:
  fixes be :: "'f :: idom backend" and stark :: "('f, 'proof, 'pe, 've) stark"
  assumes "cr = plonky3_crypto be stark xof blake3 count" and "baby_bear TYPE('f)" and "backend_ok be"
    and "stark_extracts stark table" and "length (verified_pk pk) = DIGEST_ELEMENTS" and "tau_for evaluations = Some tau"
    and "list_all (event_ok (\<lambda>d. length d = DIGEST_ELEMENTS)) es"
    and "after (session_client cr frame (Some pk) evaluations uid calls) es = Some (Ret (Ok outss))"
    and "binding be (session_openings be table cr tau es)"
  shows "\<exists>sk. wf_key sk \<and> key_commit be sk = verified_pk pk \<and>
    map (\<lambda>(tag, xs). map (evaluate xof sk tag) xs) calls = map (map Some) outss"
  using returnsD [OF returns_session_client [OF sound_runI [OF assms(1-4,7,9)] assms(6,5)] _ assms(8)]
  by (simp add: list_all_iff outputs_of_def plonky3_crypto_xof [OF assms(1)])

lemma verified_session_witness:
  "\<exists>es outss sk. after (session_client ideal_crypto (\<lambda>n. n + 9) (Some ideal_pk) 2 (replicate 16 7) [([1], [[2], [3]])]) es
      = Some (Ret (Ok outss)) \<and>
    wf_key sk \<and> key_commit ideal_backend sk = key_commit ideal_backend ex_sk \<and>
    map (\<lambda>(tag, xs). map (evaluate (\<lambda>ctx msg i. 0) sk tag) xs) [([1], [[2], [3]])] = map (map Some) outss"
proof -
  obtain cl outs where batch: "may_return ideal_seen (evaluate_batch ideal_crypto \<lparr> oc_state = ideal_client \<rparr> [1] [[2], [3]]) (cl, Ok outs)"
    by (rule ideal_batch_execution [OF ideal_tag, of "[[2], [3]]"]) simp_all
  have calls: "may_return ideal_seen (run_calls ideal_crypto \<lparr> oc_state = ideal_client \<rparr> [([1], [[2], [3]])]) (cl, Ok [outs])"
    unfolding run_calls.simps fst_conv snd_conv by (rule may_return_bind [OF batch]) (simp add: may_return_Ret)
  have "may_return ideal_seen (session_client ideal_crypto (\<lambda>n. n + 9) (Some ideal_pk) 2 (replicate 16 7) [([1], [[2], [3]])])
      (Ok [outs])"
    unfolding session_client_def oprf_client_with_def option.case
    by (rule may_return_attempt_as [OF ideal_oprf_client], rule may_return_bind [OF calls]) (simp, rule may_return_Ret)
  then obtain es where es: "list_all ideal_seen es"
    "after (session_client ideal_crypto (\<lambda>n. n + 9) (Some ideal_pk) 2 (replicate 16 7) [([1], [[2], [3]])]) es
      = Some (Ret (Ok [outs]))"
    unfolding may_return_def by blast
  have "length (verified_pk ideal_pk) = DIGEST_ELEMENTS" "tau_for 2 = Some 32"
    using ideal_digests by (simp_all add: wf_digests_def client_voprf_for_def tau_for_def USIZE_MAX_def)
  note session = verified_session [OF ideal_crypto_def baby_bear_bb ideal_backend_ok ideal_stark_extracts this
      ideal_session_openings(2) [OF es(1)] es(2) ideal_session_openings(1) [OF es(1)]]
  have key: "verified_pk ideal_pk = key_commit ideal_backend ex_sk" by (simp add: ideal_crypto_def plonky3_crypto_def)
  show ?thesis using session es(2) unfolding key by blast
qed

section \<open>A lookup\<close>

text \<open>A lookup whose set holds one of its two entries.\<close>

lemma ex_lookup_execution:
  obtains deserialize es printed where
    "lookup_inputs ideal_crypto deserialize ex_disk ''mine'' ''cert'' (Some ''cert'') = Ok ([[97, 98], [99]], [45], Some ideal_pk)"
    "list_all ideal_seen es" "[99] \<in> set printed"
    "after (lookup ideal_crypto deserialize (\<lambda>n. n + 9) (replicate 16 7) ex_disk ''mine'' ''cert'' (Some ''cert'')) es
       = Some (Ret (Ok printed))"
proof -
  obtain p where p: "plonky3_verify_setup ideal_backend ideal_stark (setup_for_key (key_commit ideal_backend) ex_sk) p = Ok ()"
    using plonky3_setup_complete [OF ideal_backend_ok ideal_stark_complete ex_wf_sk] by blast
  let ?deserialize = "\<lambda>bs :: bytes. Some (commit_key ideal_crypto ex_sk, p)"
  have inputs: "lookup_inputs ideal_crypto ?deserialize ex_disk ''mine'' ''cert'' (Some ''cert'') = Ok ([[97, 98], [99]], [45], Some ideal_pk)"
    using p by (simp add: lookup_inputs_def ex_read_set read_pk_def read_to_string_def read_file_def verified_key_verify_def)
      (simp add: ex_disk_def ex_decode ideal_crypto_def plonky3_crypto_def setup_for_key_def)
  have two: "length [[97, 98], [99 :: nat]] = 2" by simp
  obtain elts where elts: "mask_server_set (\<lambda>ctx msg i. 0) ex_sk [1] [[99]] = Some elts"
    and listed: "listed (\<lambda>ctx msg i. 0) ex_sk \<lparr> ms_tag = [1], ms_elements = elts \<rparr> (utf8_encode [99])"
    using mask_server_set_Some [OF ex_wf_sk, of "\<lambda>ctx msg i. 0" "[1]" "[[99]]"] evaluate_row [OF ex_wf_sk, of "\<lambda>ctx msg i. 0" "[1]" "[99]"]
    by (fastforce simp: listed_def utf8_encode_def utf8_bytes_def)
  let ?set = "\<lparr> ms_tag = [1], ms_elements = elts \<rparr>"
  have "length (ms_tag ?set) \<le> MAX_TAG_LEN" "length (ms_elements ?set) \<le> MAX_SERVER_SET"
    using mask_length [OF elts] by (simp_all add: MAX_TAG_LEN_def MAX_SERVER_SET_def)
  from ideal_lookup [OF inputs two this]
  obtain es printed where "list_all ideal_seen es"
    "after (lookup ideal_crypto ?deserialize (\<lambda>n. n + 9) (replicate 16 7) ex_disk ''mine'' ''cert'' (Some ''cert'')) es
      = Some (Ret (Ok printed))" "[99] \<in> set printed" unfolding may_return_def using listed by fastforce
  then show ?thesis using that inputs by blast
qed

text \<open>
  C4: the \<open>lookup\<close> command under a public key. Whatever the server does, if the command prints a result then
  there is one key behind the public key and a set that the server sent, and what is printed is exactly
  the entries of the client's file whose PRF output under that key is in that set, in the order of the file.
\<close>

theorem verified_lookup:
  fixes be :: "'f :: idom backend" and stark :: "('f, 'proof, 'pe, 've) stark"
  assumes "cr = plonky3_crypto be stark xof blake3 count" and "baby_bear TYPE('f)" and "backend_ok be"
    and "stark_extracts stark table" and "lookup_inputs cr deserialize d set_path cert_path (Some pk_path) = Ok (elems, cert, Some pk)"
    and "length (verified_pk pk) = DIGEST_ELEMENTS" and "list_all (event_ok (\<lambda>d. length d = DIGEST_ELEMENTS)) es"
    and "after (lookup cr deserialize frame uid d set_path cert_path (Some pk_path)) es = Some (Ret (Ok printed))"
    and "binding be (session_openings be table cr (16 * length elems) es)"
  shows "\<exists>sk masked. wf_key sk \<and> key_commit be sk = verified_pk pk \<and> ERecv PsiChan (Msg (MSet masked)) \<in> set es \<and>
    printed = filter (\<lambda>e. listed xof sk masked (utf8_encode e)) elems"
  using returnsD [OF returns_lookup [OF assms(5) sound_runI [OF assms(1-4,7,9)] assms(6)] _ assms(8)]
  by (simp add: list_all_iff plonky3_crypto_xof [OF assms(1)])

lemma verified_lookup_witness:
  "\<exists>deserialize es printed sk masked.
     after (lookup ideal_crypto deserialize (\<lambda>n. n + 9) (replicate 16 7) ex_disk ''mine'' ''cert'' (Some ''cert'')) es
       = Some (Ret (Ok printed)) \<and> [99] \<in> set printed \<and>
     wf_key sk \<and> key_commit ideal_backend sk = key_commit ideal_backend ex_sk \<and> ERecv PsiChan (Msg (MSet masked)) \<in> set es \<and>
     printed = filter (\<lambda>e. listed (\<lambda>ctx msg i. 0) sk masked (utf8_encode e)) [[97, 98], [99]]"
proof -
  obtain deserialize es printed where inputs: "lookup_inputs ideal_crypto deserialize ex_disk ''mine'' ''cert'' (Some ''cert'')
      = Ok ([[97, 98], [99]], [45], Some ideal_pk)"
    and es: "list_all ideal_seen es" and found: "[99] \<in> set printed"
    and run: "after (lookup ideal_crypto deserialize (\<lambda>n. n + 9) (replicate 16 7) ex_disk ''mine'' ''cert'' (Some ''cert'')) es
      = Some (Ret (Ok printed))"
    by (rule ex_lookup_execution)
  have pk: "length (verified_pk ideal_pk) = DIGEST_ELEMENTS" and key: "verified_pk ideal_pk = key_commit ideal_backend ex_sk"
    using ideal_digests by (simp_all add: wf_digests_def client_voprf_for_def) (simp add: ideal_crypto_def plonky3_crypto_def)
  have "binding ideal_backend (session_openings ideal_backend ideal_table ideal_crypto (16 * length [[97 :: nat, 98], [99]]) es)"
    using ideal_session_openings(1) [OF es] by simp
  note verified = verified_lookup [OF ideal_crypto_def baby_bear_bb ideal_backend_ok ideal_stark_extracts inputs pk
      ideal_session_openings(2) [OF es] run this]
  show ?thesis using verified run found unfolding key by blast
qed

section \<open>No server makes a client panic\<close>

lemma plonky3_no_verify_panics: "no_verify_panics (plonky3_crypto be stark xof blake3 count)"
  by (simp add: no_verify_panics_def plonky3_crypto_def plonky3_verify_setup_def plonky3_verify_preprocessing_def
      plonky3_verify_online_def verified_not_Panic Let_def)

text \<open>
  C32: no server makes \<open>lookup\<close> panic, with or without a public key, whatever its files hold, whatever the server sends and even
  if the verifier of the proof system panics: on every execution that ends, \<open>lookup\<close> ends in an error or prints
  a selection of the entries of its own file, in the order of the file.
\<close>

theorem lookup_never_panics:
  fixes be :: "'f :: idom backend" and stark :: "('f, 'proof, 'pe, 've) stark"
  assumes "cr = plonky3_crypto be stark xof blake3 count" and "list_all (event_ok digest) es"
    and "after (lookup cr deserialize frame uid d set_path cert_path pk_path) es = Some (Ret r)"
  shows "case r of
      Ok printed \<Rightarrow> (\<exists>elems S. read_set d set_path
          = (Ok elems :: (('pe prove_error, 've verify_error) cli_error, chars list) res) \<and> printed = nths elems S)
    | Err e \<Rightarrow> True
    | Panic \<Rightarrow> False"
proof -
  have "settles (event_ok digest) (lookup cr deserialize frame uid d set_path cert_path pk_path)
      (\<lambda>printed. \<exists>elems S. read_set d set_path
          = (Ok elems :: (('pe prove_error, 've verify_error) cli_error, chars list) res) \<and> printed = nths elems S)"
    by (rule settles_lookup) (simp_all add: assms(1) plonky3_no_verify_panics)
  note no_panic = settles_noPanic [OF this assms(2)] and printed = returnsD [OF settles_returns [OF this] assms(2)]
  show ?thesis
    using no_panic printed assms(3) by (cases r) (simp, simp, simp only: res.case simp_thms)
qed

definition panicking_stark :: "(bb, 'proof, 'pe, 've) stark" where
  "panicking_stark = \<lparr> stark_prove = (\<lambda>air trace public. Panic), stark_verify = (\<lambda>air proof public. Panic) \<rparr>"

lemma lookup_never_panics_witness:
  "(\<exists>deserialize es printed elems S.
      after (lookup ideal_crypto deserialize (\<lambda>n. n + 9) (replicate 16 7) ex_disk ''mine'' ''cert'' (Some ''cert'')) es
        = Some (Ret (Ok printed)) \<and> [99] \<in> set printed \<and>
      read_set ex_disk ''mine'' = (Ok elems :: ((unit prove_error, unit verify_error) cli_error, chars list) res) \<and>
      printed = nths elems S) \<and>
   (\<exists>r :: ((unit prove_error, unit verify_error) cli_error, chars list) res.
      after (lookup (plonky3_crypto ideal_backend panicking_stark (\<lambda>ctx msg i. 0) (\<lambda>msg i. 0) 128)
          (\<lambda>bs. Some ([], ())) (\<lambda>n. n + 9) (replicate 16 7) ex_disk ''mine'' ''cert'' (Some ''cert'')) [] = Some (Ret r) \<and>
      (case r of Ok printed \<Rightarrow> False | Err e \<Rightarrow> True | Panic \<Rightarrow> False))"
proof
  obtain deserialize es printed where es: "list_all ideal_seen es" and found: "[99] \<in> set printed"
    and run: "after (lookup ideal_crypto deserialize (\<lambda>n. n + 9) (replicate 16 7) ex_disk ''mine'' ''cert'' (Some ''cert'')) es
      = Some (Ret (Ok printed))"
    by (rule ex_lookup_execution)
  from lookup_never_panics [OF ideal_crypto_def ideal_session_openings(2) [OF es] run, unfolded res.case] run found
  show "\<exists>deserialize es printed elems S.
      after (lookup ideal_crypto deserialize (\<lambda>n. n + 9) (replicate 16 7) ex_disk ''mine'' ''cert'' (Some ''cert'')) es
        = Some (Ret (Ok printed)) \<and> [99] \<in> set printed \<and>
      read_set ex_disk ''mine'' = (Ok elems :: ((unit prove_error, unit verify_error) cli_error, chars list) res) \<and>
      printed = nths elems S" by blast
next
  let ?lookup = "lookup (plonky3_crypto ideal_backend panicking_stark (\<lambda>ctx msg i. 0) (\<lambda>msg i. 0) 128)
      (\<lambda>bs. Some ([], ())) (\<lambda>n. n + 9) (replicate 16 7) ex_disk ''mine'' ''cert'' (Some ''cert'')"
  have "lookup_inputs (plonky3_crypto ideal_backend panicking_stark (\<lambda>ctx msg i. 0) (\<lambda>msg i. 0) 128)
      (\<lambda>bs. Some ([], ())) ex_disk ''mine'' ''cert'' (Some ''cert'')
    = (Err (ProofDoesNotVerify ''cert'' Malformed) :: ((unit prove_error, unit verify_error) cli_error, _) res)"
    by (simp add: lookup_inputs_def ex_read_set read_pk_def read_to_string_def read_file_def verified_key_verify_def)
      (simp add: ex_disk_def ex_decode plonky3_crypto_def plonky3_verify_setup_def panicking_stark_def verified_def)
  then have "after ?lookup [] = Some (Ret (Err (ProofDoesNotVerify ''cert'' Malformed) ::
      ((unit prove_error, unit verify_error) cli_error, chars list) res))"
    by (simp add: lookup_def)
  then show "\<exists>r :: ((unit prove_error, unit verify_error) cli_error, chars list) res.
      after ?lookup [] = Some (Ret r) \<and> (case r of Ok printed \<Rightarrow> False | Err e \<Rightarrow> True | Panic \<Rightarrow> False)"
    by (intro exI conjI) (assumption, simp)
qed

end
