(* ===== verification/Spec2Isabelle.thy ===== *)
theory Spec2Isabelle
  imports OprfProperties ObliviousProperties ProtocolProperties Packing PsiProperties SessionProperties PrimitiveProperties
    Plonky3Properties CliProperties VerifiedProperties
begin

text \<open>
  A verification development for pool-oprf-rs: an oblivious PRF over \<open>Z_q\<close> with rounding, verifiable when
  the client asks for it, and the private set intersection built on it.

  \<^bold>\<open>The program.\<close> A server holds a key of \<open>N\<close> bits. The PRF of a tag and an input is the rounded product of
  a matrix of \<open>16\<close> rows, which a random oracle draws from them, with the key. A client learns the PRF of
  its inputs and the server learns nothing about them: a preprocessing, out of binary and \<open>1\<close>-out-of-\<open>16\<close>
  oblivious transfers, gives both sides correlated randomness for \<open>tau\<close> runs, and an online phase of one
  request and one response spends \<open>16\<close> runs on every evaluation. In a VOPRF the two sides also commit to
  what the preprocessing gave them, the server proves that it used one key and answers with proofs, and
  the client checks them. On top are sessions over streams, a set intersection and a command line.

  \<^bold>\<open>The theories, bottom up\<close> (the packages are directories of the repository; the names of functions
  and types are the code's, some with a prefix or suffix where one name has two meanings):

  \<^item> \<open>Prelude\<close>: the three ways a call ends (\<open>Ok\<close>, \<open>Err\<close>, \<open>Panic\<close>), checked indexing, loops that may stop
    (\<open>opt_map\<close>), the lists and words that every part shares, and the locale \<open>codec\<close> of an encoding with a
    checked decoder, which keys (\<open>Prf\<close>), the two bytes of \<open>tau\<close> (\<open>Expand\<close>) and UTF-8 (\<open>TextFiles\<close>) interpret.
  \<^item> \<open>Modular\<close> (\<open>pool-prf\<close>: \<open>params.rs\<close>, \<open>modular.rs\<close>, \<open>round.rs\<close>), \<open>Prf\<close> (\<open>hash.rs\<close>, \<open>prf.rs\<close>) and \<open>BlindEval\<close>
    (\<open>pool-eval/src/lib.rs\<close>): parameters, arithmetic, keys, the PRF and the server's equations, on words
    of the source's widths with every checked and wrapping operation as it is.
  \<^item> \<open>DeltaOt\<close> (\<open>pool-oprf/src/delta_ot.rs\<close>) and \<open>Expand\<close>, \<open>States\<close> (the states, the expansion of OT blocks
    into masks and pads and the budget of runs in \<open>preprocessing.rs\<close>): the locale \<open>run_budget\<close> is what the
    online phase needs of a budget, and \<open>Runs\<close>, \<open>ClientState\<close> and \<open>ServerState\<close> interpret it.
  \<^item> \<open>Statements\<close> (\<open>pool-voprf\<close>: \<open>commitments.rs\<close>, \<open>hash_domains.rs\<close>, \<open>constraints/\<close>, \<open>statements/\<close>): what is
    proved, as predicates that compute. \<open>Voprf\<close> (\<open>pool-oprf/src/voprf.rs\<close>): the statements, witnesses and
    checks of both sides; its record \<open>crypto\<close> is the backend a protocol runs with.
  \<^item> \<open>Online\<close> (\<open>pool-oprf/src/online.rs\<close>): Request, BlindEval and Finalize, single and batched. \<open>RowIdentity\<close>,
    \<open>OnlineRows\<close>, \<open>OnlineBatch\<close>, \<open>OnlineServer\<close>, \<open>OnlineCorrect\<close>, \<open>OnlineEnd\<close>, \<open>OnlineTheorems\<close> prove the
    algebra of a run, of an evaluation and of a batch, and every way the three operations end;
    \<open>Oblivious\<close> shows what a request says of the inputs and a response of the key.
  \<^item> \<open>Process\<close>: interactive code as trees of the calls it awaits, one process against any events
    (\<open>after\<close>) and two against each other in any order (\<open>net_step\<close>). A schedule does not matter:
    \<open>reach_every_schedule\<close> in \<open>ProtocolNet\<close>, and \<open>plain_every_schedule\<close> for runs that reach no OT.
  \<^item> \<open>Protocol\<close> (the preprocessing of \<open>preprocessing.rs\<close> and \<open>voprf.rs\<close> as two processes). \<open>ProtocolChecks\<close>,
    \<open>ProtocolProof\<close>, \<open>ProtocolRun\<close>, \<open>ProtocolEnd\<close> follow an honest run; \<open>ClientChecks\<close> is a logic of
    postconditions (\<open>returns\<close>) for one process whose peer does anything, \<open>Executions\<close> builds its runs call
    by call (\<open>may_return\<close>), and \<open>KeyRelease\<close> splits the server at the point where its key enters.
    \<open>NoPanic\<close> shows what either side has after a preprocessing with any peer, and that a client never panics
    in it (\<open>settles\<close>); \<open>NoPanicRuns\<close> carries that to batches, intersections and \<open>lookup\<close>.
  \<^item> \<open>Sessions\<close> (\<open>channel.rs\<close>, \<open>client.rs\<close>, \<open>server.rs\<close> of \<open>pool-oprf\<close>) with \<open>SessionRun\<close>, and \<open>Packing\<close>
    (\<open>packing.rs\<close>).
  \<^item> \<open>PsiSets\<close> (\<open>pool-psi/src/protocol.rs\<close>) and \<open>PsiSession\<close> (\<open>error.rs\<close>, \<open>transport.rs\<close>, \<open>client.rs\<close>,
    \<open>server.rs\<close>) with \<open>PsiRun\<close>.
  \<^item> \<open>TextFiles\<close> (of the standard library, what the commands use: UTF-8, lines, \<open>trim\<close>, \<open>parse\<close>), \<open>Cli\<close>
    (\<open>pool-psi-cli/src/main.rs\<close>), \<open>CliServe\<close> (its accept loop as a step relation: connections,
    polls of the sessions' tasks under their timeouts, ticks of the clock), \<open>CliFiles\<close>.
  \<^item> The Plonky3 backend of \<open>pool-voprf/src/plonky3\<close>: \<open>Air\<close> (\<open>selectors.rs\<close>, and what a circuit is),
    \<open>Plonky3Commitments\<close> (\<open>commitments/\<close>), \<open>Sponge\<close> (\<open>sponge.rs\<close>), \<open>CommitmentAirs\<close> and \<open>ArithmeticAirs\<close>
    (\<open>constraints/\<close>), \<open>OnlineAir\<close> and \<open>PreprocessingAir\<close> (\<open>statements/\<close>), \<open>Plonky3System\<close> (\<open>plonky3.rs\<close>,
    \<open>statements/\<close>: prove and verify). \<open>CommitmentRules\<close>, \<open>ArithmeticRules\<close>, \<open>SumsRules\<close>, \<open>SumsComplete\<close>,
    \<open>OnlineAirRules\<close>, \<open>PreprocessingRules\<close>, and \<open>Sound\<close> and \<open>Complete\<close> of both circuits show that the
    rules of a table are the statement. \<open>VerifiedRow\<close>, \<open>VerifiedOutput\<close> put circuits, checks and the
    algebra of a run together for a batch. \<open>VerifiedSession\<close> carries that through a session against any
    server, with a logic (\<open>finishes\<close>) for the operations that return the session with their result;
    \<open>VerifiedRuns\<close> adds the set intersection and the \<open>lookup\<close> command.
  \<^item> \<open>Examples\<close>, \<open>BabyBear\<close>, \<open>IdealBackend\<close>, \<open>IdealRun\<close>, \<open>IdealSession\<close>: concrete inputs, a field, a backend
    and an execution at which every hypothesis holds. The properties are in the theories called \<open>...Properties\<close>.

  \<^bold>\<open>What the properties show.\<close> The protocol computes the PRF, in every interleaving, from the first byte of
  a session to the last, through renewals and up to the matches a command prints. No run is used twice,
  whatever the peer sends. Every error and every panic of the online phase is accounted for, and no server makes
  a \<open>lookup\<close> panic. A renewal of a session replaces its state or leaves it as it was. A circuit
  is satisfied exactly by what its statement says, so a client of a VOPRF that is never told an error,
  over any calls of any session and whatever the server sends, has the PRF under one key that its public
  key commits to (\<open>verified_session\<close>), and a verified \<open>lookup\<close> prints the entries of its file that the set it
  was sent lists under that key (\<open>verified_lookup\<close>). Without a VOPRF a request fits any inputs, and a
  response any key with the same outputs, up to values that the other side does not have; and the server
  of a VOPRF sends nothing that depends on its key before it has checked the client. Encodings,
  keys, files and sets are read back as they were written, and the server's sessions stay within their
  number and their time.

  \<^bold>\<open>What they rest on.\<close> Code outside the repository is an argument of the definitions, and each property
  names what it needs of it: \<open>cr_xof\<close> and \<open>cr_hash\<close> (BLAKE3) are any functions; \<open>ots_agree\<close>: the binary
  OTs of CryProt give the receiver the blocks of its choice; \<open>event_ok\<close>: what an OT or a decoder returns
  has the lengths its type says, the rows of a response included; \<open>frame\<close>: an encoded message of the control stream has at most \<open>9\<close> more
  bytes than it carries; \<open>baby_bear\<close>: the field has BabyBear's characteristic; \<open>backend_ok\<close>: the
  Poseidon2 circuit of p3 is satisfied exactly by the permutation; \<open>stark_complete\<close> and
  \<open>stark_extracts\<close>: \<open>p3_uni_stark\<close> proves what holds, and an accepted proof has a table; \<open>binding\<close>: no
  collision of the hash among the openings at hand, which for a session (\<open>session_openings\<close>) are those of
  the blocks its OTs gave and of the tables behind the proofs it received; \<open>complete_setup\<close>, \<open>complete_preprocessing\<close>,
  \<open>complete_online\<close> and \<open>prover_total\<close>: the same of a whole backend, which \<open>plonky3_proves_what_holds\<close>
  derives. A bit stream does what \<open>bitstream_io\<close> documents, and a codec decodes what it encoded.
  Of tokio: a tick of the clock wakes the tasks whose timer is due, and \<open>timeout\<close> polls what it wraps before
  it looks at its timer.

  \<^bold>\<open>Bounds and fuel.\<close> \<open>usize\<close> has \<open>64\<close> bits. The only loop without a measure is \<open>serve\<close>: its fuel counts
  calls of \<open>serve_next\<close>, and \<open>serve_ends\<close> shows that one more than the requests received is enough.

  \<^bold>\<open>Not modelled.\<close> \<open>Debug\<close>, \<open>Zeroize\<close> and \<open>Drop\<close>, which change no result; locks, tasks and thread pools,
  since a session serves one call at a time and a blocking task is its body; QUIC, TLS, the parser of
  arguments, printing and the timeout of \<open>lookup\<close>, which are I/O; the configuration and the inside of
  p3's prover and verifier, and its hints on degrees and next rows; the distribution of what is drawn
  at random, so that secrecy is stated as the existence of other values that fit, and not of commitments
  and proofs; tests and benches.
\<close>

end
